(* ===== verification/Bus_Prelude.thy ===== *)
theory Bus_Prelude
  imports Main "HOL-Library.Word"
begin

text \<open>
  Shared vocabulary of the Cloudbus development.

  \<^item> Type names: bytes and fixed-width integers as words, \<open>owner\<close> for the control block a
    \<^verbatim>\<open>std::shared_ptr\<close>/\<^verbatim>\<open>std::weak_ptr\<close> refers to (the order \<^verbatim>\<open>owner_before\<close> is \<open><\<close> on it), \<open>fd\<close>
    for a file descriptor (a C \<^verbatim>\<open>int\<close>, \<open>-1\<close> is \<^verbatim>\<open>BAD_SOCKET\<close>).
  \<^item> The standard algorithms the code calls on vectors: \<open>lower_bound\<close>, \<open>upper_bound\<close> (the
    halving loop, proved equal to the partition point), positional insertion and erasure, and
    \<open>remove_if\<close> with a predicate that also updates the elements and an outer state.
  \<^item> Vectors kept strictly sorted by a key, which the poller, the trigger list, the marshaller
    buffers, the stream metrics and the resolver handles all use.
  \<^item> The little-endian layout of fixed-width integers (the platform the code is built for).
\<close>

type_synonym byte = "8 word"
type_synonym u16 = "16 word"
type_synonym u32 = "32 word"
type_synonym u64 = "64 word"
type_synonym owner = nat
type_synonym fd = int

named_theorems vec_simps \<open>positional operations on vectors\<close>
named_theorems inv_intros \<open>preservation of component invariants\<close>

abbreviation (input) BAD_SOCKET :: fd where
  "BAD_SOCKET \<equiv> - 1"

section \<open>Binary search\<close>

text \<open>The loop of \<^verbatim>\<open>std::lower_bound\<close>: \<open>lt x\<close> is the comparison of an element with the value.\<close>

function lb_loop :: "('a \<Rightarrow> bool) \<Rightarrow> 'a list \<Rightarrow> nat \<Rightarrow> nat \<Rightarrow> nat" where
  "lb_loop lt xs first len =
     (if len = 0 then first
      else (let half = len div 2; middle = first + half in
            if lt (xs ! middle) then lb_loop lt xs (middle + 1) (len - half - 1)
            else lb_loop lt xs first half))"
  by pat_completeness auto
termination
  by (relation "measure (\<lambda>(lt, xs, first, len). len)") auto

declare lb_loop.simps [simp del]

definition lower_bound :: "('a \<Rightarrow> bool) \<Rightarrow> 'a list \<Rightarrow> nat" where
  "lower_bound lt xs = lb_loop lt xs 0 (length xs)"

text \<open>\<^verbatim>\<open>std::upper_bound\<close>: \<open>gt x\<close> says that the value is before the element.\<close>

definition upper_bound :: "('a \<Rightarrow> bool) \<Rightarrow> 'a list \<Rightarrow> nat" where
  "upper_bound gt xs = lower_bound (\<lambda>x. \<not> gt x) xs"

text \<open>A range is partitioned at \<open>k\<close> when exactly its first \<open>k\<close> elements satisfy the predicate.\<close>

definition partitioned_at :: "('a \<Rightarrow> bool) \<Rightarrow> 'a list \<Rightarrow> nat \<Rightarrow> bool" where
  "partitioned_at lt xs k \<longleftrightarrow>
     k \<le> length xs \<and> (\<forall>i < length xs. lt (xs ! i) \<longleftrightarrow> i < k)"

lemma lb_loop_le: "lb_loop lt xs first len \<le> first + len"
proof (induction lt xs first len rule: lb_loop.induct)
  case (1 lt xs first len)
  let ?half = "len div 2"
  show ?case
  proof (cases "len = 0")
    case True
    then show ?thesis by (simp add: lb_loop.simps)
  next
    case False
    then show ?thesis using 1 [OF False refl refl] by (subst lb_loop.simps) (fastforce simp: Let_def)
  qed
qed

lemma upper_bound_le: "upper_bound gt xs \<le> length xs"
  using lb_loop_le [of "\<lambda>x. \<not> gt x" xs 0 "length xs"] by (simp add: upper_bound_def lower_bound_def)

lemma lb_loop_partition:
  assumes "partitioned_at lt xs k" and "first \<le> k" and "k \<le> first + len"
    and "first + len \<le> length xs"
  shows "lb_loop lt xs first len = k"
  using assms
proof (induction lt xs first len rule: lb_loop.induct)
  case (1 lt xs first len)
  show ?case
  proof (cases "len = 0")
    case True
    with 1 show ?thesis by (simp add: lb_loop.simps)
  next
    case False
    define mid where "mid = first + len div 2"
    have mid: "mid < first + len" "mid < length xs"
      using False "1.prems" by (auto simp: mid_def)
    have split: "lt (xs ! mid) \<longleftrightarrow> mid < k"
      using "1.prems"(1) mid by (auto simp: partitioned_at_def)
    show ?thesis
    proof (cases "lt (xs ! mid)")
      case True
      have "lb_loop lt xs (mid + 1) (len - len div 2 - 1) = k"
        using "1.prems" split mid True False
        by (intro "1.IH"(1)) (auto simp: mid_def)
      with True False show ?thesis
        by (subst lb_loop.simps) (simp add: mid_def Let_def)
    next
      case F: False
      have "lb_loop lt xs first (len div 2) = k"
        using "1.prems" split mid F False
        by (intro "1.IH"(2)) (auto simp: mid_def)
      with F False show ?thesis
        by (subst lb_loop.simps) (simp add: mid_def Let_def)
    qed
  qed
qed

theorem lower_bound_partition:
  "partitioned_at lt xs k \<Longrightarrow> lower_bound lt xs = k"
  unfolding lower_bound_def by (rule lb_loop_partition) (auto simp: partitioned_at_def)

section \<open>Vectors sorted by a key\<close>

definition ksorted :: "('a \<Rightarrow> 'k::linorder) \<Rightarrow> 'a list \<Rightarrow> bool" where
  "ksorted key xs \<longleftrightarrow> sorted_wrt (<) (map key xs)"

text \<open>The two halves of a sorted vector around a key.\<close>

definition upto_key :: "('a \<Rightarrow> 'k::linorder) \<Rightarrow> 'k \<Rightarrow> 'a list \<Rightarrow> 'a list" where
  "upto_key key k xs = takeWhile (\<lambda>x. key x < k) xs"

definition from_key :: "('a \<Rightarrow> 'k::linorder) \<Rightarrow> 'k \<Rightarrow> 'a list \<Rightarrow> 'a list" where
  "from_key key k xs = dropWhile (\<lambda>x. key x < k) xs"

lemma upto_from [simp]: "upto_key key k xs @ from_key key k xs = xs"
  by (simp add: upto_key_def from_key_def)

lemma set_upto_from: "set (upto_key key k xs) \<union> set (from_key key k xs) = set xs"
  by (metis set_append upto_from)

lemma length_upto_from: "length (upto_key key k xs) + length (from_key key k xs) = length xs"
  by (metis length_append upto_from)

lemma upto_key_less: "x \<in> set (upto_key key k xs) \<Longrightarrow> key x < k"
  unfolding upto_key_def by (drule set_takeWhileD) simp

lemma ksorted_Nil [simp]: "ksorted key []"
  by (simp add: ksorted_def)

lemma ksorted_Cons:
  "ksorted key (x # xs) \<longleftrightarrow> (\<forall>y \<in> set xs. key x < key y) \<and> ksorted key xs"
  by (simp add: ksorted_def)

lemma ksorted_append:
  "ksorted key (xs @ ys) \<longleftrightarrow>
     ksorted key xs \<and> ksorted key ys \<and> (\<forall>x \<in> set xs. \<forall>y \<in> set ys. key x < key y)"
  by (auto simp: ksorted_def sorted_wrt_append)

lemma ksorted_filter: "ksorted key xs \<Longrightarrow> ksorted key (filter P xs)"
  by (induction xs) (auto simp: ksorted_Cons)

lemma ksorted_map:
  "(\<And>x. key (f x) = key x) \<Longrightarrow> ksorted key (map f xs) \<longleftrightarrow> ksorted key xs"
  by (simp add: ksorted_def comp_def)

lemma ksorted_distinct: "ksorted key xs \<Longrightarrow> distinct (map key xs)"
  by (simp add: ksorted_def strict_sorted_iff)

lemma ksorted_inj:
  "ksorted key xs \<Longrightarrow> x \<in> set xs \<Longrightarrow> y \<in> set xs \<Longrightarrow> key x = key y \<Longrightarrow> x = y"
  using ksorted_distinct [of key xs] by (auto simp: distinct_map dest: inj_onD)

lemma from_key_ge:
  assumes "ksorted key xs" and "x \<in> set (from_key key k xs)"
  shows "k \<le> key x"
  using assms
  by (induction xs) (auto simp: from_key_def ksorted_Cons split: if_splits)

lemma ksorted_partitioned:
  assumes "ksorted key xs"
  shows "partitioned_at (\<lambda>x. key x < k) xs (length (upto_key key k xs))"
proof -
  have "key (xs ! i) < k \<longleftrightarrow> i < length (upto_key key k xs)" if i: "i < length xs" for i
  proof (cases "i < length (upto_key key k xs)")
    case True
    then have "xs ! i \<in> set (upto_key key k xs)"
      using nth_append [of "upto_key key k xs" "from_key key k xs" i] by simp
    with True show ?thesis by (simp add: upto_key_less)
  next
    case False
    then have "xs ! i = from_key key k xs ! (i - length (upto_key key k xs))"
      using nth_append [of "upto_key key k xs" "from_key key k xs" i] by simp
    moreover have "i - length (upto_key key k xs) < length (from_key key k xs)"
      using False i length_upto_from [of key k xs] by simp
    ultimately have "xs ! i \<in> set (from_key key k xs)" by simp
    then have "k \<le> key (xs ! i)" by (rule from_key_ge [OF assms])
    with False show ?thesis by simp
  qed
  moreover have "length (upto_key key k xs) \<le> length xs"
    by (simp add: upto_key_def length_takeWhile_le)
  ultimately show ?thesis by (simp add: partitioned_at_def)
qed

lemma lower_bound_upto:
  "ksorted key xs \<Longrightarrow> lower_bound (\<lambda>x. key x < k) xs = length (upto_key key k xs)"
  by (rule lower_bound_partition [OF ksorted_partitioned])

lemma take_upto_key [simp]: "take (length (upto_key key k xs)) xs = upto_key key k xs"
  by (simp add: upto_key_def takeWhile_eq_take [symmetric])

lemma drop_upto_key [simp]: "drop (length (upto_key key k xs)) xs = from_key key k xs"
  by (simp add: upto_key_def from_key_def dropWhile_eq_drop [symmetric])

subsection \<open>Positional insertion, erasure and update\<close>

definition insert_at :: "nat \<Rightarrow> 'a \<Rightarrow> 'a list \<Rightarrow> 'a list" where
  "insert_at i x xs = take i xs @ x # drop i xs"

definition erase_range :: "nat \<Rightarrow> nat \<Rightarrow> 'a list \<Rightarrow> 'a list" where
  "erase_range i j xs = take i xs @ drop j xs"

abbreviation erase_at :: "nat \<Rightarrow> 'a list \<Rightarrow> 'a list" where
  "erase_at i xs \<equiv> erase_range i (Suc i) xs"

text \<open>
  \<open>key_hit key k xs i\<close>: the test the code makes on the iterator \<open>lower_bound\<close> returned,
  \<^verbatim>\<open>it != end && key(*it) == k\<close>.
\<close>

definition key_hit :: "('a \<Rightarrow> 'k) \<Rightarrow> 'k \<Rightarrow> 'a list \<Rightarrow> nat \<Rightarrow> bool" where
  "key_hit key k xs i \<longleftrightarrow> i < length xs \<and> key (xs ! i) = k"

definition has_key :: "('a \<Rightarrow> 'k) \<Rightarrow> 'k \<Rightarrow> 'a list \<Rightarrow> bool" where
  "has_key key k xs \<longleftrightarrow> k \<in> key ` set xs"

lemma key_hit_split:
  assumes "ksorted key xs" and "key_hit key k xs (length (upto_key key k xs))"
  obtains x rest where "from_key key k xs = x # rest" and "key x = k"
    and "xs ! length (upto_key key k xs) = x"
proof -
  let ?i = "length (upto_key key k xs)"
  have i: "?i < length xs" and k: "key (xs ! ?i) = k"
    using assms(2) by (auto simp: key_hit_def)
  have "from_key key k xs = xs ! ?i # drop (Suc ?i) xs"
    using Cons_nth_drop_Suc [OF i] by simp
  with k that show ?thesis by blast
qed

lemma key_hit_iff:
  assumes "ksorted key xs"
  shows "key_hit key k xs (length (upto_key key k xs)) \<longleftrightarrow> has_key key k xs"
proof
  assume "key_hit key k xs (length (upto_key key k xs))"
  then show "has_key key k xs" unfolding key_hit_def has_key_def by (metis image_eqI nth_mem)
next
  assume "has_key key k xs"
  then obtain x where x: "x \<in> set xs" "key x = k" by (auto simp: has_key_def)
  have "x \<notin> set (upto_key key k xs)" using x(2) by (auto dest: upto_key_less)
  then have xa: "x \<in> set (from_key key k xs)"
    using x(1) set_upto_from [of key k xs] by blast
  then obtain y ys where a: "from_key key k xs = y # ys"
    by (cases "from_key key k xs") auto
  have "ksorted key (y # ys)"
    using assms upto_from [of key k xs] a by (metis ksorted_append)
  moreover have "k \<le> key y" using from_key_ge [OF assms, of y k] a by simp
  ultimately have "key y = k" using xa a x(2) by (auto simp: ksorted_Cons)
  moreover have "xs ! length (upto_key key k xs) = y"
    using a nth_append_length [of "upto_key key k xs" y ys] upto_from [of key k xs] by metis
  moreover have "length (upto_key key k xs) < length xs"
    using a length_upto_from [of key k xs] by simp
  ultimately show "key_hit key k xs (length (upto_key key k xs))"
    by (simp add: key_hit_def)
qed

lemma insert_at_upto:
  "insert_at (length (upto_key key k xs)) x xs = upto_key key k xs @ x # from_key key k xs"
  by (simp add: insert_at_def)

lemma ksorted_insert:
  assumes "ksorted key xs" and "\<not> has_key key k xs" and "key x = k"
  shows "ksorted key (insert_at (length (upto_key key k xs)) x xs)"
proof -
  have "k < key y" if "y \<in> set (from_key key k xs)" for y
  proof -
    have "y \<in> set xs" using that set_upto_from [of key k xs] by blast
    with assms(2) have "key y \<noteq> k" by (auto simp: has_key_def)
    with from_key_ge [OF assms(1) that] show ?thesis by simp
  qed
  moreover have "ksorted key (upto_key key k xs)" "ksorted key (from_key key k xs)"
    using assms(1) upto_from [of key k xs] by (metis ksorted_append)+
  ultimately show ?thesis
    using assms(3) by (fastforce simp: insert_at_upto ksorted_append ksorted_Cons dest: upto_key_less)
qed

lemma set_insert_at [simp]:
  "set (insert_at i x xs) = insert x (set xs)"
proof -
  have "set (take i xs) \<union> set (drop i xs) = set xs"
    by (metis append_take_drop_id set_append)
  then show ?thesis by (auto simp: insert_at_def)
qed

lemma nth_insert_at: "i \<le> length xs \<Longrightarrow> insert_at i x xs ! i = x"
  by (simp add: insert_at_def nth_append)

lemma length_insert_at [simp]: "length (insert_at i x xs) = Suc (length xs)"
  by (simp add: insert_at_def)

lemma ksorted_erase:
  "ksorted key xs \<Longrightarrow> i \<le> j \<Longrightarrow> ksorted key (erase_range i j xs)"
proof -
  assume s: "ksorted key xs" and ij: "i \<le> j"
  have "ksorted key (take i xs @ (take (j - i) (drop i xs) @ drop (j - i) (drop i xs)))"
    using s by (simp only: append_take_drop_id)
  then have "ksorted key (take i xs @ drop (j - i) (drop i xs))"
    by (auto simp only: ksorted_append set_append ball_Un)
  with ij show ?thesis by (simp add: erase_range_def)
qed

lemma ksorted_update:
  "ksorted key xs \<Longrightarrow> i < length xs \<Longrightarrow> key x = key (xs ! i) \<Longrightarrow> ksorted key (xs[i := x])"
  by (metis ksorted_def length_map list_update_id map_update nth_map)

text \<open>Reusing the first freed slot and erasing the others.\<close>

lemma erase_reuse:
  "n = Suc (length k + length g) \<Longrightarrow>
     erase_range (Suc (length k)) n ((k @ (x # g) @ f)[length k := y]) = k @ y # f"
  by (simp add: erase_range_def list_update_append)

text \<open>Erasing the hit removes exactly the elements with the key.\<close>

lemma erase_hit_filter:
  assumes s: "ksorted key xs" and h: "key_hit key k xs (length (upto_key key k xs))"
  shows "erase_at (length (upto_key key k xs)) xs = filter (\<lambda>x. key x \<noteq> k) xs"
proof -
  obtain x rest where a: "from_key key k xs = x # rest" and kx: "key x = k"
    by (rule key_hit_split [OF s h])
  have "ksorted key (x # rest)"
    using s a upto_from [of key k xs] by (metis ksorted_append)
  then have r: "filter (\<lambda>x. key x \<noteq> k) rest = rest"
    using kx by (intro filter_True) (auto simp: ksorted_Cons)
  have b: "filter (\<lambda>x. key x \<noteq> k) (upto_key key k xs) = upto_key key k xs"
    by (intro filter_True) (auto dest: upto_key_less)
  have d: "drop (Suc (length (upto_key key k xs))) xs = rest"
    using drop_upto_key [of key k xs] a by (metis drop_Suc list.sel(3) tl_drop)
  have "filter (\<lambda>x. key x \<noteq> k) xs
      = filter (\<lambda>x. key x \<noteq> k) (upto_key key k xs @ from_key key k xs)" by simp
  also have "\<dots> = upto_key key k xs @ rest" by (simp only: filter_append b a) (simp add: kx r)
  finally show ?thesis by (simp add: erase_range_def d)
qed

text \<open>The association a key-sorted vector stands for.\<close>

definition kmap :: "('a \<Rightarrow> 'k) \<Rightarrow> 'a list \<Rightarrow> 'k \<rightharpoonup> 'a" where
  "kmap key xs = map_of (map (\<lambda>x. (key x, x)) xs)"

lemma kmap_Some_iff:
  "ksorted key xs \<Longrightarrow> kmap key xs k = Some x \<longleftrightarrow> x \<in> set xs \<and> key x = k"
proof -
  assume "ksorted key xs"
  then have "distinct (map fst (map (\<lambda>x. (key x, x)) xs))"
    using ksorted_distinct [of key xs] by (simp add: comp_def)
  then show ?thesis by (auto simp: kmap_def map_of_eq_Some_iff)
qed

lemma kmap_None_iff: "kmap key xs k = None \<longleftrightarrow> \<not> has_key key k xs"
  by (auto simp: kmap_def map_of_eq_None_iff has_key_def image_image)

lemma kmap_ext:
  assumes "ksorted key xs" and "\<And>k x. x \<in> set xs \<and> key x = k \<longleftrightarrow> m k = Some x"
  shows "kmap key xs = m"
proof
  fix k
  show "kmap key xs k = m k"
    using assms(2) kmap_Some_iff [OF assms(1)] by (metis option.exhaust)
qed

section \<open>\<^verbatim>\<open>std::remove_if\<close> with an effect\<close>

text \<open>
  The code often passes \<^verbatim>\<open>remove_if\<close> a predicate that updates the element it is given and the
  surrounding state. The algorithm applies it once to each element, in order, and keeps the
  (updated) elements for which it returned false.
\<close>

fun remove_if_st :: "('s \<Rightarrow> 'a \<Rightarrow> bool \<times> 'a \<times> 's) \<Rightarrow> 's \<Rightarrow> 'a list \<Rightarrow> 'a list \<times> 's" where
  "remove_if_st p s [] = ([], s)"
| "remove_if_st p s (x # xs) =
     (case p s x of (del, x', s') \<Rightarrow>
        (case remove_if_st p s' xs of (ys, s'') \<Rightarrow> (if del then ys else x' # ys, s'')))"

lemma remove_if_st_invariant:
  assumes "I s" and "\<And>s x. x \<in> set xs \<Longrightarrow> I s \<Longrightarrow> I (snd (snd (p s x)))"
  shows "I (snd (remove_if_st p s xs))"
  using assms
proof (induction xs arbitrary: s)
  case Nil
  then show ?case by simp
next
  case (Cons x xs)
  obtain d x' s' where p: "p s x = (d, x', s')" by (cases "p s x") auto
  have "I s'" using Cons.prems(2) [of x s] Cons.prems(1) p by simp
  then have "I (snd (remove_if_st p s' xs))"
    using Cons.prems(2) by (intro Cons.IH) auto
  then show ?case by (cases "remove_if_st p s' xs") (simp add: p)
qed

lemma remove_if_st_elements:
  assumes "y \<in> set (fst (remove_if_st p s xs))"
  obtains x s' where "x \<in> set xs" and "\<not> fst (p s' x)" and "y = fst (snd (p s' x))"
proof -
  have "\<exists>x s'. x \<in> set xs \<and> \<not> fst (p s' x) \<and> y = fst (snd (p s' x))"
    using assms
  proof (induction xs arbitrary: s)
    case Nil
    then show ?case by simp
  next
    case (Cons x xs)
    obtain d x' s' where p: "p s x = (d, x', s')" by (cases "p s x") auto
    show ?case
    proof (cases "y \<in> set (fst (remove_if_st p s' xs))")
      case True
      from Cons.IH [OF this] show ?thesis by auto
    next
      case False
      with Cons.prems p have "\<not> d \<and> y = x'"
        by (auto split: prod.splits if_splits)
      with p show ?thesis by (intro exI [of _ x] exI [of _ s]) simp
    qed
  qed
  with that show thesis by blast
qed

section \<open>Little-endian integers\<close>

fun le_bytes :: "nat \<Rightarrow> nat \<Rightarrow> byte list" where
  "le_bytes 0 n = []"
| "le_bytes (Suc w) n = word_of_nat (n mod 256) # le_bytes w (n div 256)"

fun le_nat :: "byte list \<Rightarrow> nat" where
  "le_nat [] = 0"
| "le_nat (b # bs) = unat b + 256 * le_nat bs"

lemma length_le_bytes [simp]: "length (le_bytes w n) = w"
  by (induction w arbitrary: n) auto

lemma unat_byte_of_nat: "unat (word_of_nat (n mod 256) :: byte) = n mod 256"
  by (simp add: unat_of_nat)

lemma le_nat_le_bytes: "le_nat (le_bytes w n) = n mod 256 ^ w"
proof (induction w arbitrary: n)
  case 0
  then show ?case by simp
next
  case (Suc w)
  have "n mod 256 + 256 * (n div 256 mod 256 ^ w) = n mod (256 * 256 ^ w)"
    by (simp add: mod_mult2_eq)
  with Suc show ?case by (simp add: unat_byte_of_nat)
qed

lemma le_nat_less: "le_nat bs < 256 ^ length bs"
proof (induction bs)
  case Nil
  then show ?case by simp
next
  case (Cons b bs)
  have "unat b < 256" using unsigned_less [where 'a = nat and w = b] by simp
  with Cons show ?case by simp
qed

lemma le_bytes_le_nat: "length bs = w \<Longrightarrow> le_bytes w (le_nat bs) = bs"
proof (induction bs arbitrary: w)
  case Nil
  then show ?case by simp
next
  case (Cons b bs)
  have b: "unat b < 256" using unsigned_less [where 'a = nat and w = b] by simp
  then have "(unat b + 256 * le_nat bs) mod 256 = unat b"
    and "(unat b + 256 * le_nat bs) div 256 = le_nat bs" by auto
  with Cons show ?case by auto
qed

definition le16 :: "u16 \<Rightarrow> byte list" where "le16 x = le_bytes 2 (unat x)"
definition le32 :: "u32 \<Rightarrow> byte list" where "le32 x = le_bytes 4 (unat x)"
definition rd16 :: "byte list \<Rightarrow> u16" where "rd16 bs = word_of_nat (le_nat bs)"
definition rd32 :: "byte list \<Rightarrow> u32" where "rd32 bs = word_of_nat (le_nat bs)"

lemma length_le16 [simp]: "length (le16 x) = 2"
  by (simp add: le16_def)

lemma length_le32 [simp]: "length (le32 x) = 4"
  by (simp add: le32_def)

lemma rd16_le16 [simp]: "rd16 (le16 x) = x"
  using unsigned_less [where 'a = nat and w = x] by (simp add: rd16_def le16_def le_nat_le_bytes)

lemma rd32_le32 [simp]: "rd32 (le32 x) = x"
  using unsigned_less [where 'a = nat and w = x] by (simp add: rd32_def le32_def le_nat_le_bytes)

lemma le16_rd16: "length bs = 2 \<Longrightarrow> le16 (rd16 bs) = bs"
  using le_nat_less [of bs] by (simp add: rd16_def le16_def unat_of_nat le_bytes_le_nat)

lemma le32_rd32: "length bs = 4 \<Longrightarrow> le32 (rd32 bs) = bs"
  using le_nat_less [of bs] by (simp add: rd32_def le32_def unat_of_nat le_bytes_le_nat)

end
