(* ===== verification/Messages.thy ===== *)
theory Messages
  imports Bus_Prelude
begin

unbundle bit_operations_syntax

text \<open>
  The wire format (\<^verbatim>\<open>src/messages/messages.hpp\<close>, \<^verbatim>\<open>messages.cpp\<close>): session identifiers
  (\<open>uuid\<close>, versions 4 and 7), the 24-byte message envelope (\<open>msgheader\<close>) and its memory image,
  comparison and printing of identifiers. The random device and the clock are arguments.
  Shown: the memory images round-trip, every generated identifier carries its version and
  variant bits and is never the all-zero one, and printing loses nothing.
\<close>

section \<open>Data\<close>

type_synonym node6 = "byte \<times> byte \<times> byte \<times> byte \<times> byte \<times> byte"

record uuid =
  time_low :: u32
  time_mid :: u16
  time_high_version :: u16
  clock_seq_reserved :: byte
  clock_seq_low :: byte
  node_id :: node6

definition TIME_HIGH_MAX :: u16 where "TIME_HIGH_MAX = 0x0FFF"
definition CLOCK_SEQ_MAX :: byte where "CLOCK_SEQ_MAX = 0x3F"
definition VARIANT :: byte where "VARIANT = 0x80"

record msglen =
  seqno :: u16
  msg_length :: u16

record msgversion =
  major :: byte
  minor :: byte

definition DATA :: byte where "DATA = 0"
definition STOP :: byte where "STOP = 1"
definition INIT :: byte where "INIT = 0x80"
definition ABORT :: byte where "ABORT = 0x40"

record msgtype =
  msg_op :: byte
  msg_flags :: byte

record msgheader =
  msg_eid :: uuid
  msg_len :: msglen
  msg_version :: msgversion
  msg_type :: msgtype

definition HDRLEN :: nat where "HDRLEN = 24"

text \<open>\<open>has_flag t f\<close> is \<^verbatim>\<open>type.flags & f\<close> used as a condition.\<close>

definition has_flag :: "msgtype \<Rightarrow> byte \<Rightarrow> bool" where
  "has_flag t f \<longleftrightarrow> msg_flags t AND f \<noteq> 0"

section \<open>Memory image\<close>

fun node_bytes :: "node6 \<Rightarrow> byte list" where
  "node_bytes (a, b, c, d, e, f) = [a, b, c, d, e, f]"

definition node_of_bytes :: "byte list \<Rightarrow> node6" where
  "node_of_bytes bs = (bs ! 0, bs ! 1, bs ! 2, bs ! 3, bs ! 4, bs ! 5)"

definition uuid_bytes :: "uuid \<Rightarrow> byte list" where
  "uuid_bytes u = le32 (time_low u) @ le16 (time_mid u) @ le16 (time_high_version u)
     @ [clock_seq_reserved u, clock_seq_low u] @ node_bytes (node_id u)"

definition uuid_of_bytes :: "byte list \<Rightarrow> uuid" where
  "uuid_of_bytes bs =
     \<lparr>time_low = rd32 (take 4 bs), time_mid = rd16 (take 2 (drop 4 bs)),
      time_high_version = rd16 (take 2 (drop 6 bs)),
      clock_seq_reserved = bs ! 8, clock_seq_low = bs ! 9,
      node_id = node_of_bytes (drop 10 bs)\<rparr>"

definition header_bytes :: "msgheader \<Rightarrow> byte list" where
  "header_bytes h = uuid_bytes (msg_eid h)
     @ le16 (seqno (msg_len h)) @ le16 (msg_length (msg_len h))
     @ [major (msg_version h), minor (msg_version h)]
     @ [msg_op (msg_type h), msg_flags (msg_type h)]"

definition header_of_bytes :: "byte list \<Rightarrow> msgheader" where
  "header_of_bytes bs =
     \<lparr>msg_eid = uuid_of_bytes (take 16 bs),
      msg_len = \<lparr>seqno = rd16 (take 2 (drop 16 bs)), msg_length = rd16 (take 2 (drop 18 bs))\<rparr>,
      msg_version = \<lparr>major = bs ! 20, minor = bs ! 21\<rparr>,
      msg_type = \<lparr>msg_op = bs ! 22, msg_flags = bs ! 23\<rparr>\<rparr>"

section \<open>Generation\<close>

definition zero_uuid :: uuid where
  "zero_uuid = \<lparr>time_low = 0, time_mid = 0, time_high_version = 0,
     clock_seq_reserved = 0, clock_seq_low = 0, node_id = (0, 0, 0, 0, 0, 0)\<rparr>"

text \<open>
  \<open>overlay off bs mem\<close>: \<^verbatim>\<open>istream::read\<close> of the bytes \<open>bs\<close> into the image \<open>mem\<close> from offset
  \<open>off\<close> up to its end; a short read leaves the rest of the image as it was.
\<close>

definition overlay :: "nat \<Rightarrow> byte list \<Rightarrow> byte list \<Rightarrow> byte list" where
  "overlay off bs mem =
     (let chunk = take (length mem - off) bs
      in take off mem @ chunk @ drop (off + length chunk) mem)"

definition stamp_version :: "u16 \<Rightarrow> uuid \<Rightarrow> uuid" where
  "stamp_version ver u =
     u\<lparr>time_high_version := (time_high_version u AND TIME_HIGH_MAX) OR ver,
       clock_seq_reserved := (clock_seq_reserved u AND CLOCK_SEQ_MAX) OR VARIANT\<rparr>"

text \<open>The argument is what \<^verbatim>\<open>/dev/urandom\<close> yields, or \<open>None\<close> when the stream is not good.\<close>

definition make_uuid_v4 :: "byte list option \<Rightarrow> uuid" where
  "make_uuid_v4 urnd = (case urnd of
      None \<Rightarrow> zero_uuid
    | Some bs \<Rightarrow>
        stamp_version 0x4000 (uuid_of_bytes (overlay 0 bs (uuid_bytes zero_uuid))))"

definition make_uuid_v7 :: "byte list option \<Rightarrow> u64 \<Rightarrow> uuid" where
  "make_uuid_v7 urnd ms_count = (case urnd of
      None \<Rightarrow> zero_uuid
    | Some bs \<Rightarrow>
        (let tmp = zero_uuid\<lparr>
               time_low := ucast (ms_count AND 0xFFFFFFFF),
               time_mid := ucast ((drop_bit 32 ms_count) AND 0xFFFF)\<rparr>
         in stamp_version 0x7000 (uuid_of_bytes (overlay 6 bs (uuid_bytes tmp)))))"

section \<open>Comparison and printing\<close>

fun memcmp :: "byte list \<Rightarrow> byte list \<Rightarrow> int" where
  "memcmp (x # xs) (y # ys) = (if x < y then - 1 else if y < x then 1 else memcmp xs ys)"
| "memcmp _ _ = 0"

definition uuidcmp_node :: "uuid \<Rightarrow> uuid \<Rightarrow> int" where
  "uuidcmp_node lhs rhs = memcmp (node_bytes (node_id lhs)) (node_bytes (node_id rhs))"

definition uuid_eq :: "uuid \<Rightarrow> uuid \<Rightarrow> bool" where
  "uuid_eq lhs rhs \<longleftrightarrow> memcmp (uuid_bytes lhs) (uuid_bytes rhs) = 0"

definition uuid_neq :: "uuid \<Rightarrow> uuid \<Rightarrow> bool" where
  "uuid_neq lhs rhs \<longleftrightarrow> \<not> uuid_eq lhs rhs"

definition hex_digit :: "nat \<Rightarrow> char" where
  "hex_digit n = ''0123456789abcdef'' ! n"

text \<open>\<^verbatim>\<open>std::to_chars\<close> in base 16: no leading zero.\<close>

definition to_chars_hex :: "byte \<Rightarrow> string" where
  "to_chars_hex b =
     (if unat b < 16 then [hex_digit (unat b)]
      else [hex_digit (unat b div 16), hex_digit (unat b mod 16)])"

definition hex2 :: "byte \<Rightarrow> string" where
  "hex2 b = replicate (2 - length (to_chars_hex b)) CHR ''0'' @ to_chars_hex b"

text \<open>The printing loop at byte \<open>i\<close>; \<open>delim\<close> is the offset of the next dash.\<close>

fun print_loop :: "nat \<Rightarrow> nat \<Rightarrow> byte list \<Rightarrow> string" where
  "print_loop i delim [] = []"
| "print_loop i delim (b # bs) =
     (if i = delim
      then CHR ''-'' # hex2 b @ print_loop (Suc i) (delim + (if delim = 10 then 6 else 2)) bs
      else hex2 b @ print_loop (Suc i) delim bs)"

definition uuid_print :: "uuid \<Rightarrow> string" where
  "uuid_print u = print_loop 0 4 (uuid_bytes u)"

section \<open>The memory images\<close>

lemma length_node_bytes [simp]: "length (node_bytes n) = 6"
  by (cases n) simp

lemma node_of_node_bytes [simp]: "node_of_bytes (node_bytes n) = n"
  by (cases n) (simp add: node_of_bytes_def)

lemma length_uuid_bytes [simp]: "length (uuid_bytes u) = 16"
  by (simp add: uuid_bytes_def)

lemma length_header_bytes [simp]: "length (header_bytes h) = 24"
  by (simp add: header_bytes_def)

lemma uuid_of_uuid_bytes [simp]: "uuid_of_bytes (uuid_bytes u) = u"
  by (simp add: uuid_of_bytes_def uuid_bytes_def nth_append)

lemma list_split_at: "n \<le> length bs \<Longrightarrow> bs = take n bs @ drop n bs"
  by simp

lemma node_bytes_of_bytes: "length bs = 6 \<Longrightarrow> node_bytes (node_of_bytes bs) = bs"
proof -
  assume len: "length bs = 6"
  show ?thesis
    by (rule nth_equalityI)
      (auto simp: len node_of_bytes_def less_Suc_eq numeral_eq_Suc)
qed

lemma two_at: "Suc i < length bs \<Longrightarrow> bs ! i # bs ! Suc i # drop (Suc (Suc i)) bs = drop i bs"
  by (metis Cons_nth_drop_Suc Suc_lessD)

lemma uuid_bytes_of_bytes:
  assumes len: "length bs = 16"
  shows "uuid_bytes (uuid_of_bytes bs) = bs"
proof -
  have "uuid_bytes (uuid_of_bytes bs)
      = take 4 bs @ take 2 (drop 4 bs) @ take 2 (drop 6 bs) @ [bs ! 8, bs ! 9] @ drop 10 bs"
    using len by (simp add: uuid_bytes_def uuid_of_bytes_def le32_rd32 le16_rd16 node_bytes_of_bytes)
  also have "[bs ! 8, bs ! 9] @ drop 10 bs = drop 8 bs"
    using two_at [of 8 bs] len by (simp add: numeral_eq_Suc)
  also have "take 2 (drop 6 bs) @ drop 8 bs = drop 6 bs"
    using append_take_drop_id [of 2 "drop 6 bs"] by simp
  also have "take 2 (drop 4 bs) @ drop 6 bs = drop 4 bs"
    using append_take_drop_id [of 2 "drop 4 bs"] by simp
  finally show ?thesis by simp
qed

lemma uuid_bytes_inject [simp]: "uuid_bytes u = uuid_bytes v \<longleftrightarrow> u = v"
  by (metis uuid_of_uuid_bytes)

lemma header_of_header_bytes [simp]: "header_of_bytes (header_bytes h) = h"
  by (simp add: header_of_bytes_def header_bytes_def nth_append)

lemma header_bytes_of_bytes:
  assumes len: "length bs = 24"
  shows "header_bytes (header_of_bytes bs) = bs"
proof -
  have "header_bytes (header_of_bytes bs)
      = take 16 bs @ take 2 (drop 16 bs) @ take 2 (drop 18 bs) @ [bs ! 20, bs ! 21]
        @ [bs ! 22, bs ! 23]"
    using len by (simp add: header_bytes_def header_of_bytes_def uuid_bytes_of_bytes le16_rd16)
  also have "[bs ! 20, bs ! 21] @ [bs ! 22, bs ! 23] = drop 20 bs"
    using two_at [of 20 bs] two_at [of 22 bs] len by (simp add: numeral_eq_Suc)
  also have "take 2 (drop 18 bs) @ drop 20 bs = drop 18 bs"
    using append_take_drop_id [of 2 "drop 18 bs"] by simp
  also have "take 2 (drop 16 bs) @ drop 18 bs = drop 16 bs"
    using append_take_drop_id [of 2 "drop 16 bs"] by simp
  finally show ?thesis by simp
qed

section \<open>Comparison\<close>

lemma memcmp_eq_0: "length xs = length ys \<Longrightarrow> memcmp xs ys = 0 \<longleftrightarrow> xs = ys"
  by (induction xs ys rule: memcmp.induct) auto

lemma node_bytes_inject [simp]: "node_bytes m = node_bytes n \<longleftrightarrow> m = n"
  by (metis node_of_node_bytes)

lemma uuid_eq_iff [simp]: "uuid_eq u v \<longleftrightarrow> u = v"
  by (simp add: uuid_eq_def memcmp_eq_0)

lemma uuidcmp_node_0_iff [simp]: "uuidcmp_node u v = 0 \<longleftrightarrow> node_id u = node_id v"
  by (simp add: uuidcmp_node_def memcmp_eq_0)


section \<open>Generated identifiers\<close>

lemma length_overlay: "off \<le> length mem \<Longrightarrow> length (overlay off bs mem) = length mem"
  by (simp add: overlay_def Let_def)

lemma take_overlay: "n \<le> off \<Longrightarrow> off \<le> length mem \<Longrightarrow> take n (overlay off bs mem) = take n mem"
  by (simp add: overlay_def Let_def min_def)

lemma take2_drop4: "take 2 (drop 4 xs) = drop 4 (take 6 xs)"
  by (simp add: drop_take)

lemma overlay_uuid_time:
  "time_low (uuid_of_bytes (overlay 6 bs (uuid_bytes u))) = time_low u"
  "time_mid (uuid_of_bytes (overlay 6 bs (uuid_bytes u))) = time_mid u"
proof -
  have t: "take 6 (overlay 6 bs (uuid_bytes u)) = take 6 (uuid_bytes u)"
    by (rule take_overlay) simp_all
  have "take 4 (overlay 6 bs (uuid_bytes u)) = take 4 (uuid_bytes u)"
    by (rule take_overlay) simp_all
  then show "time_low (uuid_of_bytes (overlay 6 bs (uuid_bytes u))) = time_low u"
    by (simp add: uuid_of_bytes_def uuid_bytes_def)
  show "time_mid (uuid_of_bytes (overlay 6 bs (uuid_bytes u))) = time_mid u"
    unfolding uuid_of_bytes_def uuid.simps take2_drop4 t
    by (simp add: uuid_bytes_def)
qed

lemma stamp_version_bits:
  assumes "ver AND TIME_HIGH_MAX = 0"
  shows "time_high_version (stamp_version ver u) AND 0xF000 = ver"
    and "clock_seq_reserved (stamp_version ver u) AND 0xC0 = 0x80"
proof -
  have "ver AND 0xF000 = ver"
  proof -
    have "TIME_HIGH_MAX OR 0xF000 = - 1" by (simp add: TIME_HIGH_MAX_def)
    then have "ver = ver AND (TIME_HIGH_MAX OR 0xF000)" by simp
    also have "\<dots> = ver AND 0xF000"
      using assms by (simp only: and.commute or.commute bit.conj_disj_distrib) simp
    finally show ?thesis by simp
  qed
  moreover have "(w AND TIME_HIGH_MAX) AND 0xF000 = 0" for w :: u16
    by (simp add: TIME_HIGH_MAX_def and.assoc)
  ultimately show "time_high_version (stamp_version ver u) AND 0xF000 = ver"
    by (simp add: stamp_version_def bit.conj_disj_distrib2)
  have "(w AND CLOCK_SEQ_MAX) AND 0xC0 = 0" for w :: byte
    by (simp add: CLOCK_SEQ_MAX_def and.assoc)
  then show "clock_seq_reserved (stamp_version ver u) AND 0xC0 = 0x80"
    by (simp add: stamp_version_def bit.conj_disj_distrib2 VARIANT_def)
qed

lemma stamp_version_time [simp]:
  "time_low (stamp_version ver u) = time_low u" "time_mid (stamp_version ver u) = time_mid u"
  by (simp_all add: stamp_version_def)

lemma ms_split:
  fixes ms :: u64
  shows "unat (ucast (ms AND 0xFFFFFFFF) :: u32) = unat ms mod 2 ^ 32"
    and "unat (ucast (drop_bit 32 ms AND 0xFFFF) :: u16) = unat ms div 2 ^ 32 mod 2 ^ 16"
proof -
  have a: "ms AND 0xFFFFFFFF = take_bit 32 ms" and b: "x AND 0xFFFF = take_bit 16 x" for x :: u64
    by (simp_all add: take_bit_eq_mask mask_eq_exp_minus_1)
  show "unat (ucast (ms AND 0xFFFFFFFF) :: u32) = unat ms mod 2 ^ 32"
    unfolding a by (simp add: unsigned_ucast_eq unsigned_take_bit_eq) (simp add: take_bit_eq_mod)
  show "unat (ucast (drop_bit 32 ms AND 0xFFFF) :: u16) = unat ms div 2 ^ 32 mod 2 ^ 16"
    unfolding b
    by (simp add: unsigned_ucast_eq unsigned_take_bit_eq unsigned_drop_bit_eq)
      (use unsigned_less [where 'a = nat and w = ms] in \<open>simp add: take_bit_eq_mod drop_bit_eq_div\<close>)
qed

lemma make_uuid_v7_time:
  "time_low (make_uuid_v7 (Some bs) ms) = ucast (ms AND 0xFFFFFFFF)"
  "time_mid (make_uuid_v7 (Some bs) ms) = ucast (drop_bit 32 ms AND 0xFFFF)"
  by (simp_all add: make_uuid_v7_def Let_def overlay_uuid_time)

lemma make_uuid_version:
  "time_high_version (make_uuid_v4 (Some bs)) AND 0xF000 = 0x4000"
  "time_high_version (make_uuid_v7 (Some bs) ms) AND 0xF000 = 0x7000"
  by (simp_all add: make_uuid_v4_def make_uuid_v7_def Let_def stamp_version_bits TIME_HIGH_MAX_def)

lemma make_uuid_variant:
  "clock_seq_reserved (make_uuid_v4 (Some bs)) AND 0xC0 = 0x80"
  "clock_seq_reserved (make_uuid_v7 (Some bs) ms) AND 0xC0 = 0x80"
  by (simp_all add: make_uuid_v4_def make_uuid_v7_def Let_def stamp_version_bits TIME_HIGH_MAX_def)

lemma make_uuid_v7_zero_iff: "make_uuid_v7 urnd ms = zero_uuid \<longleftrightarrow> urnd = None"
proof (cases urnd)
  case None
  then show ?thesis by (simp add: make_uuid_v7_def)
next
  case (Some bs)
  have "clock_seq_reserved (make_uuid_v7 (Some bs) ms) \<noteq> clock_seq_reserved zero_uuid"
    using make_uuid_variant(2) [of bs ms] by (auto simp: zero_uuid_def)
  with Some show ?thesis by auto
qed

lemma make_uuid_v4_zero_iff: "make_uuid_v4 urnd = zero_uuid \<longleftrightarrow> urnd = None"
proof (cases urnd)
  case None
  then show ?thesis by (simp add: make_uuid_v4_def)
next
  case (Some bs)
  have "clock_seq_reserved (make_uuid_v4 (Some bs)) \<noteq> clock_seq_reserved zero_uuid"
    using make_uuid_variant(1) [of bs] by (auto simp: zero_uuid_def)
  with Some show ?thesis by auto
qed

section \<open>Printing\<close>

lemma hex_digit_inj: "m < 16 \<Longrightarrow> n < 16 \<Longrightarrow> hex_digit m = hex_digit n \<Longrightarrow> m = n"
  by (simp add: hex_digit_def nth_eq_iff_index_eq)

lemma hex2_pair: "hex2 b = [hex_digit (unat b div 16), hex_digit (unat b mod 16)]"
  by (simp add: hex2_def to_chars_hex_def hex_digit_def)

lemma hex2_inject [simp]: "hex2 b = hex2 c \<longleftrightarrow> b = c"
proof
  assume eq: "hex2 b = hex2 c"
  have "unat b div 16 < 16" "unat c div 16 < 16"
    using unsigned_less [where 'a = nat and w = b] unsigned_less [where 'a = nat and w = c] by auto
  then have "unat b div 16 = unat c div 16" "unat b mod 16 = unat c mod 16"
    using eq by (auto simp: hex2_pair intro: hex_digit_inj)
  then have "unat b = unat c" by (metis div_mult_mod_eq)
  then show "b = c" by (simp add: word_unat_eq_iff)
qed simp

lemma length_hex2 [simp]: "length (hex2 b) = 2"
  by (simp add: hex2_pair)

lemma print_loop_inject:
  "length bs = length cs \<Longrightarrow> print_loop i d bs = print_loop i d cs \<Longrightarrow> bs = cs"
proof (induction bs arbitrary: i d cs)
  case Nil
  then show ?case by simp
next
  case (Cons b bs)
  then obtain c cs' where cs: "cs = c # cs'" by (cases cs) auto
  with Cons.prems(2) have
    "hex2 b @ print_loop (Suc i) (if i = d then d + (if d = 10 then 6 else 2) else d) bs
      = hex2 c @ print_loop (Suc i) (if i = d then d + (if d = 10 then 6 else 2) else d) cs'"
    by (auto split: if_splits)
  then have "hex2 b = hex2 c"
    and "print_loop (Suc i) (if i = d then d + (if d = 10 then 6 else 2) else d) bs
       = print_loop (Suc i) (if i = d then d + (if d = 10 then 6 else 2) else d) cs'"
    by (auto simp: append_eq_append_conv)
  with Cons cs show ?case by auto
qed

lemma length_16_conv:
  "length bs = 16 \<Longrightarrow> bs = [bs!0, bs!1, bs!2, bs!3, bs!4, bs!5, bs!6, bs!7, bs!8, bs!9, bs!10,
     bs!11, bs!12, bs!13, bs!14, bs!15]"
  by (rule nth_equalityI) (auto simp: less_Suc_eq numeral_eq_Suc)

lemma length_print_loop: "length bs = 16 \<Longrightarrow> length (print_loop 0 4 bs) = 36"
  by (subst length_16_conv [of bs]) simp_all

lemma print_loop_dashes:
  "length bs = 16 \<Longrightarrow> print_loop 0 4 bs ! 8 = CHR ''-'' \<and> print_loop 0 4 bs ! 13 = CHR ''-''
     \<and> print_loop 0 4 bs ! 18 = CHR ''-'' \<and> print_loop 0 4 bs ! 23 = CHR ''-''"
  by (subst (1 2 3 4) length_16_conv [of bs]) (simp_all add: hex2_pair)

section \<open>Properties\<close>



text \<open>an identifier made by \<^verbatim>\<open>make_uuid_v7\<close> from a good random source carries version 7 and
  the RFC variant in its bits, spells the low 48 bits of the millisecond clock in its time
  fields, and is never the all-zero identifier that signals failure, however few bytes the
  random source delivered.\<close>

theorem make_uuid_v7_fields:
  "time_high_version (make_uuid_v7 (Some bs) ms) AND 0xF000 = 0x7000
   \<and> clock_seq_reserved (make_uuid_v7 (Some bs) ms) AND 0xC0 = 0x80
   \<and> unat (time_low (make_uuid_v7 (Some bs) ms)) = unat ms mod 2 ^ 32
   \<and> unat (time_mid (make_uuid_v7 (Some bs) ms)) = unat ms div 2 ^ 32 mod 2 ^ 16
   \<and> (make_uuid_v7 urnd ms = zero_uuid \<longleftrightarrow> urnd = None)"
  by (simp only: make_uuid_version make_uuid_variant make_uuid_v7_time ms_split
      make_uuid_v7_zero_iff simp_thms)

text \<open>printing an identifier gives 36 characters with dashes at positions 8, 13, 18 and 23,
  and two identifiers print alike only when \<^verbatim>\<open>operator==\<close> holds.\<close>

theorem uuid_print_faithful:
  "length (uuid_print u) = 36
   \<and> uuid_print u ! 8 = CHR ''-'' \<and> uuid_print u ! 13 = CHR ''-''
   \<and> uuid_print u ! 18 = CHR ''-'' \<and> uuid_print u ! 23 = CHR ''-''
   \<and> (uuid_print u = uuid_print v \<longleftrightarrow> uuid_eq u v)"
  using length_print_loop [of "uuid_bytes u"] print_loop_dashes [of "uuid_bytes u"]
    print_loop_inject [of "uuid_bytes u" "uuid_bytes v" 0 4]
  by (auto simp: uuid_print_def)

end
