(* ===== verification/Iostreams.thy ===== *)
theory Iostreams
  imports Bus_Prelude
begin

text \<open>
  What the sources use of the C++ iostream library, over an arbitrary stream buffer: the state
  bits and the unformatted input and output functions of \<^verbatim>\<open>std::iostream\<close>
  (\<^verbatim>\<open>readsome\<close>, \<^verbatim>\<open>write\<close>, \<^verbatim>\<open>flush\<close>, \<^verbatim>\<open>tellg\<close>, \<^verbatim>\<open>tellp\<close>, \<^verbatim>\<open>seekg\<close>, \<^verbatim>\<open>seekp\<close>, \<^verbatim>\<open>setstate\<close>, \<^verbatim>\<open>clear\<close>) as the
  standard specifies them, \<^verbatim>\<open>std::stringbuf\<close>, and the two bounded copy loops of the connectors
  (\<^verbatim>\<open>stream_write\<close>, \<^verbatim>\<open>stream_copy\<close>). A stream is its buffer with the three state bits and the
  count of the last extraction; the virtual functions of the buffer are arguments.

  The contracts between streams and buffers are the locales \<open>input_buffer\<close> and
  \<open>output_buffer\<close>: what \<^verbatim>\<open>in_avail\<close>/\<^verbatim>\<open>sgetn\<close> and \<^verbatim>\<open>sputn\<close> promise about the bytes still to be read and
  the bytes accepted so far. They are interpreted for the string buffer here, for the message
  buffer in \<open>Xmsg\<close> and for the socket buffer in \<open>Sockbuf\<close>.
\<close>

section \<open>Streams\<close>

record 'b ios =
  rdbuf :: 'b
  eofbit :: bool
  failbit :: bool
  badbit :: bool
  gcount :: nat

definition ios_init :: "'b \<Rightarrow> 'b ios" where
  "ios_init b = \<lparr>rdbuf = b, eofbit = False, failbit = False, badbit = False, gcount = 0\<rparr>"

abbreviation eof_of :: "'b ios \<Rightarrow> bool" where "eof_of s \<equiv> eofbit s"
abbreviation bad_of :: "'b ios \<Rightarrow> bool" where "bad_of s \<equiv> badbit s"

definition good :: "'b ios \<Rightarrow> bool" where
  "good s \<longleftrightarrow> \<not> eofbit s \<and> \<not> failbit s \<and> \<not> badbit s"

definition fail_of :: "'b ios \<Rightarrow> bool" where
  "fail_of s \<longleftrightarrow> failbit s \<or> badbit s"

text \<open>
  \<^verbatim>\<open>istream::readsome\<close>: a stream that is not good fails; otherwise at most \<open>n\<close> of the immediately
  available characters are extracted, and \<open>-1\<close> available characters mean end of file.
\<close>

definition readsome ::
  "('b \<Rightarrow> int \<times> 'b) \<Rightarrow> (nat \<Rightarrow> 'b \<Rightarrow> byte list \<times> 'b) \<Rightarrow> nat \<Rightarrow> 'b ios \<Rightarrow> byte list \<times> 'b ios" where
  "readsome in_avail sgetn n s =
     (if good s then
        (case in_avail (rdbuf s) of (num, b) \<Rightarrow>
           (if 0 < num then
              (case sgetn (min n (nat num)) b of (bs, b') \<Rightarrow>
                 (bs, s\<lparr>rdbuf := b', gcount := length bs\<rparr>))
            else if num = - 1 then ([], s\<lparr>rdbuf := b, eofbit := True, gcount := 0\<rparr>)
            else ([], s\<lparr>rdbuf := b, gcount := 0\<rparr>)))
      else ([], s\<lparr>failbit := True, gcount := 0\<rparr>))"

text \<open>\<^verbatim>\<open>ostream::write\<close>: nothing happens unless the stream is good; a short \<^verbatim>\<open>sputn\<close> sets badbit.\<close>

definition ostream_write :: "(byte list \<Rightarrow> 'b \<Rightarrow> nat \<times> 'b) \<Rightarrow> byte list \<Rightarrow> 'b ios \<Rightarrow> 'b ios" where
  "ostream_write sputn bs s =
     (if good s then
        (case sputn bs (rdbuf s) of (n, b) \<Rightarrow> s\<lparr>rdbuf := b, badbit := (n \<noteq> length bs)\<rparr>)
      else s)"

text \<open>\<^verbatim>\<open>ostream::flush\<close>: \<^verbatim>\<open>sync\<close> of a good stream, badbit when it returns \<open>-1\<close>.\<close>

definition ostream_flush :: "('b \<Rightarrow> int \<times> 'b) \<Rightarrow> 'b ios \<Rightarrow> 'b ios" where
  "ostream_flush sync s =
     (if good s then
        (case sync (rdbuf s) of (r, b) \<Rightarrow> s\<lparr>rdbuf := b, badbit := (r = - 1)\<rparr>)
      else s)"

text \<open>Positions: \<open>-1\<close> is failure. The buffer's \<^verbatim>\<open>seekoff(0, cur, which)\<close> may move its pointers.\<close>

definition tellp :: "('b \<Rightarrow> int \<times> 'b) \<Rightarrow> 'b ios \<Rightarrow> int \<times> 'b ios" where
  "tellp curp s =
     (if fail_of s then (- 1, s)
      else (case curp (rdbuf s) of (p, b) \<Rightarrow> (p, s\<lparr>rdbuf := b\<rparr>)))"

definition tellg :: "('b \<Rightarrow> int \<times> 'b) \<Rightarrow> 'b ios \<Rightarrow> int \<times> 'b ios" where
  "tellg curg s =
     (if \<not> good s then (- 1, s\<lparr>failbit := True\<rparr>)
      else (case curg (rdbuf s) of (p, b) \<Rightarrow> (p, s\<lparr>rdbuf := b\<rparr>)))"

definition seekp :: "('b \<Rightarrow> int \<times> 'b) \<Rightarrow> 'b ios \<Rightarrow> 'b ios" where
  "seekp setp s =
     (if fail_of s then s
      else (case setp (rdbuf s) of (p, b) \<Rightarrow>
              s\<lparr>rdbuf := b, failbit := (failbit s \<or> p = - 1)\<rparr>))"

definition seekg :: "('b \<Rightarrow> int \<times> 'b) \<Rightarrow> 'b ios \<Rightarrow> 'b ios" where
  "seekg setg s =
     (let s' = s\<lparr>eofbit := False\<rparr> in
      if \<not> good s' then s'\<lparr>failbit := True\<rparr>
      else (case setg (rdbuf s') of (p, b) \<Rightarrow>
              s'\<lparr>rdbuf := b, failbit := (p = - 1)\<rparr>))"

lemma good_init [simp]: "good (ios_init b)"
  by (simp add: good_def ios_init_def)

lemma ios_init_simps [simp]: "rdbuf (ios_init b) = b" "eofbit (ios_init b) = False"
  "failbit (ios_init b) = False" "badbit (ios_init b) = False"
  by (simp_all add: ios_init_def)

text \<open>The library gives a stream one set of state bits for both directions, so a stream that has
  seen end of file accepts no output.\<close>

lemma write_not_good: "\<not> good s \<Longrightarrow> ostream_write sputn bs s = s"
  by (simp add: ostream_write_def)

lemma write_eof: "eofbit s \<Longrightarrow> ostream_write sputn bs s = s"
  by (simp add: ostream_write_def good_def)

lemma readsome_not_good: "\<not> good s \<Longrightarrow> fst (readsome in_avail sgetn n s) = []"
  by (simp add: readsome_def)

section \<open>Contracts of stream buffers\<close>

locale input_buffer =
  fixes in_avail :: "'b \<Rightarrow> int \<times> 'b"
    and sgetn :: "nat \<Rightarrow> 'b \<Rightarrow> byte list \<times> 'b"
    and unread :: "'b \<Rightarrow> byte list"
    and in_inv :: "'b \<Rightarrow> bool"
  assumes in_avail_inv: "in_inv b \<Longrightarrow> in_avail b = (num, b') \<Longrightarrow> in_inv b'"
    and in_avail_unread: "in_inv b \<Longrightarrow> in_avail b = (num, b') \<Longrightarrow> unread b' = unread b"
    and sgetn_spec: "in_inv b \<Longrightarrow> in_avail b = (num, b') \<Longrightarrow> 0 < num \<Longrightarrow> n \<le> nat num \<Longrightarrow>
      sgetn n b' = (bs, b'') \<Longrightarrow> in_inv b'' \<and> length bs = n \<and> unread b' = bs @ unread b''"
begin

text \<open>Extraction takes a prefix of what is unread, no longer than asked for, and loses nothing.\<close>

lemma readsome_prefix:
  assumes inv: "in_inv (rdbuf s)" and r: "readsome in_avail sgetn n s = (bs, s')"
  shows "unread (rdbuf s) = bs @ unread (rdbuf s')" and "in_inv (rdbuf s')"
    and "length bs \<le> n" and "gcount s' = length bs"
proof -
  obtain num b where ia: "in_avail (rdbuf s) = (num, b)" by fastforce
  have b: "in_inv b" "unread b = unread (rdbuf s)"
    using in_avail_inv [OF inv ia] in_avail_unread [OF inv ia] by simp_all
  consider (bad) "\<not> good s" | (avail) "good s" "0 < num" | (none) "good s" "num \<le> 0" by linarith
  then have "unread (rdbuf s) = bs @ unread (rdbuf s') \<and> in_inv (rdbuf s') \<and> length bs \<le> n
    \<and> gcount s' = length bs"
  proof cases
    case bad
    with r inv show ?thesis by (auto simp: readsome_def)
  next
    case avail
    obtain cs c where g: "sgetn (min n (nat num)) b = (cs, c)" by fastforce
    with sgetn_spec [OF inv ia avail(2) _ g]
    have "in_inv c \<and> length cs = min n (nat num) \<and> unread b = cs @ unread c" by simp
    with avail r ia g b show ?thesis by (auto simp: readsome_def)
  next
    case none
    with r ia b show ?thesis by (auto simp: readsome_def split: if_splits)
  qed
  then show "unread (rdbuf s) = bs @ unread (rdbuf s')" and "in_inv (rdbuf s')"
    and "length bs \<le> n" and "gcount s' = length bs" by simp_all
qed

end

locale output_buffer =
  fixes sputn :: "byte list \<Rightarrow> 'b \<Rightarrow> nat \<times> 'b"
    and accepted :: "'b \<Rightarrow> byte list"
    and out_inv :: "'b \<Rightarrow> bool"
  assumes sputn_spec: "out_inv b \<Longrightarrow> sputn bs b = (n, b') \<Longrightarrow>
      out_inv b' \<and> n \<le> length bs \<and> accepted b' = accepted b @ take n bs"
begin

text \<open>A write that leaves the stream without badbit was accepted completely.\<close>

lemma write_accepts:
  assumes "out_inv (rdbuf s)"
  shows "out_inv (rdbuf (ostream_write sputn bs s))"
    and "good s \<Longrightarrow> \<not> badbit (ostream_write sputn bs s) \<Longrightarrow>
      good (ostream_write sputn bs s)
      \<and> accepted (rdbuf (ostream_write sputn bs s)) = accepted (rdbuf s) @ bs"
    and "\<exists>k. accepted (rdbuf (ostream_write sputn bs s)) = accepted (rdbuf s) @ take k bs"
proof -
  obtain n b where w: "sputn bs (rdbuf s) = (n, b)" by fastforce
  note spec = sputn_spec [OF assms w]
  show "out_inv (rdbuf (ostream_write sputn bs s))"
    using spec assms w by (simp add: ostream_write_def)
  show "good (ostream_write sputn bs s)
      \<and> accepted (rdbuf (ostream_write sputn bs s)) = accepted (rdbuf s) @ bs"
    if "good s" and "\<not> badbit (ostream_write sputn bs s)"
    using spec w that by (auto simp: ostream_write_def good_def)
  have "accepted (rdbuf s) = accepted (rdbuf s) @ take 0 bs" by simp
  with spec w show "\<exists>k. accepted (rdbuf (ostream_write sputn bs s)) = accepted (rdbuf s) @ take k bs"
    by (cases "good s") (auto simp: ostream_write_def)
qed

end

section \<open>Copy loops\<close>

text \<open>
  \<^verbatim>\<open>stream_write(os, is, maxlen)\<close>: copy in pieces of at most 256 bytes until the source has none
  or \<open>maxlen\<close> bytes are copied. \<open>rs\<close> is \<^verbatim>\<open>is.readsome\<close>, \<open>wr\<close> is \<^verbatim>\<open>os.write\<close>.
\<close>

function copy_upto ::
  "(nat \<Rightarrow> 'i \<Rightarrow> byte list \<times> 'i) \<Rightarrow> (byte list \<Rightarrow> 'o ios \<Rightarrow> 'o ios) \<Rightarrow>
   nat \<Rightarrow> 'o ios \<Rightarrow> 'i \<Rightarrow> 'o ios \<times> 'i" where
  "copy_upto rs wr maxlen os is =
     (case rs (min maxlen 256) is of (bs, is') \<Rightarrow>
        (if bs = [] then (os, is')
         else (let os' = wr bs os in
               if badbit os' then (os', is')
               else if maxlen \<le> length bs then (os', is')
               else copy_upto rs wr (maxlen - length bs) os' is')))"
  by pat_completeness auto
termination
  by (relation "measure (\<lambda>(rs, wr, maxlen, os, is). maxlen)") auto

declare copy_upto.simps [simp del]

definition stream_write_n ::
  "(nat \<Rightarrow> 'i \<Rightarrow> byte list \<times> 'i) \<Rightarrow> (byte list \<Rightarrow> 'o ios \<Rightarrow> 'o ios) \<Rightarrow>
   int \<Rightarrow> 'o ios \<Rightarrow> 'i \<Rightarrow> 'o ios \<times> 'i" where
  "stream_write_n rs wr maxlen os is =
     (if maxlen \<le> 0 then (os, is) else copy_upto rs wr (nat maxlen) os is)"

text \<open>A copy between two buffers that keep their contracts.\<close>

locale copy_buffers =
  src: input_buffer in_avail sgetn unread in_inv + dst: output_buffer sputn accepted out_inv
  for in_avail :: "'i \<Rightarrow> int \<times> 'i" and sgetn unread in_inv
    and sputn :: "byte list \<Rightarrow> 'o \<Rightarrow> nat \<times> 'o" and accepted out_inv
begin

text \<open>
  Whatever was taken from the source was appended to the destination, in order and completely,
  when the destination ends without badbit and was good to begin with.
\<close>

lemma copy_upto_moves:
  assumes "in_inv (rdbuf is)" and "out_inv (rdbuf os)" and "good os"
    and "copy_upto (readsome in_avail sgetn) (ostream_write sputn) maxlen os is = (os', is')"
  shows "in_inv (rdbuf is') \<and> out_inv (rdbuf os') \<and>
    (\<not> badbit os' \<longrightarrow> good os' \<and>
      (\<exists>bs. length bs \<le> maxlen \<and> unread (rdbuf is) = bs @ unread (rdbuf is')
         \<and> accepted (rdbuf os') = accepted (rdbuf os) @ bs))"
  using assms
proof (induction "readsome in_avail sgetn" "ostream_write sputn" maxlen os "is"
    arbitrary: os' is' rule: copy_upto.induct)
  case (1 maxlen os "is")
  obtain bs is1 where r: "readsome in_avail sgetn (min maxlen 256) is = (bs, is1)" by fastforce
  note rd = src.readsome_prefix [OF "1.prems"(1) r]
  note wr = dst.write_accepts [OF "1.prems"(2), of bs]
  let ?os1 = "ostream_write sputn bs os"
  have eq: "(os', is') = (if bs = [] then (os, is1) else if badbit ?os1 then (?os1, is1)
      else if maxlen \<le> length bs then (?os1, is1)
      else copy_upto (readsome in_avail sgetn) (ostream_write sputn) (maxlen - length bs) ?os1 is1)"
    using "1.prems"(4) unfolding copy_upto.simps [of _ _ maxlen os "is"] r prod.case Let_def
    by (rule sym)
  consider (stop) "bs = []" | (bad) "bs \<noteq> []" "badbit ?os1"
    | (fin) "bs \<noteq> []" "\<not> badbit ?os1" "maxlen \<le> length bs"
    | (more) "bs \<noteq> []" "\<not> badbit ?os1" "\<not> maxlen \<le> length bs" by blast
  then show ?case
  proof cases
    case stop
    with eq rd "1.prems" show ?thesis by simp
  next
    case bad
    with eq rd wr show ?thesis by simp
  next
    case fin
    with eq rd wr(1) wr(2) [OF "1.prems"(3)] show ?thesis by auto
  next
    case more
    have g: "good ?os1" "accepted (rdbuf ?os1) = accepted (rdbuf os) @ bs"
      using wr(2) [OF "1.prems"(3) more(2)] by simp_all
    have "copy_upto (readsome in_avail sgetn) (ostream_write sputn) (maxlen - length bs) ?os1 is1
        = (os', is')" using eq more by simp
    note ih = "1.hyps" [OF r [symmetric] more(1) refl more(2) more(3) rd(2) wr(1) g(1) this]
    show ?thesis
    proof (intro conjI impI)
      show "in_inv (rdbuf is')" "out_inv (rdbuf os')" using ih by simp_all
    next
      assume nb: "\<not> badbit os'"
      then show "good os'" using ih by simp
      from ih nb obtain cs where cs: "length cs \<le> maxlen - length bs"
        "unread (rdbuf is1) = cs @ unread (rdbuf is')"
        "accepted (rdbuf os') = accepted (rdbuf ?os1) @ cs" by auto
      show "\<exists>bs. length bs \<le> maxlen \<and> unread (rdbuf is) = bs @ unread (rdbuf is')
         \<and> accepted (rdbuf os') = accepted (rdbuf os) @ bs"
        using cs rd(1) g(2) more(3) by (intro exI [of _ "bs @ cs"]) simp
    qed
  qed
qed

end

section \<open>\<^verbatim>\<open>std::stringbuf\<close>\<close>

text \<open>
  The characters written so far (up to the high-water mark) with the put and the get position.
  Writing at the put position overwrites what is there and extends the sequence at its end;
  seeking back does not shorten it.
\<close>

record stringbuf =
  sb_data :: "byte list"
  sb_put :: nat
  sb_get :: nat

definition stringbuf_init :: stringbuf where
  "stringbuf_init = \<lparr>sb_data = [], sb_put = 0, sb_get = 0\<rparr>"

definition sb_sputn :: "byte list \<Rightarrow> stringbuf \<Rightarrow> nat \<times> stringbuf" where
  "sb_sputn bs b = (length bs,
     b\<lparr>sb_data := take (sb_put b) (sb_data b) @ bs @ drop (sb_put b + length bs) (sb_data b),
       sb_put := sb_put b + length bs\<rparr>)"

definition sb_in_avail :: "stringbuf \<Rightarrow> int \<times> stringbuf" where
  "sb_in_avail b = (int (length (sb_data b)) - int (sb_get b), b)"

definition sb_sgetn :: "nat \<Rightarrow> stringbuf \<Rightarrow> byte list \<times> stringbuf" where
  "sb_sgetn n b =
     (let bs = take n (drop (sb_get b) (sb_data b)) in (bs, b\<lparr>sb_get := sb_get b + length bs\<rparr>))"

definition sb_seekpos_out :: "int \<Rightarrow> stringbuf \<Rightarrow> int \<times> stringbuf" where
  "sb_seekpos_out pos b =
     (if 0 \<le> pos \<and> pos \<le> int (length (sb_data b)) then (pos, b\<lparr>sb_put := nat pos\<rparr>) else (- 1, b))"

definition sb_seekpos_in :: "int \<Rightarrow> stringbuf \<Rightarrow> int \<times> stringbuf" where
  "sb_seekpos_in pos b =
     (if 0 \<le> pos \<and> pos \<le> int (length (sb_data b)) then (pos, b\<lparr>sb_get := nat pos\<rparr>) else (- 1, b))"

type_synonym stringstream = "stringbuf ios"

abbreviation sstream_readsome :: "nat \<Rightarrow> stringstream \<Rightarrow> byte list \<times> stringstream" where
  "sstream_readsome \<equiv> readsome sb_in_avail sb_sgetn"
abbreviation sstream_write :: "byte list \<Rightarrow> stringstream \<Rightarrow> stringstream" where
  "sstream_write \<equiv> ostream_write sb_sputn"
abbreviation sstream_tellp :: "stringstream \<Rightarrow> int \<times> stringstream" where
  "sstream_tellp \<equiv> tellp (\<lambda>b. (int (sb_put b), b))"
abbreviation sstream_tellg :: "stringstream \<Rightarrow> int \<times> stringstream" where
  "sstream_tellg \<equiv> tellg (\<lambda>b. (int (sb_get b), b))"
abbreviation sstream_seekp :: "int \<Rightarrow> stringstream \<Rightarrow> stringstream" where
  "sstream_seekp pos \<equiv> seekp (sb_seekpos_out pos)"
abbreviation sstream_seekg :: "int \<Rightarrow> stringstream \<Rightarrow> stringstream" where
  "sstream_seekg pos \<equiv> seekg (sb_seekpos_in pos)"

definition sb_inv :: "stringbuf \<Rightarrow> bool" where
  "sb_inv b \<longleftrightarrow> sb_put b \<le> length (sb_data b) \<and> sb_get b \<le> length (sb_data b)"

interpretation sb_in: input_buffer sb_in_avail sb_sgetn "\<lambda>b. drop (sb_get b) (sb_data b)" sb_inv
proof
  fix b num b' n bs b''
  assume inv: "sb_inv b" and ia: "sb_in_avail b = (num, b')"
  then show "sb_inv b'" and "drop (sb_get b') (sb_data b') = drop (sb_get b) (sb_data b)"
    by (auto simp: sb_in_avail_def)
  assume "0 < num" "n \<le> nat num" "sb_sgetn n b' = (bs, b'')"
  with inv ia show "sb_inv b'' \<and> length bs = n
      \<and> drop (sb_get b') (sb_data b') = bs @ drop (sb_get b'') (sb_data b'')"
    using append_take_drop_id [of n "drop (sb_get b) (sb_data b)"]
    by (auto simp: sb_in_avail_def sb_sgetn_def sb_inv_def Let_def min_def add.commute)
qed

interpretation sb_out: output_buffer sb_sputn "\<lambda>b. take (sb_put b) (sb_data b)" sb_inv
proof
  fix b bs n b'
  assume "sb_inv b" and "sb_sputn bs b = (n, b')"
  then show "sb_inv b' \<and> n \<le> length bs
      \<and> take (sb_put b') (sb_data b') = take (sb_put b) (sb_data b) @ take n bs"
    by (auto simp: sb_sputn_def sb_inv_def)
qed

end
