(* ===== verification/Xmsg.thy ===== *)
theory Xmsg
  imports Messages Iostreams
begin

text \<open>
  The message buffer (\<^verbatim>\<open>src/formats/xmsg.hpp\<close>, \<^verbatim>\<open>xmsg.cpp\<close>): a growing stream buffer that assembles
  one message and reads its own length out of the header it holds. The state is the allocated
  memory with the put, get and end-of-get offsets (\<^verbatim>\<open>pbase\<close> and \<^verbatim>\<open>eback\<close> are offset 0, \<^verbatim>\<open>epptr\<close> is
  the size). \<^verbatim>\<open>malloc\<close> and \<^verbatim>\<open>realloc\<close> succeed; memory they return is shown as zeros, and no result
  depends on its content.
  Shown: every operation keeps the pointers in order; a write within the announced length
  appends exactly its bytes however often the buffer has to grow, so the buffer refines a
  plain byte sequence; the accessors read the header fields of the bytes assembled so far.
\<close>

record xmsgbuf =
  xb_mem :: "byte list"
  xb_pptr :: nat
  xb_gptr :: nat
  xb_egptr :: nat

definition BUFINC :: nat where "BUFINC = 4096"

definition xmsgbuf_make :: "nat \<Rightarrow> xmsgbuf" where
  "xmsgbuf_make buflen = \<lparr>xb_mem = replicate buflen 0, xb_pptr = 0, xb_gptr = 0, xb_egptr = 0\<rparr>"

abbreviation xb_epptr :: "xmsgbuf \<Rightarrow> nat" where
  "xb_epptr b \<equiv> length (xb_mem b)"

section \<open>Header accessors\<close>

definition xb_eid :: "xmsgbuf \<Rightarrow> uuid option" where
  "xb_eid b = (if 16 \<le> xb_pptr b then Some (uuid_of_bytes (take 16 (xb_mem b))) else None)"

definition xb_len :: "xmsgbuf \<Rightarrow> msglen option" where
  "xb_len b = (if 16 + 4 \<le> xb_pptr b
     then Some \<lparr>seqno = rd16 (take 2 (drop 16 (xb_mem b))),
                msg_length = rd16 (take 2 (drop 18 (xb_mem b)))\<rparr>
     else None)"

definition xb_version :: "xmsgbuf \<Rightarrow> msgversion option" where
  "xb_version b = (if 20 + 2 \<le> xb_pptr b
     then Some \<lparr>major = xb_mem b ! 20, minor = xb_mem b ! 21\<rparr> else None)"

definition xb_type :: "xmsgbuf \<Rightarrow> msgtype option" where
  "xb_type b = (if 22 + 2 \<le> xb_pptr b
     then Some \<lparr>msg_op = xb_mem b ! 22, msg_flags = xb_mem b ! 23\<rparr> else None)"

text \<open>\<open>len_is b n\<close>: \<^verbatim>\<open>auto *lp = len(); lp && lp->length == n\<close>.\<close>

definition len_is :: "xmsgbuf \<Rightarrow> nat \<Rightarrow> bool" where
  "len_is b n \<longleftrightarrow> (case xb_len b of None \<Rightarrow> False | Some lp \<Rightarrow> unat (msg_length lp) = n)"

section \<open>Buffer operations\<close>

definition xb_showmanyc :: "xmsgbuf \<Rightarrow> int \<times> xmsgbuf" where
  "xb_showmanyc b =
     (if len_is b (xb_gptr b) \<or> xb_pptr b < xb_gptr b then (- 1, b)
      else (int (xb_pptr b) - int (xb_gptr b), b\<lparr>xb_egptr := xb_pptr b\<rparr>))"

definition xb_in_avail :: "xmsgbuf \<Rightarrow> int \<times> xmsgbuf" where
  "xb_in_avail b =
     (if xb_gptr b < xb_egptr b then (int (xb_egptr b) - int (xb_gptr b), b)
      else xb_showmanyc b)"

definition xb_sgetn :: "nat \<Rightarrow> xmsgbuf \<Rightarrow> byte list \<times> xmsgbuf" where
  "xb_sgetn n b =
     (let bs = take n (drop (xb_gptr b) (take (xb_egptr b) (xb_mem b)))
      in (bs, b\<lparr>xb_gptr := xb_gptr b + length bs\<rparr>))"

text \<open>\<^verbatim>\<open>underflow\<close>: the next character, without consuming it, or \<open>None\<close> for end of file.\<close>

definition xb_underflow :: "xmsgbuf \<Rightarrow> byte option \<times> xmsgbuf" where
  "xb_underflow b = (case xb_showmanyc b of (n, b') \<Rightarrow>
     if 0 < n then (Some (xb_mem b' ! xb_gptr b'), b') else (None, b'))"

text \<open>
  \<^verbatim>\<open>overflow\<close> when the put area is full: refused when the message is complete, otherwise the
  memory grows by one increment and the character is stored.
\<close>

definition xb_store :: "byte \<Rightarrow> xmsgbuf \<Rightarrow> xmsgbuf" where
  "xb_store ch b = b\<lparr>xb_mem := (xb_mem b)[xb_pptr b := ch], xb_pptr := Suc (xb_pptr b)\<rparr>"

definition xb_overflow :: "byte \<Rightarrow> xmsgbuf \<Rightarrow> bool \<times> xmsgbuf" where
  "xb_overflow ch b =
     (if len_is b (xb_pptr b) then (False, b)
      else (True, xb_store ch
        (b\<lparr>xb_mem := xb_mem b @ replicate BUFINC 0,
           xb_gptr := min (xb_pptr b) (xb_gptr b), xb_egptr := xb_pptr b\<rparr>)))"

definition xb_sputc :: "byte \<Rightarrow> xmsgbuf \<Rightarrow> bool \<times> xmsgbuf" where
  "xb_sputc ch b = (if xb_pptr b < xb_epptr b then (True, xb_store ch b) else xb_overflow ch b)"

fun xb_sputn :: "byte list \<Rightarrow> xmsgbuf \<Rightarrow> nat \<times> xmsgbuf" where
  "xb_sputn [] b = (0, b)"
| "xb_sputn (ch # bs) b = (case xb_sputc ch b of (ok, b') \<Rightarrow>
     if ok then (case xb_sputn bs b' of (n, b'') \<Rightarrow> (Suc n, b'')) else (0, b'))"

definition xb_seekpos_in :: "int \<Rightarrow> xmsgbuf \<Rightarrow> int \<times> xmsgbuf" where
  "xb_seekpos_in pos b =
     (if pos < 0 \<or> int (xb_pptr b) < pos then (- 1, b)
      else (pos, b\<lparr>xb_gptr := nat pos, xb_egptr := xb_pptr b\<rparr>))"

definition xb_seekpos_out :: "int \<Rightarrow> xmsgbuf \<Rightarrow> int \<times> xmsgbuf" where
  "xb_seekpos_out pos b =
     (if pos < 0 \<or> int (xb_epptr b) < pos then (- 1, b)
      else (pos, b\<lparr>xb_pptr := nat pos, xb_gptr := min (xb_gptr b) (nat pos), xb_egptr := nat pos\<rparr>))"

text \<open>\<^verbatim>\<open>seekoff\<close> for the two directions a call names (\<^verbatim>\<open>in\<close> wins when both are given).\<close>

datatype seekdir = Beg | Cur | End

definition xb_seekoff :: "int \<Rightarrow> seekdir \<Rightarrow> bool \<Rightarrow> bool \<Rightarrow> xmsgbuf \<Rightarrow> int \<times> xmsgbuf" where
  "xb_seekoff off dir which_in which_out b =
     (let seekpos = (\<lambda>pos. if which_in then xb_seekpos_in pos b
                           else if which_out then xb_seekpos_out pos b else (- 1, b))
      in case dir of
           Beg \<Rightarrow> seekpos off
         | End \<Rightarrow> (if which_in then seekpos (int (xb_egptr b) + off)
                   else if which_out then seekpos (int (xb_epptr b) + off)
                   else (- 1, b))
         | Cur \<Rightarrow> (if which_in then seekpos (int (xb_gptr b) + off)
                   else if which_out then seekpos (int (xb_pptr b) + off)
                   else (- 1, b)))"

type_synonym xmsgstream = "xmsgbuf ios"

definition xmsgstream_init :: xmsgstream where
  "xmsgstream_init = ios_init (xmsgbuf_make BUFINC)"

abbreviation xmsg_readsome :: "nat \<Rightarrow> xmsgstream \<Rightarrow> byte list \<times> xmsgstream" where
  "xmsg_readsome \<equiv> readsome xb_in_avail xb_sgetn"
abbreviation xmsg_write :: "byte list \<Rightarrow> xmsgstream \<Rightarrow> xmsgstream" where
  "xmsg_write \<equiv> ostream_write xb_sputn"
abbreviation xmsg_tellp :: "xmsgstream \<Rightarrow> int \<times> xmsgstream" where
  "xmsg_tellp \<equiv> tellp (xb_seekoff 0 Cur False True)"
abbreviation xmsg_tellg :: "xmsgstream \<Rightarrow> int \<times> xmsgstream" where
  "xmsg_tellg \<equiv> tellg (xb_seekoff 0 Cur True False)"
abbreviation xmsg_seekp :: "int \<Rightarrow> xmsgstream \<Rightarrow> xmsgstream" where
  "xmsg_seekp pos \<equiv> seekp (xb_seekpos_out pos)"
abbreviation xmsg_seekg :: "int \<Rightarrow> xmsgstream \<Rightarrow> xmsgstream" where
  "xmsg_seekg pos \<equiv> seekg (xb_seekpos_in pos)"

section \<open>Pointer invariant\<close>

definition xb_inv :: "xmsgbuf \<Rightarrow> bool" where
  "xb_inv b \<longleftrightarrow> xb_gptr b \<le> xb_egptr b \<and> xb_egptr b \<le> xb_pptr b \<and> xb_pptr b \<le> xb_epptr b
     \<and> (xb_epptr b = 0 \<or> BUFINC \<le> xb_epptr b)"

section \<open>Moving\<close>

text \<open>
  \<^verbatim>\<open>swap\<close> exchanges the memory, its size and the pointers of the base class; moving into a new buffer swaps with one that has no memory.
  \<^verbatim>\<open>basic_iostream::swap\<close> exchanges everything but the buffer.
\<close>

definition xmsgbuf_swap :: "xmsgbuf \<Rightarrow> xmsgbuf \<Rightarrow> xmsgbuf \<times> xmsgbuf" where
  "xmsgbuf_swap a b =
     (a\<lparr>xb_mem := xb_mem b, xb_pptr := xb_pptr b, xb_gptr := xb_gptr b, xb_egptr := xb_egptr b\<rparr>,
      b\<lparr>xb_mem := xb_mem a, xb_pptr := xb_pptr a, xb_gptr := xb_gptr a, xb_egptr := xb_egptr a\<rparr>)"

definition xmsgbuf_move :: "xmsgbuf \<Rightarrow> xmsgbuf \<times> xmsgbuf" where
  "xmsgbuf_move other = xmsgbuf_swap (xmsgbuf_make 0) other"

definition xmsgstream_swap :: "xmsgstream \<Rightarrow> xmsgstream \<Rightarrow> xmsgstream \<times> xmsgstream" where
  "xmsgstream_swap a b =
     (case xmsgbuf_swap (rdbuf a) (rdbuf b) of (x, y) \<Rightarrow>
        (a\<lparr>rdbuf := x, gcount := gcount b, badbit := badbit b, failbit := failbit b, eofbit := eofbit b\<rparr>,
         b\<lparr>rdbuf := y, gcount := gcount a, badbit := badbit a, failbit := failbit a, eofbit := eofbit a\<rparr>))"

definition xmsgstream_move :: "xmsgstream \<Rightarrow> xmsgstream \<times> xmsgstream" where
  "xmsgstream_move other = xmsgstream_swap (ios_init (xmsgbuf_make 0)) other"

text \<open>a move hands over the message being assembled and the stream state; what stays behind is an empty buffer that can be used again.\<close>

theorem xmsgstream_move_transfers:
  "xmsgstream_move s = (s, ios_init (xmsgbuf_make 0)) \<and> xb_inv (xmsgbuf_make 0) \<and> good (ios_init (xmsgbuf_make 0))"
  by (simp add: xmsgstream_move_def xmsgstream_swap_def xmsgbuf_swap_def xb_inv_def xmsgbuf_make_def good_def ios_init_def)

text \<open>The bytes assembled so far, and those of them not yet read.\<close>

definition xb_bytes :: "xmsgbuf \<Rightarrow> byte list" where
  "xb_bytes b = take (xb_pptr b) (xb_mem b)"

definition xb_unread :: "xmsgbuf \<Rightarrow> byte list" where
  "xb_unread b = drop (xb_gptr b) (xb_bytes b)"

lemma length_xb_bytes: "xb_inv b \<Longrightarrow> length (xb_bytes b) = xb_pptr b"
  by (simp add: xb_inv_def xb_bytes_def)

lemma xb_make_inv [inv_intros]: "n = 0 \<or> BUFINC \<le> n \<Longrightarrow> xb_inv (xmsgbuf_make n)"
  by (auto simp: xb_inv_def xmsgbuf_make_def)

lemma xb_bytes_make [simp]: "xb_bytes (xmsgbuf_make n) = []"
  by (simp add: xb_bytes_def xmsgbuf_make_def)

lemma xb_showmanyc_inv [inv_intros]: "xb_inv b \<Longrightarrow> xb_inv (snd (xb_showmanyc b))"
  by (auto simp: xb_showmanyc_def xb_inv_def)

lemma xb_in_avail_inv [inv_intros]: "xb_inv b \<Longrightarrow> xb_inv (snd (xb_in_avail b))"
  by (simp add: xb_in_avail_def xb_showmanyc_inv)

lemma xb_in_avail_frame [simp]:
  "xb_mem (snd (xb_in_avail b)) = xb_mem b" "xb_pptr (snd (xb_in_avail b)) = xb_pptr b"
  "xb_gptr (snd (xb_in_avail b)) = xb_gptr b"
  by (auto simp: xb_in_avail_def xb_showmanyc_def)

lemma xb_sgetn_inv [inv_intros]: "xb_inv b \<Longrightarrow> xb_inv (snd (xb_sgetn n b))"
  by (auto simp: xb_sgetn_def xb_inv_def Let_def)

lemma xb_overflow_inv [inv_intros]: "xb_inv b \<Longrightarrow> xb_inv (snd (xb_overflow ch b))"
  by (auto simp: xb_overflow_def xb_store_def xb_inv_def BUFINC_def)

lemma xb_sputc_inv [inv_intros]: "xb_inv b \<Longrightarrow> xb_inv (snd (xb_sputc ch b))"
  by (auto simp: xb_sputc_def xb_overflow_def xb_store_def xb_inv_def BUFINC_def)

lemma xb_sputn_inv [inv_intros]: "xb_inv b \<Longrightarrow> xb_inv (snd (xb_sputn bs b))"
proof (induction bs arbitrary: b)
  case Nil
  then show ?case by simp
next
  case (Cons ch bs)
  obtain ok b' where s: "xb_sputc ch b = (ok, b')" by fastforce
  with xb_sputc_inv [OF Cons.prems, of ch] have "xb_inv b'" by simp
  from Cons.IH [OF this] show ?case using s \<open>xb_inv b'\<close>
    by (cases "xb_sputn bs b'") simp
qed

lemma xb_seek_inv [inv_intros]:
  "xb_inv b \<Longrightarrow> xb_inv (snd (xb_seekpos_in pos b))"
  "xb_inv b \<Longrightarrow> xb_inv (snd (xb_seekpos_out pos b))"
  by (auto simp: xb_seekpos_in_def xb_seekpos_out_def xb_inv_def)

lemma xb_seekoff_inv [inv_intros]: "xb_inv b \<Longrightarrow> xb_inv (snd (xb_seekoff off dir i out b))"
  by (cases dir) (simp_all add: xb_seekoff_def Let_def xb_seek_inv)

lemma xb_tell:
  assumes "xb_inv b"
  shows "xb_seekoff 0 Cur False True b = (int (xb_pptr b), b\<lparr>xb_egptr := xb_pptr b\<rparr>)"
    and "xb_seekoff 0 Cur True False b = (int (xb_gptr b), b\<lparr>xb_egptr := xb_pptr b\<rparr>)"
  using assms
  by (simp_all add: xb_seekoff_def xb_seekpos_in_def xb_seekpos_out_def xb_inv_def min_absorb1)

section \<open>Refinement to a byte sequence\<close>

lemma xb_sputc_bytes:
  assumes "xb_inv b" and "xb_sputc ch b = (True, b')"
  shows "xb_bytes b' = xb_bytes b @ [ch]" and "xb_pptr b' = Suc (xb_pptr b)"
    and "xb_gptr b' = xb_gptr b"
  using assms
  by (auto simp: xb_sputc_def xb_overflow_def xb_store_def xb_bytes_def xb_inv_def take_Suc_conv_app_nth
      BUFINC_def split: if_splits)

lemma xb_sputn_bytes:
  assumes "xb_inv b" and "xb_sputn bs b = (n, b')"
  shows "n \<le> length bs \<and> xb_bytes b' = xb_bytes b @ take n bs \<and> xb_pptr b' = xb_pptr b + n
    \<and> xb_gptr b' = xb_gptr b"
  using assms
proof (induction bs arbitrary: b n b')
  case Nil
  then show ?case by simp
next
  case (Cons ch bs)
  obtain ok b1 where s: "xb_sputc ch b = (ok, b1)" by fastforce
  show ?case
  proof (cases ok)
    case False
    with s have "b1 = b" by (auto simp: xb_sputc_def xb_overflow_def split: if_splits)
    with Cons.prems s False show ?thesis by simp
  next
    case True
    obtain m b2 where r: "xb_sputn bs b1 = (m, b2)" by fastforce
    have "xb_inv b1" using xb_sputc_inv [OF Cons.prems(1), of ch] s by simp
    note ih = Cons.IH [OF this r]
    note c = xb_sputc_bytes [OF Cons.prems(1), of ch b1]
    from Cons.prems(2) s True r have "n = Suc m" "b' = b2" by simp_all
    with ih c s True show ?thesis by simp
  qed
qed

interpretation xb_out: output_buffer xb_sputn xb_bytes xb_inv
proof
  fix b bs n b'
  assume i: "xb_inv b" and s: "xb_sputn bs b = (n, b')"
  show "xb_inv b' \<and> n \<le> length bs \<and> xb_bytes b' = xb_bytes b @ take n bs"
    using xb_sputn_bytes [OF i s] xb_sputn_inv [OF i, of bs] s by simp
qed

interpretation xb_in: input_buffer xb_in_avail xb_sgetn xb_unread xb_inv
proof
  fix b num b' n bs b''
  assume inv: "xb_inv b" and ia: "xb_in_avail b = (num, b')"
  show inv': "xb_inv b'" using xb_in_avail_inv [OF inv] ia by simp
  have "xb_mem b' = xb_mem b" "xb_pptr b' = xb_pptr b" "xb_gptr b' = xb_gptr b"
    using xb_in_avail_frame [of b] ia by simp_all
  then show "xb_unread b' = xb_unread b" by (simp add: xb_unread_def xb_bytes_def)
  assume "0 < num" "n \<le> nat num" and g: "xb_sgetn n b' = (bs, b'')"
  with ia have n: "n \<le> xb_egptr b' - xb_gptr b'"
    by (auto simp: xb_in_avail_def xb_showmanyc_def split: if_splits)
  have e: "xb_egptr b' \<le> xb_pptr b'" "xb_pptr b' \<le> length (xb_mem b')" "xb_gptr b' \<le> xb_egptr b'"
    using inv' by (auto simp: xb_inv_def)
  have "drop (xb_gptr b') (take (xb_pptr b') (xb_mem b'))
      = take n (drop (xb_gptr b') (take (xb_egptr b') (xb_mem b')))
        @ drop (xb_gptr b' + n) (take (xb_pptr b') (xb_mem b'))"
  proof -
    have "take n (drop (xb_gptr b') (take (xb_egptr b') (xb_mem b')))
        = take n (drop (xb_gptr b') (take (xb_pptr b') (xb_mem b')))"
      using n e by (simp add: drop_take min_def)
    then show ?thesis by (simp add: add.commute flip: drop_drop)
  qed
  then show "xb_inv b'' \<and> length bs = n \<and> xb_unread b' = bs @ xb_unread b''"
    using g n e inv'
    by (auto simp: xb_sgetn_def Let_def xb_unread_def xb_bytes_def xb_inv_def min_def)
qed

text \<open>
  When a write is accepted in full: it fits, or nothing is allocated yet and it fits the first
  increment, or the header is complete and the write stays within the announced length.
\<close>

definition xb_accepts :: "xmsgbuf \<Rightarrow> nat \<Rightarrow> bool" where
  "xb_accepts b n \<longleftrightarrow> xb_pptr b + n \<le> xb_epptr b
     \<or> xb_epptr b = 0 \<and> n \<le> BUFINC
     \<or> 24 \<le> xb_pptr b \<and> (\<exists>lp. xb_len b = Some lp \<and> xb_pptr b + n \<le> unat (msg_length lp))"

lemma xb_len_bytes:
  assumes "xb_inv b"
  shows "xb_len b = (if 20 \<le> length (xb_bytes b)
     then Some \<lparr>seqno = rd16 (take 2 (drop 16 (xb_bytes b))),
                msg_length = rd16 (take 2 (drop 18 (xb_bytes b)))\<rparr> else None)"
  unfolding length_xb_bytes [OF assms] by (auto simp: xb_len_def xb_bytes_def drop_take min_def)

lemma xb_len_extend:
  assumes "xb_inv b" "xb_inv b'" "xb_bytes b' = xb_bytes b @ bs" "24 \<le> xb_pptr b"
  shows "xb_len b' = xb_len b"
  using assms by (simp add: xb_len_bytes length_xb_bytes [symmetric])

lemma xb_sputc_accepts:
  assumes inv: "xb_inv b" and acc: "xb_accepts b (Suc n)"
  shows "\<exists>b'. xb_sputc ch b = (True, b') \<and> xb_accepts b' n"
proof (cases "xb_pptr b < xb_epptr b")
  case True
  then have s: "xb_sputc ch b = (True, xb_store ch b)" by (simp add: xb_sputc_def)
  have i': "xb_inv (xb_store ch b)" using xb_sputc_inv [OF inv, of ch] s by simp
  have by': "xb_bytes (xb_store ch b) = xb_bytes b @ [ch]" using xb_sputc_bytes(1) [OF inv s] .
  have "xb_accepts (xb_store ch b) n"
  proof (cases "xb_pptr b + Suc n \<le> xb_epptr b")
    case True
    then show ?thesis by (simp add: xb_accepts_def xb_store_def)
  next
    case False
    with True acc have "24 \<le> xb_pptr b" "\<exists>lp. xb_len b = Some lp \<and> xb_pptr b + Suc n \<le> unat (msg_length lp)"
      by (auto simp: xb_accepts_def)
    with xb_len_extend [OF inv i' by'] show ?thesis by (simp add: xb_accepts_def) (simp add: xb_store_def)
  qed
  with s show ?thesis by blast
next
  case False
  have full: "xb_pptr b = xb_epptr b" using False inv by (simp add: xb_inv_def)
  have nl: "\<not> len_is b (xb_pptr b)"
  proof (cases "xb_epptr b = 0")
    case True
    with full show ?thesis by (simp add: len_is_def xb_len_def)
  next
    case F: False
    with full acc show ?thesis by (auto simp: xb_accepts_def len_is_def)
  qed
  then obtain b' where s: "xb_sputc ch b = (True, b')" using False by (simp add: xb_sputc_def xb_overflow_def)
  have i': "xb_inv b'" using xb_sputc_inv [OF inv, of ch] s by simp
  note by' = xb_sputc_bytes [OF inv s]
  have mem: "xb_epptr b' = xb_epptr b + BUFINC"
    using s nl False by (auto simp: xb_sputc_def xb_overflow_def xb_store_def)
  have "xb_accepts b' n"
  proof (cases "xb_epptr b = 0")
    case True
    with full acc mem by'(2) show ?thesis by (auto simp: xb_accepts_def BUFINC_def)
  next
    case F: False
    with full acc have "24 \<le> xb_pptr b" "\<exists>lp. xb_len b = Some lp \<and> xb_pptr b + Suc n \<le> unat (msg_length lp)"
      by (auto simp: xb_accepts_def)
    with xb_len_extend [OF inv i' by'(1)] by'(2) show ?thesis by (auto simp: xb_accepts_def)
  qed
  with s show ?thesis by blast
qed

lemma xb_sputn_accepts:
  assumes "xb_inv b" and "xb_accepts b (length bs)"
  shows "fst (xb_sputn bs b) = length bs"
  using assms
proof (induction bs arbitrary: b)
  case Nil
  then show ?case by simp
next
  case (Cons ch bs)
  then obtain b' where s: "xb_sputc ch b = (True, b')" and a: "xb_accepts b' (length bs)"
    using xb_sputc_accepts [OF Cons.prems(1), of "length bs" ch] by auto
  have "xb_inv b'" using xb_sputc_inv [OF Cons.prems(1), of ch] s by simp
  from Cons.IH [OF this a] s show ?case by (cases "xb_sputn bs b'") simp
qed

text \<open>The write a caller sees: an accepted write leaves the stream good with its bytes appended.\<close>

lemma xmsg_write_ok:
  assumes "xb_inv (rdbuf s)" and "good s" and "xb_accepts (rdbuf s) (length bs)"
  shows "good (xmsg_write bs s)" and "xb_inv (rdbuf (xmsg_write bs s))"
    and "xb_bytes (rdbuf (xmsg_write bs s)) = xb_bytes (rdbuf s) @ bs"
    and "xb_gptr (rdbuf (xmsg_write bs s)) = xb_gptr (rdbuf s)"
proof -
  obtain n b where w: "xb_sputn bs (rdbuf s) = (n, b)" by fastforce
  then have n: "n = length bs" using xb_sputn_accepts [OF assms(1,3)] by simp
  then have nb: "\<not> badbit (xmsg_write bs s)" using w assms(2) by (simp add: ostream_write_def)
  from xb_out.write_accepts(2) [OF assms(1,2) nb]
  show "good (xmsg_write bs s)" and "xb_bytes (rdbuf (xmsg_write bs s)) = xb_bytes (rdbuf s) @ bs"
    by simp_all
  show "xb_inv (rdbuf (xmsg_write bs s))" by (rule xb_out.write_accepts(1) [OF assms(1)])
  show "xb_gptr (rdbuf (xmsg_write bs s)) = xb_gptr (rdbuf s)"
    using xb_sputn_bytes [OF assms(1) w] w assms(2) by (simp add: ostream_write_def)
qed

section \<open>Header fields of the assembled bytes\<close>

lemma xb_fields:
  assumes "xb_inv b" and "24 \<le> length (xb_bytes b)"
  shows "xb_eid b = Some (msg_eid (header_of_bytes (xb_bytes b)))"
    and "xb_len b = Some (msg_len (header_of_bytes (xb_bytes b)))"
    and "xb_version b = Some (msg_version (header_of_bytes (xb_bytes b)))"
    and "xb_type b = Some (msg_type (header_of_bytes (xb_bytes b)))"
  using assms(2) unfolding length_xb_bytes [OF assms(1)]
  by (auto simp: xb_eid_def xb_len_def xb_version_def xb_type_def header_of_bytes_def
      xb_bytes_def drop_take min_def)

lemma header_of_bytes_append: "length hs = 24 \<Longrightarrow> header_of_bytes (hs @ bs) = header_of_bytes hs"
  by (simp add: header_of_bytes_def nth_append)

section \<open>Unbounded copy out of a message\<close>

text \<open>
  \<^verbatim>\<open>stream_write(os, is)\<close> with a message stream as its source: it ends because every round takes
  at least one of the unread bytes.
\<close>

lemma xb_in_avail_pos:
  assumes "xb_in_avail b = (num, b')" and "0 < num"
  shows "xb_gptr b < xb_egptr b' \<and> xb_egptr b' - xb_gptr b' = nat num \<and> xb_gptr b' = xb_gptr b
    \<and> xb_mem b' = xb_mem b \<and> xb_pptr b' = xb_pptr b"
  using assms by (auto simp: xb_in_avail_def xb_showmanyc_def split: if_splits)

lemma xmsg_readsome_progress:
  assumes "xmsg_readsome n s = (bs, s')" and "bs \<noteq> []"
  shows "xb_epptr (rdbuf s') - xb_gptr (rdbuf s') < xb_epptr (rdbuf s) - xb_gptr (rdbuf s)"
proof -
  obtain num b where ia: "xb_in_avail (rdbuf s) = (num, b)" by fastforce
  from assms have g: "good s" and pos: "0 < num"
    by (auto simp: readsome_def ia split: if_splits)
  note p = xb_in_avail_pos [OF ia pos]
  have "bs = take (min n (nat num)) (drop (xb_gptr b) (take (xb_egptr b) (xb_mem b)))"
    and s': "rdbuf s' = b\<lparr>xb_gptr := xb_gptr b + length bs\<rparr>"
    using assms(1) g pos ia by (auto simp: readsome_def xb_sgetn_def Let_def)
  then have "0 < length bs" "length bs \<le> length (xb_mem b) - xb_gptr b"
    using assms(2) by (auto simp: min_def)
  with p have "xb_epptr b - (xb_gptr b + length bs) < xb_epptr (rdbuf s) - xb_gptr (rdbuf s)"
    by (metis add_less_cancel_left diff_less_mono2 le_zero_eq nat_add_left_cancel_less not_le
        add.right_neutral zero_less_diff order_less_le_trans)
  with s' show ?thesis by simp
qed

function stream_write_xmsg ::
  "(byte list \<Rightarrow> 'o ios \<Rightarrow> 'o ios) \<Rightarrow> 'o ios \<Rightarrow> xmsgstream \<Rightarrow> 'o ios \<times> xmsgstream" where
  "stream_write_xmsg wr os is =
     (case xmsg_readsome 256 is of (bs, is') \<Rightarrow>
        (if bs = [] then (os, is')
         else (let os' = wr bs os in
               if badbit os' then (os', is') else stream_write_xmsg wr os' is')))"
  by pat_completeness auto
termination
  by (relation "measure (\<lambda>(wr, os, is). xb_epptr (rdbuf is) - xb_gptr (rdbuf is))")
    (auto simp del: diff_less_mono2 intro!: xmsg_readsome_progress)

declare stream_write_xmsg.simps [simp del]


text \<open>A complete message: its announced length is what has been assembled.\<close>

definition xb_complete :: "xmsgbuf \<Rightarrow> bool" where
  "xb_complete b \<longleftrightarrow> xb_inv b \<and> len_is b (xb_pptr b)"

lemma len_is_cong:
  "xb_mem b' = xb_mem b \<Longrightarrow> xb_pptr b' = xb_pptr b \<Longrightarrow> len_is b' n \<longleftrightarrow> len_is b n"
  by (simp add: len_is_def xb_len_def)

lemma len_is_fun: "len_is b m \<Longrightarrow> len_is b n \<Longrightarrow> m = n"
  by (auto simp: len_is_def split: option.splits)

lemma xmsg_readsome_complete:
  assumes c: "xb_complete (rdbuf s)" and g: "good s" and r: "xmsg_readsome n s = (bs, s')"
    and n: "0 < n"
  shows "xb_complete (rdbuf s') \<and> xb_bytes (rdbuf s') = xb_bytes (rdbuf s)
    \<and> xb_unread (rdbuf s) = bs @ xb_unread (rdbuf s')
    \<and> (bs = [] \<longleftrightarrow> xb_unread (rdbuf s) = [])
    \<and> (bs \<noteq> [] \<longrightarrow> good s') \<and> (bs = [] \<longrightarrow> eofbit s' \<and> \<not> failbit s' \<and> \<not> badbit s')"
proof -
  have inv: "xb_inv (rdbuf s)" using c by (simp add: xb_complete_def)
  obtain num b where ia: "xb_in_avail (rdbuf s) = (num, b)" by fastforce
  have fr: "xb_mem b = xb_mem (rdbuf s)" "xb_pptr b = xb_pptr (rdbuf s)" "xb_gptr b = xb_gptr (rdbuf s)"
    using xb_in_avail_frame [of "rdbuf s"] ia by simp_all
  have ur: "xb_unread (rdbuf s) = [] \<longleftrightarrow> xb_gptr (rdbuf s) = xb_pptr (rdbuf s)"
    using inv length_xb_bytes [OF inv] by (auto simp: xb_unread_def xb_inv_def)
  have num: "num = (if xb_unread (rdbuf s) = [] then - 1 else num)"
    "xb_unread (rdbuf s) \<noteq> [] \<longrightarrow> 0 < num"
    using ia c len_is_fun [of "rdbuf s" "xb_gptr (rdbuf s)" "xb_pptr (rdbuf s)"] unfolding ur
    by (auto simp: xb_in_avail_def xb_showmanyc_def xb_complete_def xb_inv_def split: if_splits)
  have pre: "xb_unread (rdbuf s) = bs @ xb_unread (rdbuf s')" "xb_inv (rdbuf s')"
    using xb_in.readsome_prefix [OF inv r] by simp_all
  have frame: "xb_mem (rdbuf s') = xb_mem (rdbuf s)" "xb_pptr (rdbuf s') = xb_pptr (rdbuf s)"
    using r g ia fr by (auto simp: readsome_def xb_sgetn_def Let_def split: if_splits)
  have comp: "xb_complete (rdbuf s')"
    using pre(2) c frame len_is_cong [OF frame] by (simp add: xb_complete_def)
  have by': "xb_bytes (rdbuf s') = xb_bytes (rdbuf s)" using frame by (simp add: xb_bytes_def)
  show ?thesis
  proof (cases "xb_unread (rdbuf s) = []")
    case True
    then have "num = - 1" using num(1) by simp
    then have "bs = []" "s' = s\<lparr>rdbuf := b, eofbit := True, gcount := 0\<rparr>"
      using r g ia by (auto simp: readsome_def)
    with True g comp by' pre show ?thesis by (simp add: good_def)
  next
    case False
    then have pos: "0 < num" using num(2) by simp
    note p = xb_in_avail_pos [OF ia pos]
    have bs: "bs = take (min n (nat num)) (drop (xb_gptr b) (take (xb_egptr b) (xb_mem b)))"
      and s': "s' = s\<lparr>rdbuf := b\<lparr>xb_gptr := xb_gptr b + length bs\<rparr>, gcount := length bs\<rparr>"
      using r g pos ia by (auto simp: readsome_def xb_sgetn_def Let_def)
    have "xb_inv b" using xb_in_avail_inv [OF inv] ia by simp
    then have "bs \<noteq> []" using bs p n pos by (auto simp: xb_inv_def)
    with s' g comp by' pre False show ?thesis by (simp add: good_def)
  qed
qed

context output_buffer
begin

text \<open>
  The payload of a complete message reaches a good destination whole and in order: when the copy
  ends without badbit, all unread bytes were appended, the message is exhausted (its stream is
  at end of file) and the destination is still good.
\<close>

lemma stream_write_xmsg_moves:
  assumes "xb_complete (rdbuf is)" and "good is" and "good os" and "out_inv (rdbuf os)"
    and "stream_write_xmsg (ostream_write sputn) os is = (os', is')"
  shows "out_inv (rdbuf os') \<and> (\<not> badbit os' \<longrightarrow>
      good os' \<and> accepted (rdbuf os') = accepted (rdbuf os) @ xb_unread (rdbuf is)
      \<and> xb_unread (rdbuf is') = [] \<and> eofbit is' \<and> \<not> failbit is' \<and> \<not> badbit is'
      \<and> xb_complete (rdbuf is') \<and> xb_bytes (rdbuf is') = xb_bytes (rdbuf is))"
  using assms
proof (induction "ostream_write sputn" os "is" arbitrary: os' is' rule: stream_write_xmsg.induct)
  case (1 os "is")
  obtain bs is1 where r: "xmsg_readsome 256 is = (bs, is1)" by fastforce
  note rd = xmsg_readsome_complete [OF "1.prems"(1,2) r]
  let ?os1 = "ostream_write sputn bs os"
  have eq: "(os', is') = (if bs = [] then (os, is1) else if badbit ?os1 then (?os1, is1)
      else stream_write_xmsg (ostream_write sputn) ?os1 is1)"
    using "1.prems"(5) unfolding stream_write_xmsg.simps [of _ os "is"] r prod.case Let_def
    by (rule sym)
  note wr = write_accepts [OF "1.prems"(4), of bs]
  consider (stop) "bs = []" | (bad) "bs \<noteq> []" "badbit ?os1" | (more) "bs \<noteq> []" "\<not> badbit ?os1"
    by blast
  then show ?case
  proof cases
    case stop
    with rd have "xb_unread (rdbuf is) = [] \<and> xb_unread (rdbuf is1) = []" by auto
    with stop eq rd "1.prems"(3,4) show ?thesis by simp
  next
    case bad
    with eq wr show ?thesis by simp
  next
    case more
    have g: "good ?os1" "accepted (rdbuf ?os1) = accepted (rdbuf os) @ bs"
      using wr(2) [OF "1.prems"(3) more(2)] by simp_all
    have "stream_write_xmsg (ostream_write sputn) ?os1 is1 = (os', is')" using eq more by simp
    from "1.hyps" [OF r [symmetric] more(1) refl more(2) _ _ g(1) wr(1) this] rd more
    have "out_inv (rdbuf os') \<and> (\<not> badbit os' \<longrightarrow>
      good os' \<and> accepted (rdbuf os') = accepted (rdbuf ?os1) @ xb_unread (rdbuf is1)
      \<and> xb_unread (rdbuf is') = [] \<and> eofbit is' \<and> \<not> failbit is' \<and> \<not> badbit is'
      \<and> xb_complete (rdbuf is') \<and> xb_bytes (rdbuf is') = xb_bytes (rdbuf is1))" by simp
    with g rd show ?thesis by simp
  qed
qed

end

section \<open>Properties\<close>

text \<open>every operation of the message buffer keeps its pointers ordered inside the allocated
  memory (\<^verbatim>\<open>eback \<le> gptr \<le> egptr \<le> pptr \<le> epptr\<close>), from construction on.\<close>

theorem xmsgbuf_pointers_ordered:
  "xb_inv (xmsgbuf_make BUFINC)
   \<and> (xb_inv b \<longrightarrow> xb_inv (snd (xb_showmanyc b)) \<and> xb_inv (snd (xb_in_avail b))
        \<and> xb_inv (snd (xb_sgetn n b)) \<and> xb_inv (snd (xb_underflow b))
        \<and> xb_inv (snd (xb_sputn bs b)) \<and> xb_inv (snd (xb_overflow ch b))
        \<and> xb_inv (snd (xb_sputc ch b))
        \<and> xb_inv (snd (xb_seekpos_in pos b)) \<and> xb_inv (snd (xb_seekpos_out pos b))
        \<and> xb_inv (snd (xb_seekoff off dir i out b)))"
proof -
  have "snd (xb_underflow b) = snd (xb_showmanyc b)"
    by (cases "xb_showmanyc b") (simp add: xb_underflow_def)
  then show ?thesis by (simp add: inv_intros)
qed


theorem xmsgbuf_pointers_ordered_witness:
  "xb_inv (xmsgbuf_make BUFINC)
   \<and> xb_inv (snd (xb_sputn [1, 2, 3] (xmsgbuf_make BUFINC)))
   \<and> xb_inv (snd (xb_seekoff 0 End True False (xmsgbuf_make BUFINC)))"
  using xmsgbuf_pointers_ordered [of "xmsgbuf_make BUFINC" 0 "[1, 2, 3]" 0 0 0 End True False]
  by blast

text \<open>once a header is assembled, writing any bytes that stay within the length the header
  announces appends exactly those bytes, keeps the stream good, and leaves the read position
  and the header fields as they were, however often the buffer has to grow on the way.\<close>

theorem xmsg_write_within_length:
  assumes "xb_inv (rdbuf s)" and "good s" and "24 \<le> xb_pptr (rdbuf s)"
    and "xb_len (rdbuf s) = Some lp"
    and "xb_pptr (rdbuf s) + length bs \<le> unat (msg_length lp)"
  shows "good (xmsg_write bs s)
    \<and> xb_bytes (rdbuf (xmsg_write bs s)) = xb_bytes (rdbuf s) @ bs
    \<and> xb_gptr (rdbuf (xmsg_write bs s)) = xb_gptr (rdbuf s)
    \<and> xb_len (rdbuf (xmsg_write bs s)) = Some lp
    \<and> xb_eid (rdbuf (xmsg_write bs s)) = xb_eid (rdbuf s)
    \<and> xb_type (rdbuf (xmsg_write bs s)) = xb_type (rdbuf s)"
proof -
  let ?s = "xmsg_write bs s"
  have acc: "xb_accepts (rdbuf s) (length bs)" using assms(3-5) by (auto simp: xb_accepts_def)
  note w = xmsg_write_ok [OF assms(1,2) acc]
  have l: "24 \<le> length (xb_bytes (rdbuf s))" "24 \<le> length (xb_bytes (rdbuf ?s))"
    using assms(3) w(3) by (simp_all add: length_xb_bytes assms(1))
  have "header_of_bytes (xb_bytes (rdbuf ?s)) = header_of_bytes (xb_bytes (rdbuf s))"
    using header_of_bytes_append [of "take 24 (xb_bytes (rdbuf s))" "drop 24 (xb_bytes (rdbuf s)) @ bs"]
      header_of_bytes_append [of "take 24 (xb_bytes (rdbuf s))" "drop 24 (xb_bytes (rdbuf s))"]
      l(1) w(3) by (simp flip: append_assoc)
  with w assms(1,4) l show ?thesis by (simp add: xb_fields)
qed

definition sample_header :: "u16 \<Rightarrow> byte \<Rightarrow> byte \<Rightarrow> msgheader" where
  "sample_header n op fl = \<lparr>msg_eid = zero_uuid, msg_len = \<lparr>seqno = 1, msg_length = n\<rparr>,
     msg_version = \<lparr>major = 0, minor = 0\<rparr>, msg_type = \<lparr>msg_op = op, msg_flags = fl\<rparr>\<rparr>"

theorem xmsg_write_within_length_witness:
  "\<exists>s lp. xb_inv (rdbuf s) \<and> good s \<and> 24 \<le> xb_pptr (rdbuf s) \<and> xb_len (rdbuf s) = Some lp
     \<and> xb_pptr (rdbuf s) + length [1 :: byte, 2] \<le> unat (msg_length lp)
     \<and> xb_bytes (rdbuf (xmsg_write [1, 2] s)) = xb_bytes (rdbuf s) @ [1, 2]"
proof -
  let ?h = "header_bytes (sample_header 26 DATA INIT)"
  let ?s = "xmsg_write ?h xmsgstream_init"
  have i: "xb_inv (rdbuf xmsgstream_init)" "good xmsgstream_init"
    by (simp_all add: xmsgstream_init_def inv_intros)
  have "xb_accepts (rdbuf xmsgstream_init) (length ?h)"
    by (simp add: xb_accepts_def xmsgstream_init_def xmsgbuf_make_def BUFINC_def)
  note w = xmsg_write_ok [OF i this]
  have b: "xb_bytes (rdbuf ?s) = ?h" using w(3) by (simp add: xmsgstream_init_def)
  have p: "xb_pptr (rdbuf ?s) = 24" using length_xb_bytes [OF w(2)] b by simp
  have l: "xb_len (rdbuf ?s) = Some \<lparr>seqno = 1, msg_length = 26\<rparr>"
    using xb_fields(2) [OF w(2)] b by (simp add: sample_header_def)
  have "xb_bytes (rdbuf (xmsg_write [1, 2] ?s)) = xb_bytes (rdbuf ?s) @ [1, 2]"
    using xmsg_write_within_length [OF w(2) w(1) _ l, of "[1, 2]"] p by simp
  with w l p show ?thesis by (intro exI [of _ ?s] exI [of _ "\<lparr>seqno = 1, msg_length = 26\<rparr>"]) simp
qed

end
