(* ===== verification/Poller.thy ===== *)
theory Poller
  imports Bus_Prelude
begin

unbundle bit_operations_syntax

text \<open>
  The interest list and the poller (\<^verbatim>\<open>src/io/io.hpp\<close> \<^verbatim>\<open>basic_trigger\<close>, \<^verbatim>\<open>src/io/poller.cpp\<close>): two vectors
  ordered by file descriptor, one with the 32-bit trigger masks, one with the \<^verbatim>\<open>struct pollfd\<close>
  entries handed to \<^verbatim>\<open>poll\<close>. \<open>None\<close> stands for \<^verbatim>\<open>npos\<close>.
  Shown: \<^verbatim>\<open>set\<close> and \<^verbatim>\<open>clear\<close> implement a map from descriptors to masks, and the vector given to
  \<^verbatim>\<open>poll\<close> always has exactly the descriptors and the masks of the interest list.
  The contract is the locale \<open>interest_set\<close>.
\<close>

record pollfd =
  pfd_fd :: fd
  pfd_events :: u16
  pfd_revents :: u16

definition POLLIN :: "'a::len word" where "POLLIN = 1"
definition POLLOUT :: "'a::len word" where "POLLOUT = 4"
definition POLLERR :: "'a::len word" where "POLLERR = 8"
definition POLLHUP :: "'a::len word" where "POLLHUP = 16"
definition POLLNVAL :: "'a::len word" where "POLLNVAL = 32"

section \<open>The poller\<close>

definition mkevent :: "fd \<Rightarrow> u32 \<Rightarrow> pollfd" where
  "mkevent hnd events = \<lparr>pfd_fd = hnd, pfd_events = ucast events, pfd_revents = 0\<rparr>"

definition poller_add :: "fd \<Rightarrow> pollfd \<Rightarrow> pollfd list \<Rightarrow> nat option \<times> pollfd list" where
  "poller_add handle event events =
     (let lb = lower_bound (\<lambda>e. pfd_fd e < pfd_fd event) events in
      if \<not> key_hit pfd_fd handle events lb
      then (let events' = insert_at lb event events in (Some (length events'), events'))
      else (None, events))"

definition poller_update :: "fd \<Rightarrow> pollfd \<Rightarrow> pollfd list \<Rightarrow> nat option \<times> pollfd list" where
  "poller_update handle event events =
     (let lb = lower_bound (\<lambda>e. pfd_fd e < pfd_fd event) events in
      if \<not> key_hit pfd_fd handle events lb then (None, events)
      else (Some (length events), events[lb := (events ! lb)\<lparr>pfd_events := pfd_events event\<rparr>]))"

definition poller_del :: "fd \<Rightarrow> pollfd list \<Rightarrow> nat option \<times> pollfd list" where
  "poller_del handle events =
     (let lb = lower_bound (\<lambda>e. pfd_fd e < handle) events in
      if \<not> key_hit pfd_fd handle events lb then (None, events)
      else (let events' = erase_at lb events in (Some (length events'), events')))"

text \<open>\<^verbatim>\<open>_poll\<close>: the answer of the system call \<^verbatim>\<open>poll\<close> is an argument, the returned events of every entry or
  an error number.\<close>

datatype poll_answer = Ready "u16 list" | PollFail int

definition set_revents :: "u16 list \<Rightarrow> pollfd list \<Rightarrow> pollfd list" where
  "set_revents rs events = map2 (\<lambda>e r. e\<lparr>pfd_revents := r\<rparr>) events rs"

definition poller_poll :: "poll_answer \<Rightarrow> pollfd list \<Rightarrow> nat option \<times> pollfd list" where
  "poller_poll ans events = (case ans of
      Ready rs \<Rightarrow> (Some (length (filter (\<lambda>e. pfd_revents e \<noteq> 0) (set_revents rs events))), set_revents rs events)
    | PollFail e \<Rightarrow> (if e = 11 \<or> e = 4 then Some 0 else None, events))"

section \<open>The interest list\<close>

record trigger =
  tr_list :: "(fd \<times> u32) list"
  tr_poll :: "pollfd list"

definition trigger_init :: trigger where
  "trigger_init = \<lparr>tr_list = [], tr_poll = []\<rparr>"

definition trigger_set :: "fd \<Rightarrow> u32 \<Rightarrow> trigger \<Rightarrow> nat option \<times> trigger" where
  "trigger_set handle trig t =
     (let lb = lower_bound (\<lambda>x. fst x < handle) (tr_list t) in
      if \<not> key_hit fst handle (tr_list t) lb
      then (case poller_add handle (mkevent handle trig) (tr_poll t) of (r, evs) \<Rightarrow>
              (r, \<lparr>tr_list = insert_at lb (handle, trig) (tr_list t), tr_poll = evs\<rparr>))
      else
        (let old = snd (tr_list t ! lb) in
         if old AND trig \<noteq> trig
         then (case poller_update handle (mkevent handle (old OR trig)) (tr_poll t) of (r, evs) \<Rightarrow>
                 (r, \<lparr>tr_list = (tr_list t)[lb := (handle, old OR trig)], tr_poll = evs\<rparr>))
         else (Some (length (tr_list t)), t)))"

definition trigger_clear :: "fd \<Rightarrow> u32 \<Rightarrow> trigger \<Rightarrow> nat option \<times> trigger" where
  "trigger_clear handle trig t =
     (let lb = lower_bound (\<lambda>x. fst x < handle) (tr_list t) in
      if \<not> key_hit fst handle (tr_list t) lb then (None, t)
      else
        (let old = snd (tr_list t ! lb) in
         if old AND NOT trig = 0
         then (case poller_del handle (tr_poll t) of (r, evs) \<Rightarrow>
                 (r, \<lparr>tr_list = erase_at lb (tr_list t), tr_poll = evs\<rparr>))
         else if old AND NOT trig \<noteq> old
         then (case poller_update handle (mkevent handle (old AND NOT trig)) (tr_poll t) of (r, evs) \<Rightarrow>
                 (r, \<lparr>tr_list = (tr_list t)[lb := (handle, old AND NOT trig)], tr_poll = evs\<rparr>))
         else (Some (length (tr_list t)), t)))"

abbreviation tset :: "fd \<Rightarrow> u32 \<Rightarrow> trigger \<Rightarrow> trigger" where
  "tset handle trig t \<equiv> snd (trigger_set handle trig t)"

abbreviation tclear :: "fd \<Rightarrow> u32 \<Rightarrow> trigger \<Rightarrow> trigger" where
  "tclear handle trig t \<equiv> snd (trigger_clear handle trig t)"

text \<open>\<^verbatim>\<open>triggers.clear(fd)\<close>: the default mask is \<^verbatim>\<open>UINT32_MAX\<close>.\<close>

abbreviation tclear_all :: "fd \<Rightarrow> trigger \<Rightarrow> trigger" where
  "tclear_all handle t \<equiv> tclear handle (- 1) t"

definition interest :: "trigger \<Rightarrow> fd \<rightharpoonup> u32" where
  "interest t fd = map_option snd (kmap fst (tr_list t) fd)"

definition tr_inv :: "trigger \<Rightarrow> bool" where
  "tr_inv t \<longleftrightarrow> ksorted fst (tr_list t)
     \<and> map (\<lambda>e. (pfd_fd e, pfd_events e)) (tr_poll t) = map (\<lambda>(fd, m). (fd, ucast m)) (tr_list t)"

section \<open>The contract\<close>

lemma or_and_absorb: "(x OR m) AND m = (m :: 'a::len word)"
  by (auto simp: bit_eq_iff bit_and_iff bit_or_iff)

locale interest_set =
  fixes set_mask :: "fd \<Rightarrow> u32 \<Rightarrow> 't \<Rightarrow> 't"
    and clear_mask :: "fd \<Rightarrow> u32 \<Rightarrow> 't \<Rightarrow> 't"
    and mask :: "'t \<Rightarrow> fd \<rightharpoonup> u32"
    and inv :: "'t \<Rightarrow> bool"
  assumes set_inv: "inv t \<Longrightarrow> inv (set_mask fd m t)"
    and clear_inv: "inv t \<Longrightarrow> inv (clear_mask fd m t)"
    and mask_set: "inv t \<Longrightarrow> mask (set_mask fd m t) =
      (mask t)(fd \<mapsto> (case mask t fd of None \<Rightarrow> m | Some old \<Rightarrow> old OR m))"
    and mask_clear: "inv t \<Longrightarrow> mask (clear_mask fd m t) = (case mask t fd of None \<Rightarrow> mask t
      | Some old \<Rightarrow> (if old AND NOT m = 0 then (mask t)(fd := None) else (mask t)(fd \<mapsto> old AND NOT m)))"
begin

lemma set_watched: "inv t \<Longrightarrow> \<exists>m'. mask (set_mask fd m t) fd = Some m' \<and> m' AND m = m"
  by (cases "mask t fd") (simp_all add: mask_set or_and_absorb)

lemma set_other: "inv t \<Longrightarrow> fd' \<noteq> fd \<Longrightarrow> mask (set_mask fd m t) fd' = mask t fd'"
  by (simp add: mask_set)

lemma clear_other: "inv t \<Longrightarrow> fd' \<noteq> fd \<Longrightarrow> mask (clear_mask fd m t) fd' = mask t fd'"
  by (simp add: mask_clear split: option.split)

lemma clear_all: "inv t \<Longrightarrow> mask (clear_mask fd (- 1) t) fd = None"
  by (simp add: mask_clear split: option.split)

lemma clear_unwatched: "inv t \<Longrightarrow> mask (clear_mask fd m t) fd = Some m' \<Longrightarrow> m' AND m = 0"
  by (auto simp: mask_clear bit_eq_iff bit_and_iff bit_not_iff split: option.splits if_splits)

end

section \<open>The two vectors agree\<close>

lemma length_upto_key: "length (upto_key key k xs) = length (takeWhile (\<lambda>x. x < k) (map key xs))"
  by (simp add: upto_key_def takeWhile_map comp_def)

lemma tr_inv_fds: "tr_inv t \<Longrightarrow> map pfd_fd (tr_poll t) = map fst (tr_list t)"
proof -
  assume "tr_inv t"
  then have "map fst (map (\<lambda>e. (pfd_fd e, pfd_events e)) (tr_poll t)) = map fst (map (\<lambda>(fd, m). (fd, ucast m :: u16)) (tr_list t))"
    by (simp add: tr_inv_def)
  then show ?thesis by (simp add: comp_def split_def)
qed

lemma tr_inv_poll_sorted: "tr_inv t \<Longrightarrow> ksorted pfd_fd (tr_poll t)"
  using tr_inv_fds [of t] by (simp add: ksorted_def tr_inv_def)

lemma tr_inv_lb:
  assumes "tr_inv t"
  shows "lower_bound (\<lambda>x. fst x < fd) (tr_list t) = length (upto_key fst fd (tr_list t))"
    and "lower_bound (\<lambda>e. pfd_fd e < fd) (tr_poll t) = length (upto_key fst fd (tr_list t))"
    and "key_hit pfd_fd fd (tr_poll t) i = key_hit fst fd (tr_list t) i"
proof -
  show "lower_bound (\<lambda>x. fst x < fd) (tr_list t) = length (upto_key fst fd (tr_list t))"
    using assms by (simp add: tr_inv_def lower_bound_upto)
  show "lower_bound (\<lambda>e. pfd_fd e < fd) (tr_poll t) = length (upto_key fst fd (tr_list t))"
    using tr_inv_fds [OF assms]
    by (simp add: lower_bound_upto [OF tr_inv_poll_sorted [OF assms]] length_upto_key)
  have "length (tr_poll t) = length (tr_list t)"
    using arg_cong [OF tr_inv_fds [OF assms], of length] by simp
  then show "key_hit pfd_fd fd (tr_poll t) i = key_hit fst fd (tr_list t) i"
    using arg_cong [OF tr_inv_fds [OF assms], of "\<lambda>xs. xs ! i"] by (auto simp: key_hit_def)
qed

lemma map_insert_at: "map f (insert_at i x xs) = insert_at i (f x) (map f xs)"
  by (simp add: insert_at_def take_map drop_map)

text \<open>The three ways the vectors change, on both sides at once.\<close>

lemma tr_inv_insert:
  assumes "tr_inv t" and "\<not> has_key fst fd (tr_list t)"
  shows "tr_inv \<lparr>tr_list = insert_at (length (upto_key fst fd (tr_list t))) (fd, m) (tr_list t),
    tr_poll = insert_at (length (upto_key fst fd (tr_list t))) (mkevent fd m) (tr_poll t)\<rparr>"
  using assms ksorted_insert [of fst "tr_list t" fd "(fd, m)"]
  by (simp add: tr_inv_def map_insert_at mkevent_def)

lemma tr_inv_update:
  assumes "tr_inv t" and "i < length (tr_list t)" and "fst (tr_list t ! i) = fd"
  shows "tr_inv \<lparr>tr_list = (tr_list t)[i := (fd, m)],
    tr_poll = (tr_poll t)[i := (tr_poll t ! i)\<lparr>pfd_events := ucast m\<rparr>]\<rparr>"
proof -
  have "map pfd_fd (tr_poll t) ! i = fd" using tr_inv_fds [OF assms(1)] assms(2,3) by simp
  then have "pfd_fd (tr_poll t ! i) = fd"
    using arg_cong [OF tr_inv_fds [OF assms(1)], of length] assms(2) by simp
  with assms show ?thesis by (simp add: tr_inv_def ksorted_update map_update)
qed

lemma tr_inv_erase:
  assumes "tr_inv t"
  shows "tr_inv \<lparr>tr_list = erase_at i (tr_list t), tr_poll = erase_at i (tr_poll t)\<rparr>"
  using assms
  by (simp add: tr_inv_def erase_range_def ksorted_erase [unfolded erase_range_def]
      take_map [symmetric] drop_map [symmetric])

lemma interest_iff: "tr_inv t \<Longrightarrow> interest t fd = Some m \<longleftrightarrow> (fd, m) \<in> set (tr_list t)"
  by (force simp: interest_def tr_inv_def kmap_Some_iff)

lemma interest_None: "interest t fd = None \<longleftrightarrow> \<not> has_key fst fd (tr_list t)"
  by (simp add: interest_def kmap_None_iff)

lemma interest_eqI:
  assumes "tr_inv t" and "\<And>fd m. (fd, m) \<in> set (tr_list t) \<longleftrightarrow> f fd = Some m"
  shows "interest t = f"
proof
  fix fd
  show "interest t fd = f fd" using assms interest_iff [OF assms(1)] by (metis option.exhaust)
qed

lemma tr_hit:
  assumes "tr_inv t" and "interest t fd = Some m"
  shows "key_hit fst fd (tr_list t) (length (upto_key fst fd (tr_list t)))"
    and "tr_list t ! length (upto_key fst fd (tr_list t)) = (fd, m)"
    and "length (upto_key fst fd (tr_list t)) < length (tr_list t)"
proof -
  have so: "ksorted fst (tr_list t)" using assms(1) by (simp add: tr_inv_def)
  have mem: "(fd, m) \<in> set (tr_list t)" using assms interest_iff by blast
  then have "has_key fst fd (tr_list t)" by (force simp: has_key_def)
  then show h: "key_hit fst fd (tr_list t) (length (upto_key fst fd (tr_list t)))"
    using key_hit_iff [OF so] by blast
  then show "length (upto_key fst fd (tr_list t)) < length (tr_list t)" by (simp add: key_hit_def)
  then show "tr_list t ! length (upto_key fst fd (tr_list t)) = (fd, m)"
    using ksorted_inj [OF so nth_mem mem] h by (simp add: key_hit_def)
qed

lemma tr_miss:
  assumes "tr_inv t" and "interest t fd = None"
  shows "\<not> key_hit fst fd (tr_list t) (length (upto_key fst fd (tr_list t)))"
  using assms key_hit_iff [of fst "tr_list t" fd] by (simp add: tr_inv_def interest_None)

section \<open>Set and clear refine the map\<close>

lemma interest_update:
  assumes "tr_inv t" and "interest t fd = Some old"
  shows "interest \<lparr>tr_list = (tr_list t)[length (upto_key fst fd (tr_list t)) := (fd, m)],
      tr_poll = (tr_poll t)[length (upto_key fst fd (tr_list t)) :=
        (tr_poll t ! length (upto_key fst fd (tr_list t)))\<lparr>pfd_events := ucast m\<rparr>]\<rparr> = (interest t)(fd \<mapsto> m)"
proof -
  let ?i = "length (upto_key fst fd (tr_list t))"
  note h = tr_hit [OF assms]
  have so: "ksorted fst (tr_list t)" using assms(1) by (simp add: tr_inv_def)
  let ?t = "\<lparr>tr_list = (tr_list t)[?i := (fd, m)],
      tr_poll = (tr_poll t)[?i := (tr_poll t ! ?i)\<lparr>pfd_events := ucast m\<rparr>]\<rparr>"
  have inv: "tr_inv ?t" using h by (intro tr_inv_update [OF assms(1)]) auto
  have "set ((tr_list t)[?i := (fd, m)]) = insert (fd, m) (set (tr_list t) - {(fd, old)})"
    using set_update_distinct [of "tr_list t" ?i "(fd, m)"] h so ksorted_distinct [OF so]
    by (simp add: distinct_map)
  then have "(q, n) \<in> set (tr_list ?t) \<longleftrightarrow> ((interest t)(fd \<mapsto> m)) q = Some n" for q n
    using interest_iff [OF assms(1), of q n] assms(2) by auto
  then show ?thesis by (rule interest_eqI [OF inv])
qed

lemma trigger_set_refines:
  assumes "tr_inv t"
  shows "tr_inv (tset fd m t)"
    and "interest (tset fd m t) = (interest t)(fd \<mapsto> (case interest t fd of None \<Rightarrow> m | Some old \<Rightarrow> old OR m))"
proof -
  let ?i = "length (upto_key fst fd (tr_list t))"
  have "tr_inv (tset fd m t) \<and> interest (tset fd m t)
      = (interest t)(fd \<mapsto> (case interest t fd of None \<Rightarrow> m | Some old \<Rightarrow> old OR m))"
  proof (cases "interest t fd")
    case None
    note miss = tr_miss [OF assms None]
    let ?t = "\<lparr>tr_list = insert_at ?i (fd, m) (tr_list t), tr_poll = insert_at ?i (mkevent fd m) (tr_poll t)\<rparr>"
    have "tset fd m t = ?t"
      using miss
      by (simp add: trigger_set_def poller_add_def Let_def tr_inv_lb [OF assms] mkevent_def)
    moreover have inv: "tr_inv ?t" using None by (intro tr_inv_insert [OF assms]) (simp add: interest_None)
    moreover have "interest ?t = (interest t)(fd \<mapsto> m)"
      using None by (intro interest_eqI [OF inv]) (auto simp flip: interest_iff [OF assms])
    ultimately show ?thesis using None by simp
  next
    case (Some old)
    note h = tr_hit [OF assms Some]
    show ?thesis
    proof (cases "old AND m = m")
      case True
      then have "old OR m = old" by (auto simp: bit_eq_iff bit_and_iff bit_or_iff)
      moreover have "tset fd m t = t"
        using h True by (simp add: trigger_set_def Let_def tr_inv_lb [OF assms])
      ultimately show ?thesis using assms Some by auto
    next
      case False
      let ?t = "\<lparr>tr_list = (tr_list t)[?i := (fd, old OR m)],
          tr_poll = (tr_poll t)[?i := (tr_poll t ! ?i)\<lparr>pfd_events := ucast (old OR m)\<rparr>]\<rparr>"
      have "tset fd m t = ?t"
        using h False
        by (simp add: trigger_set_def poller_update_def Let_def tr_inv_lb [OF assms] mkevent_def)
      moreover have "tr_inv ?t" using h by (intro tr_inv_update [OF assms]) auto
      ultimately show ?thesis using Some interest_update [OF assms Some] by simp
    qed
  qed
  then show "tr_inv (tset fd m t)"
    and "interest (tset fd m t) = (interest t)(fd \<mapsto> (case interest t fd of None \<Rightarrow> m | Some old \<Rightarrow> old OR m))"
    by simp_all
qed

lemma trigger_clear_refines:
  assumes "tr_inv t"
  shows "tr_inv (tclear fd m t)"
    and "interest (tclear fd m t) = (case interest t fd of None \<Rightarrow> interest t
      | Some old \<Rightarrow> (if old AND NOT m = 0 then (interest t)(fd := None) else (interest t)(fd \<mapsto> old AND NOT m)))"
proof -
  let ?i = "length (upto_key fst fd (tr_list t))"
  have so: "ksorted fst (tr_list t)" using assms by (simp add: tr_inv_def)
  have "tr_inv (tclear fd m t) \<and> interest (tclear fd m t) = (case interest t fd of None \<Rightarrow> interest t
      | Some old \<Rightarrow> (if old AND NOT m = 0 then (interest t)(fd := None) else (interest t)(fd \<mapsto> old AND NOT m)))"
  proof (cases "interest t fd")
    case None
    then show ?thesis
      using tr_miss [OF assms None] assms by (simp add: trigger_clear_def Let_def tr_inv_lb [OF assms])
  next
    case (Some old)
    note h = tr_hit [OF assms Some]
    consider (gone) "old AND NOT m = 0" | (same) "old AND NOT m \<noteq> 0" "old AND NOT m = old"
      | (less) "old AND NOT m \<noteq> 0" "old AND NOT m \<noteq> old" by blast
    then show ?thesis
    proof cases
      case gone
      let ?t = "\<lparr>tr_list = erase_at ?i (tr_list t), tr_poll = erase_at ?i (tr_poll t)\<rparr>"
      have "tclear fd m t = ?t"
        using h gone by (simp add: trigger_clear_def poller_del_def Let_def tr_inv_lb [OF assms])
      moreover have inv: "tr_inv ?t" by (rule tr_inv_erase [OF assms])
      moreover have "interest ?t = (interest t)(fd := None)"
        by (intro interest_eqI [OF inv])
          (auto simp: interest_iff [OF assms] erase_hit_filter [OF so h(1)])
      ultimately show ?thesis using Some gone by simp
    next
      case same
      then have "tclear fd m t = t"
        using h by (simp add: trigger_clear_def Let_def tr_inv_lb [OF assms])
      with same Some assms show ?thesis by auto
    next
      case less
      let ?t = "\<lparr>tr_list = (tr_list t)[?i := (fd, old AND NOT m)],
          tr_poll = (tr_poll t)[?i := (tr_poll t ! ?i)\<lparr>pfd_events := ucast (old AND NOT m)\<rparr>]\<rparr>"
      have "tclear fd m t = ?t"
        using h less
        by (simp add: trigger_clear_def poller_update_def Let_def tr_inv_lb [OF assms] mkevent_def)
      moreover have "tr_inv ?t" using h by (intro tr_inv_update [OF assms]) auto
      ultimately show ?thesis using Some less interest_update [OF assms Some] by simp
    qed
  qed
  then show "tr_inv (tclear fd m t)"
    and "interest (tclear fd m t) = (case interest t fd of None \<Rightarrow> interest t
      | Some old \<Rightarrow> (if old AND NOT m = 0 then (interest t)(fd := None) else (interest t)(fd \<mapsto> old AND NOT m)))"
    by simp_all
qed

interpretation trig: interest_set tset tclear interest tr_inv
  by unfold_locales (fact trigger_set_refines trigger_clear_refines)+

lemma trigger_init_inv [inv_intros]: "tr_inv trigger_init"
  by (simp add: tr_inv_def trigger_init_def)

section \<open>Properties\<close>

text \<open>C29: the interest list is a map from descriptors to event masks: setting a mask adds its bits,
  clearing removes them and drops the descriptor when none is left, no other descriptor is
  affected, and the vector handed to \<^verbatim>\<open>poll\<close> keeps exactly the descriptors and masks of the list.\<close>

theorem trigger_refines_map:
  assumes "tr_inv t"
  shows "interest (tset fd m t) = (interest t)(fd \<mapsto> (case interest t fd of None \<Rightarrow> m | Some old \<Rightarrow> old OR m))
    \<and> interest (tclear fd m t) = (case interest t fd of None \<Rightarrow> interest t
        | Some old \<Rightarrow> (if old AND NOT m = 0 then (interest t)(fd := None) else (interest t)(fd \<mapsto> old AND NOT m)))
    \<and> map (\<lambda>e. (pfd_fd e, pfd_events e)) (tr_poll (tset fd m t)) = map (\<lambda>(fd, m). (fd, ucast m)) (tr_list (tset fd m t))
    \<and> map (\<lambda>e. (pfd_fd e, pfd_events e)) (tr_poll (tclear fd m t)) = map (\<lambda>(fd, m). (fd, ucast m)) (tr_list (tclear fd m t))
    \<and> tr_inv (tset fd m t) \<and> tr_inv (tclear fd m t)"
  using trig.mask_set [OF assms] trig.mask_clear [OF assms] trig.set_inv [OF assms, of fd m]
    trig.clear_inv [OF assms, of fd m] by (simp add: tr_inv_def)

theorem trigger_refines_map_witness:
  "interest (tset 3 POLLOUT (tset 3 POLLIN (tset 5 POLLIN trigger_init))) 3 = Some (POLLIN OR POLLOUT)"
  using trigger_refines_map [of "tset 3 POLLIN (tset 5 POLLIN trigger_init)" 3 POLLOUT]
    trig.mask_set trig.set_inv [OF trig.set_inv] trig.set_inv trigger_init_inv
  by (simp add: trig.mask_set trig.set_inv trigger_init_inv) (simp add: interest_def trigger_init_def kmap_def)

end
