(* ===== verification/Sockbuf.thy ===== *)
theory Sockbuf
  imports Iostreams Poller
begin

text \<open>
  The socket stream buffer (\<^verbatim>\<open>src/io/buffers.hpp\<close>, \<^verbatim>\<open>sockbuf.cpp\<close>, \<^verbatim>\<open>streams.hpp\<close>). A buffer owns one receive
  message and a vector of send messages of which the last is the put area; \<open>sm_data\<close> are the
  valid bytes of a message, \<open>sm_iov_len\<close> its \<^verbatim>\<open>iov_len\<close> (the capacity of the put area for the last
  send message, the number of bytes left for the others).

  The kernel side of a socket is part of the state: the results the next calls of \<^verbatim>\<open>sendmsg\<close>,
  \<^verbatim>\<open>connect\<close> and \<^verbatim>\<open>recvmsg\<close> will return, and the bytes \<^verbatim>\<open>sendmsg\<close> has accepted (\<open>k_wire\<close>). Every theorem
  holds for every such script; a call beyond its end would block (\<^verbatim>\<open>EAGAIN\<close>, and \<^verbatim>\<open>EINPROGRESS\<close> for
  \<^verbatim>\<open>connect\<close>). \<^verbatim>\<open>malloc\<close> and \<^verbatim>\<open>realloc\<close> succeed.
  Shown: no byte is lost, duplicated or reordered between the put area and the wire, whatever
  the kernel answers; a blocked flush leaves room for the next character, so output on a
  socket with one send message always returns; input hands over exactly what was received.
\<close>

section \<open>Kernel side\<close>

datatype send_result = Sent nat | SendErr int
datatype conn_result = ConnOk | ConnErr int
datatype recv_result = Got "byte list" | RecvErr int

record kernel =
  k_send :: "send_result list"
  k_conn :: "conn_result list"
  k_recv :: "recv_result list"
  k_wire :: "byte list"

abbreviation (input) EINTR :: int where "EINTR \<equiv> 4"
abbreviation (input) EAGAIN :: int where "EAGAIN \<equiv> 11"
abbreviation (input) EISCONN :: int where "EISCONN \<equiv> 106"
abbreviation (input) ENOTCONN :: int where "ENOTCONN \<equiv> 107"
abbreviation (input) ECONNREFUSED :: int where "ECONNREFUSED \<equiv> 111"
abbreviation (input) EALREADY :: int where "EALREADY \<equiv> 114"
abbreviation (input) EINPROGRESS :: int where "EINPROGRESS \<equiv> 115"

section \<open>State\<close>

record socket_message =
  sm_family :: nat
  sm_addr :: "byte list"
  sm_addrlen :: nat
  sm_ancillary :: "byte list"
  sm_data :: "byte list"
  sm_iov_len :: nat

record sockbuf =
  sk_recv :: socket_message
  sk_gptr :: nat
  sk_send :: "socket_message list"
  sk_socket :: fd
  sk_errno :: int
  sk_connected :: bool
  sk_in :: bool
  sk_out :: bool
  sk_kernel :: kernel
  sk_stuck :: bool

text \<open>\<open>sk_in\<close> and \<open>sk_out\<close> say whether there is a get area and a put area. \<open>sk_stuck\<close> records that a put call would recurse forever (see \<open>sk_sputc\<close>).\<close>

definition MIN_BUFSIZE :: nat where "MIN_BUFSIZE = 32 * 1024"

definition empty_message :: socket_message where
  "empty_message = \<lparr>sm_family = 0, sm_addr = [], sm_addrlen = 0, sm_ancillary = [],
     sm_data = [], sm_iov_len = 0\<rparr>"

definition init_buf_ptrs :: "bool \<Rightarrow> bool \<Rightarrow> socket_message \<times> socket_message list" where
  "init_buf_ptrs w_in w_out =
     (if w_in then empty_message\<lparr>sm_addrlen := 128, sm_iov_len := MIN_BUFSIZE\<rparr> else empty_message,
      [if w_out then empty_message\<lparr>sm_iov_len := MIN_BUFSIZE\<rparr> else empty_message])"

definition sockbuf_make :: "fd \<Rightarrow> bool \<Rightarrow> bool \<Rightarrow> bool \<Rightarrow> kernel \<Rightarrow> sockbuf" where
  "sockbuf_make sockfd connected w_in w_out k =
     (case init_buf_ptrs w_in w_out of (rbuf, sbufs) \<Rightarrow>
        \<lparr>sk_recv = rbuf, sk_gptr = 0, sk_send = sbufs, sk_socket = sockfd, sk_errno = 0,
         sk_connected = connected, sk_in = w_in, sk_out = w_out, sk_kernel = k, sk_stuck = False\<rparr>)"

section \<open>Output\<close>

definition on_last :: "(socket_message \<Rightarrow> socket_message) \<Rightarrow> socket_message list \<Rightarrow> socket_message list" where
  "on_last f ms = (if ms = [] then [] else butlast ms @ [f (last ms)])"

text \<open>
  \<^verbatim>\<open>_resizewbuf\<close>: the put area gets the capacity \<^verbatim>\<open>MIN_BUFSIZE*(putlen/MIN_BUFSIZE+1)\<close>; only the last
  send message is ever resized.
\<close>

definition put_capacity :: "nat \<Rightarrow> nat" where
  "put_capacity putlen = MIN_BUFSIZE * (putlen div MIN_BUFSIZE + 1)"

definition resizewbuf :: "bool \<Rightarrow> byte list \<Rightarrow> socket_message \<Rightarrow> socket_message" where
  "resizewbuf is_last rest m =
     (let m' = m\<lparr>sm_data := rest\<rparr> in
      if is_last then m'\<lparr>sm_iov_len := put_capacity (length rest)\<rparr> else m')"

text \<open>
  The \<^verbatim>\<open>sendmsg\<close> loop of \<^verbatim>\<open>_send\<close> over the bytes still to be sent; it returns them with the final
  \<^verbatim>\<open>_errno\<close>, the connected flag, the control data and the kernel.
\<close>

fun send_loop ::
  "send_result list \<Rightarrow> byte list \<Rightarrow> bool \<Rightarrow> byte list \<Rightarrow> byte list \<Rightarrow>
   byte list \<times> int \<times> bool \<times> byte list \<times> byte list \<times> send_result list" where
  "send_loop [] rest conn anc wire = (rest, EAGAIN, conn, anc, wire, [])"
| "send_loop (Sent n # ks) rest conn anc wire =
     (let k = min n (min (length rest) MIN_BUFSIZE) in
      if k = 0 then (rest, 0, conn, anc, wire, ks)
      else if length rest \<le> k then ([], 0, conn, [], wire @ rest, ks)
      else send_loop ks (drop k rest) conn [] (wire @ take k rest))"
| "send_loop (SendErr e # ks) rest conn anc wire =
     (if e = EISCONN then send_loop ks rest True anc wire
      else if e = EINTR then send_loop ks rest conn anc wire
      else (rest, e, conn, anc, wire, ks))"

text \<open>\<^verbatim>\<open>_send\<close> on the first send message \<open>m\<close> (the only one \<^verbatim>\<open>sync\<close> passes); \<open>ms\<close> are the later ones.\<close>

definition send_first :: "sockbuf \<Rightarrow> socket_message \<Rightarrow> socket_message list \<Rightarrow> int \<times> sockbuf" where
  "send_first b m ms =
     (let is_last = (ms = []) in
      if sk_socket b = BAD_SOCKET \<or> (\<not> sk_connected b \<and> sm_family m = 0)
      then (0, b\<lparr>sk_send := resizewbuf is_last (sm_data m) m # ms, sk_out := (sk_out b \<or> is_last)\<rparr>)
      else if sm_data m = [] \<and> sm_ancillary m = [] then (0, b)
      else (case send_loop (k_send (sk_kernel b)) (sm_data m) (sk_connected b) (sm_ancillary m)
                   (k_wire (sk_kernel b)) of (rest, e, conn, anc, wire, ks) \<Rightarrow>
        (if e = 0 \<or> e = EAGAIN then 0 else - 1,
         b\<lparr>sk_errno := e, sk_connected := conn,
           sk_send := resizewbuf is_last rest
             (m\<lparr>sm_ancillary := anc, sm_iov_len := (if is_last then sm_iov_len m else length rest)\<rparr>) # ms,
           sk_out := (sk_out b \<or> is_last), sk_kernel := (sk_kernel b)\<lparr>k_send := ks, k_wire := wire\<rparr>\<rparr>)))"

text \<open>The \<^verbatim>\<open>connect\<close> loop of \<^verbatim>\<open>sync\<close>: connected at once, go back to sending, pending, or failed.\<close>

datatype conn_outcome = ConnDone | ConnAgain | ConnPending | ConnFailed

fun connect_loop :: "conn_result list \<Rightarrow> conn_outcome \<times> int \<times> conn_result list" where
  "connect_loop [] = (ConnPending, EINPROGRESS, [])"
| "connect_loop (ConnOk # cs) = (ConnDone, 0, cs)"
| "connect_loop (ConnErr e # cs) =
     (if e = EINTR then connect_loop cs
      else if e = EISCONN then (ConnAgain, e, cs)
      else if e = EALREADY \<or> e = EAGAIN \<or> e = EINPROGRESS then (ConnPending, e, cs)
      else (ConnFailed, e, cs))"

lemma send_loop_consumes:
  "send_loop ks rest conn anc wire = (rest', e, conn', anc', wire', ks') \<Longrightarrow>
     length ks' < length ks \<or> (ks = [] \<and> ks' = [] \<or> e = EAGAIN)"
  by (induction ks rest conn anc wire rule: send_loop.induct)
    (auto simp: Let_def split: if_splits)

lemma send_first_consumes:
  assumes "send_first b m ms = (r, b')" and "r \<noteq> 0"
  shows "length (k_send (sk_kernel b')) < length (k_send (sk_kernel b))"
  using assms send_loop_consumes [of "k_send (sk_kernel b)" "sm_data m" "sk_connected b"
      "sm_ancillary m" "k_wire (sk_kernel b)"]
  by (auto simp: send_first_def Let_def split: if_splits prod.splits)

text \<open>
  The inner loop \<^verbatim>\<open>while(_send(buf))\<close> of \<^verbatim>\<open>sync\<close>: \<open>Some r\<close> is a return of \<^verbatim>\<open>sync\<close>, \<open>None\<close> leaves the loop.
\<close>

function send_retry :: "sockbuf \<Rightarrow> int option \<times> sockbuf" where
  "send_retry b = (case sk_send b of
      [] \<Rightarrow> (None, b)
    | m # ms \<Rightarrow>
        (case send_first b m ms of (r, b') \<Rightarrow>
           if r = 0 then (None, b')
           else if sk_errno b' = ENOTCONN then
             (if sm_family m = 0 then (Some 0, b')
              else (case connect_loop (k_conn (sk_kernel b')) of (out, e, cs) \<Rightarrow>
                 (let b2 = b'\<lparr>sk_errno := e, sk_kernel := (sk_kernel b')\<lparr>k_conn := cs\<rparr>\<rparr> in
                  case out of
                    ConnDone \<Rightarrow> send_retry b2
                  | ConnAgain \<Rightarrow> send_retry (b2\<lparr>sk_connected := True\<rparr>)
                  | ConnPending \<Rightarrow> (Some 0, b2\<lparr>sk_connected := True\<rparr>)
                  | ConnFailed \<Rightarrow> (Some (- 1), b2))))
           else (Some (- 1), b')))"
  by pat_completeness auto
termination
  by (relation "measure (\<lambda>b. length (k_send (sk_kernel b)))")
    (auto dest: send_first_consumes [OF sym])

declare send_retry.simps [simp del]

lemma send_first_length:
  "length (sk_send (snd (send_first b m ms))) \<le> max (length (sk_send b)) (Suc (length ms))"
  by (auto simp: send_first_def Let_def split: prod.split)

lemma send_retry_length: "length (sk_send (snd (send_retry b))) = length (sk_send b)"
proof (induction b rule: send_retry.induct)
  case (1 b)
  show ?case
  proof (cases "sk_send b")
    case Nil
    then show ?thesis by (simp add: send_retry.simps)
  next
    case (Cons m ms)
    obtain r b' where s: "send_first b m ms = (r, b')" by fastforce
    have l: "length (sk_send b') = length (sk_send b)"
      using s Cons by (auto simp: send_first_def Let_def split: prod.splits if_splits)
    obtain out e cs where c: "connect_loop (k_conn (sk_kernel b')) = (out, e, cs)"
      by (cases "connect_loop (k_conn (sk_kernel b'))") auto
    show ?thesis
    proof (cases "r \<noteq> 0 \<and> sk_errno b' = ENOTCONN \<and> sm_family m \<noteq> 0")
      case True
      note ih = "1.IH" [OF Cons s [symmetric] _ _ _ c [symmetric] refl refl]
      show ?thesis
        using True ih l Cons s c by (subst send_retry.simps) (cases out; simp add: Let_def)
    next
      case False
      then show ?thesis using l Cons s by (subst send_retry.simps) auto
    qed
  qed
qed

function sk_sync :: "sockbuf \<Rightarrow> int \<times> sockbuf" where
  "sk_sync b = (case sk_send b of
      [] \<Rightarrow> (0, b)
    | m # ms \<Rightarrow>
        (case send_retry b of
           (Some r, b') \<Rightarrow> (r, b')
         | (None, b') \<Rightarrow>
             (if sm_iov_len (hd (sk_send b')) \<noteq> 0 then (0, b')
              else if ms \<noteq> [] then sk_sync (b'\<lparr>sk_send := tl (sk_send b')\<rparr>)
              else (0, b'))))"
  by pat_completeness auto
termination
  by (relation "measure (\<lambda>b. length (sk_send b))")
    (auto dest!: arg_cong [where f = "\<lambda>p. length (sk_send (snd p))"] simp: send_retry_length)

declare sk_sync.simps [simp del]

text \<open>The put area is the last send message; without the output mode there is none.\<close>

definition put_room :: "sockbuf \<Rightarrow> bool" where
  "put_room b \<longleftrightarrow> sk_out b \<and> sk_send b \<noteq> []
     \<and> length (sm_data (last (sk_send b))) < sm_iov_len (last (sk_send b))"

definition put_store :: "byte \<Rightarrow> sockbuf \<Rightarrow> sockbuf" where
  "put_store ch b = b\<lparr>sk_send := on_last (\<lambda>m. m\<lparr>sm_data := sm_data m @ [ch]\<rparr>) (sk_send b)\<rparr>"

abbreviation script_len :: "sockbuf \<Rightarrow> nat" where
  "script_len b \<equiv> length (k_send (sk_kernel b)) + length (k_conn (sk_kernel b))"

text \<open>
  \<^verbatim>\<open>sputc\<close> and \<^verbatim>\<open>overflow\<close>: a full put area is flushed first, and the character is put again. When
  the flush neither frees room nor consumes any answer of the kernel the calls repeat
  unchanged without end; the model stops there and sets \<open>sk_stuck\<close>.
\<close>

function sk_sputc :: "byte \<Rightarrow> sockbuf \<Rightarrow> bool \<times> sockbuf" where
  "sk_sputc ch b =
     (if put_room b then (True, put_store ch b)
      else if \<not> sk_out b then (False, b)
      else (case sk_sync b of (r, b') \<Rightarrow>
              if r \<noteq> 0 then (False, b')
              else if put_room b' then (True, put_store ch b')
              else if script_len b' < script_len b then sk_sputc ch b'
              else (False, b'\<lparr>sk_stuck := True\<rparr>)))"
  by pat_completeness auto
termination
  by (relation "measure (\<lambda>(ch, b). script_len b)") auto

declare sk_sputc.simps [simp del]

fun sk_sputn :: "byte list \<Rightarrow> sockbuf \<Rightarrow> nat \<times> sockbuf" where
  "sk_sputn [] b = (0, b)"
| "sk_sputn (ch # bs) b = (case sk_sputc ch b of (ok, b') \<Rightarrow>
     if ok then (case sk_sputn bs b' of (n, b'') \<Rightarrow> (Suc n, b'')) else (0, b'))"

section \<open>Input\<close>

text \<open>\<^verbatim>\<open>_memmoverbuf\<close>: the unread characters move to the front of the get area.\<close>

definition memmoverbuf :: "sockbuf \<Rightarrow> sockbuf" where
  "memmoverbuf b =
     b\<lparr>sk_recv := (sk_recv b)\<lparr>sm_data := drop (sk_gptr b) (sm_data (sk_recv b))\<rparr>, sk_gptr := 0\<rparr>"

text \<open>
  The \<^verbatim>\<open>recvmsg\<close> loop with room for \<open>n\<close> bytes: the bytes received, the returned length (\<open>-1\<close> on error)
  and \<^verbatim>\<open>_errno\<close>. A receive queue keeps what did not fit; end of file (\<open>Got []\<close>) is permanent.
\<close>

fun recv_loop :: "nat \<Rightarrow> recv_result list \<Rightarrow> byte list \<times> int \<times> int \<times> recv_result list" where
  "recv_loop n [] = ([], - 1, EAGAIN, [])"
| "recv_loop n (Got bs # rs) =
     (if bs = [] then ([], 0, 0, Got bs # rs)
      else if length bs \<le> n then (bs, int (length bs), 0, rs)
      else (take n bs, int n, 0, Got (drop n bs) # rs))"
| "recv_loop n (RecvErr e # rs) =
     (if e = EINTR then recv_loop n rs else ([], - 1, e, rs))"

definition sk_do_recv :: "sockbuf \<Rightarrow> int \<times> sockbuf" where
  "sk_do_recv b =
     (if sk_socket b = BAD_SOCKET then (- 1, b)
      else
        (let b1 = memmoverbuf b; m = sk_recv b1;
             buflen = sm_iov_len m - length (sm_data m);
             control = (sm_ancillary m \<noteq> []) in
         if buflen = 0 \<and> \<not> control then (0, b1)
         else (case recv_loop buflen (k_recv (sk_kernel b1)) of (bs, n, e, rs) \<Rightarrow>
           (if n = 0 \<and> \<not> control then - 1 else if e \<noteq> 0 \<and> e \<noteq> EAGAIN then - 1 else 0,
            b1\<lparr>sk_recv := m\<lparr>sm_data := sm_data m @ bs\<rparr>, sk_errno := e,
               sk_kernel := (sk_kernel b1)\<lparr>k_recv := rs\<rparr>\<rparr>))))"

definition sk_showmanyc :: "sockbuf \<Rightarrow> int \<times> sockbuf" where
  "sk_showmanyc b =
     (if length (sm_data (sk_recv b)) = sk_gptr b then
        (case sk_do_recv b of (r, b') \<Rightarrow>
           (if r \<noteq> 0 then - 1 else int (length (sm_data (sk_recv b'))) - int (sk_gptr b'), b'))
      else (int (length (sm_data (sk_recv b))) - int (sk_gptr b), b))"

text \<open>
  \<^verbatim>\<open>_poll\<close> waits for the socket with the answers of \<^verbatim>\<open>poll\<close> given; \<open>None\<close> is a wait that does not end. \<^verbatim>\<open>underflow\<close> looks at the next character and
  waits for it when there is none.
\<close>

datatype poll_result = PollErr int | PollEvents u16

fun sk_poll :: "poll_result list \<Rightarrow> (int \<times> poll_result list) option" where
  "sk_poll [] = None"
| "sk_poll (PollErr e # ps) = (if e = EINTR then sk_poll ps else Some (- 1, ps))"
| "sk_poll (PollEvents revents # ps) = Some (if revents AND (POLLHUP OR POLLERR OR POLLNVAL) \<noteq> 0 then - 1 else 0, ps)"

lemma sk_poll_consumes: "sk_poll ps = Some (r, ps') \<Longrightarrow> length ps' < length ps"
  by (induction ps rule: sk_poll.induct) (auto split: if_splits)

function sk_underflow :: "poll_result list \<Rightarrow> sockbuf \<Rightarrow> (byte option \<times> poll_result list \<times> sockbuf) option" where
  "sk_underflow ps b =
     (if \<not> sk_in b then Some (None, ps, b)
      else (case sk_do_recv b of (r, b') \<Rightarrow>
        if r \<noteq> 0 then Some (None, ps, b')
        else if sm_data (sk_recv b') \<noteq> [] then Some (Some (sm_data (sk_recv b') ! sk_gptr b'), ps, b')
        else (case sk_poll ps of
            None \<Rightarrow> None
          | Some (r, ps') \<Rightarrow> if r \<noteq> 0 then Some (None, ps', b') else sk_underflow ps' b')))"
  by pat_completeness auto
termination
  by (relation "measure (\<lambda>(ps, b). length ps)") (auto dest: sk_poll_consumes)

declare sk_underflow.simps [simp del]

text \<open>The descriptor the destructor closes.\<close>

definition sk_closes :: "sockbuf \<Rightarrow> fd list" where
  "sk_closes b = (if BAD_SOCKET < sk_socket b then [sk_socket b] else [])"

definition sk_in_avail :: "sockbuf \<Rightarrow> int \<times> sockbuf" where
  "sk_in_avail b =
     (if sk_gptr b < length (sm_data (sk_recv b))
      then (int (length (sm_data (sk_recv b))) - int (sk_gptr b), b)
      else sk_showmanyc b)"

definition sk_sgetn :: "nat \<Rightarrow> sockbuf \<Rightarrow> byte list \<times> sockbuf" where
  "sk_sgetn n b =
     (let bs = take n (drop (sk_gptr b) (sm_data (sk_recv b)))
      in (bs, b\<lparr>sk_gptr := sk_gptr b + length bs\<rparr>))"

section \<open>Positions and connection\<close>

definition sk_putlen :: "sockbuf \<Rightarrow> nat" where
  "sk_putlen b = (if sk_send b = [] then 0 else length (sm_data (last (sk_send b))))"

definition sk_seekpos :: "int \<Rightarrow> bool \<Rightarrow> bool \<Rightarrow> sockbuf \<Rightarrow> int \<times> sockbuf" where
  "sk_seekpos pos which_in which_out b =
     (if pos < 0 then (- 1, b)
      else if which_out then
        (if int (sk_putlen b) < pos then (- 1, b)
         else (pos, b\<lparr>sk_send := on_last (\<lambda>m. m\<lparr>sm_data := take (nat pos) (sm_data m)\<rparr>) (sk_send b)\<rparr>))
      else if which_in then
        (if int (length (sm_data (sk_recv b))) < pos then (- 1, b)
         else (pos, b\<lparr>sk_gptr := nat pos\<rparr>))
      else (- 1, b))"

definition sk_tellp :: "sockbuf \<Rightarrow> int \<times> sockbuf" where
  "sk_tellp b = sk_seekpos (int (sk_putlen b)) False True b"

definition family_of :: "byte list \<Rightarrow> nat" where
  "family_of addr = (if length addr < 2 then 0 else le_nat (take 2 addr))"

text \<open>\<^verbatim>\<open>connectto\<close>: whether a buffer is returned, and the new state.\<close>

fun connectto_loop :: "conn_result list \<Rightarrow> bool \<times> bool \<times> int \<times> conn_result list" where
  "connectto_loop [] = (True, True, EINPROGRESS, [])"
| "connectto_loop (ConnOk # cs) = (True, False, 0, cs)"
| "connectto_loop (ConnErr e # cs) =
     (if e = EINTR then connectto_loop cs
      else if e = EISCONN \<or> e = EAGAIN \<or> e = EALREADY \<or> e = EINPROGRESS then (True, True, e, cs)
      else (False, False, e, cs))"

definition connectto :: "byte list \<Rightarrow> nat \<Rightarrow> sockbuf \<Rightarrow> bool \<times> sockbuf" where
  "connectto addr addrlen b =
     (let ms = (if sm_family (last (sk_send b)) \<noteq> 0
                then on_last (\<lambda>m. m\<lparr>sm_iov_len := length (sm_data m)\<rparr>) (sk_send b)
                  @ [empty_message\<lparr>sm_iov_len := MIN_BUFSIZE\<rparr>]
                else sk_send b);
          b1 = b\<lparr>sk_send := on_last (\<lambda>m. m\<lparr>sm_addr := take addrlen addr, sm_addrlen := addrlen,
                 sm_family := family_of (take addrlen addr)\<rparr>) ms\<rparr>
      in if sk_connected b1 then (True, b1)
         else (case connectto_loop (k_conn (sk_kernel b1)) of (ok, conn, e, cs) \<Rightarrow>
            (ok, b1\<lparr>sk_connected := conn, sk_errno := e,
                    sk_kernel := (sk_kernel b1)\<lparr>k_conn := cs\<rparr>\<rparr>)))"

type_synonym sockstream = "sockbuf ios"

abbreviation sock_readsome :: "nat \<Rightarrow> sockstream \<Rightarrow> byte list \<times> sockstream" where
  "sock_readsome \<equiv> readsome sk_in_avail sk_sgetn"
abbreviation sock_write :: "byte list \<Rightarrow> sockstream \<Rightarrow> sockstream" where
  "sock_write \<equiv> ostream_write sk_sputn"
abbreviation sock_flush :: "sockstream \<Rightarrow> sockstream" where
  "sock_flush \<equiv> ostream_flush sk_sync"
abbreviation sock_tellp :: "sockstream \<Rightarrow> int" where
  "sock_tellp s \<equiv> fst (tellp sk_tellp s)"
abbreviation native_handle :: "sockstream \<Rightarrow> fd" where
  "native_handle s \<equiv> sk_socket (rdbuf s)"


section \<open>Output keeps the byte stream\<close>

definition sk_pending :: "sockbuf \<Rightarrow> byte list" where
  "sk_pending b = concat (map sm_data (sk_send b))"

text \<open>Everything ever accepted for output: what the kernel took, then what is still buffered.\<close>

definition sk_stream :: "sockbuf \<Rightarrow> byte list" where
  "sk_stream b = k_wire (sk_kernel b) @ sk_pending b"

fun msgs_ok :: "socket_message list \<Rightarrow> bool" where
  "msgs_ok [] \<longleftrightarrow> False"
| "msgs_ok [m] \<longleftrightarrow> length (sm_data m) \<le> sm_iov_len m"
| "msgs_ok (m # m' # ms) \<longleftrightarrow> sm_iov_len m = length (sm_data m) \<and> msgs_ok (m' # ms)"

definition sk_out_inv :: "sockbuf \<Rightarrow> bool" where
  "sk_out_inv b \<longleftrightarrow> msgs_ok (sk_send b)"

lemma msgs_ok_Cons:
  "msgs_ok (m # ms) \<longleftrightarrow> (if ms = [] then length (sm_data m) \<le> sm_iov_len m
     else sm_iov_len m = length (sm_data m) \<and> msgs_ok ms)"
  by (cases ms) auto

lemma msgs_ok_snoc:
  "msgs_ok (ms @ [m]) \<longleftrightarrow> (\<forall>x \<in> set ms. sm_iov_len x = length (sm_data x)) \<and> length (sm_data m) \<le> sm_iov_len m"
  by (induction ms) (auto simp: msgs_ok_Cons)

lemma sk_out_inv_update [simp]:
  "sk_out_inv (b\<lparr>sk_errno := e\<rparr>) = sk_out_inv b" "sk_out_inv (b\<lparr>sk_kernel := k\<rparr>) = sk_out_inv b"
  "sk_out_inv (b\<lparr>sk_connected := c\<rparr>) = sk_out_inv b" "sk_out_inv (b\<lparr>sk_stuck := st\<rparr>) = sk_out_inv b"
  by (simp_all add: sk_out_inv_def)

lemma send_loop_stream:
  "send_loop ks rest conn anc wire = (rest', e, conn', anc', wire', ks') \<Longrightarrow>
     wire' @ rest' = wire @ rest \<and> (\<exists>k. wire' = wire @ take k rest)"
proof (induction ks rest conn anc wire rule: send_loop.induct)
  case (1 rest conn anc wire)
  then show ?case by (auto intro: exI [of _ 0])
next
  case (2 n ks rest conn anc wire)
  define k where "k = min n (min (length rest) MIN_BUFSIZE)"
  consider "k = 0" | "k \<noteq> 0" "length rest \<le> k" | "k \<noteq> 0" "\<not> length rest \<le> k" by blast
  then show ?case
  proof cases
    case 1
    with "2.prems" show ?thesis by (auto simp: k_def Let_def intro: exI [of _ 0])
  next
    case 2
    with "2.prems" show ?thesis by (auto simp: k_def Let_def intro: exI [of _ "length rest"])
  next
    case 3
    with "2.prems" [unfolded send_loop.simps Let_def, folded k_def]
    have "send_loop ks (drop k rest) conn [] (wire @ take k rest)
      = (rest', e, conn', anc', wire', ks')" by simp
    with "2.IH" [folded k_def] 3 have *: "wire' @ rest' = (wire @ take k rest) @ drop k rest"
      "\<exists>j. wire' = (wire @ take k rest) @ take j (drop k rest)" by blast+
    then obtain j where "wire' = (wire @ take k rest) @ take j (drop k rest)" by blast
    then have "wire' = wire @ take (k + j) rest" by (simp add: take_add)
    with *(1) show ?thesis by (auto intro: exI [of _ "k + j"])
  qed
next
  case (3 e ks rest conn anc wire)
  then show ?case by (auto split: if_splits intro: exI [of _ 0])
qed

lemma send_first_stream:
  assumes "sk_send b = m # ms" and "send_first b m ms = (r, b')"
  shows "sk_stream b' = sk_stream b" and "\<exists>m'. sk_send b' = m' # ms \<and> sm_family m' = sm_family m"
proof -
  obtain rest e conn anc wire ks where l: "send_loop (k_send (sk_kernel b)) (sm_data m) (sk_connected b)
      (sm_ancillary m) (k_wire (sk_kernel b)) = (rest, e, conn, anc, wire, ks)"
    by (cases "send_loop (k_send (sk_kernel b)) (sm_data m) (sk_connected b)
      (sm_ancillary m) (k_wire (sk_kernel b))") auto
  have w: "wire @ rest = k_wire (sk_kernel b) @ sm_data m" using send_loop_stream [OF l] by simp
  have d: "sm_data (resizewbuf il bs mm) = bs" "sm_family (resizewbuf il bs mm) = sm_family mm" for il bs mm
    by (simp_all add: resizewbuf_def Let_def)
  show "sk_stream b' = sk_stream b"
    using assms l w d by (auto simp: send_first_def Let_def sk_stream_def sk_pending_def split: if_splits)
  show "\<exists>m'. sk_send b' = m' # ms \<and> sm_family m' = sm_family m"
    using assms l d by (auto simp: send_first_def Let_def split: if_splits)
qed

text \<open>A relation every step of \<^verbatim>\<open>sync\<close> keeps is kept by all of them.\<close>

lemma send_retry_induct:
  assumes base: "\<And>b. P b b" and tr: "\<And>a b c. P a b \<Longrightarrow> P b c \<Longrightarrow> P a c"
    and send: "\<And>b m ms r b'. sk_send b = m # ms \<Longrightarrow> send_first b m ms = (r, b') \<Longrightarrow> P b b'"
    and conn: "\<And>b e cs c. P b (b\<lparr>sk_errno := e, sk_kernel := (sk_kernel b)\<lparr>k_conn := cs\<rparr>\<rparr>)"
    and flag: "\<And>b. P b (b\<lparr>sk_connected := True\<rparr>)"
  shows "P b (snd (send_retry b))"
proof (induction b rule: send_retry.induct)
  case (1 b)
  show ?case
  proof (cases "sk_send b")
    case Nil
    then show ?thesis by (simp add: send_retry.simps base)
  next
    case (Cons m ms)
    obtain r b' where s: "send_first b m ms = (r, b')" by fastforce
    have p: "P b b'" by (rule send [OF Cons s])
    show ?thesis
    proof (cases "r \<noteq> 0 \<and> sk_errno b' = ENOTCONN \<and> sm_family m \<noteq> 0")
      case True
      obtain out e cs where c: "connect_loop (k_conn (sk_kernel b')) = (out, e, cs)"
        by (cases "connect_loop (k_conn (sk_kernel b'))") auto
      define b2 where "b2 = b'\<lparr>sk_errno := e, sk_kernel := (sk_kernel b')\<lparr>k_conn := cs\<rparr>\<rparr>"
      have p2: "P b b2" unfolding b2_def by (rule tr [OF p conn])
      note ih = "1.IH" [OF Cons s [symmetric] _ _ _ c [symmetric] refl refl, folded b2_def]
      have "snd (send_retry b) = (case out of ConnDone \<Rightarrow> snd (send_retry b2)
          | ConnAgain \<Rightarrow> snd (send_retry (b2\<lparr>sk_connected := True\<rparr>))
          | ConnPending \<Rightarrow> b2\<lparr>sk_connected := True\<rparr> | ConnFailed \<Rightarrow> b2)"
        using True Cons s c by (subst send_retry.simps) (cases out; simp add: Let_def b2_def)
      then show ?thesis
        using p2 ih True tr [OF p2 flag] tr [OF p2] tr [OF tr [OF p2 flag]]
        by (cases out) auto
    next
      case False
      then show ?thesis using p Cons s by (subst send_retry.simps) auto
    qed
  qed
qed

lemma send_retry_stream: "sk_stream (snd (send_retry b)) = sk_stream b"
  by (rule send_retry_induct [where P = "\<lambda>a b. sk_stream b = sk_stream a"])
    (auto intro: send_first_stream(1), auto simp: sk_stream_def sk_pending_def)

text \<open>The messages after the first are not touched by sending the first one.\<close>

lemma send_retry_tail:
  "sk_send b \<noteq> [] \<Longrightarrow> sk_send (snd (send_retry b)) \<noteq> [] \<and> tl (sk_send (snd (send_retry b))) = tl (sk_send b)"
  by (rule send_retry_induct [where P = "\<lambda>a b. sk_send a \<noteq> [] \<longrightarrow> sk_send b \<noteq> []
      \<and> tl (sk_send b) = tl (sk_send a)", rule_format])
    (auto dest: send_first_stream(2))


lemma put_capacity_gt: "n < put_capacity n"
proof -
  have "n < MIN_BUFSIZE * (n div MIN_BUFSIZE) + MIN_BUFSIZE"
    using mod_less_divisor [of MIN_BUFSIZE n] mult_div_mod_eq [of MIN_BUFSIZE n]
    by (simp add: MIN_BUFSIZE_def)
  then show ?thesis by (simp add: put_capacity_def algebra_simps)
qed

lemma send_first_inv:
  assumes "sk_send b = m # ms" and "sk_out_inv b" and "send_first b m ms = (r, b')"
  shows "sk_out_inv b'"
proof -
  obtain rest e conn anc wire ks where l: "send_loop (k_send (sk_kernel b)) (sm_data m) (sk_connected b)
      (sm_ancillary m) (k_wire (sk_kernel b)) = (rest, e, conn, anc, wire, ks)"
    by (cases "send_loop (k_send (sk_kernel b)) (sm_data m) (sk_connected b)
      (sm_ancillary m) (k_wire (sk_kernel b))") auto
  have "\<exists>m'. sk_send b' = m' # ms \<and> (if ms = [] then length (sm_data m') \<le> sm_iov_len m'
      else sm_iov_len m' = length (sm_data m'))"
    using assms l put_capacity_gt
    by (auto simp: send_first_def Let_def resizewbuf_def sk_out_inv_def msgs_ok_Cons less_imp_le
        split: if_splits)
  with assms(1,2) show ?thesis
    by (auto simp: sk_out_inv_def msgs_ok_Cons split: if_splits)
qed

lemma send_retry_inv: "sk_out_inv b \<Longrightarrow> sk_out_inv (snd (send_retry b))"
proof -
  have "sk_out_inv b \<longrightarrow> sk_out_inv (snd (send_retry b))"
    by (rule send_retry_induct [where P = "\<lambda>a b. sk_out_inv a \<longrightarrow> sk_out_inv b"])
      (auto intro: send_first_inv)
  then show "sk_out_inv b \<Longrightarrow> ?thesis" by simp
qed

lemma sk_sync_stream:
  assumes "sk_out_inv b"
  shows "sk_out_inv (snd (sk_sync b)) \<and> sk_stream (snd (sk_sync b)) = sk_stream b"
  using assms
proof (induction b rule: sk_sync.induct)
  case (1 b)
  then obtain m ms where ms: "sk_send b = m # ms" by (cases "sk_send b") (auto simp: sk_out_inv_def)
  obtain ret b' where r: "send_retry b = (ret, b')" by fastforce
  have inv: "sk_out_inv b'" and str: "sk_stream b' = sk_stream b"
    using send_retry_inv [OF "1.prems"] send_retry_stream [of b] r by simp_all
  have tail: "sk_send b' \<noteq> []" "tl (sk_send b') = ms" using send_retry_tail [of b] ms r by simp_all
  then obtain m' where m': "sk_send b' = m' # ms" by (cases "sk_send b'") auto
  show ?case
  proof (cases "ret = None \<and> sm_iov_len m' = 0 \<and> ms \<noteq> []")
    case True
    let ?b2 = "b'\<lparr>sk_send := tl (sk_send b')\<rparr>"
    have "sm_data m' = []" and inv2: "sk_out_inv ?b2"
      using inv m' True by (auto simp: sk_out_inv_def msgs_ok_Cons)
    then have "sk_stream ?b2 = sk_stream b'" using m' by (simp add: sk_stream_def sk_pending_def)
    moreover have "sk_out_inv (snd (sk_sync ?b2)) \<and> sk_stream (snd (sk_sync ?b2)) = sk_stream ?b2"
      using True m' r ms inv2 by (intro "1.IH" [OF ms]) auto
    ultimately show ?thesis
      using True ms r m' str by (subst (1 2) sk_sync.simps) simp
  next
    case False
    then show ?thesis
      using ms r m' str inv by (subst (1 2) sk_sync.simps) (auto split: option.splits)
  qed
qed

lemma on_last_data:
  "ms \<noteq> [] \<Longrightarrow> concat (map sm_data (on_last (\<lambda>m. m\<lparr>sm_data := sm_data m @ bs\<rparr>) ms))
     = concat (map sm_data ms) @ bs"
  by (cases ms rule: rev_cases) (auto simp: on_last_def)

lemma put_store_stream:
  assumes "put_room b" and "sk_out_inv b"
  shows "sk_out_inv (put_store ch b)" and "sk_stream (put_store ch b) = sk_stream b @ [ch]"
proof -
  from assms obtain ms m where ms: "sk_send b = ms @ [m]"
    by (cases "sk_send b" rule: rev_cases) (auto simp: put_room_def)
  with assms show "sk_out_inv (put_store ch b)"
    by (auto simp: sk_out_inv_def put_store_def on_last_def put_room_def msgs_ok_snoc)
  from ms show "sk_stream (put_store ch b) = sk_stream b @ [ch]"
    using on_last_data [of "sk_send b" "[ch]"]
    by (simp add: put_store_def sk_stream_def sk_pending_def)
qed

lemma sk_sputc_stream:
  assumes "sk_out_inv b" and "sk_sputc ch b = (ok, b')"
  shows "sk_out_inv b' \<and> sk_stream b' = sk_stream b @ (if ok then [ch] else [])"
  using assms
proof (induction ch b rule: sk_sputc.induct)
  case (1 ch b)
  obtain r b1 where s: "sk_sync b = (r, b1)" by fastforce
  have b1: "sk_out_inv b1" "sk_stream b1 = sk_stream b"
    using sk_sync_stream [OF "1.prems"(1)] s by simp_all
  note unf = "1.prems"(2) [unfolded sk_sputc.simps [of ch b] s prod.case]
  consider (room) "put_room b" | (noout) "\<not> put_room b" "\<not> sk_out b"
    | (err) "\<not> put_room b" "sk_out b" "r \<noteq> 0"
    | (room2) "\<not> put_room b" "sk_out b" "r = 0" "put_room b1"
    | (again) "\<not> put_room b" "sk_out b" "r = 0" "\<not> put_room b1" "script_len b1 < script_len b"
    | (stuck) "\<not> put_room b" "sk_out b" "r = 0" "\<not> put_room b1" "\<not> script_len b1 < script_len b"
    by blast
  then show ?case
  proof cases
    case room
    with unf put_store_stream [OF room "1.prems"(1), of ch] show ?thesis by auto
  next
    case noout
    with unf "1.prems"(1) show ?thesis by auto
  next
    case err
    with unf b1 show ?thesis by auto
  next
    case room2
    with unf b1 put_store_stream [OF room2(4) b1(1), of ch] show ?thesis by auto
  next
    case again
    with unf have "sk_sputc ch b1 = (ok, b')" by simp
    from "1.IH" [OF again(1) _ s [symmetric] _ again(4,5) b1(1) this] again b1(2)
    show ?thesis by simp
  next
    case stuck
    with unf have "ok = False" "b' = b1\<lparr>sk_stuck := True\<rparr>" by simp_all
    with b1 show ?thesis by (simp add: sk_out_inv_def sk_stream_def sk_pending_def)
  qed
qed

lemma sk_sputn_stream:
  assumes "sk_out_inv b" and "sk_sputn bs b = (n, b')"
  shows "sk_out_inv b' \<and> n \<le> length bs \<and> sk_stream b' = sk_stream b @ take n bs"
  using assms
proof (induction bs arbitrary: b n b')
  case Nil
  then show ?case by simp
next
  case (Cons ch bs)
  obtain ok b1 where s: "sk_sputc ch b = (ok, b1)" by fastforce
  note c = sk_sputc_stream [OF Cons.prems(1) s]
  obtain m b2 where r: "sk_sputn bs b1 = (m, b2)" by fastforce
  show ?case
  proof (cases ok)
    case True
    with Cons.prems(2) s r have "n = Suc m" "b' = b2" by simp_all
    with Cons.IH [OF _ r] c True show ?thesis by simp
  next
    case False
    with Cons.prems(2) s c show ?thesis by simp
  qed
qed

interpretation sk_out: output_buffer sk_sputn sk_stream sk_out_inv
  by unfold_locales (rule sk_sputn_stream)

section \<open>Output returns\<close>

text \<open>A stream socket: one send message with a put area.\<close>

definition sk_single :: "sockbuf \<Rightarrow> bool" where
  "sk_single b \<longleftrightarrow> sk_out b \<and> (\<exists>m. sk_send b = [m] \<and> 0 < sm_iov_len m
     \<and> length (sm_data m) \<le> sm_iov_len m)"

lemma sk_single_inv: "sk_single b \<Longrightarrow> sk_out_inv b"
  by (auto simp: sk_single_def sk_out_inv_def)

lemma send_first_room:
  assumes "sk_send b = [m]" and "sk_single b" and "send_first b m [] = (r, b')"
  shows "sk_single b' \<and> put_room b' \<and> sk_stuck b' = sk_stuck b"
proof -
  obtain rest e conn anc wire ks where l: "send_loop (k_send (sk_kernel b)) (sm_data m) (sk_connected b)
      (sm_ancillary m) (k_wire (sk_kernel b)) = (rest, e, conn, anc, wire, ks)"
    by (cases "send_loop (k_send (sk_kernel b)) (sm_data m) (sk_connected b)
      (sm_ancillary m) (k_wire (sk_kernel b))") auto
  have c: "length bs < put_capacity (length bs)" for bs :: "byte list" by (rule put_capacity_gt)
  have c0: "0 < put_capacity n" for n using put_capacity_gt [of n] by simp
  show ?thesis
    using assms l c c0 less_imp_le [OF c]
    by (auto simp: send_first_def Let_def resizewbuf_def sk_single_def put_room_def split: if_splits)
qed

lemma send_retry_room:
  assumes "sk_single b"
  shows "sk_single (snd (send_retry b)) \<and> put_room (snd (send_retry b))
    \<and> sk_stuck (snd (send_retry b)) = sk_stuck b"
  using assms
proof (induction b rule: send_retry.induct)
  case (1 b)
  then obtain m where m: "sk_send b = [m]" by (auto simp: sk_single_def)
  obtain r b' where s: "send_first b m [] = (r, b')" by fastforce
  note f = send_first_room [OF m "1.prems" s]
  show ?case
  proof (cases "r \<noteq> 0 \<and> sk_errno b' = ENOTCONN \<and> sm_family m \<noteq> 0")
    case True
    obtain out e cs where c: "connect_loop (k_conn (sk_kernel b')) = (out, e, cs)"
      by (cases "connect_loop (k_conn (sk_kernel b'))") auto
    define b2 where "b2 = b'\<lparr>sk_errno := e, sk_kernel := (sk_kernel b')\<lparr>k_conn := cs\<rparr>\<rparr>"
    have f2: "sk_single b2" "put_room b2" "sk_stuck b2 = sk_stuck b"
      "sk_single (b2\<lparr>sk_connected := True\<rparr>)" "put_room (b2\<lparr>sk_connected := True\<rparr>)"
      "sk_stuck (b2\<lparr>sk_connected := True\<rparr>) = sk_stuck b"
      using f by (auto simp: b2_def sk_single_def put_room_def)
    note ih = "1.IH" [OF m s [symmetric] _ _ _ c [symmetric] refl refl, folded b2_def]
    have "snd (send_retry b) = (case out of ConnDone \<Rightarrow> snd (send_retry b2)
        | ConnAgain \<Rightarrow> snd (send_retry (b2\<lparr>sk_connected := True\<rparr>))
        | ConnPending \<Rightarrow> b2\<lparr>sk_connected := True\<rparr> | ConnFailed \<Rightarrow> b2)"
      using True m s c by (subst send_retry.simps) (cases out; simp add: Let_def b2_def)
    then show ?thesis using True f2 ih by (cases out) simp_all
  next
    case False
    then show ?thesis using f m s by (subst (1 2 3) send_retry.simps) auto
  qed
qed

lemma sk_sync_single:
  assumes "sk_single b"
  shows "sk_single (snd (sk_sync b)) \<and> put_room (snd (sk_sync b))
    \<and> sk_stuck (snd (sk_sync b)) = sk_stuck b"
proof -
  obtain m where m: "sk_send b = [m]" using assms by (auto simp: sk_single_def)
  obtain ret b' where r: "send_retry b = (ret, b')" by fastforce
  have "snd (sk_sync b) = b'" by (subst sk_sync.simps) (simp add: m r split: option.split)
  with send_retry_room [OF assms] r show ?thesis by simp
qed

lemma put_store_single: "sk_single b \<Longrightarrow> put_room b \<Longrightarrow> sk_single (put_store ch b)"
  by (auto simp: sk_single_def put_store_def on_last_def put_room_def)

lemma sk_sputc_single:
  assumes "sk_single b"
  shows "sk_single (snd (sk_sputc ch b)) \<and> sk_stuck (snd (sk_sputc ch b)) = sk_stuck b"
proof -
  obtain r b1 where s: "sk_sync b = (r, b1)" by fastforce
  have b1: "sk_single b1" "put_room b1" "sk_stuck b1 = sk_stuck b"
    using sk_sync_single [OF assms] s by simp_all
  have ps: "sk_stuck (put_store ch x) = sk_stuck x" for x by (simp add: put_store_def)
  show ?thesis
    using b1 put_store_single [OF assms] put_store_single [OF b1(1,2)] assms ps
    by (auto simp: sk_sputc.simps [of ch b] s)
qed

lemma sk_sputn_single:
  "sk_single b \<Longrightarrow> sk_single (snd (sk_sputn bs b)) \<and> sk_stuck (snd (sk_sputn bs b)) = sk_stuck b"
proof (induction bs arbitrary: b)
  case Nil
  then show ?case by simp
next
  case (Cons ch bs)
  obtain ok b1 where s: "sk_sputc ch b = (ok, b1)" by fastforce
  with sk_sputc_single [OF Cons.prems, of ch] have "sk_single b1" "sk_stuck b1 = sk_stuck b" by simp_all
  with Cons.IH [OF this(1)] s show ?case by (cases "sk_sputn bs b1") simp
qed


lemma sk_single_connectto:
  assumes "sk_single b" and "sm_family (last (sk_send b)) = 0"
  shows "sk_single (snd (connectto addr addrlen b))"
  using assms by (auto simp: connectto_def sk_single_def on_last_def Let_def split: prod.split)

lemma sock_write_single:
  "sk_single (rdbuf s) \<Longrightarrow> sk_single (rdbuf (sock_write bs s))"
  using sk_sputn_single [of "rdbuf s" bs]
  by (cases "sk_sputn bs (rdbuf s)") (auto simp: ostream_write_def)

lemma sk_tellp_simp:
  assumes "sk_out_inv b"
  shows "sk_tellp b = (int (sk_putlen b), b)"
proof -
  from assms obtain ms m where ms: "sk_send b = ms @ [m]"
    by (cases "sk_send b" rule: rev_cases) (auto simp: sk_out_inv_def)
  show ?thesis by (simp add: sk_tellp_def sk_seekpos_def sk_putlen_def on_last_def ms)
qed

section \<open>What output leaves alone\<close>

text \<open>
  Output keeps the descriptor and the receive side, what is on the wire stays there, and a single send
  message stays the only one and keeps its address family.
\<close>

definition out_frame :: "sockbuf \<Rightarrow> sockbuf \<Rightarrow> bool" where
  "out_frame a b \<longleftrightarrow> sk_socket b = sk_socket a \<and> sk_recv b = sk_recv a \<and> sk_gptr b = sk_gptr a
     \<and> k_recv (sk_kernel b) = k_recv (sk_kernel a) \<and> length (k_wire (sk_kernel a)) \<le> length (k_wire (sk_kernel b))
     \<and> (length (sk_send a) = 1 \<longrightarrow> map sm_family (sk_send b) = map sm_family (sk_send a))"

lemma out_frame_refl: "out_frame b b"
  by (simp add: out_frame_def)

lemma out_frame_trans: "out_frame a b \<Longrightarrow> out_frame b c \<Longrightarrow> out_frame a c"
  unfolding out_frame_def by (metis length_map order_trans)

lemma send_first_frame:
  assumes "sk_send b = m # ms" and "send_first b m ms = (r, b')"
  shows "out_frame b b'"
proof -
  obtain rest e conn anc wire ks where l: "send_loop (k_send (sk_kernel b)) (sm_data m) (sk_connected b)
      (sm_ancillary m) (k_wire (sk_kernel b)) = (rest, e, conn, anc, wire, ks)"
    by (cases "send_loop (k_send (sk_kernel b)) (sm_data m) (sk_connected b)
      (sm_ancillary m) (k_wire (sk_kernel b))") auto
  have "length (k_wire (sk_kernel b)) \<le> length wire" using send_loop_stream [OF l] by auto
  with assms l show ?thesis by (auto simp: send_first_def resizewbuf_def Let_def out_frame_def split: if_splits)
qed

lemma send_retry_frame: "out_frame b (snd (send_retry b))"
  by (rule send_retry_induct [where P = out_frame])
    (auto intro: out_frame_refl out_frame_trans send_first_frame, auto simp: out_frame_def)

lemma sk_sync_frame: "out_frame b (snd (sk_sync b))"
proof (induction b rule: sk_sync.induct)
  case (1 b)
  obtain ret b' where r: "send_retry b = (ret, b')" by fastforce
  have f: "out_frame b b'" using send_retry_frame [of b] r by simp
  show ?case
  proof (cases "sk_send b")
    case Nil
    then show ?thesis by (subst sk_sync.simps) (simp add: out_frame_refl)
  next
    case (Cons m ms)
    let ?b2 = "b'\<lparr>sk_send := tl (sk_send b')\<rparr>"
    have f2: "out_frame b ?b2" if "ms \<noteq> []" using f Cons that by (simp add: out_frame_def)
    show ?thesis
    proof (cases "ret = None \<and> sm_iov_len (hd (sk_send b')) = 0 \<and> ms \<noteq> []")
      case True
      have "out_frame ?b2 (snd (sk_sync ?b2))" using True r by (intro "1.IH" [OF Cons]) auto
      from out_frame_trans [OF f2 this] True Cons r show ?thesis by (subst sk_sync.simps) simp
    next
      case False
      then show ?thesis using f Cons r by (subst sk_sync.simps) (auto split: option.splits)
    qed
  qed
qed

lemma put_store_frame: "out_frame b (put_store ch b)"
  by (auto simp: put_store_def out_frame_def on_last_def length_Suc_conv)

lemma sk_sputc_frame: "out_frame b (snd (sk_sputc ch b))"
proof (induction ch b rule: sk_sputc.induct)
  case (1 ch b)
  obtain r b1 where s: "sk_sync b = (r, b1)" by fastforce
  have f: "out_frame b b1" using sk_sync_frame [of b] s by simp
  have f2: "out_frame b (put_store ch b1)" "out_frame b (b1\<lparr>sk_stuck := True\<rparr>)"
    using f out_frame_trans [OF f put_store_frame] by (simp_all add: out_frame_def)
  have ih: "out_frame b (snd (sk_sputc ch b1))"
    if "\<not> put_room b" "sk_out b" "r = 0" "\<not> put_room b1" "script_len b1 < script_len b"
    using "1.IH" [OF that(1) _ s [symmetric] _ that(4,5)] that out_frame_trans [OF f] by simp
  show ?case
    unfolding sk_sputc.simps [of ch b] s prod.case using f f2 ih put_store_frame out_frame_refl by auto
qed

lemma sk_sputn_frame: "out_frame b (snd (sk_sputn bs b))"
proof (induction bs arbitrary: b)
  case Nil
  then show ?case by (simp add: out_frame_refl)
next
  case (Cons ch bs)
  obtain ok b1 where s: "sk_sputc ch b = (ok, b1)" by fastforce
  obtain n b2 where r: "sk_sputn bs b1 = (n, b2)" by fastforce
  have "out_frame b b1" using sk_sputc_frame [of b ch] s by simp
  moreover have "out_frame b1 b2" using Cons.IH [of b1] r by simp
  ultimately show ?case using s r by (auto intro: out_frame_trans)
qed

lemma sock_write_frame: "out_frame (rdbuf x) (rdbuf (sock_write bs x))"
  using sk_sputn_frame [of "rdbuf x" bs]
  by (cases "sk_sputn bs (rdbuf x)") (auto simp: ostream_write_def out_frame_refl)

lemma sock_flush_frame: "out_frame (rdbuf x) (rdbuf (sock_flush x))"
  using sk_sync_frame [of "rdbuf x"]
  by (cases "sk_sync (rdbuf x)") (auto simp: ostream_flush_def out_frame_refl)

lemma sock_write_native [simp]: "native_handle (sock_write bs x) = native_handle x"
  using sock_write_frame [of x bs] by (simp add: out_frame_def)

lemma sock_flush_native [simp]: "native_handle (sock_flush x) = native_handle x"
  using sock_flush_frame [of x] by (simp add: out_frame_def)

lemma sock_write_eof [simp]: "eofbit (sock_write bs x) = eofbit x"
  by (auto simp: ostream_write_def split: prod.split)

lemma sock_flush_eof [simp]: "eofbit (sock_flush x) = eofbit x"
  by (auto simp: ostream_flush_def split: prod.split)

text \<open>Accepting bytes makes what is pending longer by no more than them; flushing makes it no longer.\<close>

lemma sock_write_inv [simp]: "sk_out_inv (rdbuf x) \<Longrightarrow> sk_out_inv (rdbuf (sock_write bs x))"
  by (rule sk_out.write_accepts(1))

lemma sock_flush_stream:
  assumes "sk_out_inv (rdbuf x)"
  shows "sk_out_inv (rdbuf (sock_flush x)) \<and> sk_stream (rdbuf (sock_flush x)) = sk_stream (rdbuf x)"
  using sk_sync_stream [OF assms] assms
  by (cases "sk_sync (rdbuf x)") (auto simp: ostream_flush_def)

lemma sock_write_pending:
  assumes "sk_out_inv (rdbuf x)"
  shows "length (sk_pending (rdbuf (sock_write bs x))) \<le> length (sk_pending (rdbuf x)) + length bs"
proof -
  obtain k where "sk_stream (rdbuf (sock_write bs x)) = sk_stream (rdbuf x) @ take k bs"
    using sk_out.write_accepts(3) [OF assms] by blast
  then have "length (sk_stream (rdbuf (sock_write bs x))) \<le> length (sk_stream (rdbuf x)) + length bs" by simp
  with sock_write_frame [of x bs] show ?thesis by (simp add: sk_stream_def out_frame_def)
qed

lemma sock_flush_pending:
  assumes "sk_out_inv (rdbuf x)"
  shows "length (sk_pending (rdbuf (sock_flush x))) \<le> length (sk_pending (rdbuf x))"
proof -
  have "length (sk_stream (rdbuf (sock_flush x))) = length (sk_stream (rdbuf x))"
    using sock_flush_stream [OF assms] by simp
  with sock_flush_frame [of x] show ?thesis by (simp add: sk_stream_def out_frame_def)
qed

lemma sk_single_putlen: "sk_single b \<Longrightarrow> sk_putlen b = length (sk_pending b)"
  by (auto simp: sk_single_def sk_putlen_def sk_pending_def)

lemma sock_tellp_single:
  "sk_single (rdbuf x) \<Longrightarrow> sock_tellp x = (if fail_of x then - 1 else int (length (sk_pending (rdbuf x))))"
  by (simp add: tellp_def sk_tellp_simp [OF sk_single_inv] sk_single_putlen)

lemma sock_flush_single: "sk_single (rdbuf x) \<Longrightarrow> sk_single (rdbuf (sock_flush x))"
  using sk_sync_single [of "rdbuf x"]
  by (cases "sk_sync (rdbuf x)") (auto simp: ostream_flush_def)

section \<open>Input\<close>

fun k_incoming :: "recv_result list \<Rightarrow> byte list" where
  "k_incoming [] = []"
| "k_incoming (Got bs # rs) = (if bs = [] then [] else bs @ k_incoming rs)"
| "k_incoming (RecvErr e # rs) = k_incoming rs"

text \<open>What the peer sent and the program has not read: the get area, then the kernel's queue.\<close>

definition sk_unread :: "sockbuf \<Rightarrow> byte list" where
  "sk_unread b = drop (sk_gptr b) (sm_data (sk_recv b)) @ k_incoming (k_recv (sk_kernel b))"

definition sk_in_inv :: "sockbuf \<Rightarrow> bool" where
  "sk_in_inv b \<longleftrightarrow> sk_gptr b \<le> length (sm_data (sk_recv b))
     \<and> length (sm_data (sk_recv b)) \<le> sm_iov_len (sk_recv b)"

lemma recv_loop_spec:
  "recv_loop n rs = (bs, len, e, rs') \<Longrightarrow>
     bs @ k_incoming rs' = k_incoming rs \<and> length bs \<le> n"
  by (induction n rs rule: recv_loop.induct) (auto split: if_splits)

lemma memmoverbuf_simps [simp]:
  "sk_gptr (memmoverbuf b) = 0"
  "sm_data (sk_recv (memmoverbuf b)) = drop (sk_gptr b) (sm_data (sk_recv b))"
  "sm_iov_len (sk_recv (memmoverbuf b)) = sm_iov_len (sk_recv b)"
  "sm_ancillary (sk_recv (memmoverbuf b)) = sm_ancillary (sk_recv b)"
  "sk_kernel (memmoverbuf b) = sk_kernel b" "sk_send (memmoverbuf b) = sk_send b"
  by (simp_all add: memmoverbuf_def)

lemma sk_do_recv_spec:
  assumes inv: "sk_in_inv b" and r: "sk_do_recv b = (ret, b')"
  shows "sk_in_inv b' \<and> sk_unread b' = sk_unread b \<and> sk_send b' = sk_send b
    \<and> sk_kernel b' = (sk_kernel b)\<lparr>k_recv := k_recv (sk_kernel b')\<rparr>"
proof -
  define m where "m = sk_recv (memmoverbuf b)"
  obtain bs len e rs where l:
    "recv_loop (sm_iov_len m - length (sm_data m)) (k_recv (sk_kernel b)) = (bs, len, e, rs)"
    by (cases "recv_loop (sm_iov_len m - length (sm_data m)) (k_recv (sk_kernel b))") auto
  have bs: "bs @ k_incoming rs = k_incoming (k_recv (sk_kernel b))"
    "length bs \<le> sm_iov_len m - length (sm_data m)"
    using recv_loop_spec [OF l] by simp_all
  have m: "sm_data m = drop (sk_gptr b) (sm_data (sk_recv b))" "sm_iov_len m = sm_iov_len (sk_recv b)"
    by (simp_all add: m_def)
  have len: "length (sm_data m) \<le> sm_iov_len m"
    using inv unfolding m by (simp add: sk_in_inv_def le_diff_conv)
  have ret: "b' = b \<or> b' = memmoverbuf b \<or> b' = (memmoverbuf b)\<lparr>sk_recv := m\<lparr>sm_data := sm_data m @ bs\<rparr>,
      sk_errno := e, sk_kernel := (sk_kernel b)\<lparr>k_recv := rs\<rparr>\<rparr>"
    using r l by (auto simp: sk_do_recv_def Let_def m_def split: if_splits)
  then show ?thesis
    using bs len inv m by (auto simp: sk_in_inv_def sk_unread_def)
qed

lemma sk_do_recv_front: "sk_do_recv b = (0, b') \<Longrightarrow> sk_gptr b' = 0"
  by (auto simp: sk_do_recv_def memmoverbuf_def Let_def split: if_splits prod.splits)

text \<open>looking at the next character takes nothing: it is the first byte not yet read, and all of them stay.\<close>

theorem underflow_peeks:
  assumes "sk_in_inv b" and "sk_underflow ps b = Some (r, ps', b')"
  shows "sk_in_inv b' \<and> sk_unread b' = sk_unread b \<and> (\<forall>c. r = Some c \<longrightarrow> sk_unread b \<noteq> [] \<and> hd (sk_unread b) = c)"
  using assms
proof (induction ps b rule: sk_underflow.induct)
  case (1 ps b)
  obtain n b1 where d: "sk_do_recv b = (n, b1)" by fastforce
  note spec = sk_do_recv_spec [OF "1.prems"(1) d]
  show ?case
  proof (cases "sk_in b \<and> n = 0 \<and> sm_data (sk_recv b1) = []")
    case True
    then obtain q qs where p: "sk_poll ps = Some (q, qs)" using "1.prems"(2) d by (auto simp: sk_underflow.simps [of ps] split: option.splits)
    show ?thesis
    proof (cases "q = 0")
      case q: True
      then have "sk_underflow qs b1 = Some (r, ps', b')" using "1.prems"(2) d p True by (simp add: sk_underflow.simps [of ps])
      from "1.IH" [OF _ d [symmetric] _ _ p refl _ _ this] True q spec show ?thesis by auto
    next
      case False
      then show ?thesis using "1.prems"(2) d p True spec by (auto simp: sk_underflow.simps [of ps])
    qed
  next
    case False
    moreover have "sk_unread b \<noteq> [] \<and> hd (sk_unread b) = sm_data (sk_recv b1) ! sk_gptr b1" if "n = 0" "sm_data (sk_recv b1) \<noteq> []"
      using sk_do_recv_front [of b b1] spec d that unfolding sk_unread_def by (metis append_is_Nil_conv drop0 hd_append2 hd_conv_nth)
    ultimately show ?thesis using "1.prems" d spec by (auto simp: sk_underflow.simps [of ps] split: if_splits)
  qed
qed

lemma sk_in_avail_spec:
  assumes inv: "sk_in_inv b" and r: "sk_in_avail b = (num, b')"
  shows "sk_in_inv b'" and "sk_unread b' = sk_unread b" and "sk_send b' = sk_send b"
    and "0 < num \<Longrightarrow> nat num = length (sm_data (sk_recv b')) - sk_gptr b'"
proof -
  obtain ret c where d: "sk_do_recv b = (ret, c)" by fastforce
  note spec = sk_do_recv_spec [OF inv d]
  show "sk_in_inv b'" "sk_unread b' = sk_unread b" "sk_send b' = sk_send b"
    using r d spec inv by (auto simp: sk_in_avail_def sk_showmanyc_def split: if_splits)
  show "nat num = length (sm_data (sk_recv b')) - sk_gptr b'" if "0 < num"
    using r d that by (auto simp: sk_in_avail_def sk_showmanyc_def split: if_splits)
qed

interpretation sk_input: input_buffer sk_in_avail sk_sgetn sk_unread sk_in_inv
proof
  fix b num b' n bs b''
  assume inv: "sk_in_inv b" and ia: "sk_in_avail b = (num, b')"
  note spec = sk_in_avail_spec [OF inv ia]
  show "sk_in_inv b'" "sk_unread b' = sk_unread b" by (fact spec)+
  assume "0 < num" "n \<le> nat num" "sk_sgetn n b' = (bs, b'')"
  with spec have bs: "bs = take n (drop (sk_gptr b') (sm_data (sk_recv b')))"
    and b'': "b'' = b'\<lparr>sk_gptr := sk_gptr b' + n\<rparr>"
    and n: "n \<le> length (sm_data (sk_recv b')) - sk_gptr b'"
    by (auto simp: sk_sgetn_def Let_def min_def)
  show "sk_in_inv b'' \<and> length bs = n \<and> sk_unread b' = bs @ sk_unread b''"
    using append_take_drop_id [of n "drop (sk_gptr b') (sm_data (sk_recv b'))"] n spec(1) bs b''
    by (auto simp: sk_in_inv_def sk_unread_def add.commute)
qed

text \<open>Copying a string stream or a message into a socket keeps both contracts.\<close>

interpretation sb_to_sk: copy_buffers sb_in_avail sb_sgetn "\<lambda>b. drop (sb_get b) (sb_data b)" sb_inv
  sk_sputn sk_stream sk_out_inv
  by unfold_locales

interpretation sk_to_sb: copy_buffers sk_in_avail sk_sgetn sk_unread sk_in_inv
  sb_sputn "\<lambda>b. take (sb_put b) (sb_data b)" sb_inv
  by unfold_locales

section \<open>Properties\<close>

text \<open>C6: output loses, duplicates and reorders nothing. Whatever \<^verbatim>\<open>sendmsg\<close> and \<^verbatim>\<open>connect\<close> answer
  (partial sends, interruptions, would-block, errors), flushing leaves the sequence of bytes
  handed to the kernel followed by the bytes still buffered as it was, and putting characters
  appends to it exactly the prefix reported as written.\<close>

theorem sockbuf_output_integrity:
  assumes "sk_out_inv b"
  shows "k_wire (sk_kernel (snd (sk_sync b))) @ sk_pending (snd (sk_sync b))
      = k_wire (sk_kernel b) @ sk_pending b
    \<and> k_wire (sk_kernel (snd (sk_sputn bs b))) @ sk_pending (snd (sk_sputn bs b))
      = k_wire (sk_kernel b) @ sk_pending b @ take (fst (sk_sputn bs b)) bs
    \<and> sk_out_inv (snd (sk_sync b)) \<and> sk_out_inv (snd (sk_sputn bs b))"
  using sk_sync_stream [OF assms] sk_sputn_stream [OF assms, of bs]
  by (cases "sk_sputn bs b") (simp add: sk_stream_def)

definition sample_socket :: "send_result list \<Rightarrow> byte list \<Rightarrow> sockbuf" where
  "sample_socket ks bs = (sockbuf_make 7 True True True
      \<lparr>k_send = ks, k_conn = [], k_recv = [], k_wire = []\<rparr>)
      \<lparr>sk_send := [empty_message\<lparr>sm_data := bs, sm_iov_len := MIN_BUFSIZE\<rparr>]\<rparr>"

lemma sample_socket_single: "length bs \<le> MIN_BUFSIZE \<Longrightarrow> sk_single (sample_socket ks bs)"
  by (simp add: sample_socket_def sk_single_def sockbuf_make_def init_buf_ptrs_def MIN_BUFSIZE_def)

theorem sockbuf_output_integrity_witness:
  "sk_out_inv (sample_socket [Sent 2, SendErr 4, Sent 1] [10, 20, 30, 40])
   \<and> (let b = snd (sk_sync (sample_socket [Sent 2, SendErr 4, Sent 1] [10, 20, 30, 40]))
      in k_wire (sk_kernel b) @ sk_pending b = [10, 20, 30, 40])"
proof -
  let ?b = "sample_socket [Sent 2, SendErr 4, Sent 1] [10, 20, 30, 40]"
  have inv: "sk_out_inv ?b"
    by (rule sk_single_inv [OF sample_socket_single]) (simp add: MIN_BUFSIZE_def)
  show ?thesis using sockbuf_output_integrity [OF inv] inv
    by (simp add: Let_def sample_socket_def sk_pending_def sockbuf_make_def init_buf_ptrs_def)
qed

text \<open>on a stream socket (one send message) output always returns: every flush leaves free
  space in the put area even when the kernel takes nothing, so putting a character never
  recurses without end, and the buffer stays such a socket.\<close>

theorem sockbuf_output_returns:
  assumes "sk_single b" and "\<not> sk_stuck b"
  shows "put_room (snd (sk_sync b)) \<and> \<not> sk_stuck (snd (sk_sync b)) \<and> sk_single (snd (sk_sync b))
    \<and> \<not> sk_stuck (snd (sk_sputn bs b)) \<and> sk_single (snd (sk_sputn bs b))"
  using sk_sync_single [OF assms(1)] sk_sputn_single [OF assms(1), of bs] assms(2) by simp

theorem sockbuf_output_returns_witness:
  "sk_single (sample_socket [] (replicate MIN_BUFSIZE 1))
   \<and> \<not> sk_stuck (sample_socket [] (replicate MIN_BUFSIZE 1))
   \<and> put_room (snd (sk_sync (sample_socket [] (replicate MIN_BUFSIZE 1))))"
proof -
  let ?b = "sample_socket [] (replicate MIN_BUFSIZE 1)"
  have "sk_single ?b" by (rule sample_socket_single) simp
  moreover have "\<not> sk_stuck ?b" by (simp add: sample_socket_def sockbuf_make_def init_buf_ptrs_def)
  ultimately show ?thesis using sockbuf_output_returns [of ?b "[]"] by blast
qed

text \<open>with a second send message, which \<^verbatim>\<open>connectto\<close> creates when the socket already has an
  address, output may never return: if the kernel takes no more of the first message and the
  put area is full, \<^verbatim>\<open>overflow\<close> flushes without effect and puts the character again for ever.\<close>

theorem sockbuf_two_messages_stuck:
  assumes "sk_send b = [m, m']" and "sk_out b" and "sk_connected b" and "sk_socket b \<noteq> BAD_SOCKET"
    and "sm_data m \<noteq> []" and "length (sm_data m') = sm_iov_len m'" and "k_send (sk_kernel b) = []"
  shows "sk_stuck (snd (sk_sputc ch b))"
proof -
  have "\<exists>b' m1. sk_sync b = (0, b') \<and> sk_send b' = [m1, m'] \<and> sk_kernel b' = sk_kernel b \<and> sk_out b'"
    using assms
    by (subst sk_sync.simps, subst send_retry.simps)
      (auto simp: send_first_def resizewbuf_def Let_def)
  then obtain b' m1 where "sk_sync b = (0, b')" "sk_send b' = [m1, m']" "sk_kernel b' = sk_kernel b"
    by blast
  with assms show ?thesis by (auto simp: sk_sputc.simps [of ch b] put_room_def)
qed

theorem sockbuf_two_messages_stuck_witness:
  "sk_stuck (snd (sk_sputc 5 ((sample_socket [] []) \<lparr>sk_send := [empty_message\<lparr>sm_data := [9], sm_iov_len := 1\<rparr>,
      empty_message\<lparr>sm_data := replicate MIN_BUFSIZE 1, sm_iov_len := MIN_BUFSIZE\<rparr>]\<rparr>)))"
  by (rule sockbuf_two_messages_stuck [where m = "empty_message\<lparr>sm_data := [9], sm_iov_len := 1\<rparr>"
        and m' = "empty_message\<lparr>sm_data := replicate MIN_BUFSIZE 1, sm_iov_len := MIN_BUFSIZE\<rparr>"])
    (simp_all add: sample_socket_def sockbuf_make_def init_buf_ptrs_def)

text \<open>C7: input hands over the received bytes in order and without loss: one \<^verbatim>\<open>readsome\<close> returns a
  prefix, of at most the size asked for, of what the peer sent and was not read yet, and leaves
  the rest to be read.\<close>

theorem sockbuf_input_integrity:
  assumes "sk_in_inv (rdbuf s)" and "sock_readsome n s = (bs, s')"
  shows "sk_unread (rdbuf s) = bs @ sk_unread (rdbuf s') \<and> length bs \<le> n
    \<and> sk_in_inv (rdbuf s') \<and> gcount s' = length bs"
  using sk_input.readsome_prefix [OF assms] by simp

theorem sockbuf_input_integrity_witness:
  "\<exists>bs s'. sock_readsome 2 (ios_init (sockbuf_make 7 True True True
        \<lparr>k_send = [], k_conn = [], k_recv = [RecvErr 4, Got [1, 2, 3], Got []], k_wire = []\<rparr>)) = (bs, s')
     \<and> [1, 2, 3] = bs @ sk_unread (rdbuf s') \<and> length bs \<le> 2"
proof -
  let ?s = "ios_init (sockbuf_make 7 True True True
        \<lparr>k_send = [], k_conn = [], k_recv = [RecvErr 4, Got [1, 2, 3], Got []], k_wire = []\<rparr>)"
  obtain bs s' where r: "sock_readsome 2 ?s = (bs, s')" by fastforce
  have "sk_in_inv (rdbuf ?s)"
    by (simp add: sk_in_inv_def sockbuf_make_def init_buf_ptrs_def empty_message_def)
  from sockbuf_input_integrity [OF this r] r show ?thesis
    by (auto simp: sk_unread_def sockbuf_make_def init_buf_ptrs_def empty_message_def)
qed

end
