(* ===== verification/Marshaller.thy ===== *)
theory Marshaller
  imports Xmsg Sockbuf
begin

text \<open>
  The marshallers (\<^verbatim>\<open>src/marshallers/marshallers.hpp\<close>, \<^verbatim>\<open>controller_marshaller.cpp\<close>,
  \<^verbatim>\<open>segment_marshaller.cpp\<close>): each side keeps one buffer per socket stream in a vector ordered by
  the stream's owner. \<^verbatim>\<open>xmsg_read\<close> assembles one enveloped message out of a socket,
  \<^verbatim>\<open>stream_copy\<close> takes at most one envelope's worth of plain bytes.
  Shown: finding or creating a buffer keeps the vector ordered and leaves the buffers of all other
  live streams alone; the message reader cuts the byte stream of a socket into exactly the frames
  their headers announce, however the bytes arrive, never reads into the next message, and a
  header that announces less than its own size stops it for good.
\<close>

section \<open>The buffer table\<close>

record 'f buffer =
  buf_ptr :: owner
  buf_fmt :: 'f

record ('n, 's) marshaller =
  mar_north :: "'n buffer list"
  mar_south :: "'s buffer list"

definition make_buffer :: "'f \<Rightarrow> owner \<Rightarrow> 'f buffer" where
  "make_buffer fmt ptr = \<lparr>buf_ptr = ptr, buf_fmt = fmt\<rparr>"

text \<open>
  The search both marshallers make: \<^verbatim>\<open>lower_bound\<close> by owner; on a miss the expired entries in front
  of the position are removed and the first freed slot is reused, otherwise the entry is inserted.
  The result is the entry's index. \<open>live\<close> says which owners have not expired.
\<close>

definition buffer_slot :: "(owner \<Rightarrow> bool) \<Rightarrow> 'f \<Rightarrow> owner \<Rightarrow> 'f buffer list \<Rightarrow> nat \<times> 'f buffer list" where
  "buffer_slot live fmt ptr tbl =
     (let lb = lower_bound (\<lambda>b. buf_ptr b < ptr) tbl in
      if key_hit buf_ptr ptr tbl lb then (lb, tbl)
      else
        (let front = take lb tbl;
             kept = filter (\<lambda>b. live (buf_ptr b)) front;
             put = length kept in
         if put \<noteq> lb
         then (put, erase_range (Suc put) lb
                 ((kept @ drop put front @ drop lb tbl)[put := make_buffer fmt ptr]))
         else (lb, insert_at lb (make_buffer fmt ptr) tbl)))"

section \<open>Reading enveloped messages\<close>

text \<open>
  \<open>xmsg_head_loop\<close>: the first loop of \<^verbatim>\<open>xmsg_read\<close>, from position \<open>p\<close>; the flag says whether it ran to
  its end (otherwise \<^verbatim>\<open>xmsg_read\<close> returned from inside it).
\<close>

function xmsg_head_loop :: "int \<Rightarrow> xmsgstream \<Rightarrow> sockstream \<Rightarrow> bool \<times> int \<times> xmsgstream \<times> sockstream" where
  "xmsg_head_loop p buf is =
     (if 24 \<le> p then (True, p, buf, is)
      else (case sock_readsome (nat (24 - p)) is of (bs, is') \<Rightarrow>
        if bs = [] then (False, p, buf, is')
        else (let buf' = xmsg_write bs buf in
              if badbit buf' then (False, p, buf', is')
              else xmsg_head_loop (p + int (length bs)) buf' is')))"
  by pat_completeness auto
termination
  by (relation "measure (\<lambda>(p, buf, is). nat (24 - p))") auto

declare xmsg_head_loop.simps [simp del]

function xmsg_body_loop :: "int \<Rightarrow> xmsgstream \<Rightarrow> sockstream \<Rightarrow> xmsgstream \<times> sockstream" where
  "xmsg_body_loop remaining buf is =
     (if remaining \<le> 0 then (buf, is)
      else (case sock_readsome (nat (min remaining 256)) is of (bs, is') \<Rightarrow>
        if bs = [] then (buf, is')
        else (let buf' = xmsg_write bs buf in
              if badbit buf' then (buf', is')
              else xmsg_body_loop (remaining - int (length bs)) buf' is')))"
  by pat_completeness auto
termination
  by (relation "measure (\<lambda>(remaining, buf, is). nat remaining)") auto

declare xmsg_body_loop.simps [simp del]

text \<open>
  \<^verbatim>\<open>buf.len()->length\<close>. The pointer is null while fewer than 20 bytes are assembled; the first loop
  ends only with a complete header (lemma \<open>xmsg_head_loop_spec\<close>), so \<open>0\<close> is never the answer of a
  null pointer.
\<close>

definition announced :: "xmsgbuf \<Rightarrow> nat" where
  "announced b = (case xb_len b of None \<Rightarrow> 0 | Some lp \<Rightarrow> unat (msg_length lp))"

definition xmsg_restart :: "xmsgstream \<Rightarrow> xmsgstream" where
  "xmsg_restart buf = (if eofbit buf then xmsg_seekp 0 (buf\<lparr>eofbit := False\<rparr>) else buf)"

definition xmsg_read :: "xmsgstream \<Rightarrow> sockstream \<Rightarrow> xmsgstream \<times> sockstream" where
  "xmsg_read buf is =
     (case xmsg_tellp (xmsg_restart buf) of (p0, buf1) \<Rightarrow>
        (case xmsg_head_loop p0 buf1 is of (full, p, buf2, is2) \<Rightarrow>
           if full then xmsg_body_loop (int (announced (rdbuf buf2)) - p) buf2 is2
           else (buf2, is2)))"

text \<open>The segment has the same reader.\<close>

definition seg_xmsg_read :: "xmsgstream \<Rightarrow> sockstream \<Rightarrow> xmsgstream \<times> sockstream" where
  [simp]: "seg_xmsg_read = xmsg_read"

section \<open>Reading plain bytes\<close>

abbreviation (input) COPYMAX :: nat where
  "COPYMAX \<equiv> 65535 - 24"

lemma sock_readsome_length: "length (fst (sock_readsome n s)) \<le> n"
  by (auto simp: readsome_def sk_sgetn_def Let_def split: prod.split)

lemma sock_readsome_shorter:
  assumes "(bs, is') = sock_readsome (min maxlen 256) is" and "bs \<noteq> []"
  shows "maxlen - length bs < maxlen"
proof -
  have "length bs \<le> min maxlen 256"
    using sock_readsome_length [of "min maxlen 256" "is"] unfolding assms(1) [symmetric] by simp
  moreover have "0 < length bs" using assms(2) by simp
  ultimately show ?thesis by linarith
qed

text \<open>The controller's \<^verbatim>\<open>stream_copy\<close> reads until a read returns nothing, with no test of the sink.\<close>

function ctl_copy_loop :: "nat \<Rightarrow> stringstream \<Rightarrow> sockstream \<Rightarrow> stringstream \<times> sockstream" where
  "ctl_copy_loop maxlen os is =
     (case sock_readsome (min maxlen 256) is of (bs, is') \<Rightarrow>
        if bs = [] then (os, is') else ctl_copy_loop (maxlen - length bs) (sstream_write bs os) is')"
  by pat_completeness auto
termination
  by (relation "measure (\<lambda>(maxlen, os, is). maxlen)") (simp_all add: sock_readsome_shorter)

declare ctl_copy_loop.simps [simp del]

definition ctl_stream_copy :: "stringstream \<Rightarrow> sockstream \<Rightarrow> stringstream \<times> sockstream" where
  "ctl_stream_copy os is = ctl_copy_loop COPYMAX os is"

definition seg_stream_copy :: "stringstream \<Rightarrow> sockstream \<Rightarrow> stringstream \<times> sockstream" where
  "seg_stream_copy os is = copy_upto sock_readsome sstream_write COPYMAX os is"

text \<open>
  The refill both plain-side operations make: only when everything copied before has been read
  out again, and then from the beginning of the buffer.
\<close>

definition refill ::
  "(stringstream \<Rightarrow> sockstream \<Rightarrow> stringstream \<times> sockstream) \<Rightarrow>
   stringstream \<Rightarrow> sockstream \<Rightarrow> stringstream \<times> sockstream" where
  "refill copy buf is =
     (case sstream_tellg buf of (g, buf1) \<Rightarrow> (case sstream_tellp buf1 of (p, buf2) \<Rightarrow>
        if g = p then copy (sstream_seekp 0 (sstream_seekg 0 buf2)) is else (buf2, is)))"

section \<open>The marshalling operations\<close>

abbreviation set_fmt :: "nat \<Rightarrow> 'f \<Rightarrow> 'f buffer list \<Rightarrow> 'f buffer list" where
  "set_fmt i f tbl \<equiv> tbl[i := (tbl ! i)\<lparr>buf_fmt := f\<rparr>]"

definition stringstream_init :: stringstream where
  "stringstream_init = ios_init stringbuf_init"

type_synonym ctl_marshaller = "(stringstream, xmsgstream) marshaller"
type_synonym seg_marshaller = "(xmsgstream, stringstream) marshaller"

definition ctl_unmarshal ::
  "(owner \<Rightarrow> bool) \<Rightarrow> owner \<Rightarrow> sockstream \<Rightarrow> ctl_marshaller \<Rightarrow> nat \<times> ctl_marshaller \<times> sockstream" where
  "ctl_unmarshal live nsp is m =
     (case buffer_slot live stringstream_init nsp (mar_north m) of (i, tbl) \<Rightarrow>
        (case refill ctl_stream_copy (buf_fmt (tbl ! i)) is of (buf, is') \<Rightarrow>
           (i, m\<lparr>mar_north := set_fmt i buf tbl\<rparr>, is')))"

definition ctl_marshal ::
  "(owner \<Rightarrow> bool) \<Rightarrow> owner \<Rightarrow> sockstream \<Rightarrow> ctl_marshaller \<Rightarrow> nat \<times> ctl_marshaller \<times> sockstream" where
  "ctl_marshal live ssp is m =
     (case buffer_slot live xmsgstream_init ssp (mar_south m) of (i, tbl) \<Rightarrow>
        (case xmsg_read (buf_fmt (tbl ! i)) is of (buf, is') \<Rightarrow>
           (i, m\<lparr>mar_south := set_fmt i buf tbl\<rparr>, is')))"

definition seg_unmarshal ::
  "(owner \<Rightarrow> bool) \<Rightarrow> owner \<Rightarrow> sockstream \<Rightarrow> seg_marshaller \<Rightarrow> nat \<times> seg_marshaller \<times> sockstream" where
  "seg_unmarshal live nsp is m =
     (case buffer_slot live xmsgstream_init nsp (mar_north m) of (i, tbl) \<Rightarrow>
        (case seg_xmsg_read (buf_fmt (tbl ! i)) is of (buf, is') \<Rightarrow>
           (i, m\<lparr>mar_north := set_fmt i buf tbl\<rparr>, is')))"

definition seg_marshal ::
  "(owner \<Rightarrow> bool) \<Rightarrow> owner \<Rightarrow> sockstream \<Rightarrow> seg_marshaller \<Rightarrow> nat \<times> seg_marshaller \<times> sockstream" where
  "seg_marshal live ssp is m =
     (case buffer_slot live stringstream_init ssp (mar_south m) of (i, tbl) \<Rightarrow>
        (case refill seg_stream_copy (buf_fmt (tbl ! i)) is of (buf, is') \<Rightarrow>
           (i, m\<lparr>mar_south := set_fmt i buf tbl\<rparr>, is')))"


section \<open>The table contract\<close>

text \<open>
  What the connectors rely on: a buffer per stream, found or created, with the buffers of the
  other live streams untouched; \<open>look\<close> is the association of streams with buffer contents.
\<close>

locale buffer_table =
  fixes slot :: "(owner \<Rightarrow> bool) \<Rightarrow> 'f \<Rightarrow> owner \<Rightarrow> 'f buffer list \<Rightarrow> nat \<times> 'f buffer list"
    and look :: "'f buffer list \<Rightarrow> owner \<rightharpoonup> 'f"
    and tinv :: "'f buffer list \<Rightarrow> bool"
  assumes slot_inv: "tinv tbl \<Longrightarrow> slot live fmt ptr tbl = (i, tbl') \<Longrightarrow> tinv tbl'"
    and slot_index: "tinv tbl \<Longrightarrow> slot live fmt ptr tbl = (i, tbl') \<Longrightarrow>
      i < length tbl' \<and> buf_ptr (tbl' ! i) = ptr"
    and slot_content: "tinv tbl \<Longrightarrow> slot live fmt ptr tbl = (i, tbl') \<Longrightarrow>
      buf_fmt (tbl' ! i) = (case look tbl ptr of Some f \<Rightarrow> f | None \<Rightarrow> fmt)"
    and slot_frame: "tinv tbl \<Longrightarrow> slot live fmt ptr tbl = (i, tbl') \<Longrightarrow>
      q \<noteq> ptr \<Longrightarrow> live q \<Longrightarrow> look tbl' q = look tbl q"
    and set_inv: "tinv tbl \<Longrightarrow> i < length tbl \<Longrightarrow> tinv (set_fmt i f tbl)"
    and set_look: "tinv tbl \<Longrightarrow> i < length tbl \<Longrightarrow>
      look (set_fmt i f tbl) = (look tbl)(buf_ptr (tbl ! i) \<mapsto> f)"
begin

text \<open>One marshalling step: the stream's own buffer takes the step, from a fresh one if it had none.\<close>

lemma step_own:
  assumes "tinv tbl" and "slot live fmt ptr tbl = (i, tbl')"
  shows "tinv (set_fmt i f tbl') \<and> look (set_fmt i f tbl') ptr = Some f
    \<and> i < length (set_fmt i f tbl') \<and> buf_ptr (set_fmt i f tbl' ! i) = ptr
    \<and> buf_fmt (set_fmt i f tbl' ! i) = f"
  using slot_inv [OF assms] slot_index [OF assms]
    set_inv [of tbl' i f] set_look [of tbl' i f] by simp

lemma step_others:
  assumes "tinv tbl" and "slot live fmt ptr tbl = (i, tbl')" and "q \<noteq> ptr" and "live q"
  shows "look (set_fmt i f tbl') q = look tbl q"
  using slot_frame [OF assms] slot_inv [OF assms(1,2)] slot_index [OF assms(1,2)]
    set_look [of tbl' i f] assms(3) by simp

end

definition buffer_look :: "'f buffer list \<Rightarrow> owner \<rightharpoonup> 'f" where
  "buffer_look tbl p = map_option buf_fmt (kmap buf_ptr tbl p)"

lemma buffer_look_iff:
  "ksorted buf_ptr tbl \<Longrightarrow>
     buffer_look tbl p = Some f \<longleftrightarrow> (\<exists>b \<in> set tbl. buf_ptr b = p \<and> buf_fmt b = f)"
  by (auto simp: buffer_look_def kmap_Some_iff)

lemma buffer_look_None: "buffer_look tbl p = None \<longleftrightarrow> \<not> has_key buf_ptr p tbl"
  by (simp add: buffer_look_def kmap_None_iff)

lemma filter_length_id: "length (filter P xs) = length xs \<Longrightarrow> filter P xs = xs"
  using length_filter_less [of _ xs P] by (intro filter_True) (metis less_irrefl)

text \<open>On a miss both branches give the surviving front, the new entry and the rest.\<close>

lemma buffer_slot_miss:
  assumes "ksorted buf_ptr tbl" and "\<not> has_key buf_ptr ptr tbl"
  shows "buffer_slot live fmt ptr tbl =
     (length (filter (\<lambda>b. live (buf_ptr b)) (upto_key buf_ptr ptr tbl)),
      filter (\<lambda>b. live (buf_ptr b)) (upto_key buf_ptr ptr tbl)
        @ make_buffer fmt ptr # from_key buf_ptr ptr tbl)"
proof -
  let ?u = "upto_key buf_ptr ptr tbl" and ?f = "from_key buf_ptr ptr tbl"
  let ?k = "filter (\<lambda>b. live (buf_ptr b)) ?u"
  have le: "length ?k \<le> length ?u" by (rule length_filter_le)
  have miss: "\<not> key_hit buf_ptr ptr tbl (length ?u)" using assms key_hit_iff by blast
  show ?thesis
  proof (cases "length ?k = length ?u")
    case True
    then have "?k = ?u" by (rule filter_length_id)
    then show ?thesis
      using True miss by (simp add: buffer_slot_def Let_def lower_bound_upto [OF assms(1)] insert_at_def)
  next
    case False
    then have lt: "length ?k < length ?u" using le by (rule le_neq_implies_less [rotated])
    let ?g = "drop (length ?k) ?u"
    have g: "?g \<noteq> []" "length ?g = length ?u - length ?k" using lt by simp_all
    then obtain x g' where xg: "?g = x # g'" by (cases ?g) auto
    have "length ?u = Suc (length ?k + length g')" using g xg lt by simp
    then have "erase_range (Suc (length ?k)) (length ?u) ((?k @ ?g @ ?f)[length ?k := make_buffer fmt ptr])
        = ?k @ make_buffer fmt ptr # ?f"
      unfolding xg by (rule erase_reuse)
    with False miss show ?thesis
      by (simp add: buffer_slot_def Let_def lower_bound_upto [OF assms(1)])
  qed
qed

lemma buffer_slot_hit:
  assumes "ksorted buf_ptr tbl" and "has_key buf_ptr ptr tbl"
  shows "buffer_slot live fmt ptr tbl = (length (upto_key buf_ptr ptr tbl), tbl)"
  using assms key_hit_iff [OF assms(1)]
  by (simp add: buffer_slot_def Let_def lower_bound_upto)

lemma buffer_slot_sorted:
  assumes "ksorted buf_ptr tbl" and "buffer_slot live fmt ptr tbl = (i, tbl')"
  shows "ksorted buf_ptr tbl'"
proof (cases "has_key buf_ptr ptr tbl")
  case True
  with assms show ?thesis by (simp add: buffer_slot_hit)
next
  case False
  have "ksorted buf_ptr (upto_key buf_ptr ptr tbl @ make_buffer fmt ptr # from_key buf_ptr ptr tbl)"
    using ksorted_insert [OF assms(1) False, of "make_buffer fmt ptr"]
    by (simp add: insert_at_upto make_buffer_def)
  then show ?thesis
    using assms(2) buffer_slot_miss [OF assms(1) False, of live fmt]
    by (auto simp: ksorted_append intro: ksorted_filter)
qed

lemma buffer_slot_index:
  assumes "ksorted buf_ptr tbl" and "buffer_slot live fmt ptr tbl = (i, tbl')"
  shows "i < length tbl' \<and> buf_ptr (tbl' ! i) = ptr"
proof (cases "has_key buf_ptr ptr tbl")
  case True
  then have "key_hit buf_ptr ptr tbl (length (upto_key buf_ptr ptr tbl))"
    using key_hit_iff [OF assms(1)] by blast
  with True assms show ?thesis by (auto simp: buffer_slot_hit key_hit_def)
next
  case False
  with assms show ?thesis by (auto simp: buffer_slot_miss make_buffer_def nth_append)
qed

lemma buffer_slot_content:
  assumes "ksorted buf_ptr tbl" and "buffer_slot live fmt ptr tbl = (i, tbl')"
  shows "buf_fmt (tbl' ! i) = (case buffer_look tbl ptr of Some f \<Rightarrow> f | None \<Rightarrow> fmt)"
proof (cases "has_key buf_ptr ptr tbl")
  case True
  then have "tbl' = tbl" using assms by (simp add: buffer_slot_hit)
  then have "buffer_look tbl ptr = Some (buf_fmt (tbl' ! i))"
    using buffer_slot_index [OF assms] by (auto simp: buffer_look_iff [OF assms(1)])
  then show ?thesis by simp
next
  case False
  then have "buffer_look tbl ptr = None" by (simp add: buffer_look_None)
  with assms False show ?thesis by (auto simp: buffer_slot_miss make_buffer_def nth_append)
qed

lemma buffer_look_cong:
  assumes "ksorted buf_ptr tbl" and "ksorted buf_ptr tbl'"
    and "\<And>b. buf_ptr b = q \<Longrightarrow> b \<in> set tbl' \<longleftrightarrow> b \<in> set tbl"
  shows "buffer_look tbl' q = buffer_look tbl q"
proof -
  have "buffer_look tbl' q = Some f \<longleftrightarrow> buffer_look tbl q = Some f" for f
    using assms by (auto simp: buffer_look_iff)
  then show ?thesis by (metis option.exhaust)
qed

lemma buffer_slot_frame:
  assumes "ksorted buf_ptr tbl" and "buffer_slot live fmt ptr tbl = (i, tbl')"
    and "q \<noteq> ptr" and "live q"
  shows "buffer_look tbl' q = buffer_look tbl q"
proof (cases "has_key buf_ptr ptr tbl")
  case True
  then show ?thesis using assms(2) buffer_slot_hit [OF assms(1) True, of live fmt] by simp
next
  case False
  let ?u = "upto_key buf_ptr ptr tbl" and ?f = "from_key buf_ptr ptr tbl"
  have t: "tbl' = filter (\<lambda>b. live (buf_ptr b)) ?u @ make_buffer fmt ptr # ?f"
    using assms(2) buffer_slot_miss [OF assms(1) False, of live fmt] by simp
  have "b \<in> set tbl' \<longleftrightarrow> b \<in> set tbl" if "buf_ptr b = q" for b
    using assms(3,4) that unfolding set_upto_from [of buf_ptr ptr tbl, symmetric] t
    by (auto simp: make_buffer_def)
  then show ?thesis
    by (rule buffer_look_cong [OF assms(1) buffer_slot_sorted [OF assms(1,2)]])
qed

lemma set_fmt_sorted: "ksorted buf_ptr tbl \<Longrightarrow> i < length tbl \<Longrightarrow> ksorted buf_ptr (set_fmt i f tbl)"
  by (simp add: ksorted_update)

lemma set_fmt_look:
  assumes "ksorted buf_ptr tbl" and "i < length tbl"
  shows "buffer_look (set_fmt i f tbl) = (buffer_look tbl)(buf_ptr (tbl ! i) \<mapsto> f)"
proof
  fix p
  let ?o = "set (take i tbl) \<union> set (drop (Suc i) tbl)"
  note so' = set_fmt_sorted [OF assms, of f]
  have t: "tbl = take i tbl @ tbl ! i # drop (Suc i) tbl" by (rule id_take_nth_drop [OF assms(2)])
  have "ksorted buf_ptr (take i tbl @ tbl ! i # drop (Suc i) tbl)" using assms(1) t by simp
  then have o: "\<forall>b \<in> ?o. buf_ptr b \<noteq> buf_ptr (tbl ! i)" by (auto simp: ksorted_append ksorted_Cons)
  have s: "set tbl = insert (tbl ! i) ?o" by (subst t) simp
  have s': "set (set_fmt i f tbl) = insert ((tbl ! i)\<lparr>buf_fmt := f\<rparr>) ?o"
    using assms(2) by (auto simp: upd_conv_take_nth_drop)
  show "buffer_look (set_fmt i f tbl) p = ((buffer_look tbl)(buf_ptr (tbl ! i) \<mapsto> f)) p"
  proof (cases "p = buf_ptr (tbl ! i)")
    case True
    then have "buffer_look (set_fmt i f tbl) p = Some f" by (auto simp: buffer_look_iff so' s')
    with True show ?thesis by simp
  next
    case False
    then have "buffer_look (set_fmt i f tbl) p = buffer_look tbl p"
      by (intro buffer_look_cong [OF assms(1) so']) (auto simp: s s')
    with False show ?thesis by simp
  qed
qed

interpretation bt: buffer_table buffer_slot buffer_look "ksorted buf_ptr"
  by unfold_locales
    (erule (1) buffer_slot_sorted buffer_slot_index buffer_slot_content set_fmt_sorted set_fmt_look
      | erule (3) buffer_slot_frame)+

section \<open>Framing\<close>

text \<open>The length a header announces, and how many bytes a message needs as far as it is known.\<close>

definition announced_of :: "byte list \<Rightarrow> nat" where
  "announced_of bs = unat (rd16 (take 2 (drop 18 bs)))"

definition frame_need :: "byte list \<Rightarrow> nat" where
  "frame_need bs = (if length bs < 24 then 24 else max 24 (announced_of bs))"

definition frame_ok :: "byte list \<Rightarrow> bool" where
  "frame_ok f \<longleftrightarrow> 24 \<le> length f \<and> announced_of f = length f"

text \<open>A message stream between calls: at end of file the message in it has been dealt with.\<close>

definition xmsg_ok :: "xmsgstream \<Rightarrow> bool" where
  "xmsg_ok s \<longleftrightarrow> xb_inv (rdbuf s) \<and> BUFINC \<le> xb_epptr (rdbuf s) \<and> \<not> failbit s \<and> \<not> badbit s"

definition xmsg_cur :: "xmsgstream \<Rightarrow> byte list" where
  "xmsg_cur s = (if eofbit s then [] else xb_bytes (rdbuf s))"

definition partial :: "byte list \<Rightarrow> bool" where
  "partial bs \<longleftrightarrow> length bs \<le> frame_need bs"

lemma announced_eq: "xb_inv b \<Longrightarrow> 24 \<le> xb_pptr b \<Longrightarrow> announced b = announced_of (xb_bytes b)"
  by (simp add: announced_def announced_of_def xb_len_bytes length_xb_bytes)

lemma announced_of_append: "20 \<le> length bs \<Longrightarrow> announced_of (bs @ cs) = announced_of bs"
  by (simp add: announced_of_def)

lemma xb_sputn_epptr:
  "xb_epptr b \<le> xb_epptr (snd (xb_sputn bs b))"
proof (induction bs arbitrary: b)
  case Nil
  then show ?case by simp
next
  case (Cons ch bs)
  obtain ok b' where s: "xb_sputc ch b = (ok, b')" by fastforce
  then have "xb_epptr b \<le> xb_epptr b'"
    by (auto simp: xb_sputc_def xb_overflow_def xb_store_def split: if_splits)
  with Cons.IH [of b'] s show ?case by (cases "xb_sputn bs b'") simp
qed

lemma xmsg_write_epptr: "xb_epptr (rdbuf s) \<le> xb_epptr (rdbuf (xmsg_write bs s))"
  using xb_sputn_epptr [of "rdbuf s" bs]
  by (cases "xb_sputn bs (rdbuf s)") (simp add: ostream_write_def)

lemma xmsg_ok_good: "good s \<Longrightarrow> xmsg_ok s \<longleftrightarrow> xb_inv (rdbuf s) \<and> BUFINC \<le> xb_epptr (rdbuf s)"
  by (auto simp: xmsg_ok_def good_def)

text \<open>One accepted piece.\<close>

lemma xmsg_write_piece:
  assumes "good s" and "xmsg_ok s" and "xb_accepts (rdbuf s) (length bs)"
  shows "good (xmsg_write bs s) \<and> xmsg_ok (xmsg_write bs s)
    \<and> xb_bytes (rdbuf (xmsg_write bs s)) = xb_bytes (rdbuf s) @ bs
    \<and> xb_pptr (rdbuf (xmsg_write bs s)) = xb_pptr (rdbuf s) + length bs
    \<and> xb_gptr (rdbuf (xmsg_write bs s)) = xb_gptr (rdbuf s)"
proof -
  have i: "xb_inv (rdbuf s)" "BUFINC \<le> xb_epptr (rdbuf s)" using assms(1,2) by (simp_all add: xmsg_ok_good)
  note w = xmsg_write_ok [OF i(1) assms(1,3)]
  have "xb_pptr (rdbuf (xmsg_write bs s)) = xb_pptr (rdbuf s) + length bs"
    using w(3) length_xb_bytes [OF i(1)] length_xb_bytes [OF w(2)] by simp
  with w i xmsg_write_epptr [of s bs] show ?thesis by (simp add: xmsg_ok_good)
qed

text \<open>Bytes moved from the socket to the end of the message, none lost.\<close>

definition xmsg_moved :: "xmsgstream \<Rightarrow> sockstream \<Rightarrow> xmsgstream \<Rightarrow> sockstream \<Rightarrow> bool" where
  "xmsg_moved buf is buf' is' \<longleftrightarrow> (\<exists>bs. xb_bytes (rdbuf buf') = xb_bytes (rdbuf buf) @ bs
     \<and> sk_unread (rdbuf is) = bs @ sk_unread (rdbuf is'))"

lemma xmsg_moved_refl: "sk_unread (rdbuf is') = sk_unread (rdbuf is) \<Longrightarrow> xmsg_moved buf is buf is'"
  by (simp add: xmsg_moved_def)

lemma xmsg_moved_trans:
  assumes "xmsg_moved a i b j" and "xmsg_moved b j c k"
  shows "xmsg_moved a i c k"
  using assms by (auto simp: xmsg_moved_def)

lemma xmsg_head_loop_spec:
  assumes "good buf" and "xmsg_ok buf" and "sk_in_inv (rdbuf is)" and "p = int (xb_pptr (rdbuf buf))"
    and "xmsg_head_loop p buf is = (full, p', buf', is')"
  shows "good buf' \<and> xmsg_ok buf' \<and> sk_in_inv (rdbuf is') \<and> p' = int (xb_pptr (rdbuf buf'))
    \<and> xb_gptr (rdbuf buf') = xb_gptr (rdbuf buf)
    \<and> (full \<longleftrightarrow> 24 \<le> p') \<and> (\<not> full \<longrightarrow> gcount is' = 0) \<and> (p < 24 \<longrightarrow> p' \<le> 24)
    \<and> (24 \<le> p \<longrightarrow> buf' = buf \<and> is' = is)
    \<and> xmsg_moved buf is buf' is'"
  using assms
proof (induction p buf "is" arbitrary: full p' buf' is' rule: xmsg_head_loop.induct)
  case (1 p buf "is")
  obtain bs is1 where r: "sock_readsome (nat (24 - p)) is = (bs, is1)" by fastforce
  note rd = sk_input.readsome_prefix [OF "1.prems"(3) r]
  let ?b1 = "xmsg_write bs buf"
  have eq: "(full, p', buf', is') = (if 24 \<le> p then (True, p, buf, is) else if bs = [] then (False, p, buf, is1)
      else if badbit ?b1 then (False, p, ?b1, is1) else xmsg_head_loop (p + int (length bs)) ?b1 is1)"
    using "1.prems"(5) unfolding xmsg_head_loop.simps [of p buf "is"] r prod.case Let_def by (rule sym)
  consider (fin) "24 \<le> p" | (stop) "p < 24" "bs = []" | (more) "p < 24" "bs \<noteq> []" by linarith
  then show ?case
  proof cases
    case fin
    with eq "1.prems" show ?thesis by (simp add: xmsg_moved_refl)
  next
    case stop
    with eq "1.prems" rd show ?thesis by (simp add: xmsg_moved_refl)
  next
    case more
    have "xb_accepts (rdbuf buf) (length bs)"
      using rd(3) "1.prems"(2,4) more(1) by (auto simp: xb_accepts_def xmsg_ok_def BUFINC_def)
    note w = xmsg_write_piece [OF "1.prems"(1,2) this]
    then have nb: "\<not> badbit ?b1" by (simp add: good_def)
    have "xmsg_head_loop (p + int (length bs)) ?b1 is1 = (full, p', buf', is')" using eq more nb by simp
    moreover have "p + int (length bs) = int (xb_pptr (rdbuf ?b1))" using w "1.prems"(4) by simp
    ultimately have ih: "good buf' \<and> xmsg_ok buf' \<and> sk_in_inv (rdbuf is') \<and> p' = int (xb_pptr (rdbuf buf'))
      \<and> xb_gptr (rdbuf buf') = xb_gptr (rdbuf ?b1) \<and> (full \<longleftrightarrow> 24 \<le> p') \<and> (\<not> full \<longrightarrow> gcount is' = 0)
      \<and> (p + int (length bs) < 24 \<longrightarrow> p' \<le> 24) \<and> (24 \<le> p + int (length bs) \<longrightarrow> buf' = ?b1 \<and> is' = is1)
      \<and> xmsg_moved ?b1 is1 buf' is'"
      using more nb w rd(2) by (intro "1.IH" [OF _ r [symmetric] _ refl]) simp_all
    moreover have "p + int (length bs) \<le> 24" using rd(3) more(1) by linarith
    moreover have "xmsg_moved buf is ?b1 is1" using w rd(1) by (auto simp: xmsg_moved_def)
    ultimately show ?thesis using w "1.prems"(4) more(1) by (auto dest: xmsg_moved_trans)
  qed
qed

lemma xmsg_body_loop_spec:
  assumes "good buf" and "xmsg_ok buf" and "sk_in_inv (rdbuf is)" and "24 \<le> xb_pptr (rdbuf buf)"
    and "remaining = int (announced (rdbuf buf)) - int (xb_pptr (rdbuf buf))"
    and "xmsg_body_loop remaining buf is = (buf', is')"
  shows "good buf' \<and> xmsg_ok buf' \<and> sk_in_inv (rdbuf is')
    \<and> xb_gptr (rdbuf buf') = xb_gptr (rdbuf buf)
    \<and> (announced (rdbuf buf) \<le> xb_pptr (rdbuf buf') \<or> gcount is' = 0)
    \<and> (xb_pptr (rdbuf buf) \<le> announced (rdbuf buf) \<longrightarrow> xb_pptr (rdbuf buf') \<le> announced (rdbuf buf))
    \<and> (announced (rdbuf buf) \<le> xb_pptr (rdbuf buf) \<longrightarrow> buf' = buf \<and> is' = is)
    \<and> xmsg_moved buf is buf' is'"
  using assms
proof (induction remaining buf "is" arbitrary: buf' is' rule: xmsg_body_loop.induct)
  case (1 remaining buf "is")
  obtain bs is1 where r: "sock_readsome (nat (min remaining 256)) is = (bs, is1)" by fastforce
  note rd = sk_input.readsome_prefix [OF "1.prems"(3) r]
  let ?b1 = "xmsg_write bs buf"
  have eq: "(buf', is') = (if remaining \<le> 0 then (buf, is) else if bs = [] then (buf, is1)
      else if badbit ?b1 then (?b1, is1) else xmsg_body_loop (remaining - int (length bs)) ?b1 is1)"
    using "1.prems"(6) unfolding xmsg_body_loop.simps [of remaining buf "is"] r prod.case Let_def by (rule sym)
  consider (fin) "remaining \<le> 0" | (stop) "0 < remaining" "bs = []" | (more) "0 < remaining" "bs \<noteq> []" by linarith
  then show ?case
  proof cases
    case fin
    with eq "1.prems" show ?thesis by (simp add: xmsg_moved_refl)
  next
    case stop
    with eq "1.prems" rd show ?thesis by (simp add: xmsg_moved_refl)
  next
    case more
    have i: "xb_inv (rdbuf buf)" using "1.prems"(2) by (simp add: xmsg_ok_def)
    then obtain lp where lp: "xb_len (rdbuf buf) = Some lp" "announced (rdbuf buf) = unat (msg_length lp)"
      using "1.prems"(4) by (simp add: announced_def xb_len_bytes length_xb_bytes)
    have le: "xb_pptr (rdbuf buf) + length bs \<le> announced (rdbuf buf)"
      using rd(3) "1.prems"(5) more(1) by linarith
    then have "xb_accepts (rdbuf buf) (length bs)" using lp "1.prems"(4) by (auto simp: xb_accepts_def)
    note w = xmsg_write_piece [OF "1.prems"(1,2) this]
    then have nb: "\<not> badbit ?b1" by (simp add: good_def)
    have i1: "xb_inv (rdbuf ?b1)" using w by (simp add: xmsg_ok_def)
    have an: "announced (rdbuf ?b1) = announced (rdbuf buf)"
      using w "1.prems"(4) length_xb_bytes [OF i] announced_eq [OF i] announced_eq [OF i1]
      by (simp add: announced_of_append)
    have rem': "remaining - int (length bs) = int (announced (rdbuf ?b1)) - int (xb_pptr (rdbuf ?b1))"
      using w an "1.prems"(5) by simp
    have call: "xmsg_body_loop (remaining - int (length bs)) ?b1 is1 = (buf', is')" using eq more nb by simp
    have "good buf' \<and> xmsg_ok buf' \<and> sk_in_inv (rdbuf is')
      \<and> xb_gptr (rdbuf buf') = xb_gptr (rdbuf ?b1)
      \<and> (announced (rdbuf ?b1) \<le> xb_pptr (rdbuf buf') \<or> gcount is' = 0)
      \<and> (xb_pptr (rdbuf ?b1) \<le> announced (rdbuf ?b1) \<longrightarrow> xb_pptr (rdbuf buf') \<le> announced (rdbuf ?b1))
      \<and> (announced (rdbuf ?b1) \<le> xb_pptr (rdbuf ?b1) \<longrightarrow> buf' = ?b1 \<and> is' = is1)
      \<and> xmsg_moved ?b1 is1 buf' is'"
      using more nb w rd(2) "1.prems"(4)
      by (intro "1.IH" [OF _ r [symmetric] _ refl _ _ _ _ _ rem' call]) simp_all
    moreover have "xmsg_moved buf is ?b1 is1" using w rd(1) by (auto simp: xmsg_moved_def)
    ultimately show ?thesis using w le an more "1.prems"(5) by (auto dest: xmsg_moved_trans)
  qed
qed

lemma xmsg_restart_spec:
  assumes "xmsg_ok buf"
  shows "good (xmsg_restart buf) \<and> xmsg_ok (xmsg_restart buf)
    \<and> xb_bytes (rdbuf (xmsg_restart buf)) = xmsg_cur buf
    \<and> xb_gptr (rdbuf (xmsg_restart buf)) = (if eofbit buf then 0 else xb_gptr (rdbuf buf))"
  using assms xb_seek_inv(2) [of "rdbuf buf" 0]
  by (auto simp: xmsg_restart_def xmsg_ok_def xmsg_cur_def good_def seekp_def fail_of_def
      xb_seekpos_out_def xb_bytes_def)

lemma xmsg_tellp_spec:
  assumes "xmsg_ok s" and "xmsg_tellp s = (p, s')"
  shows "p = int (xb_pptr (rdbuf s)) \<and> xmsg_ok s' \<and> good s' = good s
    \<and> xb_bytes (rdbuf s') = xb_bytes (rdbuf s) \<and> xb_pptr (rdbuf s') = xb_pptr (rdbuf s)
    \<and> xb_gptr (rdbuf s') = xb_gptr (rdbuf s) \<and> eofbit s' = eofbit s"
proof -
  have i: "xb_inv (rdbuf s)" using assms(1) by (simp add: xmsg_ok_def)
  then have "xb_inv (rdbuf s\<lparr>xb_egptr := xb_pptr (rdbuf s)\<rparr>)" by (auto simp: xb_inv_def)
  with assms i show ?thesis
    by (auto simp: tellp_def fail_of_def xb_tell xmsg_ok_def good_def xb_bytes_def)
qed

text \<open>
  \<^verbatim>\<open>xmsg_read\<close> continues the message in the buffer (or starts one) with the next bytes of the socket
  and stops at its end, or when the socket has no more bytes for now.
\<close>

lemma xmsg_read_spec:
  assumes ok: "xmsg_ok buf" and inv: "sk_in_inv (rdbuf is)" and part: "partial (xmsg_cur buf)"
    and r: "xmsg_read buf is = (buf', is')"
  shows "good buf' \<and> xmsg_ok buf' \<and> sk_in_inv (rdbuf is') \<and> partial (xb_bytes (rdbuf buf'))
    \<and> xb_gptr (rdbuf buf') = (if eofbit buf then 0 else xb_gptr (rdbuf buf))
    \<and> (length (xb_bytes (rdbuf buf')) = frame_need (xb_bytes (rdbuf buf')) \<or> gcount is' = 0)
    \<and> (\<exists>bs. xb_bytes (rdbuf buf') = xmsg_cur buf @ bs \<and> sk_unread (rdbuf is) = bs @ sk_unread (rdbuf is'))
    \<and> (length (xmsg_cur buf) = frame_need (xmsg_cur buf) \<and> 24 \<le> length (xmsg_cur buf) \<longrightarrow> is' = is)"
proof -
  obtain p0 b1 where t: "xmsg_tellp (xmsg_restart buf) = (p0, b1)" by fastforce
  note rs = xmsg_restart_spec [OF ok]
  have b1: "good b1" "xmsg_ok b1" "xb_bytes (rdbuf b1) = xmsg_cur buf" "p0 = int (xb_pptr (rdbuf b1))"
    "xb_gptr (rdbuf b1) = (if eofbit buf then 0 else xb_gptr (rdbuf buf))"
    using rs xmsg_tellp_spec [OF _ t] by simp_all
  obtain full p b2 is2 where h: "xmsg_head_loop p0 b1 is = (full, p, b2, is2)"
    by (cases "xmsg_head_loop p0 b1 is") auto
  note hs = xmsg_head_loop_spec [OF b1(1,2) inv b1(4) h]
  have i1: "xb_inv (rdbuf b1)" and i2: "xb_inv (rdbuf b2)" using b1(2) hs by (simp_all add: xmsg_ok_def)
  have l1: "length (xmsg_cur buf) = xb_pptr (rdbuf b1)" using b1(3) length_xb_bytes [OF i1] by simp
  have l2: "length (xb_bytes (rdbuf b2)) = xb_pptr (rdbuf b2)" by (rule length_xb_bytes [OF i2])
  show ?thesis
  proof (cases full)
    case False
    then have "buf' = b2" "is' = is2" using r t h by (simp_all add: xmsg_read_def)
    with False hs b1 l1 l2 show ?thesis
      by (auto simp: xmsg_moved_def partial_def frame_need_def)
  next
    case True
    then have f: "xmsg_body_loop (int (announced (rdbuf b2)) - p) b2 is2 = (buf', is')"
      using r t h by (simp add: xmsg_read_def)
    have p2: "24 \<le> xb_pptr (rdbuf b2)" "p = int (xb_pptr (rdbuf b2))" using hs True by simp_all
    have bs: "good buf' \<and> xmsg_ok buf' \<and> sk_in_inv (rdbuf is')
      \<and> xb_gptr (rdbuf buf') = xb_gptr (rdbuf b2)
      \<and> (announced (rdbuf b2) \<le> xb_pptr (rdbuf buf') \<or> gcount is' = 0)
      \<and> (xb_pptr (rdbuf b2) \<le> announced (rdbuf b2) \<longrightarrow> xb_pptr (rdbuf buf') \<le> announced (rdbuf b2))
      \<and> (announced (rdbuf b2) \<le> xb_pptr (rdbuf b2) \<longrightarrow> buf' = b2 \<and> is' = is2)
      \<and> xmsg_moved b2 is2 buf' is'"
      using hs p2 by (intro xmsg_body_loop_spec [OF _ _ _ p2(1) _ f]) simp_all
    have i': "xb_inv (rdbuf buf')" using bs by (simp add: xmsg_ok_def)
    have l': "length (xb_bytes (rdbuf buf')) = xb_pptr (rdbuf buf')" by (rule length_xb_bytes [OF i'])
    obtain cs where cs: "xb_bytes (rdbuf buf') = xb_bytes (rdbuf b2) @ cs"
      using bs by (auto simp: xmsg_moved_def)
    have ge: "24 \<le> length (xb_bytes (rdbuf buf'))" using p2 l2 cs by simp
    have an: "announced (rdbuf b2) = announced_of (xb_bytes (rdbuf buf'))"
      using announced_eq [OF i2 p2(1)] p2(1) l2 cs by (simp add: announced_of_append)
    have an1: "announced (rdbuf b2) = announced_of (xmsg_cur buf)" if "24 \<le> length (xmsg_cur buf)"
      using that l1 hs b1(3,4) announced_eq [OF i1] by simp
    have top: "xb_pptr (rdbuf b2) \<le> max 24 (announced (rdbuf b2))"
    proof (cases "24 \<le> length (xmsg_cur buf)")
      case True
      with part l1 hs b1(4) an1 show ?thesis by (simp add: partial_def frame_need_def)
    next
      case False
      with l1 hs b1(4) p2 show ?thesis by simp
    qed
    have len: "xb_pptr (rdbuf buf') = max 24 (announced (rdbuf b2)) \<or> gcount is' = 0"
      "xb_pptr (rdbuf buf') \<le> max 24 (announced (rdbuf b2))"
      using bs top p2(1) ge l' by (auto simp: max_def split: if_splits)
    have same: "is' = is" if "length (xmsg_cur buf) = frame_need (xmsg_cur buf)" "24 \<le> length (xmsg_cur buf)"
      using that an1 l1 hs b1(4) bs by (simp add: frame_need_def)
    have "xmsg_moved b1 is buf' is'" using hs bs by (auto dest: xmsg_moved_trans)
    then show ?thesis using bs hs b1 ge an len same l' by (auto simp: xmsg_moved_def partial_def frame_need_def)
  qed
qed

section \<open>Sequences of reads\<close>

text \<open>
  The reader as the connectors drive it: a message that is complete when \<^verbatim>\<open>xmsg_read\<close> returns
  (\<^verbatim>\<open>type()\<close> is there and \<^verbatim>\<open>len()->length == tellp()\<close>) is handled and the stream is set to end of file;
  otherwise the next call continues. \<open>pump n\<close> are \<open>n\<close> calls, with the messages handled.
\<close>

definition xmsg_full :: "xmsgstream \<Rightarrow> bool" where
  "xmsg_full s \<longleftrightarrow> 24 \<le> xb_pptr (rdbuf s) \<and> len_is (rdbuf s) (xb_pptr (rdbuf s))"

fun pump :: "nat \<Rightarrow> xmsgstream \<Rightarrow> sockstream \<Rightarrow> byte list list \<times> xmsgstream \<times> sockstream" where
  "pump 0 buf is = ([], buf, is)"
| "pump (Suc n) buf is =
     (case xmsg_read buf is of (buf', is') \<Rightarrow>
        if xmsg_full buf'
        then (case pump n (buf'\<lparr>eofbit := True\<rparr>) is' of (fs, s) \<Rightarrow> (xb_bytes (rdbuf buf') # fs, s))
        else pump n buf' is')"

lemma xmsg_full_frame:
  "xb_inv (rdbuf s) \<Longrightarrow> xmsg_full s \<longleftrightarrow> frame_ok (xb_bytes (rdbuf s))"
  by (auto simp: xmsg_full_def frame_ok_def len_is_def length_xb_bytes xb_len_bytes announced_of_def
      split: option.splits if_splits)

lemma xmsg_ok_eof [simp]: "xmsg_ok (s\<lparr>eofbit := e\<rparr>) = xmsg_ok s"
  by (simp add: xmsg_ok_def)

lemma partial_Nil [simp]: "partial []"
  by (simp add: partial_def)

lemma pump_frames:
  assumes "xmsg_ok buf" and "sk_in_inv (rdbuf is)" and "partial (xmsg_cur buf)"
    and "pump n buf is = (fs, buf', is')"
  shows "xmsg_cur buf @ sk_unread (rdbuf is) = concat fs @ xmsg_cur buf' @ sk_unread (rdbuf is')
    \<and> (\<forall>f \<in> set fs. frame_ok f) \<and> partial (xmsg_cur buf') \<and> xmsg_ok buf' \<and> sk_in_inv (rdbuf is')"
  using assms
proof (induction n arbitrary: buf "is" fs)
  case 0
  then show ?case by simp
next
  case (Suc n)
  obtain b1 is1 where r: "xmsg_read buf is = (b1, is1)" by fastforce
  note spec = xmsg_read_spec [OF Suc.prems(1-3) r]
  then obtain bs where bs: "xb_bytes (rdbuf b1) = xmsg_cur buf @ bs" "sk_unread (rdbuf is) = bs @ sk_unread (rdbuf is1)"
    by blast
  have cur1: "xmsg_cur b1 = xb_bytes (rdbuf b1)" using spec by (simp add: xmsg_cur_def good_def)
  show ?case
  proof (cases "xmsg_full b1")
    case True
    obtain fs' s' where p: "pump n (b1\<lparr>eofbit := True\<rparr>) is1 = (fs', s')"
      by (cases "pump n (b1\<lparr>eofbit := True\<rparr>) is1") auto
    have fs: "fs = xb_bytes (rdbuf b1) # fs'" "s' = (buf', is')" using Suc.prems(4) r True p by simp_all
    have fo: "frame_ok (xb_bytes (rdbuf b1))"
      using spec True xmsg_full_frame [of b1] by (simp add: xmsg_ok_def)
    have "xmsg_cur (b1\<lparr>eofbit := True\<rparr>) = []" by (simp add: xmsg_cur_def)
    with Suc.IH [of "b1\<lparr>eofbit := True\<rparr>" is1 fs'] p fs spec fo bs show ?thesis by simp
  next
    case False
    with Suc.IH [of b1 is1 fs] Suc.prems(4) r spec cur1 bs show ?thesis by simp
  qed
qed

text \<open>A byte sequence splits into frames in one way only.\<close>

lemma frame_ok_append_eq:
  assumes "frame_ok f" and "frame_ok g" and "f @ r = g @ q"
  shows "f = g \<and> r = q"
proof -
  have "announced_of f = announced_of (f @ r)" "announced_of g = announced_of (g @ q)"
    using assms(1,2) by (simp_all add: frame_ok_def announced_of_append)
  with assms have "length f = length g" by (simp add: frame_ok_def)
  with assms(3) show ?thesis by simp
qed

lemma frames_comparable:
  assumes "\<forall>f \<in> set fs. frame_ok f" and "\<forall>g \<in> set gs. frame_ok g" and "concat fs @ r = concat gs @ q"
  shows "(\<exists>es. fs = gs @ es) \<or> (\<exists>es. gs = fs @ es)"
  using assms
proof (induction fs arbitrary: gs)
  case Nil
  then show ?case by simp
next
  case (Cons f fs)
  show ?case
  proof (cases gs)
    case Nil
    then show ?thesis by simp
  next
    case c: (Cons g gs')
    have e: "f @ (concat fs @ r) = g @ (concat gs' @ q)" using Cons.prems(3) c by simp
    have "frame_ok f" "frame_ok g" using Cons.prems(1,2) c by simp_all
    from frame_ok_append_eq [OF this e] have "f = g" "concat fs @ r = concat gs' @ q" by simp_all
    moreover have "(\<exists>es. fs = gs' @ es) \<or> (\<exists>es. gs' = fs @ es)"
      using Cons.prems(1,2) c calculation(2) by (intro Cons.IH) simp_all
    ultimately show ?thesis using c by auto
  qed
qed

lemma xmsgstream_init_ok: "xmsg_ok xmsgstream_init \<and> xmsg_cur xmsgstream_init = [] \<and> good xmsgstream_init"
proof -
  have "BUFINC \<le> xb_epptr (xmsgbuf_make BUFINC)" by (simp only: xmsgbuf_make_def xmsgbuf.simps length_replicate)
  with xb_make_inv [of BUFINC] show ?thesis by (simp add: xmsg_ok_def xmsg_cur_def xmsgstream_init_def)
qed

section \<open>Properties\<close>

text \<open>the message reader cuts the byte stream of a socket into the frames their headers
  announce: after any number of calls the messages handled, the message in progress and the
  unread bytes are together exactly the bytes that arrived, in order; every message handled is
  a complete frame, and the one in progress never extends beyond its announced end.\<close>

theorem xmsg_read_framing:
  assumes "sk_in_inv (rdbuf is)" and "pump n xmsgstream_init is = (fs, buf, is')"
  shows "sk_unread (rdbuf is) = concat fs @ xmsg_cur buf @ sk_unread (rdbuf is')
    \<and> (\<forall>f \<in> set fs. frame_ok f) \<and> partial (xmsg_cur buf)"
  using pump_frames [of xmsgstream_init "is" n fs buf is'] assms xmsgstream_init_ok by simp

definition sample_input :: "recv_result list \<Rightarrow> sockstream" where
  "sample_input rs = ios_init (sockbuf_make 7 True True True
      \<lparr>k_send = [], k_conn = [], k_recv = rs, k_wire = []\<rparr>)"

lemma sample_input_inv: "sk_in_inv (rdbuf (sample_input rs))"
  by (simp add: sample_input_def sk_in_inv_def sockbuf_make_def init_buf_ptrs_def empty_message_def)

lemma sample_input_unread: "sk_unread (rdbuf (sample_input rs)) = k_incoming rs"
  by (simp add: sample_input_def sk_unread_def sockbuf_make_def init_buf_ptrs_def empty_message_def)

theorem xmsg_read_framing_witness:
  "\<exists>fs buf is'. pump 3 xmsgstream_init (sample_input [Got [1, 2], RecvErr 4, Got [3]]) = (fs, buf, is')
     \<and> [1, 2, 3] = concat fs @ xmsg_cur buf @ sk_unread (rdbuf is')"
proof -
  let ?i = "sample_input [Got [1, 2], RecvErr 4, Got [3]]"
  obtain fs buf is' where p: "pump 3 xmsgstream_init ?i = (fs, buf, is')"
    by (cases "pump 3 xmsgstream_init ?i") auto
  from xmsg_read_framing [OF sample_input_inv p] p show ?thesis by (auto simp: sample_input_unread)
qed

text \<open>C5: framing does not depend on how the bytes arrive: two sockets that deliver the same byte
  sequence, cut into pieces, delayed and interrupted differently, and read by different numbers
  of calls, yield the same messages, as far as both have got.\<close>

theorem framing_arrival_independent:
  assumes "sk_in_inv (rdbuf is1)" and "sk_in_inv (rdbuf is2)"
    and "sk_unread (rdbuf is1) = sk_unread (rdbuf is2)"
    and "pump n1 xmsgstream_init is1 = (fs1, s1)" and "pump n2 xmsgstream_init is2 = (fs2, s2)"
  shows "(\<exists>es. fs1 = fs2 @ es) \<or> (\<exists>es. fs2 = fs1 @ es)"
proof -
  obtain b1 i1 b2 i2 where s: "s1 = (b1, i1)" "s2 = (b2, i2)" by fastforce
  note p1 = pump_frames [of xmsgstream_init is1 n1 fs1 b1 i1]
  note p2 = pump_frames [of xmsgstream_init is2 n2 fs2 b2 i2]
  show ?thesis
    using p1 p2 assms s xmsgstream_init_ok
    by (intro frames_comparable [of fs1 fs2 "xmsg_cur b1 @ sk_unread (rdbuf i1)"
          "xmsg_cur b2 @ sk_unread (rdbuf i2)"]) auto
qed

theorem framing_arrival_independent_witness:
  "\<exists>fs1 s1 fs2 s2. pump 4 xmsgstream_init (sample_input [Got [1, 2], RecvErr 4, Got [3]]) = (fs1, s1)
     \<and> pump 1 xmsgstream_init (sample_input [Got [1], Got [2, 3]]) = (fs2, s2)
     \<and> ((\<exists>es. fs1 = fs2 @ es) \<or> (\<exists>es. fs2 = fs1 @ es))"
proof -
  let ?i1 = "sample_input [Got [1, 2], RecvErr 4, Got [3]]" and ?i2 = "sample_input [Got [1], Got [2, 3]]"
  obtain fs1 s1 where p1: "pump 4 xmsgstream_init ?i1 = (fs1, s1)" by (cases "pump 4 xmsgstream_init ?i1") auto
  obtain fs2 s2 where p2: "pump 1 xmsgstream_init ?i2 = (fs2, s2)" by (cases "pump 1 xmsgstream_init ?i2") auto
  have "sk_unread (rdbuf ?i1) = sk_unread (rdbuf ?i2)" by (simp add: sample_input_unread)
  from framing_arrival_independent [OF sample_input_inv sample_input_inv this p1 p2] p1 p2
  show ?thesis by blast
qed

text \<open>a reader makes progress whenever it can: when a call returns without a complete message,
  either the socket had no more bytes for now, or the header in the buffer announces fewer
  bytes than a header has.\<close>

theorem xmsg_read_progress:
  assumes "xmsg_ok buf" and "sk_in_inv (rdbuf is)" and "partial (xmsg_cur buf)"
    and "xmsg_read buf is = (buf', is')"
  shows "xmsg_full buf' \<or> gcount is' = 0
    \<or> length (xb_bytes (rdbuf buf')) = 24 \<and> announced_of (xb_bytes (rdbuf buf')) < 24"
proof -
  note spec = xmsg_read_spec [OF assms]
  then have "xmsg_full buf' \<longleftrightarrow> frame_ok (xb_bytes (rdbuf buf'))"
    by (intro xmsg_full_frame) (simp add: xmsg_ok_def)
  with spec show ?thesis by (auto simp: frame_ok_def frame_need_def max_def split: if_splits)
qed

theorem xmsg_read_progress_witness:
  "\<exists>buf' is'. xmsg_read xmsgstream_init (sample_input [Got [1, 2]]) = (buf', is')
     \<and> (xmsg_full buf' \<or> gcount is' = 0
        \<or> length (xb_bytes (rdbuf buf')) = 24 \<and> announced_of (xb_bytes (rdbuf buf')) < 24)"
proof -
  obtain buf' is' where r: "xmsg_read xmsgstream_init (sample_input [Got [1, 2]]) = (buf', is')" by fastforce
  from xmsg_read_progress [OF _ sample_input_inv _ r] r xmsgstream_init_ok show ?thesis by auto
qed

text \<open>a header that announces fewer than 24 bytes stops its socket for good: no later call reads
  another byte or completes a message, however many there are.\<close>

theorem short_header_stalls:
  assumes "xmsg_ok buf" and "sk_in_inv (rdbuf is)" and "\<not> eofbit buf"
    and "length (xb_bytes (rdbuf buf)) = 24" and "announced_of (xb_bytes (rdbuf buf)) < 24"
  shows "\<exists>buf'. pump n buf is = ([], buf', is) \<and> xb_bytes (rdbuf buf') = xb_bytes (rdbuf buf)"
  using assms
proof (induction n arbitrary: buf)
  case 0
  then show ?case by simp
next
  case (Suc n)
  obtain b1 is1 where r: "xmsg_read buf is = (b1, is1)" by fastforce
  have cur: "xmsg_cur buf = xb_bytes (rdbuf buf)" using Suc.prems(3) by (simp add: xmsg_cur_def)
  have part: "partial (xmsg_cur buf)" using cur Suc.prems(4) by (simp add: partial_def frame_need_def)
  note spec = xmsg_read_spec [OF Suc.prems(1,2) part r]
  have i: "is1 = is" using spec cur Suc.prems(4,5) by (simp add: frame_need_def)
  with spec cur have b: "xb_bytes (rdbuf b1) = xb_bytes (rdbuf buf)" by auto
  have "\<not> xmsg_full b1"
    using spec b Suc.prems(4,5) xmsg_full_frame [of b1] by (auto simp: xmsg_ok_def frame_ok_def)
  with Suc.IH [of b1] spec b i Suc.prems r show ?case by (auto simp: good_def)
qed

theorem short_header_stalls_witness:
  "\<exists>buf buf'. length (xb_bytes (rdbuf buf)) = 24 \<and> announced_of (xb_bytes (rdbuf buf)) < 24
     \<and> pump 5 buf (sample_input [Got [7]]) = ([], buf', sample_input [Got [7]])"
proof -
  let ?h = "header_bytes (sample_header 23 DATA 0)"
  let ?s = "xmsg_write ?h xmsgstream_init"
  have acc: "xb_accepts (rdbuf xmsgstream_init) (length ?h)"
    by (simp add: xb_accepts_def xmsgstream_init_def xmsgbuf_make_def BUFINC_def)
  have w: "good ?s" "xmsg_ok ?s" "xb_bytes (rdbuf ?s) = ?h"
    using xmsg_write_piece [OF _ _ acc] xmsgstream_init_ok by (simp_all add: xmsgstream_init_def)
  have "announced_of ?h = 23"
    by (simp add: announced_of_def header_bytes_def sample_header_def uuid_bytes_def)
  with w obtain buf' where "pump 5 ?s (sample_input [Got [7]]) = ([], buf', sample_input [Got [7]])"
    using short_header_stalls [OF w(2) sample_input_inv, of 5 "[Got [7]]"] by (auto simp: good_def)
  with w \<open>announced_of ?h = 23\<close> show ?thesis by (intro exI [of _ ?s] exI [of _ buf']) simp
qed

text \<open>a marshalling step touches the buffer of its own stream only: every other stream that is
  still alive keeps its buffer as it was, the stream's own buffer is the old one (or a fresh
  one) advanced by reading from its socket, and the table stays ordered by owner.\<close>

theorem marshal_isolated:
  assumes "ksorted buf_ptr (mar_south m)" and "ctl_marshal live ssp is m = (i, m', is')"
  shows "ksorted buf_ptr (mar_south m')
    \<and> (\<forall>q. q \<noteq> ssp \<longrightarrow> live q \<longrightarrow> buffer_look (mar_south m') q = buffer_look (mar_south m) q)
    \<and> buffer_look (mar_south m') ssp = Some (fst (xmsg_read
        (case buffer_look (mar_south m) ssp of Some f \<Rightarrow> f | None \<Rightarrow> xmsgstream_init) is))
    \<and> mar_north m' = mar_north m"
proof -
  obtain j tbl where sl: "buffer_slot live xmsgstream_init ssp (mar_south m) = (j, tbl)" by fastforce
  note own = bt.step_own [OF assms(1) sl] and oth = bt.step_others [OF assms(1) sl]
  have c: "buf_fmt (tbl ! j) = (case buffer_look (mar_south m) ssp of Some f \<Rightarrow> f | None \<Rightarrow> xmsgstream_init)"
    by (rule bt.slot_content [OF assms(1) sl])
  have "m' = m\<lparr>mar_south := set_fmt j (fst (xmsg_read (buf_fmt (tbl ! j)) is)) tbl\<rparr>"
    using assms(2) sl by (auto simp: ctl_marshal_def split: prod.splits)
  with own oth c show ?thesis by simp
qed

theorem marshal_isolated_witness:
  "\<exists>i m' is'. ctl_marshal (\<lambda>q. q = 3 \<or> q = 9) 9 (sample_input [Got [1]])
        \<lparr>mar_north = [], mar_south = [make_buffer xmsgstream_init 3, make_buffer xmsgstream_init 4]\<rparr> = (i, m', is')
     \<and> buffer_look (mar_south m') 3 = Some xmsgstream_init"
proof -
  let ?m = "\<lparr>mar_north = [], mar_south = [make_buffer xmsgstream_init 3, make_buffer xmsgstream_init 4]\<rparr> :: ctl_marshaller"
  obtain i m' is' where r: "ctl_marshal (\<lambda>q. q = 3 \<or> q = 9) 9 (sample_input [Got [1]]) ?m = (i, m', is')"
    by (cases "ctl_marshal (\<lambda>q. q = 3 \<or> q = 9) 9 (sample_input [Got [1]]) ?m") auto
  have "ksorted buf_ptr (mar_south ?m)" by (simp add: ksorted_def make_buffer_def)
  from marshal_isolated [OF this r] r show ?thesis
    by (auto simp: buffer_look_def kmap_def make_buffer_def)
qed

end
