(* ===== verification/TimerQueue.thy ===== *)
theory TimerQueue
  imports Bus_Prelude
begin

text \<open>
  The idle-timeout queue (\<^verbatim>\<open>src/connector/connector_timerqueue.hpp\<close>, \<^verbatim>\<open>connector_timerqueue.cpp\<close>): a vector of
  events meant to be ordered by expiry time, one per stream. A callback is an element of an
  arbitrary type, \<open>None\<close> for an empty \<^verbatim>\<open>std::function\<close>; \<open>process_events\<close> returns the callbacks that are
  called, in order. Times are ticks of the clock.
  Shown: when deadlines are added in the order of time, as the connectors do, the queue is a map
  from streams to deadlines and processing runs exactly the events that are due; an update to a
  deadline that lies between two events breaks the order and delays the event.
\<close>

record 'c timeout_event =
  ev_callback :: "'c option"
  ev_ptr :: owner
  ev_time :: int

definition swap_at :: "nat \<Rightarrow> nat \<Rightarrow> 'a list \<Rightarrow> 'a list" where
  "swap_at j i xs = xs[j := xs ! i, i := xs ! j]"

text \<open>The loop of \<^verbatim>\<open>addEvent\<close> at index \<open>i\<close>; \<open>match\<close> is the index of the stream's event, if seen.\<close>

function add_loop ::
  "owner \<Rightarrow> int \<Rightarrow> 'c option \<Rightarrow> nat \<Rightarrow> nat option \<Rightarrow> 'c timeout_event list \<Rightarrow> 'c timeout_event list" where
  "add_loop wp time func i match events =
     (if i < length events then
        (let match1 = (if wp = ev_ptr (events ! i) then Some i else match) in
         if time < ev_time (events ! i) then
           (case match1 of
              Some j \<Rightarrow> (let events' = swap_at j i events in events'[i := (events' ! i)\<lparr>ev_time := time\<rparr>])
            | None \<Rightarrow> insert_at i \<lparr>ev_callback = func, ev_ptr = wp, ev_time = time\<rparr> events)
         else
           (case match1 of
              Some j \<Rightarrow> add_loop wp time func (Suc i) (Some i) (swap_at j i events)
            | None \<Rightarrow> add_loop wp time func (Suc i) None events))
      else
        (case match of
           None \<Rightarrow> events @ [\<lparr>ev_callback = func, ev_ptr = wp, ev_time = time\<rparr>]
         | Some j \<Rightarrow> events[j := (events ! j)\<lparr>ev_time := time\<rparr>]))"
  by pat_completeness auto
termination
  by (relation "measure (\<lambda>(wp, time, func, i, match, events). length events - i)") (auto simp: swap_at_def)

declare add_loop.simps [simp del]

definition add_event ::
  "owner \<Rightarrow> int \<Rightarrow> 'c option \<Rightarrow> 'c timeout_event list \<Rightarrow> 'c timeout_event list" where
  "add_event wp time func events = add_loop wp time func 0 None events"

text \<open>\<^verbatim>\<open>processEvents\<close> at the clock reading \<open>now\<close>: the count, the callbacks called and the queue left.\<close>

definition process_events ::
  "int \<Rightarrow> 'c timeout_event list \<Rightarrow> nat \<times> 'c list \<times> 'c timeout_event list" where
  "process_events now events =
     (let first_not_expired = length (takeWhile (\<lambda>e. \<not> now < ev_time e) events) in
      if first_not_expired = 0 then (0, [], events)
      else (first_not_expired,
            List.map_filter ev_callback (take first_not_expired events),
            drop first_not_expired events))"

section \<open>The contract\<close>

text \<open>\<open>ok t q\<close>: the queue is well formed and no deadline lies after \<open>t\<close>.\<close>

locale deadline_queue =
  fixes add :: "owner \<Rightarrow> int \<Rightarrow> 'c option \<Rightarrow> 'q \<Rightarrow> 'q"
    and run :: "int \<Rightarrow> 'q \<Rightarrow> nat \<times> 'c list \<times> 'q"
    and deadline :: "'q \<Rightarrow> owner \<rightharpoonup> int"
    and ok :: "int \<Rightarrow> 'q \<Rightarrow> bool"
  assumes add_ok: "ok t q \<Longrightarrow> t \<le> t' \<Longrightarrow> ok t' (add wp t' cb q)"
    and add_deadline: "ok t q \<Longrightarrow> t \<le> t' \<Longrightarrow> deadline (add wp t' cb q) = (deadline q)(wp \<mapsto> t')"
    and run_ok: "ok t q \<Longrightarrow> run now q = (n, cbs, q') \<Longrightarrow> ok t q'"
    and run_deadline: "ok t q \<Longrightarrow> run now q = (n, cbs, q') \<Longrightarrow>
      deadline q' = (\<lambda>wp. case deadline q wp of None \<Rightarrow> None | Some d \<Rightarrow> if d \<le> now then None else Some d)"
begin

text \<open>Re-arming postpones: a stream armed until \<open>t'\<close> is still armed after any run before \<open>t'\<close>.\<close>

lemma rearm_postpones:
  assumes "ok t q" and "t \<le> t'" and "now < t'" and "run now (add wp t' cb q) = (n, cbs, q')"
  shows "deadline q' wp = Some t' \<and> ok t' q'"
  using run_deadline [OF add_ok [OF assms(1,2)] assms(4)] run_ok [OF add_ok [OF assms(1,2)] assms(4)]
    add_deadline [OF assms(1,2)] assms(3) by simp

end

section \<open>Adding in the order of time\<close>

definition tq_ok :: "int \<Rightarrow> 'c timeout_event list \<Rightarrow> bool" where
  "tq_ok t q \<longleftrightarrow> sorted (map ev_time q) \<and> distinct (map ev_ptr q) \<and> (\<forall>e \<in> set q. ev_time e \<le> t)"

definition tq_deadline :: "'c timeout_event list \<Rightarrow> owner \<rightharpoonup> int" where
  "tq_deadline q = map_of (map (\<lambda>e. (ev_ptr e, ev_time e)) q)"

lemma swap_adjacent:
  "swap_at (length pre) (Suc (length pre)) (pre @ m # x # xs) = pre @ x # m # xs"
  by (simp add: swap_at_def list_update_append nth_append)

lemma swap_same: "i < length xs \<Longrightarrow> swap_at i i xs = xs"
  by (simp add: swap_at_def)

lemma add_loop_carry:
  assumes "\<forall>e \<in> set rest. ev_time e \<le> time" and "\<forall>e \<in> set rest. ev_ptr e \<noteq> wp"
  shows "add_loop wp time func (Suc (length pre)) (Some (length pre)) (pre @ m # rest)
    = pre @ rest @ [m\<lparr>ev_time := time\<rparr>]"
  using assms
proof (induction rest arbitrary: pre)
  case Nil
  then show ?case by (subst add_loop.simps) simp
next
  case (Cons x xs)
  have "add_loop wp time func (Suc (length (pre @ [x]))) (Some (length (pre @ [x]))) ((pre @ [x]) @ m # xs)
      = (pre @ [x]) @ xs @ [m\<lparr>ev_time := time\<rparr>]" using Cons.prems by (intro Cons.IH) auto
  then show ?case
    using Cons.prems by (subst add_loop.simps) (auto simp: nth_append swap_adjacent Let_def)
qed

lemma add_loop_search:
  assumes "\<forall>e \<in> set rest. ev_time e \<le> time" and "distinct (map ev_ptr rest)"
  shows "add_loop wp time func (length pre) None (pre @ rest)
    = pre @ (case find (\<lambda>e. ev_ptr e = wp) rest of
        Some m \<Rightarrow> filter (\<lambda>e. ev_ptr e \<noteq> wp) rest @ [m\<lparr>ev_time := time\<rparr>]
      | None \<Rightarrow> rest @ [\<lparr>ev_callback = func, ev_ptr = wp, ev_time = time\<rparr>])"
  using assms
proof (induction rest arbitrary: pre)
  case Nil
  then show ?case by (subst add_loop.simps) simp
next
  case (Cons x xs)
  show ?case
  proof (cases "ev_ptr x = wp")
    case True
    have ne: "\<forall>e \<in> set xs. ev_ptr e \<noteq> wp" using Cons.prems(2) True by (metis distinct.simps(2) image_eqI list.set_map list.simps(9))
    then have "filter (\<lambda>e. ev_ptr e \<noteq> wp) xs = xs" by simp
    with True ne Cons.prems add_loop_carry [of xs time wp func pre x] show ?thesis
      by (subst add_loop.simps) (simp add: nth_append swap_same Let_def not_less)
  next
    case False
    have "add_loop wp time func (length (pre @ [x])) None ((pre @ [x]) @ xs)
      = (pre @ [x]) @ (case find (\<lambda>e. ev_ptr e = wp) xs of
        Some m \<Rightarrow> filter (\<lambda>e. ev_ptr e \<noteq> wp) xs @ [m\<lparr>ev_time := time\<rparr>]
      | None \<Rightarrow> xs @ [\<lparr>ev_callback = func, ev_ptr = wp, ev_time = time\<rparr>])"
      using Cons.prems by (intro Cons.IH) auto
    with False Cons.prems show ?thesis
      by (subst add_loop.simps) (auto simp: nth_append Let_def not_less split: option.split)
  qed
qed

text \<open>Adding a latest deadline moves the stream's event to the end, or appends a new one.\<close>

lemma add_event_latest:
  assumes "tq_ok t q" and "t \<le> t'"
  shows "add_event wp t' func q = filter (\<lambda>e. ev_ptr e \<noteq> wp) q
    @ [(case find (\<lambda>e. ev_ptr e = wp) q of Some m \<Rightarrow> m\<lparr>ev_time := t'\<rparr>
        | None \<Rightarrow> \<lparr>ev_callback = func, ev_ptr = wp, ev_time = t'\<rparr>)]"
proof -
  have "\<forall>e \<in> set q. ev_time e \<le> t'" "distinct (map ev_ptr q)" using assms by (auto simp: tq_ok_def)
  note l = add_loop_search [OF this, of wp func "[]"]
  show ?thesis
  proof (cases "find (\<lambda>e. ev_ptr e = wp) q")
    case None
    then have "filter (\<lambda>e. ev_ptr e \<noteq> wp) q = q" by (auto simp: find_None_iff)
    with None l show ?thesis by (simp add: add_event_def)
  next
    case (Some m)
    with l show ?thesis by (simp add: add_event_def)
  qed
qed

lemma add_event_ok:
  assumes "tq_ok t q" and "t \<le> t'"
  shows "tq_ok t' (add_event wp t' cb q)"
proof -
  have "ev_ptr (case find (\<lambda>e. ev_ptr e = wp) q of Some m \<Rightarrow> m\<lparr>ev_time := t'\<rparr>
        | None \<Rightarrow> \<lparr>ev_callback = cb, ev_ptr = wp, ev_time = t'\<rparr>) = wp"
    "ev_time (case find (\<lambda>e. ev_ptr e = wp) q of Some m \<Rightarrow> m\<lparr>ev_time := t'\<rparr>
        | None \<Rightarrow> \<lparr>ev_callback = cb, ev_ptr = wp, ev_time = t'\<rparr>) = t'"
    by (auto simp: find_Some_iff split: option.split)
  moreover have "sorted (map ev_time (filter (\<lambda>e. ev_ptr e \<noteq> wp) q))"
    "distinct (map ev_ptr (filter (\<lambda>e. ev_ptr e \<noteq> wp) q))"
    using assms(1) sorted_filter [of ev_time q] by (auto simp: tq_ok_def distinct_map_filter)
  ultimately show ?thesis
    using assms by (auto simp: add_event_latest [OF assms] tq_ok_def sorted_append)
qed

lemma tq_deadline_iff:
  "distinct (map ev_ptr q) \<Longrightarrow> tq_deadline q wp = Some d \<longleftrightarrow> (\<exists>e \<in> set q. ev_ptr e = wp \<and> ev_time e = d)"
proof -
  assume "distinct (map ev_ptr q)"
  then have "distinct (map fst (map (\<lambda>e. (ev_ptr e, ev_time e)) q))" by (simp add: comp_def)
  from map_of_eq_Some_iff [OF this] show ?thesis by (auto simp: tq_deadline_def)
qed

lemma tq_deadline_eqI:
  assumes "distinct (map ev_ptr q)" and "\<And>wp d. (\<exists>e \<in> set q. ev_ptr e = wp \<and> ev_time e = d) \<longleftrightarrow> f wp = Some d"
  shows "tq_deadline q = f"
proof
  fix wp
  show "tq_deadline q wp = f wp" using assms tq_deadline_iff [OF assms(1)] by (metis option.exhaust)
qed

lemma add_event_deadline:
  assumes "tq_ok t q" and "t \<le> t'"
  shows "tq_deadline (add_event wp t' cb q) = (tq_deadline q)(wp \<mapsto> t')"
proof (rule tq_deadline_eqI)
  have d: "distinct (map ev_ptr q)" using assms by (simp add: tq_ok_def)
  show "distinct (map ev_ptr (add_event wp t' cb q))"
    using add_event_ok [OF assms] by (simp add: tq_ok_def)
  fix p d
  have "ev_ptr (case find (\<lambda>e. ev_ptr e = wp) q of Some m \<Rightarrow> m\<lparr>ev_time := t'\<rparr>
        | None \<Rightarrow> \<lparr>ev_callback = cb, ev_ptr = wp, ev_time = t'\<rparr>) = wp"
    "ev_time (case find (\<lambda>e. ev_ptr e = wp) q of Some m \<Rightarrow> m\<lparr>ev_time := t'\<rparr>
        | None \<Rightarrow> \<lparr>ev_callback = cb, ev_ptr = wp, ev_time = t'\<rparr>) = t'"
    by (auto simp: find_Some_iff split: option.split)
  with d show "(\<exists>e \<in> set (add_event wp t' cb q). ev_ptr e = p \<and> ev_time e = d)
      \<longleftrightarrow> ((tq_deadline q)(wp \<mapsto> t')) p = Some d"
    by (auto simp: add_event_latest [OF assms] tq_deadline_iff)
qed

text \<open>On an ordered queue the due events are a prefix.\<close>

lemma due_prefix:
  "sorted (map ev_time q) \<Longrightarrow>
     takeWhile (\<lambda>e. \<not> now < ev_time e) q = filter (\<lambda>e. ev_time e \<le> now) q
     \<and> dropWhile (\<lambda>e. \<not> now < ev_time e) q = filter (\<lambda>e. now < ev_time e) q"
proof (induction q)
  case Nil
  then show ?case by simp
next
  case (Cons e q)
  show ?case
  proof (cases "now < ev_time e")
    case True
    then have "\<forall>x \<in> set q. now < ev_time x" using Cons.prems by auto
    then have "filter (\<lambda>e. ev_time e \<le> now) q = []" "filter (\<lambda>e. now < ev_time e) q = q"
      by (auto simp: filter_empty_conv not_le)
    with True show ?thesis by simp
  next
    case False
    with Cons show ?thesis by simp
  qed
qed

lemma process_events_due:
  assumes "sorted (map ev_time q)"
  shows "process_events now q = (length (filter (\<lambda>e. ev_time e \<le> now) q),
    List.map_filter ev_callback (filter (\<lambda>e. ev_time e \<le> now) q), filter (\<lambda>e. now < ev_time e) q)"
proof -
  let ?n = "length (takeWhile (\<lambda>e. \<not> now < ev_time e) q)"
  have "take ?n q = takeWhile (\<lambda>e. \<not> now < ev_time e) q" "drop ?n q = dropWhile (\<lambda>e. \<not> now < ev_time e) q"
    by (simp_all flip: takeWhile_eq_take dropWhile_eq_drop)
  moreover have "?n = 0 \<longrightarrow> dropWhile (\<lambda>e. \<not> now < ev_time e) q = q"
    by (metis calculation(2) drop0)
  ultimately show ?thesis
    using due_prefix [OF assms, of now] by (auto simp: process_events_def Let_def map_filter_simps)
qed

lemma process_events_ok:
  assumes "tq_ok t q" and "process_events now q = (n, cbs, q')"
  shows "tq_ok t q'"
    and "tq_deadline q' = (\<lambda>wp. case tq_deadline q wp of None \<Rightarrow> None | Some d \<Rightarrow> if d \<le> now then None else Some d)"
proof -
  have so: "sorted (map ev_time q)" and d: "distinct (map ev_ptr q)" using assms(1) by (simp_all add: tq_ok_def)
  have q': "q' = filter (\<lambda>e. now < ev_time e) q" using process_events_due [OF so, of now] assms(2) by simp
  then show ok: "tq_ok t q'"
    using assms(1) sorted_filter [of ev_time q] by (auto simp: tq_ok_def distinct_map_filter)
  show "tq_deadline q' = (\<lambda>wp. case tq_deadline q wp of None \<Rightarrow> None | Some d \<Rightarrow> if d \<le> now then None else Some d)"
  proof (rule tq_deadline_eqI)
    show "distinct (map ev_ptr q')" using ok by (simp add: tq_ok_def)
    fix wp x
    show "(\<exists>e \<in> set q'. ev_ptr e = wp \<and> ev_time e = x)
        \<longleftrightarrow> (case tq_deadline q wp of None \<Rightarrow> None | Some d \<Rightarrow> if d \<le> now then None else Some d) = Some x"
      using tq_deadline_iff [OF d, of wp x] by (cases "tq_deadline q wp") (auto simp: q')
  qed
qed

interpretation tq: deadline_queue add_event process_events tq_deadline tq_ok
  by unfold_locales
    (erule (1) add_event_ok add_event_deadline process_events_ok)+

section \<open>Properties\<close>

text \<open>C34: used with deadlines that never precede those already queued, which is how the connectors
  use it, the timer queue is a map from streams to deadlines: adding sets the deadline of its
  stream and of no other and keeps one event per stream, and processing runs exactly the
  callbacks that are due, in the order of time, and keeps exactly the rest.\<close>

theorem timer_queue_deadlines:
  assumes "tq_ok t q" and "t \<le> t'"
  shows "tq_ok t' (add_event wp t' cb q)
    \<and> tq_deadline (add_event wp t' cb q) = (tq_deadline q)(wp \<mapsto> t')
    \<and> process_events now q = (length (filter (\<lambda>e. ev_time e \<le> now) q),
        List.map_filter ev_callback (filter (\<lambda>e. ev_time e \<le> now) q), filter (\<lambda>e. now < ev_time e) q)"
  using tq.add_ok [OF assms] tq.add_deadline [OF assms] process_events_due [of q now] assms(1)
  by (simp add: tq_ok_def)

theorem timer_queue_deadlines_witness:
  "tq_deadline (add_event 1 30 (Some ''a'') (add_event 2 20 (Some ''b'') (add_event 1 10 (Some ''c'') []))) 1 = Some 30"
proof -
  let ?q1 = "add_event 1 10 (Some ''c'') []" and ?q2 = "add_event 2 20 (Some ''b'') (add_event 1 10 (Some ''c'') [])"
  have "tq_ok 0 ([] :: string timeout_event list)" by (simp add: tq_ok_def)
  then have "tq_ok 10 ?q1" using tq.add_ok by fastforce
  then have "tq_ok 20 ?q2" using tq.add_ok by fastforce
  from timer_queue_deadlines [OF this, of 30 1 "Some ''a''" 0] show ?thesis by simp
qed

text \<open>moving a deadline to a time between two queued events breaks the order of the queue: with
  a stream due at 10 and another at 20, re-arming the first for 15 puts it behind the second,
  and processing at 16 runs neither although the first is overdue.\<close>

theorem timer_queue_update_misorders:
  "let q = add_event 1 15 (Some ''a'') (add_event 2 20 (Some ''b'') (add_event 1 10 (Some ''a'') []))
   in map (\<lambda>e. (ev_ptr e, ev_time e)) q = [(2, 20), (1, 15)] \<and> process_events 16 q = (0, [], q)"
  by (simp add: add_event_def add_loop.simps swap_at_def insert_at_def process_events_def Let_def)

end
