(* ===== verification/Metrics.thy ===== *)
theory Metrics
  imports Bus_Prelude "HOL-Library.Signed_Division"
begin

text \<open>
  Stream metrics (\<^verbatim>\<open>src/metrics/metrics.hpp\<close>, \<^verbatim>\<open>metrics.cpp\<close>): per stream the smoothed interarrival and
  intercompletion times and the last arrival and completion, in a vector ordered by owner; per
  thread a node with an arrival counter and such a vector. Durations are signed 64-bit counts of
  milliseconds, shown as integers with the C++ division (\<open>sdiv\<close>, \<open>smod\<close>); time points are
  nanoseconds. The mutexes only serialise these operations and do not appear.
  Shown: the smoothing step computes the exact truncated quotient for every 64-bit argument
  although its product would overflow, and moves the average towards the sample and never past
  it; recording a measurement keeps the vector ordered and leaves the other live streams alone.
\<close>

section \<open>Smoothing\<close>

abbreviation (input) DUR_MAX :: int where "DUR_MAX \<equiv> 9223372036854775807"
abbreviation (input) DUR_MIN :: int where "DUR_MIN \<equiv> - 9223372036854775808"

definition in_dur :: "int \<Rightarrow> bool" where
  "in_dur x \<longleftrightarrow> DUR_MIN \<le> x \<and> x \<le> DUR_MAX"

definition update_ewma :: "int \<Rightarrow> int" where
  "update_ewma delta =
     (let denom = 3 + 1 in
      if delta > DUR_MAX sdiv 2 then
        (let overflow = delta - DUR_MAX smod delta;
             rem1 = DUR_MAX smod denom; rem2 = overflow smod denom
         in DUR_MAX sdiv denom + overflow sdiv denom + (rem1 + rem2) sdiv denom)
      else if delta < DUR_MIN sdiv 2 then
        (let underflow = delta - DUR_MIN smod delta;
             rem1 = DUR_MIN smod denom; rem2 = underflow smod denom
         in DUR_MIN sdiv denom + underflow sdiv denom + (rem1 + rem2) sdiv denom)
      else 2 * delta sdiv denom)"

section \<open>The measurement vector\<close>

record metric =
  mt_wp :: owner
  mt_interarrival :: int
  mt_intercompletion :: int
  mt_last_arrival :: int
  mt_last_completion :: int

text \<open>\<^verbatim>\<open>find_metric\<close>: the index of the entry, or the length for \<^verbatim>\<open>end\<close>.\<close>

definition find_metric :: "(owner \<Rightarrow> bool) \<Rightarrow> owner \<Rightarrow> metric list \<Rightarrow> nat" where
  "find_metric live ptr ms =
     (if \<not> live ptr then length ms
      else (let lb = lower_bound (\<lambda>x. mt_wp x < ptr) ms in
            if lb = length ms \<or> mt_wp (ms ! lb) = ptr then lb else length ms))"

text \<open>\<^verbatim>\<open>remove_and_find_insertion_point\<close>: the vector with the surviving entries moved forward, \<^verbatim>\<open>put\<close> and \<^verbatim>\<open>get\<close>.\<close>

function scan_insertion :: "(owner \<Rightarrow> bool) \<Rightarrow> owner \<Rightarrow> nat \<Rightarrow> nat \<Rightarrow> metric list \<Rightarrow> metric list \<times> nat \<times> nat" where
  "scan_insertion live ptr put get vec =
     (if get < length vec then
        (if \<not> live (mt_wp (vec ! get)) then scan_insertion live ptr put (Suc get) vec
         else if ptr < mt_wp (vec ! get) then (vec, put, get)
         else scan_insertion live ptr (Suc put) (Suc get) (vec[put := vec ! get]))
      else (vec, put, get))"
  by pat_completeness auto
termination
  by (relation "measure (\<lambda>(live, ptr, put, get, vec). length vec - get)") auto

declare scan_insertion.simps [simp del]

definition new_metric :: "owner \<Rightarrow> int \<Rightarrow> metric" where
  "new_metric ptr t = \<lparr>mt_wp = ptr, mt_interarrival = 0, mt_intercompletion = 0,
     mt_last_arrival = t, mt_last_completion = t\<rparr>"

definition insert_at_pos :: "nat \<Rightarrow> nat \<Rightarrow> owner \<Rightarrow> int \<Rightarrow> metric list \<Rightarrow> nat \<times> metric list" where
  "insert_at_pos put get ptr t ms =
     (if put \<noteq> get then (put, erase_range (Suc put) get (ms[put := new_metric ptr t]))
      else (put, insert_at put (new_metric ptr t) ms))"

definition insert_metric :: "(owner \<Rightarrow> bool) \<Rightarrow> owner \<Rightarrow> int \<Rightarrow> metric list \<Rightarrow> nat \<times> metric list" where
  "insert_metric live ptr t ms =
     (case scan_insertion live ptr 0 0 ms of (vec, put, get) \<Rightarrow> insert_at_pos put get ptr t vec)"

text \<open>\<^verbatim>\<open>duration_cast<milliseconds>\<close> of a difference of time points.\<close>

definition to_ms :: "int \<Rightarrow> int" where
  "to_ms ns = ns sdiv 1000000"

definition add_completion :: "(owner \<Rightarrow> bool) \<Rightarrow> owner \<Rightarrow> int \<Rightarrow> metric list \<Rightarrow> int \<times> metric list" where
  "add_completion live ptr t ms =
     (if \<not> live ptr then (- 1, ms)
      else (let i = find_metric live ptr ms in
        if i = length ms then (0, snd (insert_metric live ptr t ms))
        else (let x = ms ! i; intercompletion = to_ms (t - mt_last_completion x);
                  v = mt_intercompletion x + update_ewma (intercompletion - mt_intercompletion x)
              in (v, ms[i := x\<lparr>mt_last_completion := t, mt_intercompletion := v\<rparr>]))))"

definition add_arrival :: "(owner \<Rightarrow> bool) \<Rightarrow> owner \<Rightarrow> int \<Rightarrow> metric list \<Rightarrow> int \<times> metric list" where
  "add_arrival live ptr t ms =
     (if \<not> live ptr then (- 1, ms)
      else (let i = find_metric live ptr ms in
        if i = length ms then (0, snd (insert_metric live ptr t ms))
        else (let x = ms ! i; interarrival = to_ms (t - mt_last_arrival x);
                  v = mt_interarrival x + update_ewma (interarrival - mt_interarrival x)
              in (v, ms[i := x\<lparr>mt_last_arrival := t, mt_interarrival := v\<rparr>]))))"

section \<open>The node registry\<close>

record node_metrics =
  nm_arrivals :: u64
  nm_streams :: "metric list"

text \<open>A \<^verbatim>\<open>std::map\<close> from thread identifiers, in the order of its keys.\<close>

type_synonym node_registry = "(nat \<times> node_metrics) list"

definition empty_node :: node_metrics where
  "empty_node = \<lparr>nm_arrivals = 0, nm_streams = []\<rparr>"

definition make_node :: "nat \<Rightarrow> node_registry \<Rightarrow> node_metrics \<times> node_registry" where
  "make_node tid nodes =
     (case map_of nodes tid of
        Some n \<Rightarrow> (n, nodes)
      | None \<Rightarrow> (empty_node, insert_at (lower_bound (\<lambda>x. fst x < tid) nodes) (tid, empty_node) nodes))"

definition node_update :: "(node_metrics \<Rightarrow> node_metrics) \<Rightarrow> nat \<Rightarrow> node_registry \<Rightarrow> node_registry" where
  "node_update f tid nodes =
     map (\<lambda>(t, n). if t = tid then (t, f n) else (t, n)) (snd (make_node tid nodes))"

text \<open>\<^verbatim>\<open>arrivals(tid).fetch_add(1)\<close> and \<^verbatim>\<open>streams(tid)\<close> create the node when it is missing.\<close>

definition count_arrival :: "nat \<Rightarrow> node_registry \<Rightarrow> node_registry" where
  "count_arrival tid nodes = node_update (\<lambda>n. n\<lparr>nm_arrivals := nm_arrivals n + 1\<rparr>) tid nodes"

definition node_streams :: "nat \<Rightarrow> node_registry \<Rightarrow> metric list \<times> node_registry" where
  "node_streams tid nodes = (case make_node tid nodes of (n, nodes') \<Rightarrow> (nm_streams n, nodes'))"

definition all_measurements :: "node_registry \<Rightarrow> (nat \<times> u64 \<times> metric list) list" where
  "all_measurements nodes = map (\<lambda>(tid, n). (tid, nm_arrivals n, nm_streams n)) nodes"

definition erase_node :: "nat \<Rightarrow> node_registry \<Rightarrow> node_registry" where
  "erase_node tid nodes = filter (\<lambda>(t, n). t \<noteq> tid) nodes"

section \<open>The smoothing step is exact\<close>

lemma sdiv4: "x sdiv (4 :: int) = (if 0 \<le> x then x div 4 else - ((- x) div 4))"
  by (simp add: signed_divide_int_def sgn_if)

lemma smod4: "x smod (4 :: int) = (if 0 \<le> x then x mod 4 else - ((- x) mod 4))"
  by (auto simp: signed_modulo_int_def sgn_if abs_if)

text \<open>A quotient of 1 makes the remainder the difference; so \<^verbatim>\<open>delta - max % delta\<close> is \<open>2 delta - max\<close>.\<close>

lemma mod_quotient_1: "d \<le> (a :: int) \<Longrightarrow> a < 2 * d \<Longrightarrow> a mod d = a - d"
proof -
  assume "d \<le> a" "a < 2 * d"
  then have "(a - d) mod d = a - d" by (intro mod_pos_pos_trivial) simp_all
  then show "a mod d = a - d" by (simp add: minus_mod_self2)
qed

lemma max_smod:
  assumes "DUR_MAX sdiv 2 < d" and "d \<le> DUR_MAX"
  shows "DUR_MAX smod d = DUR_MAX - d"
  using assms mod_quotient_1 [of d DUR_MAX]
  by (simp add: signed_modulo_int_def signed_divide_int_def)

lemma min_smod:
  assumes "d < DUR_MIN sdiv 2" and "DUR_MIN \<le> d"
  shows "DUR_MIN smod d = DUR_MIN - d"
  using assms mod_quotient_1 [of "- d" "- DUR_MIN"]
  by (simp add: signed_modulo_int_def signed_divide_int_def sgn_if abs_if)

lemma split_div4: "0 \<le> a \<Longrightarrow> 0 \<le> b \<Longrightarrow>
    a sdiv 4 + b sdiv 4 + (a smod 4 + b smod 4) sdiv 4 = (a + b) sdiv (4 :: int)"
  by (simp add: sdiv4 smod4 div_add1_eq [of a b 4])

lemma split_div4_neg: "a \<le> 0 \<Longrightarrow> b \<le> 0 \<Longrightarrow>
    a sdiv 4 + b sdiv 4 + (a smod 4 + b smod 4) sdiv 4 = (a + b) sdiv (4 :: int)"
proof -
  assume "a \<le> 0" "b \<le> 0"
  moreover have n: "(- x) sdiv 4 = - (x sdiv (4 :: int))" "(- x) smod 4 = - (x smod (4 :: int))" for x
    by (auto simp: sdiv4 smod4)
  ultimately have "- a sdiv 4 + - b sdiv 4 + (- a smod 4 + - b smod 4) sdiv 4 = (- a + - b) sdiv 4"
    by (intro split_div4) simp_all
  then show ?thesis using n(1) [of "a + b"] n(1) [of "a smod 4 + b smod 4"] by (simp add: n)
qed

lemma update_ewma_exact:
  assumes "in_dur d"
  shows "update_ewma d = 2 * d sdiv 4"
proof -
  have d: "DUR_MIN \<le> d" "d \<le> DUR_MAX" using assms by (simp_all add: in_dur_def)
  consider (big) "DUR_MAX sdiv 2 < d" | (small) "d < DUR_MIN sdiv 2"
    | (mid) "\<not> DUR_MAX sdiv 2 < d" "\<not> d < DUR_MIN sdiv 2" by blast
  then show ?thesis
  proof cases
    case big
    then have "0 \<le> 2 * d - DUR_MAX" by (simp add: signed_divide_int_def)
    then show ?thesis
      using big split_div4 [of DUR_MAX "2 * d - DUR_MAX"] max_smod [OF big d(2)]
      by (simp add: update_ewma_def Let_def)
  next
    case small
    then have "2 * d - DUR_MIN \<le> 0" by (simp add: signed_divide_int_def)
    moreover have "\<not> DUR_MAX sdiv 2 < d" using small by (simp add: signed_divide_int_def)
    ultimately show ?thesis
      using small split_div4_neg [of DUR_MIN "2 * d - DUR_MIN"] min_smod [OF small d(1)]
      by (simp add: update_ewma_def Let_def)
  next
    case mid
    then show ?thesis by (simp add: update_ewma_def Let_def)
  qed
qed

lemma ewma_between:
  "0 \<le> d \<Longrightarrow> 0 \<le> 2 * d sdiv 4 \<and> 2 * d sdiv 4 \<le> d"
  "d \<le> 0 \<Longrightarrow> d \<le> 2 * d sdiv 4 \<and> 2 * d sdiv 4 \<le> (0 :: int)"
  by (auto simp: sdiv4)

section \<open>Insertion keeps the order\<close>

text \<open>What the scan keeps in front of the new entry and what it leaves behind it.\<close>

fun scan_list :: "(owner \<Rightarrow> bool) \<Rightarrow> owner \<Rightarrow> metric list \<Rightarrow> metric list \<times> metric list" where
  "scan_list live ptr [] = ([], [])"
| "scan_list live ptr (x # xs) =
     (if \<not> live (mt_wp x) then scan_list live ptr xs
      else if ptr < mt_wp x then ([], x # xs)
      else (case scan_list live ptr xs of (k, r) \<Rightarrow> (x # k, r)))"

lemma scan_insertion_list:
  assumes "scan_list live ptr rest = (k, r)"
  shows "\<exists>gap'. scan_insertion live ptr (length kept) (length (kept @ gap)) (kept @ gap @ rest)
    = (kept @ k @ gap' @ r, length (kept @ k), length (kept @ k @ gap'))"
  using assms
proof (induction rest arbitrary: kept gap k)
  case Nil
  then show ?case by (subst scan_insertion.simps) auto
next
  case (Cons x xs)
  consider (dead) "\<not> live (mt_wp x)" | (stop) "live (mt_wp x)" "ptr < mt_wp x"
    | (keep) "live (mt_wp x)" "\<not> ptr < mt_wp x" by blast
  then show ?case
  proof cases
    case dead
    then have "scan_list live ptr xs = (k, r)" using Cons.prems by simp
    from Cons.IH [OF this, of kept "gap @ [x]"] dead show ?thesis
      by (subst scan_insertion.simps) (simp add: nth_append)
  next
    case stop
    then have "k = []" "r = x # xs" using Cons.prems by simp_all
    then show ?thesis using stop by (subst scan_insertion.simps) auto
  next
    case keep
    then obtain k' where k': "scan_list live ptr xs = (k', r)" "k = x # k'"
      using Cons.prems by (auto split: prod.splits)
    let ?gap = "tl (gap @ [x])"
    have v: "(kept @ gap @ x # xs)[length kept := x] = (kept @ [x]) @ ?gap @ xs"
      by (cases gap) (simp_all add: list_update_append)
    have l: "length ((kept @ [x]) @ ?gap) = Suc (length (kept @ gap))" by (cases gap) simp_all
    have "scan_insertion live ptr (length kept) (length (kept @ gap)) (kept @ gap @ x # xs)
        = scan_insertion live ptr (length (kept @ [x])) (length ((kept @ [x]) @ ?gap)) ((kept @ [x]) @ ?gap @ xs)"
      unfolding l v [symmetric] using keep by (subst scan_insertion.simps) (simp add: nth_append)
    with Cons.IH [OF k'(1), of "kept @ [x]" ?gap] k'(2) show ?thesis by simp
  qed
qed

lemma insert_metric_list:
  assumes "scan_list live ptr ms = (k, r)"
  shows "insert_metric live ptr t ms = (length k, k @ new_metric ptr t # r)"
proof -
  obtain gap where g: "scan_insertion live ptr 0 0 ms = (k @ gap @ r, length k, length (k @ gap))"
    using scan_insertion_list [OF assms, of "[]" "[]"] by auto
  show ?thesis
  proof (cases gap)
    case Nil
    with g show ?thesis by (simp add: insert_metric_def insert_at_pos_def insert_at_def)
  next
    case (Cons x g')
    then have "erase_range (Suc (length k)) (length (k @ gap)) ((k @ (x # g') @ r)[length k := new_metric ptr t])
        = k @ new_metric ptr t # r" by (intro erase_reuse) simp
    with g Cons show ?thesis by (simp add: insert_metric_def insert_at_pos_def)
  qed
qed

lemma scan_list_parts:
  assumes "ksorted mt_wp ms" and "\<not> has_key mt_wp ptr ms" and "scan_list live ptr ms = (k, r)"
  shows "ksorted mt_wp k \<and> ksorted mt_wp r \<and> (\<forall>x \<in> set k. mt_wp x < ptr) \<and> (\<forall>x \<in> set r. ptr < mt_wp x)
    \<and> set k \<union> set r \<subseteq> set ms \<and> (\<forall>x \<in> set ms. live (mt_wp x) \<longrightarrow> x \<in> set k \<union> set r)"
  using assms
proof (induction ms arbitrary: k)
  case Nil
  then show ?case by simp
next
  case (Cons x xs)
  have s: "ksorted mt_wp xs" "\<forall>y \<in> set xs. mt_wp x < mt_wp y" using Cons.prems(1) by (simp_all add: ksorted_Cons)
  have nk: "\<not> has_key mt_wp ptr xs" "mt_wp x \<noteq> ptr" using Cons.prems(2) by (auto simp: has_key_def)
  obtain k' r' where k': "scan_list live ptr xs = (k', r')" by fastforce
  consider (dead) "\<not> live (mt_wp x)" | (stop) "live (mt_wp x)" "ptr < mt_wp x"
    | (keep) "live (mt_wp x)" "\<not> ptr < mt_wp x" by blast
  then show ?case
  proof cases
    case dead
    with Cons.IH [OF s(1) nk(1)] Cons.prems(3) show ?thesis by auto
  next
    case stop
    then have "k = []" "r = x # xs" using Cons.prems(3) by simp_all
    then show ?thesis using stop(2) Cons.prems(1) s by (auto simp: ksorted_Cons intro: less_trans)
  next
    case keep
    then have "k = x # k'" "r = r'" using Cons.prems(3) k' by simp_all
    with keep Cons.IH [OF s(1) nk(1)] k' s(2) nk(2) show ?thesis by (auto simp: ksorted_Cons)
  qed
qed

lemma insert_metric_spec:
  assumes "ksorted mt_wp ms" and "\<not> has_key mt_wp ptr ms"
  shows "ksorted mt_wp (snd (insert_metric live ptr t ms))"
    and "kmap mt_wp (snd (insert_metric live ptr t ms)) ptr = Some (new_metric ptr t)"
    and "q \<noteq> ptr \<Longrightarrow> live q \<Longrightarrow> kmap mt_wp (snd (insert_metric live ptr t ms)) q = kmap mt_wp ms q"
proof -
  obtain k r where sc: "scan_list live ptr ms = (k, r)" by fastforce
  note parts = scan_list_parts [OF assms sc]
  have i: "snd (insert_metric live ptr t ms) = k @ new_metric ptr t # r"
    by (simp add: insert_metric_list [OF sc])
  show so: "ksorted mt_wp (snd (insert_metric live ptr t ms))"
    unfolding i using parts by (fastforce simp: ksorted_append ksorted_Cons new_metric_def)
  show "kmap mt_wp (snd (insert_metric live ptr t ms)) ptr = Some (new_metric ptr t)"
    by (rule kmap_Some_iff [OF so, THEN iffD2]) (simp add: i new_metric_def)
  show "kmap mt_wp (snd (insert_metric live ptr t ms)) q = kmap mt_wp ms q" if "q \<noteq> ptr" "live q"
  proof -
    have "kmap mt_wp (snd (insert_metric live ptr t ms)) q = Some x \<longleftrightarrow> kmap mt_wp ms q = Some x" for x
      unfolding i kmap_Some_iff [OF so [unfolded i]] kmap_Some_iff [OF assms(1)]
      using parts that by (auto simp: new_metric_def)
    then show ?thesis by (metis option.exhaust)
  qed
qed

lemma find_metric_hit:
  assumes "ksorted mt_wp ms" and "live ptr"
  shows "find_metric live ptr ms = length ms \<longleftrightarrow> \<not> has_key mt_wp ptr ms"
    and "find_metric live ptr ms < length ms \<Longrightarrow> kmap mt_wp ms ptr = Some (ms ! find_metric live ptr ms)"
proof -
  let ?i = "length (upto_key mt_wp ptr ms)"
  have f: "find_metric live ptr ms = (if key_hit mt_wp ptr ms ?i then ?i else length ms)"
    using assms length_upto_from [of mt_wp ptr ms]
    by (auto simp: find_metric_def Let_def lower_bound_upto key_hit_def)
  show "find_metric live ptr ms = length ms \<longleftrightarrow> \<not> has_key mt_wp ptr ms"
    unfolding f using key_hit_iff [OF assms(1), of ptr] by (auto simp: key_hit_def)
  show "kmap mt_wp ms ptr = Some (ms ! find_metric live ptr ms)" if "find_metric live ptr ms < length ms"
    using that unfolding f kmap_Some_iff [OF assms(1)] by (auto simp: key_hit_def split: if_splits)
qed

lemma kmap_update:
  assumes "ksorted mt_wp ms" and "i < length ms" and "mt_wp x = mt_wp (ms ! i)"
  shows "kmap mt_wp (ms[i := x]) = (kmap mt_wp ms)(mt_wp x \<mapsto> x)"
proof -
  have so': "ksorted mt_wp (ms[i := x])" using assms by (simp add: ksorted_update)
  have d: "distinct ms" using ksorted_distinct [OF assms(1)] by (simp add: distinct_map)
  have "set (ms[i := x]) = insert x (set ms - {ms ! i})" using set_update_distinct [OF d assms(2)] .
  then show ?thesis
    using assms ksorted_inj [OF assms(1), of _ "ms ! i"]
    by (intro kmap_ext [OF so']) (auto simp: kmap_Some_iff [OF assms(1)])
qed

section \<open>The contract\<close>

text \<open>Recording an event of a live stream; \<open>last_event\<close> is the time of the last one recorded.\<close>

locale measurement_table =
  fixes record_event :: "(owner \<Rightarrow> bool) \<Rightarrow> owner \<Rightarrow> int \<Rightarrow> metric list \<Rightarrow> int \<times> metric list"
    and last_event :: "metric \<Rightarrow> int"
  assumes record_sorted: "ksorted mt_wp ms \<Longrightarrow> ksorted mt_wp (snd (record_event live ptr t ms))"
    and record_dead: "\<not> live ptr \<Longrightarrow> record_event live ptr t ms = (- 1, ms)"
    and record_own: "ksorted mt_wp ms \<Longrightarrow> live ptr \<Longrightarrow>
      \<exists>x. kmap mt_wp (snd (record_event live ptr t ms)) ptr = Some x \<and> last_event x = t"
    and record_others: "ksorted mt_wp ms \<Longrightarrow> q \<noteq> ptr \<Longrightarrow> live q \<Longrightarrow>
      kmap mt_wp (snd (record_event live ptr t ms)) q = kmap mt_wp ms q"
begin

text \<open>A sequence of events of other streams leaves a stream's measurements alone.\<close>

lemma records_others:
  assumes "ksorted mt_wp ms" and "live q" and "\<forall>(p, t) \<in> set es. p \<noteq> q"
  shows "ksorted mt_wp (fold (\<lambda>(p, t) ms. snd (record_event live p t ms)) es ms)
    \<and> kmap mt_wp (fold (\<lambda>(p, t) ms. snd (record_event live p t ms)) es ms) q = kmap mt_wp ms q"
  using assms by (induction es arbitrary: ms) (auto simp: record_sorted record_others)

end

lemma metric_hit_update:
  assumes "ksorted mt_wp ms" and "live ptr" and "find_metric live ptr ms < length ms"
    and "mt_wp x = mt_wp (ms ! find_metric live ptr ms)"
  shows "ksorted mt_wp (ms[find_metric live ptr ms := x])
    \<and> kmap mt_wp (ms[find_metric live ptr ms := x]) = (kmap mt_wp ms)(ptr \<mapsto> x)"
proof -
  have "mt_wp (ms ! find_metric live ptr ms) = ptr"
    using find_metric_hit(2) [OF assms(1-3)] by (simp add: kmap_Some_iff [OF assms(1)])
  with assms show ?thesis by (simp add: ksorted_update kmap_update)
qed

lemma find_metric_le: "ksorted mt_wp ms \<Longrightarrow> live ptr \<Longrightarrow> has_key mt_wp ptr ms \<Longrightarrow> find_metric live ptr ms < length ms"
  using length_upto_from [of mt_wp ptr ms] find_metric_hit(1) [of ms live ptr]
  by (auto simp: find_metric_def Let_def lower_bound_upto split: if_splits)

interpretation arr: measurement_table add_arrival mt_last_arrival
proof
  fix ms :: "metric list" and live :: "owner \<Rightarrow> bool" and ptr q :: owner and t :: int
  show "\<not> live ptr \<Longrightarrow> add_arrival live ptr t ms = (- 1, ms)" by (simp add: add_arrival_def)
  assume so: "ksorted mt_wp ms"
  note ins = insert_metric_spec [OF so] and hit = metric_hit_update [OF so] and le = find_metric_le [OF so]
    and end_iff = find_metric_hit(1) [OF so]
  show "ksorted mt_wp (snd (add_arrival live ptr t ms))"
    using so ins(1) hit le end_iff by (auto simp: add_arrival_def Let_def)
  show "\<exists>x. kmap mt_wp (snd (add_arrival live ptr t ms)) ptr = Some x \<and> mt_last_arrival x = t" if "live ptr"
    using that ins(2) hit le end_iff by (auto simp: add_arrival_def Let_def new_metric_def)
  show "kmap mt_wp (snd (add_arrival live ptr t ms)) q = kmap mt_wp ms q" if "q \<noteq> ptr" "live q"
    using that ins(3) hit le end_iff by (auto simp: add_arrival_def Let_def)
qed

interpretation compl: measurement_table add_completion mt_last_completion
proof
  fix ms :: "metric list" and live :: "owner \<Rightarrow> bool" and ptr q :: owner and t :: int
  show "\<not> live ptr \<Longrightarrow> add_completion live ptr t ms = (- 1, ms)" by (simp add: add_completion_def)
  assume so: "ksorted mt_wp ms"
  note ins = insert_metric_spec [OF so] and hit = metric_hit_update [OF so] and le = find_metric_le [OF so]
    and end_iff = find_metric_hit(1) [OF so]
  show "ksorted mt_wp (snd (add_completion live ptr t ms))"
    using so ins(1) hit le end_iff by (auto simp: add_completion_def Let_def)
  show "\<exists>x. kmap mt_wp (snd (add_completion live ptr t ms)) ptr = Some x \<and> mt_last_completion x = t" if "live ptr"
    using that ins(2) hit le end_iff by (auto simp: add_completion_def Let_def new_metric_def)
  show "kmap mt_wp (snd (add_completion live ptr t ms)) q = kmap mt_wp ms q" if "q \<noteq> ptr" "live q"
    using that ins(3) hit le end_iff by (auto simp: add_completion_def Let_def)
qed

section \<open>The registry\<close>

lemma make_node_sorted:
  assumes "ksorted fst nodes"
  shows "ksorted fst (snd (make_node tid nodes))"
    and "map_of (snd (make_node tid nodes)) = (map_of nodes)(tid \<mapsto> fst (make_node tid nodes))"
proof -
  have km: "map_of ns = (\<lambda>q. map_option snd (kmap fst ns q))" for ns :: node_registry
    by (rule ext) (induction ns; auto simp: kmap_def)
  have "ksorted fst (snd (make_node tid nodes))
    \<and> map_of (snd (make_node tid nodes)) = (map_of nodes)(tid \<mapsto> fst (make_node tid nodes))"
  proof (cases "map_of nodes tid")
    case (Some n)
    then show ?thesis using assms by (auto simp: make_node_def)
  next
    case None
    then have nk: "\<not> has_key fst tid nodes" by (auto simp: has_key_def map_of_eq_None_iff)
    let ?ns = "insert_at (length (upto_key fst tid nodes)) (tid, empty_node) nodes"
    have so: "ksorted fst ?ns" using ksorted_insert [OF assms nk, of "(tid, empty_node)"] by simp
    have "map_of ?ns = (map_of nodes)(tid \<mapsto> empty_node)"
    proof
      fix q
      have "map_of ?ns q = Some n \<longleftrightarrow> ((map_of nodes)(tid \<mapsto> empty_node)) q = Some n" for n
        using ksorted_distinct [OF so] ksorted_distinct [OF assms] nk
        by (auto simp: map_of_eq_Some_iff has_key_def image_iff)
      then show "map_of ?ns q = ((map_of nodes)(tid \<mapsto> empty_node)) q" by (metis option.exhaust)
    qed
    with None so show ?thesis by (simp add: make_node_def lower_bound_upto [OF assms])
  qed
  then show "ksorted fst (snd (make_node tid nodes))"
    and "map_of (snd (make_node tid nodes)) = (map_of nodes)(tid \<mapsto> fst (make_node tid nodes))" by simp_all
qed

lemma node_update_spec:
  assumes "ksorted fst nodes"
  shows "ksorted fst (node_update f tid nodes)
    \<and> map_of (node_update f tid nodes) = (map_of nodes)(tid \<mapsto> f (fst (make_node tid nodes)))"
proof -
  have "map_of (map (\<lambda>(t, n). if t = tid then (t, f n) else (t, n)) ns) q
      = (if q = tid then map_option f (map_of ns q) else map_of ns q)" for ns :: node_registry and q
    by (induction ns) auto
  moreover have "ksorted fst (map (\<lambda>(t, n). if t = tid then (t, f n) else (t, n)) ns) = ksorted fst ns"
    for ns :: node_registry by (rule ksorted_map) (auto split: prod.split)
  ultimately show ?thesis
    using make_node_sorted [OF assms, of tid] by (auto simp: node_update_def)
qed

section \<open>Properties\<close>



text \<open>recording an arrival or a completion of a stream keeps the measurements ordered with one
  entry per stream, notes the time of the event for that stream, and leaves the measurements of
  every other live stream as they were; an expired stream is not recorded.\<close>

theorem metrics_isolated:
  assumes "ksorted mt_wp ms"
  shows "ksorted mt_wp (snd (add_arrival live ptr t ms)) \<and> ksorted mt_wp (snd (add_completion live ptr t ms))
    \<and> (live ptr \<longrightarrow> (\<exists>x. kmap mt_wp (snd (add_arrival live ptr t ms)) ptr = Some x \<and> mt_last_arrival x = t)
        \<and> (\<exists>x. kmap mt_wp (snd (add_completion live ptr t ms)) ptr = Some x \<and> mt_last_completion x = t))
    \<and> (\<not> live ptr \<longrightarrow> add_arrival live ptr t ms = (- 1, ms) \<and> add_completion live ptr t ms = (- 1, ms))
    \<and> (\<forall>q. q \<noteq> ptr \<longrightarrow> live q \<longrightarrow> kmap mt_wp (snd (add_arrival live ptr t ms)) q = kmap mt_wp ms q
        \<and> kmap mt_wp (snd (add_completion live ptr t ms)) q = kmap mt_wp ms q)"
proof (intro conjI allI impI)
  show "ksorted mt_wp (snd (add_arrival live ptr t ms))" "ksorted mt_wp (snd (add_completion live ptr t ms))"
    by (fact arr.record_sorted [OF assms] compl.record_sorted [OF assms])+
next
  assume l: "live ptr"
  show "\<exists>x. kmap mt_wp (snd (add_arrival live ptr t ms)) ptr = Some x \<and> mt_last_arrival x = t"
    "\<exists>x. kmap mt_wp (snd (add_completion live ptr t ms)) ptr = Some x \<and> mt_last_completion x = t"
    by (fact arr.record_own [where live = live, OF assms l] compl.record_own [where live = live, OF assms l])+
next
  assume "\<not> live ptr"
  then show "add_arrival live ptr t ms = (- 1, ms)" "add_completion live ptr t ms = (- 1, ms)"
    by (simp_all add: arr.record_dead compl.record_dead)
next
  fix q
  assume "q \<noteq> ptr" "live q"
  then show "kmap mt_wp (snd (add_arrival live ptr t ms)) q = kmap mt_wp ms q"
    "kmap mt_wp (snd (add_completion live ptr t ms)) q = kmap mt_wp ms q"
    by (simp_all add: arr.record_others [OF assms] compl.record_others [OF assms])
qed

theorem metrics_isolated_witness:
  "kmap mt_wp (snd (add_arrival (\<lambda>q. q \<noteq> 2) 5 100 [new_metric 1 7, new_metric 2 8, new_metric 9 9])) 9
     = Some (new_metric 9 9)"
proof -
  have "ksorted mt_wp [new_metric 1 7, new_metric 2 8, new_metric 9 9]"
    by (simp add: ksorted_def new_metric_def)
  from metrics_isolated [OF this, of "\<lambda>q. q \<noteq> 2" 5 100] show ?thesis
    by (auto simp: kmap_def new_metric_def)
qed

text \<open>the registry keeps one node per thread: counting an arrival increments the counter of its
  thread (from 0 when the node is new, modulo 2^64) and leaves every other node alone, and
  erasing a node removes exactly that one.\<close>

theorem registry_per_thread:
  assumes "ksorted fst nodes"
  shows "map_of (count_arrival tid nodes) = (map_of nodes)(tid \<mapsto>
      (case map_of nodes tid of None \<Rightarrow> empty_node\<lparr>nm_arrivals := 1\<rparr>
       | Some n \<Rightarrow> n\<lparr>nm_arrivals := nm_arrivals n + 1\<rparr>))
    \<and> ksorted fst (count_arrival tid nodes)
    \<and> map_of (erase_node tid nodes) = (map_of nodes)(tid := None)
    \<and> ksorted fst (erase_node tid nodes)"
proof -
  have "map_of (erase_node tid ns) = (map_of ns)(tid := None)" for ns
    by (rule ext) (induction ns; auto simp: erase_node_def)
  with node_update_spec [OF assms] assms show ?thesis
    by (auto simp: count_arrival_def make_node_def erase_node_def empty_node_def ksorted_filter split: option.split)
qed

theorem registry_per_thread_witness:
  "map_of (count_arrival 4 [(4, empty_node\<lparr>nm_arrivals := 2\<rparr>)]) 4 = Some (empty_node\<lparr>nm_arrivals := 3\<rparr>)"
  using registry_per_thread [of "[(4, empty_node\<lparr>nm_arrivals := 2\<rparr>)]" 4]
  by (simp add: ksorted_def)

end
