(* ===== verification/Interfaces.thy ===== *)
theory Interfaces
  imports Bus_Prelude
begin

text \<open>
  Interfaces (\<^verbatim>\<open>src/interfaces/interfaces.hpp\<close>, \<^verbatim>\<open>interfaces.cpp\<close>): the addresses of a service with their
  time-to-live, weight and priority, the streams open to it (ordered by owner) and the connect
  callbacks waiting for an address. A callback is an element of a type \<open>'cb\<close>; what it does to the
  interface and to the rest of the program is an argument of \<open>resolve_callbacks\<close>. Times are seconds.
  Shown: address selection always returns, picks only addresses of the best priority, and in each
  round picks every one of them exactly as often as its weight says; the stream table stays
  ordered, with what was made found and what was erased gone.
\<close>

section \<open>Data\<close>

record address =
  ad_addr :: "byte list"
  ad_len :: nat
  ad_time :: int
  ad_ttl :: int
  ad_max :: nat
  ad_count :: nat
  ad_prio :: nat

type_synonym handle = "owner \<times> fd"

record 'cb iface =
  if_uri :: string
  if_protocol :: string
  if_addresses :: "address list"
  if_streams :: "handle list"
  if_pending :: "(owner \<times> 'cb) list"
  if_idx :: nat
  if_total :: nat
  if_prio :: nat
  if_options :: "(string \<times> string) list"

abbreviation (input) SIZE_MAX :: nat where "SIZE_MAX \<equiv> 18446744073709551615"

definition NULLADDR :: address where
  "NULLADDR = \<lparr>ad_addr = replicate 128 0, ad_len = 0, ad_time = 0, ad_ttl = 0,
     ad_max = 0, ad_count = 0, ad_prio = 0\<rparr>"

text \<open>\<^verbatim>\<open>make_address\<close>: the address is copied into a zeroed \<^verbatim>\<open>sockaddr_storage\<close> (128 bytes).\<close>

definition make_address :: "byte list \<Rightarrow> nat \<Rightarrow> int \<times> int \<Rightarrow> nat \<times> nat \<times> nat \<Rightarrow> address" where
  "make_address addr addrlen ttl weight =
     \<lparr>ad_addr = take addrlen addr @ replicate (128 - addrlen) 0, ad_len = addrlen,
      ad_time = fst ttl, ad_ttl = snd ttl,
      ad_max = fst weight, ad_count = fst (snd weight), ad_prio = snd (snd weight)\<rparr>"

definition iface_make :: "address list \<Rightarrow> string \<Rightarrow> string \<Rightarrow> 'cb iface" where
  "iface_make addrs protocol uri =
     \<lparr>if_uri = uri, if_protocol = protocol, if_addresses = addrs, if_streams = [], if_pending = [],
      if_idx = 0, if_total = 0, if_prio = SIZE_MAX, if_options = []\<rparr>"

text \<open>\<^verbatim>\<open>swap\<close> and the move operations, which swap with a new interface or with the old value.\<close>

definition iface_swap :: "'cb iface \<Rightarrow> 'cb iface \<Rightarrow> 'cb iface \<times> 'cb iface" where
  "iface_swap lhs rhs =
     (lhs\<lparr>if_uri := if_uri rhs, if_protocol := if_protocol rhs, if_addresses := if_addresses rhs, if_streams := if_streams rhs,
          if_pending := if_pending rhs, if_idx := if_idx rhs, if_total := if_total rhs, if_prio := if_prio rhs, if_options := if_options rhs\<rparr>,
      rhs\<lparr>if_uri := if_uri lhs, if_protocol := if_protocol lhs, if_addresses := if_addresses lhs, if_streams := if_streams lhs,
          if_pending := if_pending lhs, if_idx := if_idx lhs, if_total := if_total lhs, if_prio := if_prio lhs, if_options := if_options lhs\<rparr>)"

definition iface_move :: "'cb iface \<Rightarrow> 'cb iface \<times> 'cb iface" where
  "iface_move other = iface_swap (iface_make [] [] []) other"

text \<open>The constructor from a socket address refuses one shorter than the family field (\<open>None\<close>).\<close>

definition iface_of_sockaddr :: "int \<Rightarrow> byte list option \<Rightarrow> nat \<Rightarrow> string \<Rightarrow> string \<Rightarrow> int \<Rightarrow> 'cb iface option" where
  "iface_of_sockaddr now addr addrlen protocol uri ttl =
     (case addr of
        Some a \<Rightarrow> (if 2 \<le> addrlen
          then Some (iface_make [make_address a addrlen (now, ttl) (1, 0, SIZE_MAX)] protocol uri)
          else None)
      | None \<Rightarrow> None)"

text \<open>moving an interface loses nothing of it and leaves an interface without streams and waiting connects.\<close>

theorem iface_move_transfers: "iface_move f = (f, iface_make [] [] [])" "iface_swap f g = (g, f)"
  by (simp_all add: iface_move_def iface_swap_def)

section \<open>Names\<close>

definition to_lower :: "char \<Rightarrow> char" where
  "to_lower c = (if 65 \<le> (of_char c :: nat) \<and> (of_char c :: nat) \<le> 90 then char_of ((of_char c :: nat) + 32) else c)"

definition is_digit :: "char \<Rightarrow> bool" where
  "is_digit c \<longleftrightarrow> 48 \<le> (of_char c :: nat) \<and> (of_char c :: nat) \<le> 57"

definition uri_scheme :: "string \<Rightarrow> string" where
  "uri_scheme uri = map to_lower (takeWhile (\<lambda>c. c \<noteq> CHR '':'') uri)"

definition uri_nid :: "string \<Rightarrow> string" where
  "uri_nid uri = (if uri_scheme uri = ''urn''
     then map to_lower (takeWhile (\<lambda>c. c \<noteq> CHR '':'') (drop 4 uri)) else [])"

text \<open>\<^verbatim>\<open>port_\<close>: the text after the first colon when it consists of digits only, otherwise empty.\<close>

definition uri_port :: "string \<Rightarrow> string" where
  "uri_port uri =
     (case dropWhile (\<lambda>c. c \<noteq> CHR '':'') uri of
        [] \<Rightarrow> []
      | c # start \<Rightarrow> (if start = [] then [] else if dropWhile is_digit start = [] then start else []))"

definition uri_host :: "string \<Rightarrow> string" where
  "uri_host uri = (if uri_port uri = [] then []
     else map to_lower (take (length uri - length (uri_port uri) - 1) uri))"

section \<open>Weights\<close>

text \<open>The loop of \<^verbatim>\<open>find_weights\<close>: total weight, best priority and the positions that have it.\<close>

fun weights_loop :: "address list \<Rightarrow> nat \<Rightarrow> nat \<times> nat \<times> nat list \<Rightarrow> nat \<times> nat \<times> nat list" where
  "weights_loop [] i s = s"
| "weights_loop (a # as) i (weight, prio, its) =
     (let (weight1, prio1, its1) = (if ad_prio a < prio then (0, ad_prio a, []) else (weight, prio, its));
          s = (if ad_prio a = prio1 then (weight1 + ad_max a, prio1, its1 @ [i]) else (weight1, prio1, its1))
      in weights_loop as (Suc i) s)"

definition find_weights :: "address list \<Rightarrow> nat \<times> nat \<times> address list" where
  "find_weights addrs =
     (case weights_loop addrs 0 (0, SIZE_MAX, []) of (weight, prio, its) \<Rightarrow>
        if weight = 0
        then (length its, prio, fold (\<lambda>i as. as[i := (as ! i)\<lparr>ad_max := 1\<rparr>]) its addrs)
        else (weight, prio, addrs))"

definition reweigh :: "'cb iface \<Rightarrow> 'cb iface" where
  "reweigh f = (case find_weights (if_addresses f) of (weight, prio, addrs) \<Rightarrow>
     f\<lparr>if_addresses := addrs, if_total := weight, if_prio := prio\<rparr>)"

definition expired :: "int \<Rightarrow> address \<Rightarrow> bool" where
  "expired t a \<longleftrightarrow> (ad_ttl a > - 1 \<and> t > ad_time a + ad_ttl a) \<or> ad_max a = 0"

definition expire_addresses :: "int \<Rightarrow> 'cb iface \<Rightarrow> nat \<times> 'cb iface" where
  "expire_addresses t f =
     (let f1 = f\<lparr>if_addresses := filter (\<lambda>a. \<not> expired t a) (if_addresses f)\<rparr>;
          f2 = reweigh f1;
          f3 = (if if_addresses f2 = [] \<and>
                   (uri_scheme (if_uri f2) = ''srv'' \<or> uri_scheme (if_uri f2) = ''naptr'' \<or> uri_scheme (if_uri f2) = ''urn'')
                then f2\<lparr>if_protocol := []\<rparr> else f2)
      in (length (if_addresses f3), f3))"

section \<open>Selecting an address\<close>

definition clear_counters :: "address list \<Rightarrow> address list" where
  "clear_counters addrs = map (\<lambda>a. a\<lparr>ad_count := 0\<rparr>) addrs"

text \<open>
  The loop of \<^verbatim>\<open>next\<close>: \<open>Some (Some i, f)\<close> returns the address at \<open>i\<close>, \<open>Some (None, f)\<close> leaves the loop,
  \<open>None\<close> never returns.
\<close>

partial_function (option) next_loop :: "nat \<Rightarrow> 'cb iface \<Rightarrow> (nat option \<times> 'cb iface) option" where
  "next_loop seen f =
     (if seen < if_total f then
        (let i = (if_idx f + 1) mod length (if_addresses f); a = if_addresses f ! i; f1 = f\<lparr>if_idx := i\<rparr> in
         if ad_prio a = if_prio f then
           (if ad_count a < ad_max a
            then Some (Some i, f1\<lparr>if_addresses := (if_addresses f)[i := a\<lparr>ad_count := ad_count a + 1\<rparr>]\<rparr>)
            else next_loop (seen + ad_count a) f1)
         else next_loop seen f1)
      else Some (None, f))"

partial_function (option) next_addr :: "'cb iface \<Rightarrow> (address \<times> 'cb iface) option" where
  "next_addr f =
     (if if_addresses f = [] then Some (NULLADDR, f)
      else Option.bind (next_loop 0 f) (\<lambda>(r, f').
        case r of Some i \<Rightarrow> Some (if_addresses f' ! i, f')
        | None \<Rightarrow> next_addr (f'\<lparr>if_addresses := clear_counters (if_addresses f')\<rparr>)))"

section \<open>The stream table\<close>

definition iface_insert :: "handle \<Rightarrow> 'cb iface \<Rightarrow> nat \<times> 'cb iface" where
  "iface_insert hnd f =
     (let ub = upper_bound (\<lambda>x. fst hnd < fst x) (if_streams f)
      in (ub, f\<lparr>if_streams := insert_at ub hnd (if_streams f)\<rparr>))"

definition iface_erase_at :: "nat \<Rightarrow> 'cb iface \<Rightarrow> 'cb iface" where
  "iface_erase_at i f = f\<lparr>if_streams := erase_at i (if_streams f)\<rparr>"

definition iface_erase :: "handle \<Rightarrow> 'cb iface \<Rightarrow> 'cb iface" where
  "iface_erase hnd f =
     (let i = lower_bound (\<lambda>x. fst x < fst hnd) (if_streams f) in
      if key_hit fst (fst hnd) (if_streams f) i then iface_erase_at i f else f)"

section \<open>Pending connects\<close>

text \<open>
  One pending callback after the other: \<open>live\<close> tests a weak pointer, \<open>run\<close> calls a callback on the
  handle at an index with the address (\<open>None\<close> for a null pointer) and its length.
\<close>

fun run_pending ::
  "('s \<Rightarrow> owner \<Rightarrow> bool) \<Rightarrow>
   ('cb \<Rightarrow> nat \<Rightarrow> byte list option \<Rightarrow> nat \<Rightarrow> string \<Rightarrow> 'cb iface \<Rightarrow> 's \<Rightarrow> 'cb iface \<times> 's) \<Rightarrow>
   (owner \<times> 'cb) list \<Rightarrow> 'cb iface \<Rightarrow> 's \<Rightarrow> ('cb iface \<times> 's) option" where
  "run_pending live run [] f s = Some (f, s)"
| "run_pending live run ((wp, cb) # ps) f s =
     (if \<not> live s wp then run_pending live run ps f s
      else Option.bind (next_addr f) (\<lambda>(a, f1).
        let addrp = (if ad_len a \<noteq> 4294967295 then Some (ad_addr a) else None);
            i = length (takeWhile (\<lambda>h. fst h \<noteq> wp) (if_streams f1)) in
        if i < length (if_streams f1)
        then (case run cb i addrp (ad_len a) (if_protocol f1) f1 s of (f2, s2) \<Rightarrow>
                run_pending live run ps f2 s2)
        else run_pending live run ps f1 s))"

abbreviation (input) HYST_WND :: int where "HYST_WND \<equiv> 300"

definition resolve_callbacks ::
  "('s \<Rightarrow> owner \<Rightarrow> bool) \<Rightarrow>
   ('cb \<Rightarrow> nat \<Rightarrow> byte list option \<Rightarrow> nat \<Rightarrow> string \<Rightarrow> 'cb iface \<Rightarrow> 's \<Rightarrow> 'cb iface \<times> 's) \<Rightarrow>
   int \<Rightarrow> 'cb iface \<Rightarrow> 's \<Rightarrow> ('cb iface \<times> 's) option" where
  "resolve_callbacks live run now f s =
     (case expire_addresses (now - HYST_WND) f of (n, f1) \<Rightarrow>
        if n = 0 then Some (f1, s)
        else Option.bind (run_pending live run (if_pending f1) (f1\<lparr>if_pending := []\<rparr>) s)
               (\<lambda>(f2, s2). Some (snd (expire_addresses now f2), s2)))"

definition set_addresses ::
  "('s \<Rightarrow> owner \<Rightarrow> bool) \<Rightarrow>
   ('cb \<Rightarrow> nat \<Rightarrow> byte list option \<Rightarrow> nat \<Rightarrow> string \<Rightarrow> 'cb iface \<Rightarrow> 's \<Rightarrow> 'cb iface \<times> 's) \<Rightarrow>
   int \<Rightarrow> address list \<Rightarrow> 'cb iface \<Rightarrow> 's \<Rightarrow> ('cb iface \<times> 's) option" where
  "set_addresses live run now addrs f s =
     resolve_callbacks live run now (reweigh (f\<lparr>if_addresses := addrs\<rparr>)) s"

definition register_connect ::
  "('s \<Rightarrow> owner \<Rightarrow> bool) \<Rightarrow>
   ('cb \<Rightarrow> nat \<Rightarrow> byte list option \<Rightarrow> nat \<Rightarrow> string \<Rightarrow> 'cb iface \<Rightarrow> 's \<Rightarrow> 'cb iface \<times> 's) \<Rightarrow>
   int \<Rightarrow> owner \<Rightarrow> 'cb \<Rightarrow> 'cb iface \<Rightarrow> 's \<Rightarrow> ('cb iface \<times> 's) option" where
  "register_connect live run now ptr cb f s =
     resolve_callbacks live run now (f\<lparr>if_pending := if_pending f @ [(ptr, cb)]\<rparr>) s"

section \<open>Selection returns\<close>

definition best :: "'cb iface \<Rightarrow> nat \<Rightarrow> bool" where
  "best f i \<longleftrightarrow> i < length (if_addresses f) \<and> ad_prio (if_addresses f ! i) = if_prio f"

definition avail :: "'cb iface \<Rightarrow> nat \<Rightarrow> bool" where
  "avail f i \<longleftrightarrow> best f i \<and> ad_count (if_addresses f ! i) < ad_max (if_addresses f ! i)"

text \<open>The selection state after the weights have been computed.\<close>

definition sel_inv :: "'cb iface \<Rightarrow> bool" where
  "sel_inv f \<longleftrightarrow> if_addresses f \<noteq> [] \<and> 0 < if_total f
     \<and> if_total f = (\<Sum>i \<in> Collect (best f). ad_max (if_addresses f ! i))
     \<and> (\<forall>i < length (if_addresses f). ad_count (if_addresses f ! i) \<le> ad_max (if_addresses f ! i))"

definition pos :: "'cb iface \<Rightarrow> nat \<Rightarrow> nat" where
  "pos f j = (if_idx f + 1 + j) mod length (if_addresses f)"

definition spent :: "'cb iface \<Rightarrow> nat \<Rightarrow> nat" where
  "spent f i = (if best f i then ad_count (if_addresses f ! i) else 0)"

lemma best_idx [simp]: "best (f\<lparr>if_idx := k\<rparr>) = best f" "avail (f\<lparr>if_idx := k\<rparr>) = avail f"
  "spent (f\<lparr>if_idx := k\<rparr>) = spent f"
  by (auto simp: best_def avail_def spent_def)

lemma pos_less: "if_addresses f \<noteq> [] \<Longrightarrow> pos f j < length (if_addresses f)"
  by (simp add: pos_def)

lemma pos_step: "pos (f\<lparr>if_idx := pos f 0\<rparr>) j = pos f (Suc j)"
proof -
  have "((if_idx f + 1) mod length (if_addresses f) + (1 + j)) mod length (if_addresses f)
      = (if_idx f + 1 + (1 + j)) mod length (if_addresses f)" by (rule mod_add_left_eq)
  then show ?thesis by (simp add: pos_def)
qed

lemma next_loop_step:
  assumes "if_addresses f \<noteq> []" and "seen < if_total f" and "\<not> avail f (pos f 0)"
  shows "next_loop seen f = next_loop (seen + spent f (pos f 0)) (f\<lparr>if_idx := pos f 0\<rparr>)"
  using assms pos_less [OF assms(1), of 0]
  by (subst next_loop.simps) (auto simp: avail_def best_def spent_def pos_def Let_def)

lemma next_loop_found:
  assumes "if_addresses f \<noteq> []" and "avail f (pos f k)" and "\<forall>j < k. \<not> avail f (pos f j)"
    and "seen + (\<Sum>j < k. spent f (pos f j)) < if_total f"
  shows "next_loop seen f = Some (Some (pos f k), f\<lparr>if_idx := pos f k, if_addresses :=
    (if_addresses f)[pos f k := (if_addresses f ! pos f k)\<lparr>ad_count := ad_count (if_addresses f ! pos f k) + 1\<rparr>]\<rparr>)"
  using assms
proof (induction k arbitrary: f seen)
  case 0
  then show ?case by (subst next_loop.simps) (simp add: avail_def best_def pos_def Let_def)
next
  case (Suc k)
  let ?f = "f\<lparr>if_idx := pos f 0\<rparr>"
  have sum: "(\<Sum>j < Suc k. spent f (pos f j)) = spent f (pos f 0) + (\<Sum>j < k. spent ?f (pos ?f j))"
    by (subst sum.lessThan_Suc_shift) (simp add: pos_step)
  have "next_loop seen f = next_loop (seen + spent f (pos f 0)) ?f"
    using Suc.prems sum by (intro next_loop_step) auto
  also have "\<dots> = Some (Some (pos ?f k), ?f\<lparr>if_idx := pos ?f k, if_addresses :=
    (if_addresses ?f)[pos ?f k := (if_addresses ?f ! pos ?f k)\<lparr>ad_count := ad_count (if_addresses ?f ! pos ?f k) + 1\<rparr>]\<rparr>)"
    using Suc.prems sum by (intro Suc.IH) (auto simp: pos_step)
  finally show ?case by (simp add: pos_step)
qed

lemma next_loop_none:
  assumes "if_addresses f \<noteq> []" and "\<forall>i. \<not> avail f i"
    and "if_total f \<le> seen + (\<Sum>j < k. spent f (pos f j))"
  shows "\<exists>i. next_loop seen f = Some (None, f\<lparr>if_idx := i\<rparr>)"
  using assms
proof (induction k arbitrary: f seen)
  case 0
  then have "next_loop seen f = Some (None, f\<lparr>if_idx := if_idx f\<rparr>)" by (subst next_loop.simps) simp
  then show ?case by blast
next
  case (Suc k)
  let ?f = "f\<lparr>if_idx := pos f 0\<rparr>"
  show ?case
  proof (cases "seen < if_total f")
    case True
    have "next_loop seen f = next_loop (seen + spent f (pos f 0)) ?f"
      using Suc.prems True by (intro next_loop_step) auto
    moreover have "\<exists>i. next_loop (seen + spent f (pos f 0)) ?f = Some (None, ?f\<lparr>if_idx := i\<rparr>)"
      using Suc.prems unfolding sum.lessThan_Suc_shift by (intro Suc.IH) (auto simp: pos_step)
    ultimately show ?thesis by simp
  next
    case False
    then have "next_loop seen f = Some (None, f\<lparr>if_idx := if_idx f\<rparr>)" by (subst next_loop.simps) simp
    then show ?thesis by blast
  qed
qed

text \<open>One turn of the index visits every position once.\<close>

lemma mod_shift_inj:
  assumes "(a + i) mod n = (a + j) mod n" and "i \<le> j" and "j < (n :: nat)"
  shows "i = j"
proof -
  have "n dvd (a + j) - (a + i)" using assms(1,2) mod_eq_dvd_iff_nat [of "a + i" "a + j" n] by simp
  then have "n dvd j - i" by simp
  moreover have "j - i < n" using assms(3) by simp
  ultimately have "j - i = 0" using nat_dvd_not_less by blast
  with assms(2) show ?thesis by simp
qed

lemma pos_inj: "inj_on (pos f) {..<length (if_addresses f)}"
proof (rule inj_onI)
  fix i j
  assume "i \<in> {..<length (if_addresses f)}" "j \<in> {..<length (if_addresses f)}" "pos f i = pos f j"
  then show "i = j"
    using mod_shift_inj [of "if_idx f + 1" i "length (if_addresses f)" j]
      mod_shift_inj [of "if_idx f + 1" j "length (if_addresses f)" i]
    by (cases "i \<le> j") (auto simp: pos_def)
qed

lemma pos_image: "if_addresses f \<noteq> [] \<Longrightarrow> pos f ` {..<length (if_addresses f)} = {..<length (if_addresses f)}"
  using pos_inj [of f] by (intro endo_inj_surj) (auto simp: pos_less)

lemma finite_best [simp]: "finite (Collect (best f))"
  by (rule finite_subset [of _ "{..<length (if_addresses f)}"]) (auto simp: best_def)

lemma spent_turn:
  assumes "if_addresses f \<noteq> []"
  shows "(\<Sum>j < length (if_addresses f). spent f (pos f j)) = (\<Sum>i \<in> Collect (best f). ad_count (if_addresses f ! i))"
proof -
  have "(\<Sum>j < length (if_addresses f). spent f (pos f j)) = (\<Sum>i < length (if_addresses f). spent f i)"
    using sum.reindex [OF pos_inj [of f], of "spent f"] by (simp add: pos_image [OF assms])
  also have "\<dots> = (\<Sum>i \<in> Collect (best f). spent f i)"
    by (rule sum.mono_neutral_right) (auto simp: best_def spent_def)
  also have "\<dots> = (\<Sum>i \<in> Collect (best f). ad_count (if_addresses f ! i))"
    by (rule sum.cong) (auto simp: spent_def)
  finally show ?thesis .
qed

text \<open>The weight seen before the first available address is below the total.\<close>

lemma spent_before:
  assumes inv: "sel_inv f" and k: "k < length (if_addresses f)" "avail f (pos f k)"
  shows "(\<Sum>j < k. spent f (pos f j)) < if_total f"
proof -
  let ?m = "\<lambda>i. ad_max (if_addresses f ! i)"
  have ne: "if_addresses f \<noteq> []" and cm: "\<forall>i < length (if_addresses f). ad_count (if_addresses f ! i) \<le> ?m i"
    using inv by (auto simp: sel_inv_def)
  have inj: "inj_on (pos f) {..<k}" using pos_inj [of f] k(1) by (auto intro: inj_on_subset)
  have nk: "pos f k \<notin> pos f ` {..<k}" using pos_inj [of f] k(1) by (auto dest: inj_onD)
  have "(\<Sum>j < k. spent f (pos f j)) = (\<Sum>i \<in> pos f ` {..<k}. spent f i)"
    using sum.reindex [OF inj, of "spent f"] by simp
  also have "\<dots> \<le> (\<Sum>i \<in> pos f ` {..<k} \<inter> Collect (best f). ?m i)"
  proof -
    have "(\<Sum>i \<in> pos f ` {..<k}. spent f i) = (\<Sum>i \<in> pos f ` {..<k} \<inter> Collect (best f). spent f i)"
      by (rule sum.mono_neutral_right) (auto simp: spent_def)
    also have "\<dots> \<le> (\<Sum>i \<in> pos f ` {..<k} \<inter> Collect (best f). ?m i)"
      using cm by (intro sum_mono) (auto simp: spent_def best_def)
    finally show ?thesis .
  qed
  also have "\<dots> < ?m (pos f k) + (\<Sum>i \<in> pos f ` {..<k} \<inter> Collect (best f). ?m i)"
    using k(2) by (simp add: avail_def)
  also have "\<dots> = (\<Sum>i \<in> insert (pos f k) (pos f ` {..<k} \<inter> Collect (best f)). ?m i)" using nk by simp
  also have "\<dots> \<le> (\<Sum>i \<in> Collect (best f). ?m i)"
    using k(2) by (intro sum_mono2) (auto simp: avail_def)
  finally show ?thesis using inv by (simp add: sel_inv_def)
qed

definition take_addr :: "nat \<Rightarrow> 'cb iface \<Rightarrow> 'cb iface" where
  "take_addr i f = f\<lparr>if_idx := i, if_addresses :=
     (if_addresses f)[i := (if_addresses f ! i)\<lparr>ad_count := ad_count (if_addresses f ! i) + 1\<rparr>]\<rparr>"

lemma next_loop_avail:
  assumes "sel_inv f" and "avail f i"
  shows "\<exists>i. avail f i \<and> next_loop 0 f = Some (Some i, take_addr i f)"
proof -
  have ne: "if_addresses f \<noteq> []" using assms(1) by (simp add: sel_inv_def)
  have "i \<in> pos f ` {..<length (if_addresses f)}"
    using assms(2) by (simp add: pos_image [OF ne] avail_def best_def)
  then obtain j where j: "j < length (if_addresses f)" "avail f (pos f j)" using assms(2) by auto
  define k where "k = (LEAST k. avail f (pos f k))"
  have k: "avail f (pos f k)" "\<forall>j < k. \<not> avail f (pos f j)" "k \<le> j"
    using j(2) by (auto simp: k_def intro: LeastI Least_le dest: not_less_Least)
  have "next_loop 0 f = Some (Some (pos f k), take_addr (pos f k) f)"
    unfolding take_addr_def using k j(1) spent_before [OF assms(1) _ k(1)]
    by (intro next_loop_found [OF ne k(1,2)]) simp
  with k(1) show ?thesis by blast
qed

lemma next_loop_exhausted:
  assumes "sel_inv f" and "\<forall>i. \<not> avail f i"
  shows "\<exists>i. next_loop 0 f = Some (None, f\<lparr>if_idx := i\<rparr>)"
proof (rule next_loop_none)
  show "if_addresses f \<noteq> []" "\<forall>i. \<not> avail f i" using assms by (simp_all add: sel_inv_def)
  then have "(\<Sum>j < length (if_addresses f). spent f (pos f j)) = (\<Sum>i \<in> Collect (best f). ad_count (if_addresses f ! i))"
    by (simp add: spent_turn)
  also have "\<dots> = (\<Sum>i \<in> Collect (best f). ad_max (if_addresses f ! i))"
  proof (rule sum.cong)
    fix i
    assume "i \<in> Collect (best f)"
    then show "ad_count (if_addresses f ! i) = ad_max (if_addresses f ! i)"
      using assms by (intro le_antisym) (auto simp: avail_def best_def sel_inv_def not_less)
  qed simp
  finally show "if_total f \<le> 0 + (\<Sum>j < length (if_addresses f). spent f (pos f j))"
    using assms(1) by (simp add: sel_inv_def)
qed

definition reset_counts :: "'cb iface \<Rightarrow> 'cb iface" where
  "reset_counts f = f\<lparr>if_addresses := clear_counters (if_addresses f)\<rparr>"

lemma reset_counts_simps [simp]:
  "length (if_addresses (reset_counts f)) = length (if_addresses f)"
  "i < length (if_addresses f) \<Longrightarrow> if_addresses (reset_counts f) ! i = (if_addresses f ! i)\<lparr>ad_count := 0\<rparr>"
  "if_total (reset_counts f) = if_total f" "if_prio (reset_counts f) = if_prio f"
  by (simp_all add: reset_counts_def clear_counters_def)

lemma best_reset [simp]: "best (reset_counts f) = best f"
  by (rule ext) (auto simp: best_def)

lemma reset_counts_inv: "sel_inv f \<Longrightarrow> sel_inv (reset_counts f)"
proof -
  assume inv: "sel_inv f"
  have "(\<Sum>i \<in> Collect (best f). ad_max (if_addresses (reset_counts f) ! i))
      = (\<Sum>i \<in> Collect (best f). ad_max (if_addresses f ! i))"
    by (rule sum.cong) (auto simp: best_def)
  with inv show ?thesis by (auto simp: sel_inv_def) (simp add: reset_counts_def clear_counters_def)
qed

lemma reset_avail:
  assumes "sel_inv f"
  shows "\<exists>i. avail (reset_counts f) i"
proof (rule ccontr)
  assume "\<not> ?thesis"
  then have "ad_max (if_addresses f ! i) = 0" if "best f i" for i
    using that by (auto simp: avail_def best_def)
  then have "if_total f = 0" using assms by (simp add: sel_inv_def)
  with assms show False by (simp add: sel_inv_def)
qed

lemma take_addr_simps [simp]:
  "length (if_addresses (take_addr i f)) = length (if_addresses f)" "if_idx (take_addr i f) = i"
  "if_total (take_addr i f) = if_total f" "if_prio (take_addr i f) = if_prio f"
  "j < length (if_addresses f) \<Longrightarrow> if_addresses (take_addr i f) ! j = (if j = i
     then (if_addresses f ! i)\<lparr>ad_count := ad_count (if_addresses f ! i) + 1\<rparr> else if_addresses f ! j)"
  by (simp_all add: take_addr_def)

lemma best_take [simp]: "best (take_addr i f) = best f"
  by (rule ext) (auto simp: best_def split: if_splits)

lemma take_addr_inv: "sel_inv f \<Longrightarrow> avail f i \<Longrightarrow> sel_inv (take_addr i f)"
proof -
  assume inv: "sel_inv f" and av: "avail f i"
  have "(\<Sum>j \<in> Collect (best f). ad_max (if_addresses (take_addr i f) ! j))
      = (\<Sum>j \<in> Collect (best f). ad_max (if_addresses f ! j))"
    by (rule sum.cong) (auto simp: best_def)
  moreover have "if_addresses (take_addr i f) \<noteq> []" using inv by (auto simp: sel_inv_def take_addr_def)
  ultimately show "sel_inv (take_addr i f)" using inv av by (auto simp: sel_inv_def avail_def)
qed

text \<open>Selection takes an available address, after starting a new round when there is none.\<close>

definition round_start :: "'cb iface \<Rightarrow> 'cb iface" where
  "round_start f = (if \<exists>i. avail f i then f else reset_counts f)"

lemma next_addr_takes:
  assumes "sel_inv f"
  shows "\<exists>i. avail (round_start f) i \<and> (\<exists>k. next_addr f =
    Some (if_addresses (take_addr i (round_start f)) ! i, take_addr i ((round_start f)\<lparr>if_idx := k\<rparr>)))"
proof -
  have ne: "if_addresses f \<noteq> []" using assms by (simp add: sel_inv_def)
  have one: "\<exists>i. avail g i \<and> next_addr g = Some (if_addresses (take_addr i g) ! i, take_addr i g)"
    if g: "sel_inv g" "avail g j" for g :: "'a iface" and j
  proof -
    obtain i where i: "avail g i" "next_loop 0 g = Some (Some i, take_addr i g)"
      using next_loop_avail [OF g] by blast
    have "if_addresses g \<noteq> []" using g(1) by (simp add: sel_inv_def)
    with i have "next_addr g = Some (if_addresses (take_addr i g) ! i, take_addr i g)"
      by (subst next_addr.simps) simp
    with i(1) show ?thesis by blast
  qed
  have idx: "g\<lparr>if_idx := if_idx g\<rparr> = g" for g :: "'a iface" by simp
  show ?thesis
  proof (cases "\<exists>i. avail f i")
    case True
    then have "round_start f = f" by (simp add: round_start_def)
    with one [OF assms] True idx show ?thesis by metis
  next
    case False
    then obtain k where k: "next_loop 0 f = Some (None, f\<lparr>if_idx := k\<rparr>)"
      using next_loop_exhausted [OF assms] by blast
    let ?g = "(reset_counts f)\<lparr>if_idx := k\<rparr>"
    have "f\<lparr>if_idx := k, if_addresses := clear_counters (if_addresses f)\<rparr> = ?g"
      by (cases f) (simp add: reset_counts_def)
    then have e: "next_addr f = next_addr ?g" using ne k by (subst next_addr.simps) simp
    have "sel_inv ?g" using reset_counts_inv [OF assms] by (simp add: sel_inv_def)
    moreover obtain j where "avail ?g j" using reset_avail [OF assms] by auto
    ultimately obtain i where "avail ?g i" "next_addr ?g = Some (if_addresses (take_addr i ?g) ! i, take_addr i ?g)"
      using one by blast
    moreover have "round_start f = reset_counts f" using False by (simp add: round_start_def)
    ultimately show ?thesis using e by (auto simp: take_addr_def)
  qed
qed

section \<open>Fairness\<close>

text \<open>The positions chosen by consecutive selections.\<close>

fun picks :: "nat \<Rightarrow> 'cb iface \<Rightarrow> (nat list \<times> 'cb iface) option" where
  "picks 0 f = Some ([], f)"
| "picks (Suc n) f = Option.bind (next_addr f) (\<lambda>(a, f1).
     Option.bind (picks n f1) (\<lambda>(is, f2). Some (if_idx f1 # is, f2)))"

definition left :: "'cb iface \<Rightarrow> nat" where
  "left f = (\<Sum>i \<in> Collect (best f). ad_max (if_addresses f ! i) - ad_count (if_addresses f ! i))"

lemma left_avail: "0 < left f \<Longrightarrow> \<exists>i. avail f i"
proof (rule ccontr)
  assume "0 < left f" and "\<not> (\<exists>i. avail f i)"
  then have "left f = 0" unfolding left_def by (intro sum.neutral) (auto simp: avail_def best_def not_less)
  with \<open>0 < left f\<close> show False by simp
qed

lemma left_take:
  assumes "avail f i"
  shows "left f = Suc (left (take_addr i f))"
proof -
  let ?l = "\<lambda>g j. ad_max (if_addresses g ! j) - ad_count (if_addresses g ! j)"
  have b: "i \<in> Collect (best f)" "i < length (if_addresses f)" using assms by (auto simp: avail_def best_def)
  have "(\<Sum>j \<in> Collect (best f) - {i}. ?l (take_addr i f) j) = (\<Sum>j \<in> Collect (best f) - {i}. ?l f j)"
    by (rule sum.cong) (auto simp: best_def)
  then have "left (take_addr i f) = ?l (take_addr i f) i + (\<Sum>j \<in> Collect (best f) - {i}. ?l f j)"
    using b by (simp add: left_def sum.remove [of "Collect (best f)" i])
  moreover have "left f = ?l f i + (\<Sum>j \<in> Collect (best f) - {i}. ?l f j)"
    using b by (simp add: left_def sum.remove [of "Collect (best f)" i])
  moreover have "?l f i = Suc (?l (take_addr i f) i)" using assms b(2) by (simp add: avail_def Suc_diff_Suc)
  ultimately show ?thesis by linarith
qed

lemma picks_counts:
  assumes "sel_inv f" and "n \<le> left f"
  shows "\<exists>is g. picks n f = Some (is, g) \<and> sel_inv g \<and> left g = left f - n \<and> length is = n
    \<and> length (if_addresses g) = length (if_addresses f) \<and> best g = best f
    \<and> (\<forall>i < length (if_addresses f). ad_max (if_addresses g ! i) = ad_max (if_addresses f ! i)
        \<and> ad_count (if_addresses g ! i) = ad_count (if_addresses f ! i) + count_list is i)
    \<and> (\<forall>i \<in> set is. best f i)"
  using assms
proof (induction n arbitrary: f)
  case 0
  then show ?case by simp
next
  case (Suc n)
  then have "\<exists>i. avail f i" using left_avail [of f] by simp
  then have "round_start f = f" by (simp add: round_start_def)
  then obtain i k where i: "avail f i" "next_addr f = Some (if_addresses (take_addr i f) ! i, take_addr i (f\<lparr>if_idx := k\<rparr>))"
    using next_addr_takes [OF Suc.prems(1)] by auto
  have t: "take_addr i (f\<lparr>if_idx := k\<rparr>) = take_addr i f" by (simp add: take_addr_def)
  have il: "i < length (if_addresses f)" "best f i" using i(1) by (auto simp: avail_def best_def)
  obtain "is" g where ih: "picks n (take_addr i f) = Some (is, g)" "sel_inv g" "left g = left (take_addr i f) - n"
    "length is = n" "length (if_addresses g) = length (if_addresses f)" "best g = best f"
    "\<forall>j < length (if_addresses f). ad_max (if_addresses g ! j) = ad_max (if_addresses (take_addr i f) ! j)
        \<and> ad_count (if_addresses g ! j) = ad_count (if_addresses (take_addr i f) ! j) + count_list is j"
    "\<forall>j \<in> set is. best f j"
    using Suc.IH [OF take_addr_inv [OF Suc.prems(1) i(1)]] Suc.prems(2) left_take [OF i(1)] by auto
  have "picks (Suc n) f = Some (i # is, g)" using i(2) t ih(1) by simp
  moreover have "left g = left f - Suc n" using ih(3) left_take [OF i(1)] by simp
  moreover have "\<forall>j < length (if_addresses f). ad_max (if_addresses g ! j) = ad_max (if_addresses f ! j)
      \<and> ad_count (if_addresses g ! j) = ad_count (if_addresses f ! j) + count_list (i # is) j"
    using ih(7) by auto
  ultimately show ?case using ih il by (intro exI [of _ "i # is"] exI [of _ g]) simp
qed

section \<open>The weights\<close>

definition top_prio :: "address list \<Rightarrow> nat" where
  "top_prio addrs = Min (insert SIZE_MAX (ad_prio ` set addrs))"

definition top_its :: "address list \<Rightarrow> nat list" where
  "top_its addrs = filter (\<lambda>i. ad_prio (addrs ! i) = top_prio addrs) [0..<length addrs]"

definition weights_spec :: "address list \<Rightarrow> nat \<times> nat \<times> nat list" where
  "weights_spec addrs = (sum_list (map (\<lambda>i. ad_max (addrs ! i)) (top_its addrs)), top_prio addrs, top_its addrs)"

lemma top_prio_snoc: "top_prio (addrs @ [a]) = min (top_prio addrs) (ad_prio a)"
proof -
  have "insert SIZE_MAX (ad_prio ` set (addrs @ [a])) = insert (ad_prio a) (insert SIZE_MAX (ad_prio ` set addrs))"
    by auto
  then show ?thesis by (simp only: top_prio_def) (simp add: min.commute)
qed

lemma top_prio_le: "i < length addrs \<Longrightarrow> top_prio addrs \<le> ad_prio (addrs ! i)"
  unfolding top_prio_def by (rule Min_le) auto

lemma top_its_snoc:
  "top_its (addrs @ [a]) = (if ad_prio a < top_prio addrs then [length addrs]
     else if ad_prio a = top_prio addrs then top_its addrs @ [length addrs] else top_its addrs)"
proof -
  let ?p = "min (top_prio addrs) (ad_prio a)"
  have "top_its (addrs @ [a]) = filter (\<lambda>i. ad_prio (addrs ! i) = ?p) [0..<length addrs]
      @ (if ad_prio a = ?p then [length addrs] else [])"
  proof -
    have "filter (\<lambda>i. ad_prio ((addrs @ [a]) ! i) = ?p) [0..<length addrs]
        = filter (\<lambda>i. ad_prio (addrs ! i) = ?p) [0..<length addrs]"
      by (rule filter_cong) (auto simp: nth_append)
    then show ?thesis unfolding top_its_def top_prio_snoc by simp
  qed
  moreover have "filter (\<lambda>i. ad_prio (addrs ! i) = ad_prio a) [0..<length addrs] = []" if "ad_prio a < top_prio addrs"
    using that top_prio_le [of _ addrs] by (force simp: filter_empty_conv)
  ultimately show ?thesis by (auto simp: top_its_def min_def)
qed

lemma top_its_less: "i \<in> set (top_its addrs) \<Longrightarrow> i < length addrs"
  by (auto simp: top_its_def)

lemma weights_step:
  "weights_loop (a # as) (length pre) (weights_spec pre) = weights_loop as (Suc (length pre)) (weights_spec (pre @ [a]))"
proof -
  have m: "map (\<lambda>i. ad_max ((pre @ [a]) ! i)) (top_its pre) = map (\<lambda>i. ad_max (pre ! i)) (top_its pre)"
    by (rule map_cong) (auto simp: nth_append dest: top_its_less)
  show ?thesis
    by (simp add: weights_spec_def Let_def top_its_snoc top_prio_snoc min_def m del: map_eq_conv)
qed

lemma weights_loop_spec: "weights_loop addrs 0 (0, SIZE_MAX, []) = weights_spec addrs"
proof -
  have "weights_loop as (length pre) (weights_spec pre) = weights_spec (pre @ as)" for as pre
  proof (induction as arbitrary: pre)
    case Nil
    then show ?case by (cases "weights_spec pre") simp
  next
    case (Cons a as)
    show ?case using Cons.IH [of "pre @ [a]"] by (simp only: weights_step) simp
  qed
  from this [of addrs "[]"] show ?thesis by (simp add: weights_spec_def top_its_def top_prio_def)
qed

lemma top_its_nonempty:
  assumes "addrs \<noteq> []" and "\<forall>a \<in> set addrs. ad_prio a \<le> SIZE_MAX"
  shows "top_its addrs \<noteq> []"
proof -
  have ne: "ad_prio ` set addrs \<noteq> {}" using assms(1) by simp
  have "Min (ad_prio ` set addrs) \<in> ad_prio ` set addrs" using ne by (intro Min_in) auto
  moreover have "top_prio addrs = Min (ad_prio ` set addrs)"
  proof -
    have "Min (ad_prio ` set addrs) \<le> SIZE_MAX" using calculation assms(2) by force
    then show ?thesis using ne by (simp add: top_prio_def min_absorb2)
  qed
  ultimately obtain i where "i < length addrs" "ad_prio (addrs ! i) = top_prio addrs"
    by (auto simp: in_set_conv_nth)
  then show ?thesis by (auto simp: top_its_def filter_empty_conv)
qed

lemma find_weights_positive:
  assumes "addrs \<noteq> []" and "\<forall>a \<in> set addrs. ad_prio a \<le> SIZE_MAX" and "\<forall>a \<in> set addrs. 0 < ad_max a"
  shows "find_weights addrs = (\<Sum>i \<in> set (top_its addrs). ad_max (addrs ! i), top_prio addrs, addrs)
    \<and> 0 < (\<Sum>i \<in> set (top_its addrs). ad_max (addrs ! i))"
proof -
  have "distinct (top_its addrs)" by (simp add: top_its_def)
  then have w: "sum_list (map (\<lambda>i. ad_max (addrs ! i)) (top_its addrs)) = (\<Sum>i \<in> set (top_its addrs). ad_max (addrs ! i))"
    by (simp add: sum_list_distinct_conv_sum_set)
  obtain i where i: "i \<in> set (top_its addrs)"
    using top_its_nonempty [OF assms(1,2)] by (cases "top_its addrs") auto
  then have "0 < ad_max (addrs ! i)" using assms(3) top_its_less by simp
  with i have "0 < (\<Sum>i \<in> set (top_its addrs). ad_max (addrs ! i))" by (intro sum_pos2 [of _ i]) auto
  then show ?thesis
    unfolding find_weights_def weights_loop_spec weights_spec_def w prod.case
    by (subst if_not_P) (linarith | blast)+
qed

definition addrs_ok :: "address list \<Rightarrow> bool" where
  "addrs_ok addrs \<longleftrightarrow> (\<forall>a \<in> set addrs. ad_prio a \<le> SIZE_MAX \<and> ad_count a \<le> ad_max a)"

lemma expire_sel_inv:
  assumes "addrs_ok (if_addresses f)" and "expire_addresses t f = (n, g)" and "n \<noteq> 0"
  shows "sel_inv g \<and> if_pending g = if_pending f \<and> if_streams g = if_streams f
    \<and> set (if_addresses g) \<subseteq> set (if_addresses f) \<and> (\<forall>b \<in> set (if_addresses g). if_prio g \<le> ad_prio b)"
proof -
  define as where "as = filter (\<lambda>a. \<not> expired t a) (if_addresses f)"
  have ok: "\<forall>a \<in> set as. ad_prio a \<le> SIZE_MAX" "\<forall>a \<in> set as. 0 < ad_max a" "\<forall>a \<in> set as. ad_count a \<le> ad_max a"
    "set as \<subseteq> set (if_addresses f)" using assms(1) by (auto simp: as_def addrs_ok_def expired_def)
  have ne: "as \<noteq> []"
  proof
    assume "as = []"
    moreover have "find_weights [] = (0, SIZE_MAX, [])" by (simp add: find_weights_def)
    ultimately have "fst (expire_addresses t f) = 0"
      by (simp add: expire_addresses_def reweigh_def Let_def flip: as_def)
    with assms(2,3) show False by simp
  qed
  note fw = find_weights_positive [OF ne ok(1,2)]
  have g: "g = f\<lparr>if_addresses := as, if_total := (\<Sum>i \<in> set (top_its as). ad_max (as ! i)), if_prio := top_prio as\<rparr>"
    using assms(2) ne fw by (simp add: expire_addresses_def reweigh_def Let_def flip: as_def)
  have "Collect (best g) = set (top_its as)" by (auto simp: best_def g top_its_def)
  moreover have "\<forall>b \<in> set as. top_prio as \<le> ad_prio b" by (auto simp: in_set_conv_nth top_prio_le)
  ultimately show ?thesis using fw ne ok by (simp add: sel_inv_def g)
qed

section \<open>Pending connects return\<close>

lemma sel_inv_cong:
  assumes "if_addresses g = if_addresses f" and "if_total g = if_total f" and "if_prio g = if_prio f"
  shows "sel_inv g = sel_inv f"
proof -
  have "best g = best f" by (rule ext) (simp add: best_def assms)
  with assms show ?thesis by (simp add: sel_inv_def)
qed

text \<open>
  What the resolution of pending connects needs of the callbacks: they leave the addresses and the
  selection state of the interface alone.
\<close>

locale connect_callbacks =
  fixes live :: "'s \<Rightarrow> owner \<Rightarrow> bool"
    and run :: "'cb \<Rightarrow> nat \<Rightarrow> byte list option \<Rightarrow> nat \<Rightarrow> string \<Rightarrow> 'cb iface \<Rightarrow> 's \<Rightarrow> 'cb iface \<times> 's"
  assumes run_selection: "run cb i addr len proto f s = (g, s') \<Longrightarrow>
    if_addresses g = if_addresses f \<and> if_total g = if_total f \<and> if_prio g = if_prio f \<and> if_idx g = if_idx f"
begin

lemma run_sel_inv: "run cb i addr len proto f s = (g, s') \<Longrightarrow> sel_inv f \<Longrightarrow> sel_inv g"
  using run_selection [of cb i addr len proto f s g s'] sel_inv_cong [of g f] by simp

lemma next_addr_keeps:
  assumes "sel_inv f"
  obtains a g where "next_addr f = Some (a, g)" and "sel_inv g"
proof -
  obtain i k where i: "avail (round_start f) i"
    "next_addr f = Some (if_addresses (take_addr i (round_start f)) ! i, take_addr i ((round_start f)\<lparr>if_idx := k\<rparr>))"
    using next_addr_takes [OF assms] by blast
  have "sel_inv ((round_start f)\<lparr>if_idx := k\<rparr>)"
    using assms reset_counts_inv [OF assms] by (auto simp: round_start_def sel_inv_def)
  from take_addr_inv [OF this] i that show thesis by simp
qed

lemma run_pending_returns: "sel_inv f \<Longrightarrow> \<exists>r. run_pending live run ps f s = Some r"
proof (induction ps arbitrary: f s)
  case Nil
  then show ?case by simp
next
  case (Cons p ps)
  obtain wp cb where p: "p = (wp, cb)" by fastforce
  obtain a g where g: "next_addr f = Some (a, g)" "sel_inv g" using next_addr_keeps [OF Cons.prems] by blast
  show ?case
    using p g Cons.IH Cons.prems run_sel_inv [OF _ g(2)]
    by (auto simp: Let_def split: prod.split)
qed

lemma resolve_returns:
  assumes "addrs_ok (if_addresses f)"
  shows "\<exists>r. resolve_callbacks live run now f s = Some r"
proof -
  obtain n g where e: "expire_addresses (now - HYST_WND) f = (n, g)" by fastforce
  show ?thesis
  proof (cases "n = 0")
    case True
    with e show ?thesis by (simp add: resolve_callbacks_def)
  next
    case False
    then have "sel_inv (g\<lparr>if_pending := []\<rparr>)"
      using expire_sel_inv [OF assms e] sel_inv_cong [of "g\<lparr>if_pending := []\<rparr>" g] by simp
    from run_pending_returns [OF this, of "if_pending g" s] e False show ?thesis
      by (auto simp: resolve_callbacks_def)
  qed
qed

end

section \<open>The stream table\<close>

lemma upper_bound_miss:
  assumes "ksorted fst xs" and "\<not> has_key fst k xs"
  shows "upper_bound (\<lambda>x. k < fst x) xs = length (upto_key fst k xs)"
proof -
  have "fst x < k \<longleftrightarrow> \<not> k < fst x" if "x \<in> set xs" for x
    using assms(2) that by (auto simp: has_key_def not_less_iff_gr_or_eq)
  then have "partitioned_at (\<lambda>x. \<not> k < fst x) xs (length (upto_key fst k xs))"
    using ksorted_partitioned [OF assms(1), of k] by (auto simp: partitioned_at_def)
  then show ?thesis by (simp add: upper_bound_def lower_bound_partition)
qed

lemma iface_insert_spec:
  assumes "ksorted fst (if_streams f)" and "\<not> has_key fst ptr (if_streams f)"
    and "iface_insert (ptr, fd) f = (i, g)"
  shows "ksorted fst (if_streams g)" and "set (if_streams g) = insert (ptr, fd) (set (if_streams f))"
    and "i < length (if_streams g)" and "if_streams g ! i = (ptr, fd)"
proof -
  let ?i = "length (upto_key fst ptr (if_streams f))"
  have g: "i = ?i" "g = f\<lparr>if_streams := insert_at ?i (ptr, fd) (if_streams f)\<rparr>"
    using assms by (auto simp: iface_insert_def Let_def upper_bound_miss)
  show "ksorted fst (if_streams g)" using ksorted_insert [OF assms(1,2), of "(ptr, fd)"] by (simp add: g)
  show "set (if_streams g) = insert (ptr, fd) (set (if_streams f))" by (simp add: g)
  have "?i \<le> length (if_streams f)" using length_upto_from [of fst ptr "if_streams f"] by simp
  then show "i < length (if_streams g)" by (simp add: g)
  show "if_streams g ! i = (ptr, fd)" by (simp add: g insert_at_upto nth_append)
qed

lemma iface_erase_spec:
  assumes "ksorted fst (if_streams f)"
  shows "if_streams (iface_erase (ptr, fd) f) = filter (\<lambda>h. fst h \<noteq> ptr) (if_streams f)"
proof (cases "has_key fst ptr (if_streams f)")
  case True
  then have "key_hit fst ptr (if_streams f) (length (upto_key fst ptr (if_streams f)))"
    using key_hit_iff [OF assms] by blast
  with erase_hit_filter [OF assms this] show ?thesis
    by (simp add: iface_erase_def iface_erase_at_def Let_def lower_bound_upto [OF assms])
next
  case False
  then have "\<not> key_hit fst ptr (if_streams f) (length (upto_key fst ptr (if_streams f)))"
    using key_hit_iff [OF assms] by blast
  moreover have "filter (\<lambda>h. fst h \<noteq> ptr) (if_streams f) = if_streams f"
    using False by (auto simp: has_key_def intro!: filter_True)
  ultimately show ?thesis by (simp add: iface_erase_def Let_def lower_bound_upto [OF assms])
qed

lemma iface_frame [simp]:
  "if_addresses (snd (iface_insert h f)) = if_addresses f" "if_addresses (iface_erase h f) = if_addresses f"
  "if_addresses (iface_erase_at i f) = if_addresses f"
  by (simp_all add: iface_insert_def iface_erase_def iface_erase_at_def Let_def)

section \<open>Properties\<close>

text \<open>once expired addresses have been removed and some are left, selecting an address always
  returns, the address has the best priority present, and the selection state stays valid.\<close>

theorem address_selection_returns:
  assumes "addrs_ok (if_addresses f)" and "expire_addresses t f = (n, g)" and "n \<noteq> 0"
  shows "\<exists>a g'. next_addr g = Some (a, g') \<and> ad_prio a = if_prio g \<and> sel_inv g'
    \<and> (\<forall>b \<in> set (if_addresses g). if_prio g \<le> ad_prio b)"
proof -
  have inv: "sel_inv g" using expire_sel_inv [OF assms] by simp
  obtain i k where i: "avail (round_start g) i"
    "next_addr g = Some (if_addresses (take_addr i (round_start g)) ! i, take_addr i ((round_start g)\<lparr>if_idx := k\<rparr>))"
    using next_addr_takes [OF inv] by blast
  have r: "sel_inv (round_start g)" "best (round_start g) = best g" "if_prio (round_start g) = if_prio g"
    using inv reset_counts_inv [OF inv] by (auto simp: round_start_def)
  then have "sel_inv ((round_start g)\<lparr>if_idx := k\<rparr>)" by (auto simp: sel_inv_def)
  then have "sel_inv (take_addr i ((round_start g)\<lparr>if_idx := k\<rparr>))" using i(1) by (intro take_addr_inv) simp_all
  moreover have "ad_prio (if_addresses (take_addr i (round_start g)) ! i) = if_prio g"
    using i(1) r(3) by (simp add: avail_def best_def)
  moreover have "\<forall>b \<in> set (if_addresses g). if_prio g \<le> ad_prio b"
    using expire_sel_inv [OF assms] by simp
  ultimately show ?thesis using i(2) by blast
qed

definition sample_addr :: "nat \<Rightarrow> nat \<Rightarrow> address" where
  "sample_addr w p = make_address [2, 0] 2 (0, - 1) (w, 0, p)"

definition sample_iface :: "address list \<Rightarrow> unit iface" where
  "sample_iface addrs = iface_make addrs ''TCP'' []"

theorem address_selection_returns_witness:
  "\<exists>n g a g'. expire_addresses 10 (sample_iface [sample_addr 2 5, sample_addr 1 3, sample_addr 0 1]) = (n, g)
     \<and> next_addr g = Some (a, g') \<and> ad_prio a = if_prio g"
proof -
  let ?f = "sample_iface [sample_addr 2 5, sample_addr 1 3, sample_addr 0 1]"
  obtain n g where e: "expire_addresses 10 ?f = (n, g)" by fastforce
  have ok: "addrs_ok (if_addresses ?f)"
    by (simp add: addrs_ok_def sample_iface_def sample_addr_def iface_make_def make_address_def)
  have "n = 2" using e
    by (simp add: expire_addresses_def reweigh_def find_weights_def expired_def sample_iface_def
        sample_addr_def iface_make_def make_address_def Let_def)
  with address_selection_returns [OF ok e] e show ?thesis by auto
qed

text \<open>C28: selection is fair by weight. Starting a round, as many consecutive selections as the total
  weight choose every address of the best priority exactly as often as its weight says, and no
  other address at all.\<close>

theorem address_round_fair:
  assumes "sel_inv f" and "\<forall>a \<in> set (if_addresses f). ad_count a = 0"
  shows "\<exists>is g. picks (if_total f) f = Some (is, g)
    \<and> (\<forall>i < length (if_addresses f). count_list is i = (if best f i then ad_max (if_addresses f ! i) else 0))"
proof -
  have l: "left f = if_total f" using assms by (auto simp: left_def sel_inv_def best_def intro!: sum.cong)
  obtain "is" g where p: "picks (if_total f) f = Some (is, g)" "left g = 0" "best g = best f"
    "length (if_addresses g) = length (if_addresses f)" "sel_inv g" "\<forall>i \<in> set is. best f i"
    and c: "\<forall>i < length (if_addresses f). ad_max (if_addresses g ! i) = ad_max (if_addresses f ! i)
        \<and> ad_count (if_addresses g ! i) = ad_count (if_addresses f ! i) + count_list is i"
    using picks_counts [OF assms(1), of "if_total f"] l by auto
  have "count_list is i = (if best f i then ad_max (if_addresses f ! i) else 0)" if i: "i < length (if_addresses f)" for i
  proof (cases "best f i")
    case True
    then have "ad_max (if_addresses g ! i) - ad_count (if_addresses g ! i) = 0"
      using p(2,3) by (auto simp: left_def)
    moreover have "ad_count (if_addresses g ! i) \<le> ad_max (if_addresses g ! i)"
      using p(4,5) i by (simp add: sel_inv_def)
    ultimately show ?thesis using c i assms(2) True by simp
  next
    case False
    then have "i \<notin> set is" using p(6) by blast
    with False show ?thesis by (simp add: count_list_0_iff)
  qed
  with p(1) show ?thesis by blast
qed

lemma sample_sel_inv:
  "sel_inv ((sample_iface [sample_addr 2 3, sample_addr 7 9, sample_addr 1 3])\<lparr>if_total := 3, if_prio := 3\<rparr>)"
proof -
  let ?f = "(sample_iface [sample_addr 2 3, sample_addr 7 9, sample_addr 1 3])\<lparr>if_total := 3, if_prio := 3\<rparr>"
  have "best ?f i \<longleftrightarrow> i = 0 \<or> i = 2" for i
    by (auto simp: best_def sample_iface_def sample_addr_def iface_make_def make_address_def less_Suc_eq nth_Cons')
  then have "Collect (best ?f) = {0, 2}" by auto
  then show ?thesis
    by (auto simp: sel_inv_def sample_iface_def sample_addr_def iface_make_def make_address_def less_Suc_eq nth_Cons')
qed

theorem address_round_fair_witness:
  "\<exists>is g. picks 3 ((sample_iface [sample_addr 2 3, sample_addr 7 9, sample_addr 1 3])\<lparr>if_total := 3, if_prio := 3\<rparr>) = Some (is, g)
     \<and> count_list is 0 = 2 \<and> count_list is 1 = 0 \<and> count_list is 2 = 1"
proof -
  let ?f = "(sample_iface [sample_addr 2 3, sample_addr 7 9, sample_addr 1 3])\<lparr>if_total := 3, if_prio := 3\<rparr>"
  have "\<forall>a \<in> set (if_addresses ?f). ad_count a = 0"
    by (simp add: sample_iface_def sample_addr_def iface_make_def make_address_def)
  from address_round_fair [OF sample_sel_inv this] obtain "is" g where
    p: "picks (if_total ?f) ?f = Some (is, g)"
    and c: "\<forall>i < length (if_addresses ?f). count_list is i = (if best ?f i then ad_max (if_addresses ?f ! i) else 0)"
    by blast
  have v: "if_total ?f = 3" "length (if_addresses ?f) = 3" "if_addresses ?f \<noteq> []" "best ?f 0" "\<not> best ?f 1" "best ?f 2"
    "ad_max (if_addresses ?f ! 0) = 2" "ad_max (if_addresses ?f ! 2) = 1"
    by (simp_all add: best_def sample_iface_def sample_addr_def iface_make_def make_address_def)
  have "count_list is 0 = 2" "count_list is 1 = 0" "count_list is 2 = 1"
    using c [rule_format, of 0] c [rule_format, of 1] c [rule_format, of 2] v by simp_all
  with p v(1) show ?thesis by auto
qed

text \<open>the stream table is ordered by owner and holds what was made and not erased: making a
  stream adds exactly its handle and returns its position, erasing removes exactly the handles
  of that stream.\<close>

theorem stream_table_ordered:
  assumes "ksorted fst (if_streams f)" and "\<not> has_key fst ptr (if_streams f)"
    and "iface_insert (ptr, fd) f = (i, g)"
  shows "ksorted fst (if_streams g) \<and> set (if_streams g) = insert (ptr, fd) (set (if_streams f))
    \<and> if_streams g ! i = (ptr, fd)
    \<and> if_streams (iface_erase (ptr, fd) g) = if_streams f
    \<and> if_streams (iface_erase (q, fd) f) = filter (\<lambda>h. fst h \<noteq> q) (if_streams f)"
proof -
  note spec = iface_insert_spec [OF assms]
  have "g = f\<lparr>if_streams := insert_at (length (upto_key fst ptr (if_streams f))) (ptr, fd) (if_streams f)\<rparr>"
    using assms by (auto simp: iface_insert_def Let_def upper_bound_miss)
  then have "filter (\<lambda>h. fst h \<noteq> ptr) (if_streams g) = filter (\<lambda>h. fst h \<noteq> ptr) (upto_key fst ptr (if_streams f) @ from_key fst ptr (if_streams f))"
    by (simp add: insert_at_upto del: upto_from)
  also have "\<dots> = if_streams f" using assms(2) by (auto simp: has_key_def intro!: filter_True)
  finally show ?thesis using spec iface_erase_spec [OF spec(1), of ptr fd] iface_erase_spec [OF assms(1), of q fd] by simp
qed

theorem stream_table_ordered_witness:
  "\<exists>i g. iface_insert (5, 11) ((sample_iface [])\<lparr>if_streams := [(3, 7), (8, 9)]\<rparr>) = (i, g)
     \<and> if_streams (iface_erase (5, 11) g) = [(3, 7), (8, 9)]"
proof -
  let ?f = "(sample_iface [])\<lparr>if_streams := [(3, 7), (8, 9)]\<rparr>"
  obtain i g where r: "iface_insert (5, 11) ?f = (i, g)" by fastforce
  have "ksorted fst (if_streams ?f)" "\<not> has_key fst 5 (if_streams ?f)" by (simp_all add: ksorted_def has_key_def)
  from stream_table_ordered [OF this r] r show ?thesis by auto
qed

end
