(* ===== verification/Config.thy ===== *)
theory Config
  imports Bus_Prelude "HOL-Library.Char_ord" "HOL-Library.List_Lexorder"
begin

text \<open>
  Configuration (\<^verbatim>\<open>src/config/config.hpp\<close>, \<^verbatim>\<open>config.cpp\<close>): the reader and the printer of the configuration
  file and the parser of addresses. A \<^verbatim>\<open>string_view\<close> is the list of its characters; the pointer loops
  of the scanners are written as the list functions they compute. The sections, a \<^verbatim>\<open>std::map\<close>, are an
  association list ordered by heading. A read outside of a string and an exception are \<open>None\<close>.
  \<^verbatim>\<open>inet_pton\<close> of the C library is the argument \<open>pton\<close> (family 2 or 10, text, network-order bytes).
  Shown: reading back what was printed gives the same configuration; the last line of a file needs
  its newline; an address is parsed into exactly the parts it was written with; and a malformed
  backend address is not rejected but becomes an empty URI.
\<close>

section \<open>Characters\<close>

text \<open>The classes of the C locale.\<close>

definition isspace :: "char \<Rightarrow> bool" where
  "isspace c \<longleftrightarrow> of_char c = (32 :: nat) \<or> (9 \<le> (of_char c :: nat) \<and> of_char c \<le> (13 :: nat))"

definition isdigit :: "char \<Rightarrow> bool" where
  "isdigit c \<longleftrightarrow> 48 \<le> (of_char c :: nat) \<and> of_char c \<le> (57 :: nat)"

definition isalpha :: "char \<Rightarrow> bool" where
  "isalpha c \<longleftrightarrow> (65 \<le> (of_char c :: nat) \<and> of_char c \<le> (90 :: nat)) \<or> (97 \<le> (of_char c :: nat) \<and> of_char c \<le> (122 :: nat))"

definition toupper :: "char \<Rightarrow> char" where
  "toupper c = (if 97 \<le> (of_char c :: nat) \<and> of_char c \<le> (122 :: nat) then char_of (of_char c - 32 :: nat) else c)"

abbreviation (input) NL :: char where "NL \<equiv> CHR 0x0A"
abbreviation (input) TAB :: char where "TAB \<equiv> CHR 0x09"
abbreviation (input) SP :: char where "SP \<equiv> CHR 0x20"

definition trim_left :: "string \<Rightarrow> string" where
  "trim_left s = dropWhile isspace s"

definition trim_right :: "string \<Rightarrow> string" where
  "trim_right s = rev (dropWhile isspace (rev s))"

section \<open>Addresses\<close>

datatype address_type = URI string | URL string string | SOCKADDR string "byte list" nat

text \<open>A default-constructed variant holds its first alternative.\<close>

definition no_address :: address_type where
  "no_address = URI []"

datatype hostname_types = HOSTNAME_ERROR | IPV4 | IPV6 | HOSTNAME

definition scan_path :: "string \<Rightarrow> string" where
  "scan_path s = takeWhile (\<lambda>c. \<not> isspace c) (trim_left s)"

definition scan_port :: "string \<Rightarrow> string" where
  "scan_port s = takeWhile isdigit s"

definition scan_ipv4 :: "string \<Rightarrow> string" where
  "scan_ipv4 s = (if CHR '':'' \<in> set s then takeWhile (\<lambda>c. c \<noteq> CHR '':'') s else [])"

text \<open>
  The scan for the closing bracket may look at the one character that follows the view; in a host
  this is a white space or the terminating null character, never a bracket.
\<close>

definition scan_ipv6 :: "string \<Rightarrow> string" where
  "scan_ipv6 s = (case s of
      [] \<Rightarrow> []
    | c # cs \<Rightarrow> (if c = CHR ''['' \<and> CHR '']'' \<in> set cs then takeWhile (\<lambda>c. c \<noteq> CHR '']'') cs else []))"

definition scan_host :: "string \<Rightarrow> string" where
  "scan_host s = takeWhile (\<lambda>c. \<not> isspace c) s"

fun hostname_loop :: "nat \<Rightarrow> bool \<Rightarrow> string \<Rightarrow> hostname_types" where
  "hostname_loop period_count at_start [] = HOSTNAME_ERROR"
| "hostname_loop period_count at_start (c # cs) =
     (if c = CHR ''.'' then hostname_loop (Suc period_count) False cs
      else if c = CHR ''['' then (if at_start then IPV6 else HOSTNAME_ERROR)
      else if c = CHR '':'' then (if period_count = 3 then IPV4 else HOSTNAME)
      else if \<not> isdigit c then HOSTNAME
      else hostname_loop period_count False cs)"

definition hostname_type :: "string \<Rightarrow> hostname_types" where
  "hostname_type s = hostname_loop 0 True s"

definition scheme_char :: "char \<Rightarrow> bool" where
  "scheme_char c \<longleftrightarrow> isalpha c \<or> isdigit c \<or> c \<in> {CHR ''+'', CHR ''-'', CHR ''.''}"

definition scan_protocol :: "string \<Rightarrow> string" where
  "scan_protocol s =
     (let body = trim_left s; scheme = takeWhile (\<lambda>c. c \<noteq> CHR '':'') body in
      if body = [] \<or> \<not> isalpha (hd body) \<or> \<not> list_all scheme_char scheme \<or> length scheme = length body
      then [] else scheme)"

definition string_bytes :: "string \<Rightarrow> byte list" where
  "string_bytes s = map of_char s"

text \<open>\<^verbatim>\<open>from_chars\<close> into a 16-bit integer: \<open>None\<close> when out of range.\<close>

definition decimal :: "string \<Rightarrow> nat" where
  "decimal s = foldl (\<lambda>n c. 10 * n + (of_char c - 48)) 0 s"

definition port_value :: "string \<Rightarrow> u16 option" where
  "port_value s = (if decimal s < 65536 then Some (word_of_nat (decimal s)) else None)"

text \<open>A 16-bit integer in network order.\<close>

definition be16 :: "u16 \<Rightarrow> byte list" where
  "be16 x = rev (le16 x)"

text \<open>A zeroed \<^verbatim>\<open>sockaddr_storage\<close> with the given bytes in front.\<close>

definition storage :: "byte list \<Rightarrow> byte list" where
  "storage bs = bs @ replicate (128 - length bs) 0"

definition make_unix_address :: "string \<Rightarrow> (byte list \<times> nat) option" where
  "make_unix_address path =
     (if path = [] \<or> 107 < length path then None
      else Some (storage (le16 1 @ string_bytes path), 2 + length path))"

definition make_ipv4_address :: "(nat \<Rightarrow> string \<Rightarrow> byte list option) \<Rightarrow> string \<Rightarrow> (byte list \<times> nat) option" where
  "make_ipv4_address pton host =
     (let ip = scan_ipv4 host; port = scan_port (drop (length ip + 1) host) in
      if ip = [] \<or> length host \<le> length ip + 1 \<or> port = [] then None
      else (case (pton 2 ip, port_value port) of
          (Some a, Some p) \<Rightarrow> Some (storage (le16 2 @ be16 p @ a), 16)
        | _ \<Rightarrow> None))"

text \<open>Flow information and scope are zero.\<close>

definition make_ipv6_address :: "(nat \<Rightarrow> string \<Rightarrow> byte list option) \<Rightarrow> string \<Rightarrow> (byte list \<times> nat) option" where
  "make_ipv6_address pton host =
     (let ip = scan_ipv6 host; port = scan_port (drop (length ip + 3) host) in
      if ip = [] \<or> length host \<le> length ip + 3 \<or> port = [] then None
      else (case (pton 10 ip, port_value port) of
          (Some a, Some p) \<Rightarrow> Some (storage (le16 10 @ be16 p @ replicate 4 0 @ a), 28)
        | _ \<Rightarrow> None))"

definition make_url :: "string \<Rightarrow> string \<Rightarrow> address_type" where
  "make_url host p =
     (let rest = dropWhile (\<lambda>c. c \<noteq> CHR '':'') host in
      if length rest \<le> 1 \<or> \<not> list_all isdigit (tl rest) then no_address else URL host p)"

text \<open>
  \<^verbatim>\<open>make_address(line, p)\<close>: what follows the scheme and three more characters. A line shorter than that
  makes the size wrap around and the scan leave the string (\<open>None\<close>).
\<close>

definition sockaddr_of :: "string \<Rightarrow> (byte list \<times> nat) option \<Rightarrow> address_type" where
  "sockaddr_of protocol r = (case r of None \<Rightarrow> no_address | Some (a, n) \<Rightarrow> SOCKADDR protocol a n)"

definition config_address_of :: "(nat \<Rightarrow> string \<Rightarrow> byte list option) \<Rightarrow> string \<Rightarrow> string \<Rightarrow> address_type option" where
  "config_address_of pton line protocol =
     (if length line < length protocol + 3 then None
      else
        (let rest = drop (length protocol + 3) line in
         Some (if protocol = ''UNIX'' then sockaddr_of protocol (make_unix_address (scan_path rest))
          else if protocol \<in> {''TCP'', ''UDP'', ''SCTP''} then
            (let host = scan_host rest in
             if host = [] then no_address
             else (case hostname_type host of
                 IPV4 \<Rightarrow> sockaddr_of protocol (make_ipv4_address pton host)
               | IPV6 \<Rightarrow> sockaddr_of protocol (make_ipv6_address pton host)
               | HOSTNAME \<Rightarrow> make_url host protocol
               | HOSTNAME_ERROR \<Rightarrow> no_address))
          else no_address)))"

definition config_make_address :: "(nat \<Rightarrow> string \<Rightarrow> byte list option) \<Rightarrow> string \<Rightarrow> address_type option" where
  "config_make_address pton line =
     (let protocol = map toupper (scan_protocol line) in
      if protocol = [] then Some no_address
      else if protocol \<in> {''UNIX'', ''TCP'', ''UDP'', ''SCTP''} then config_address_of pton line protocol
      else Some (URI (scan_path line)))"

section \<open>The configuration file\<close>

type_synonym config_section = "(string \<times> string) list"
type_synonym sections = "(string \<times> config_section) list"

text \<open>\<^verbatim>\<open>std::map::try_emplace\<close> and an update in place.\<close>

definition try_emplace :: "string \<Rightarrow> sections \<Rightarrow> sections" where
  "try_emplace h ss =
     (let lb = lower_bound (\<lambda>x. fst x < h) ss in
      if key_hit fst h ss lb then ss else insert_at lb (h, []) ss)"

definition add_pair :: "string \<Rightarrow> string \<times> string \<Rightarrow> sections \<Rightarrow> sections" where
  "add_pair h kv ss = map (\<lambda>x. if fst x = h then (fst x, snd x @ [kv]) else x) ss"

text \<open>
  \<^verbatim>\<open>parse_line\<close>: a heading in brackets opens a section; \<^verbatim>\<open>key=value\<close> goes to the current one. A line that
  begins with the equals sign makes the code search for the end of the key in front of the line.
\<close>

definition parse_line :: "string \<Rightarrow> string \<times> sections \<Rightarrow> (string \<times> sections) option" where
  "parse_line line st =
     (case st of (heading, sections) \<Rightarrow>
       (let body = trim_right (trim_left line) in
        if body = [] then Some st
        else if hd body = CHR ''['' \<and> last body = CHR '']'' then
          (let h = trim_right (trim_left (butlast (tl body))) in
           if h = [] then Some st else Some (h, try_emplace h sections))
        else if sections = [] then Some st
        else if \<not> has_key fst heading sections then None
        else
          (let key = takeWhile (\<lambda>c. c \<noteq> CHR ''='') body;
               value = trim_left (tl (dropWhile (\<lambda>c. c \<noteq> CHR ''='') body)) in
           if length key = length body \<or> value = [] then Some st
           else if key = [] then None
           else Some (heading, add_pair heading (trim_right key, value) sections))))"

text \<open>One character of the input; \<open>line\<close> is the text collected so far, with runs of white space collapsed.\<close>

definition read_char :: "char \<Rightarrow> string \<times> string \<times> sections \<Rightarrow> (string \<times> string \<times> sections) option" where
  "read_char c st =
     (case st of (line, hs) \<Rightarrow>
       (if \<not> isspace c then
          (if line \<noteq> [] \<and> last line = NL
           then map_option (\<lambda>hs'. ([c], hs')) (parse_line line hs)
           else Some (line @ [c], hs))
        else if c = SP \<or> c = TAB then
          (if line = [] \<or> \<not> isspace (last line) then Some (line @ [SP], hs) else Some (butlast line @ [SP], hs))
        else if c = NL then
          (if line = [] \<or> \<not> isspace (last line) then Some (line @ [NL], hs)
           else if last line = NL then map_option (\<lambda>hs'. ([], hs')) (parse_line line hs)
           else Some (butlast line @ [NL], hs))
        else Some st))"

fun read_chars :: "string \<Rightarrow> string \<times> string \<times> sections \<Rightarrow> (string \<times> string \<times> sections) option" where
  "read_chars [] st = Some st"
| "read_chars (c # cs) st = Option.bind (read_char c st) (read_chars cs)"

definition read_config :: "string \<Rightarrow> sections option" where
  "read_config text =
     Option.bind (read_chars text ([], [], [])) (\<lambda>(line, hs).
       if line \<noteq> [] \<and> last line = NL then map_option snd (parse_line line hs) else Some (snd hs))"

definition print_section :: "string \<times> config_section \<Rightarrow> string" where
  "print_section hs =
     ''['' @ fst hs @ '']'' @ [NL] @ concat (map (\<lambda>(k, v). k @ ''='' @ v @ [NL]) (snd hs)) @ [NL]"

definition print_config :: "sections \<Rightarrow> string" where
  "print_config ss = concat (map print_section ss)"

section \<open>Lines\<close>

lemma isspace_chars [simp]: "isspace NL" "isspace TAB" "isspace SP"
  "\<not> isspace (CHR ''['')" "\<not> isspace (CHR '']'')" "\<not> isspace (CHR ''='')" "\<not> isspace (CHR '':'')" "\<not> isspace (CHR ''/'')"
  by (simp_all add: isspace_def)

text \<open>Text that reading leaves as it is: white space only as single blanks between other characters.\<close>

fun single_spaces :: "string \<Rightarrow> bool" where
  "single_spaces [] = True"
| "single_spaces (c # cs) = ((isspace c \<longrightarrow> c = SP \<and> (cs = [] \<or> \<not> isspace (hd cs))) \<and> single_spaces cs)"

definition framed :: "string \<Rightarrow> bool" where
  "framed w \<longleftrightarrow> w \<noteq> [] \<and> \<not> isspace (hd w) \<and> \<not> isspace (last w)"

definition clean :: "string \<Rightarrow> bool" where
  "clean w \<longleftrightarrow> framed w \<and> single_spaces w"

lemma single_spaces_append:
  "single_spaces (u @ v) \<longleftrightarrow> single_spaces u \<and> single_spaces v \<and> (u = [] \<or> v = [] \<or> \<not> isspace (last u) \<or> \<not> isspace (hd v))"
  by (induction u) (auto simp: hd_append)

lemma clean_append: "clean u \<Longrightarrow> clean v \<Longrightarrow> clean (u @ v)"
  by (auto simp: clean_def framed_def single_spaces_append)

lemma clean_single: "\<not> isspace c \<Longrightarrow> clean [c]"
  by (simp add: clean_def framed_def)

lemma trim_framed: "framed w \<Longrightarrow> trim_left w = w" "framed w \<Longrightarrow> trim_right w = w"
proof -
  assume f: "framed w"
  then show "trim_left w = w" by (cases w) (auto simp: framed_def trim_left_def)
  from f obtain u c where "w = u @ [c]" "\<not> isspace c" by (cases w rule: rev_cases) (auto simp: framed_def)
  then show "trim_right w = w" by (simp add: trim_right_def)
qed

lemma trim_line: "framed w \<Longrightarrow> trim_right (trim_left (w @ [NL])) = w"
proof -
  assume f: "framed w"
  then obtain c u where w: "w = c # u" "\<not> isspace c" by (cases w) (auto simp: framed_def)
  then have "trim_left (w @ [NL]) = w @ [NL]" by (simp add: trim_left_def)
  moreover have "trim_right (w @ [NL]) = trim_right w" by (simp add: trim_right_def)
  ultimately show ?thesis using trim_framed(2) [OF f] by simp
qed

lemma read_clean:
  assumes "single_spaces w" and "l \<noteq> [] \<Longrightarrow> last l \<noteq> NL"
    and "w \<noteq> [] \<Longrightarrow> isspace (hd w) \<Longrightarrow> l = [] \<or> \<not> isspace (last l)"
  shows "read_chars w (l, hs) = Some (l @ w, hs)"
  using assms
proof (induction w arbitrary: l)
  case Nil
  then show ?case by simp
next
  case (Cons c w)
  have "read_char c (l, hs) = Some (l @ [c], hs)" using Cons.prems by (auto simp: read_char_def)
  moreover have "read_chars w (l @ [c], hs) = Some ((l @ [c]) @ w, hs)"
    using Cons.prems by (intro Cons.IH) auto
  ultimately show ?case by simp
qed

lemma read_chars_append: "read_chars (u @ v) st = Option.bind (read_chars u st) (read_chars v)"
  by (induction u arbitrary: st) (simp_all add: Option.bind_assoc split: Option.bind_split)

text \<open>A pending line is parsed when the next one begins, or at a blank line.\<close>

lemma read_next:
  assumes "clean w"
  shows "read_chars (w @ [NL]) (l @ [NL], hs) = map_option (\<lambda>hs'. (w @ [NL], hs')) (parse_line (l @ [NL]) hs)"
proof -
  obtain c u where w: "w = c # u" "\<not> isspace c" "single_spaces u"
    using assms by (cases w) (auto simp: clean_def framed_def)
  have "read_chars u ([c], hs') = Some (w, hs')" for hs' using w by (subst read_clean) auto
  moreover have "read_char NL (w, hs') = Some (w @ [NL], hs')" for hs'
    using assms by (auto simp: read_char_def clean_def framed_def)
  moreover have "read_char c (l @ [NL], hs) = map_option (\<lambda>hs'. ([c], hs')) (parse_line (l @ [NL]) hs)"
    using w by (simp add: read_char_def)
  ultimately show ?thesis
    by (cases "parse_line (l @ [NL]) hs") (simp_all add: w(1) read_chars_append)
qed

lemma read_first:
  assumes "clean w"
  shows "read_chars (w @ [NL]) ([], hs) = Some (w @ [NL], hs)"
proof -
  have "read_chars w ([], hs) = Some (w, hs)" using assms by (subst read_clean) (auto simp: clean_def)
  moreover have "read_char NL (w, hs) = Some (w @ [NL], hs)"
    using assms by (auto simp: read_char_def clean_def framed_def)
  ultimately show ?thesis by (simp add: read_chars_append)
qed

lemma read_blank: "read_chars [NL] (l @ [NL], hs) = map_option (\<lambda>hs'. ([], hs')) (parse_line (l @ [NL]) hs)"
  by (cases "parse_line (l @ [NL]) hs") (simp_all add: read_char_def)

section \<open>Sections\<close>

definition pair_ok :: "string \<times> string \<Rightarrow> bool" where
  "pair_ok kv \<longleftrightarrow> clean (fst kv) \<and> clean (snd kv) \<and> CHR ''='' \<notin> set (fst kv)
     \<and> \<not> (hd (fst kv) = CHR ''['' \<and> last (snd kv) = CHR '']'')"

definition config_ok :: "sections \<Rightarrow> bool" where
  "config_ok ss \<longleftrightarrow> ksorted fst ss \<and> (\<forall>x \<in> set ss. clean (fst x) \<and> list_all pair_ok (snd x))"

definition pair_line :: "string \<times> string \<Rightarrow> string" where
  "pair_line kv = fst kv @ ''='' @ snd kv"

lemma print_section_lines:
  "print_section hs = (''['' @ fst hs @ '']'') @ [NL] @ concat (map (\<lambda>kv. pair_line kv @ [NL]) (snd hs)) @ [NL]"
proof -
  have "(\<lambda>(k, v). k @ ''='' @ v @ [NL]) = (\<lambda>kv. pair_line kv @ [NL])" by (auto simp: pair_line_def)
  then show ?thesis by (simp add: print_section_def)
qed

lemma pair_line_clean: "pair_ok kv \<Longrightarrow> clean (pair_line kv)"
  unfolding pair_line_def pair_ok_def by (intro clean_append clean_single) simp_all

lemma heading_clean: "clean h \<Longrightarrow> clean (''['' @ h @ '']'')"
  by (intro clean_append clean_single) simp_all

lemma takeWhile_key: "c \<notin> set k \<Longrightarrow> takeWhile (\<lambda>x. x \<noteq> c) (k @ c # v) = k"
  "c \<notin> set k \<Longrightarrow> dropWhile (\<lambda>x. x \<noteq> c) (k @ c # v) = c # v"
  by (induction k) auto

lemma parse_pair:
  assumes "pair_ok kv" and "has_key fst h ss"
  shows "parse_line (pair_line kv @ [NL]) (h, ss) = Some (h, add_pair h kv ss)"
proof -
  obtain k v where kv: "kv = (k, v)" by fastforce
  have ok: "framed k" "framed v" "CHR ''='' \<notin> set k" "\<not> (hd k = CHR ''['' \<and> last v = CHR '']'')"
    using assms(1) by (auto simp: kv pair_ok_def clean_def)
  have fr: "framed (pair_line kv)" using pair_line_clean [OF assms(1)] by (simp add: clean_def)
  have ne: "k \<noteq> []" "v \<noteq> []" "ss \<noteq> []" using ok assms(2) by (auto simp: framed_def has_key_def)
  have key: "takeWhile (\<lambda>c. c \<noteq> CHR ''='') (pair_line kv) = k" "dropWhile (\<lambda>c. c \<noteq> CHR ''='') (pair_line kv) = CHR ''='' # v"
    using takeWhile_key [OF ok(3)] by (simp_all add: kv pair_line_def)
  have hl: "pair_line kv \<noteq> []" "\<not> (hd (pair_line kv) = CHR ''['' \<and> last (pair_line kv) = CHR '']'')"
    "length k \<noteq> length (pair_line kv)"
    using ok(4) ne by (simp_all add: kv pair_line_def)
  show ?thesis
    unfolding parse_line_def prod.case Let_def trim_line [OF fr] key list.sel trim_framed(1) [OF ok(2)] trim_framed(2) [OF ok(1)]
    using hl ne assms(2) by (auto simp: kv)
qed

lemma parse_heading:
  assumes "clean h"
  shows "parse_line ((''['' @ h @ '']'') @ [NL]) (h0, ss) = Some (h, try_emplace h ss)"
proof -
  have fr: "framed (''['' @ h @ '']'')" "framed h" using assms heading_clean [OF assms] by (auto simp: clean_def)
  then have "h \<noteq> []" by (simp add: framed_def)
  then show ?thesis
    unfolding parse_line_def prod.case Let_def trim_line [OF fr(1)]
    using trim_framed [OF fr(2)] by (simp add: butlast_append)
qed

lemma add_pair_has_key [simp]: "has_key fst h (add_pair g kv ss) = has_key fst h ss"
proof -
  have "map fst (add_pair g kv ss) = map fst ss" by (simp add: add_pair_def)
  then have "fst ` set (add_pair g kv ss) = fst ` set ss" by (metis set_map)
  then show ?thesis by (simp add: has_key_def)
qed

lemma read_pairs:
  assumes "list_all pair_ok kvs" and "parse_line (l @ [NL]) hs = Some (h, ss)" and "has_key fst h ss"
  shows "read_chars (concat (map (\<lambda>kv. pair_line kv @ [NL]) kvs) @ [NL]) (l @ [NL], hs)
    = Some ([], h, fold (add_pair h) kvs ss)"
  using assms
proof (induction kvs arbitrary: l hs ss)
  case Nil
  then show ?case by (simp add: read_blank del: read_chars.simps)
next
  case (Cons kv kvs)
  then have ok: "pair_ok kv" by simp
  have "read_chars (concat (map (\<lambda>kv. pair_line kv @ [NL]) (kv # kvs)) @ [NL]) (l @ [NL], hs)
      = read_chars (concat (map (\<lambda>kv. pair_line kv @ [NL]) kvs) @ [NL]) (pair_line kv @ [NL], h, ss)"
    unfolding list.map concat.simps append_assoc [of "pair_line kv @ [NL]"] read_chars_append [of "pair_line kv @ [NL]"]
      read_next [OF pair_line_clean [OF ok]] Cons.prems(2) option.map Option.bind.bind_lunit ..
  also have "\<dots> = Some ([], h, fold (add_pair h) kvs (add_pair h kv ss))"
    using Cons.prems parse_pair [OF ok] by (intro Cons.IH) simp_all
  finally show ?case by simp
qed

lemma try_emplace_last:
  assumes "ksorted fst ss" and "\<forall>x \<in> set ss. fst x < h"
  shows "try_emplace h ss = ss @ [(h, [])]"
proof -
  have "upto_key fst h ss = ss" using assms(2) by (auto simp: upto_key_def)
  then have "lower_bound (\<lambda>x. fst x < h) ss = length ss" using lower_bound_upto [OF assms(1)] by metis
  then show ?thesis by (simp add: try_emplace_def key_hit_def insert_at_def)
qed

lemma fold_add_pair_last:
  assumes "\<forall>x \<in> set ss. fst x < h"
  shows "fold (add_pair h) kvs (ss @ [(h, xs)]) = ss @ [(h, xs @ kvs)]"
proof (induction kvs arbitrary: xs)
  case Nil
  then show ?case by simp
next
  case (Cons kv kvs)
  have "map (\<lambda>x. if fst x = h then (fst x, snd x @ [kv]) else x) ss = ss"
    using assms by (auto intro!: map_idI)
  then have "add_pair h kv (ss @ [(h, xs)]) = ss @ [(h, xs @ [kv])]" by (simp add: add_pair_def)
  with Cons.IH [of "xs @ [kv]"] show ?case by simp
qed

lemma read_section:
  assumes "clean h" and "list_all pair_ok kvs" and "ksorted fst ss" and "\<forall>x \<in> set ss. fst x < h"
  shows "read_chars (print_section (h, kvs)) ([], h0, ss) = Some ([], h, ss @ [(h, kvs)])"
proof -
  note e = try_emplace_last [OF assms(3,4)]
  have k: "has_key fst h (try_emplace h ss)" by (simp add: e has_key_def)
  have "read_chars (print_section (h, kvs)) ([], h0, ss)
      = read_chars (concat (map (\<lambda>kv. pair_line kv @ [NL]) kvs) @ [NL]) ((''['' @ h @ '']'') @ [NL], h0, ss)"
    unfolding print_section_lines fst_conv snd_conv append_assoc [of "''['' @ h @ '']''" "[NL]", symmetric]
      read_chars_append [of "(''['' @ h @ '']'') @ [NL]"] read_first [OF heading_clean [OF assms(1)]] Option.bind.bind_lunit ..
  also have "\<dots> = Some ([], h, fold (add_pair h) kvs (try_emplace h ss))"
    by (rule read_pairs [OF assms(2) parse_heading [OF assms(1)] k])
  finally show ?thesis using fold_add_pair_last [OF assms(4), of kvs "[]"] by (simp add: e)
qed

lemma read_sections:
  assumes "config_ok (ss1 @ ss2)"
  shows "\<exists>h. read_chars (print_config ss2) ([], h0, ss1) = Some ([], h, ss1 @ ss2)"
  using assms
proof (induction ss2 arbitrary: ss1 h0)
  case Nil
  then show ?case by (simp add: print_config_def)
next
  case (Cons x ss2)
  obtain h kvs where x: "x = (h, kvs)" by fastforce
  have "ksorted fst ss1" "\<forall>y \<in> set ss1. fst y < h" "clean h" "list_all pair_ok kvs"
    using Cons.prems by (auto simp: config_ok_def ksorted_append x)
  then have "read_chars (print_section x) ([], h0, ss1) = Some ([], h, ss1 @ [x])"
    unfolding x by (intro read_section)
  moreover obtain h' where "read_chars (print_config ss2) ([], h, ss1 @ [x]) = Some ([], h', ss1 @ x # ss2)"
    using Cons.IH [of "ss1 @ [x]" h] Cons.prems by auto
  ultimately show ?case by (simp add: print_config_def read_chars_append)
qed

section \<open>Addresses written in full\<close>

lemma toupper_scheme:
  assumes "map toupper p \<in> {''TCP'', ''UDP'', ''SCTP'', ''UNIX''}"
  shows "p \<noteq> []" and "list_all isalpha p" and "CHR '':'' \<notin> set p"
proof -
  have u: "isalpha c" if "isalpha (toupper c)" for c
    using that by (auto simp: isalpha_def toupper_def split: if_splits)
  have "list_all isalpha (map toupper p)" using assms by (auto simp: isalpha_def)
  then show a: "list_all isalpha p" using u by (auto simp: list_all_iff)
  show "p \<noteq> []" using assms by auto
  show "CHR '':'' \<notin> set p"
  proof
    assume "CHR '':'' \<in> set p"
    with a have "isalpha (CHR '':'')" by (auto simp: list_all_iff)
    then show False by (simp add: isalpha_def)
  qed
qed

lemma scan_protocol_scheme:
  assumes "map toupper p \<in> {''TCP'', ''UDP'', ''SCTP'', ''UNIX''}"
  shows "scan_protocol (p @ CHR '':'' # rest) = p"
proof -
  note p = toupper_scheme [OF assms]
  obtain c q where c: "p = c # q" "isalpha c" using p by (cases p) auto
  then have "\<not> isspace c" by (auto simp: isalpha_def isspace_def)
  with c have "trim_left (p @ CHR '':'' # rest) = p @ CHR '':'' # rest" by (simp add: trim_left_def)
  moreover have "list_all scheme_char p" using p(2) by (auto simp: list_all_iff scheme_char_def)
  moreover have "takeWhile (\<lambda>c. c \<noteq> CHR '':'') (p @ CHR '':'' # rest) = p" by (rule takeWhile_key(1) [OF p(3)])
  moreover have "hd (p @ CHR '':'' # rest) = c" using c by simp
  ultimately show ?thesis using c(2) by (simp add: scan_protocol_def Let_def)
qed

lemma config_address_scheme:
  assumes "map toupper p = pr" and "pr \<in> {''TCP'', ''UDP'', ''SCTP'', ''UNIX''}"
  shows "config_make_address pton (p @ ''://'' @ rest) = config_address_of pton (p @ ''://'' @ rest) pr"
    and "drop (length pr + 3) (p @ ''://'' @ rest) = rest"
proof -
  have "scan_protocol (p @ ''://'' @ rest) = p" using scan_protocol_scheme [of p "''//'' @ rest"] assms by simp
  then show "config_make_address pton (p @ ''://'' @ rest) = config_address_of pton (p @ ''://'' @ rest) pr"
    using assms by (auto simp: config_make_address_def Let_def)
  have "length pr = length p" using assms(1) by auto
  then show "drop (length pr + 3) (p @ ''://'' @ rest) = rest" by simp
qed

lemma hostname_digits:
  assumes "list_all (\<lambda>c. isdigit c \<or> c = CHR ''.'') ip"
  shows "hostname_loop n st (ip @ CHR '':'' # rest)
    = (if n + length (filter (\<lambda>c. c = CHR ''.'') ip) = 3 then IPV4 else HOSTNAME)"
  using assms
proof (induction ip arbitrary: n st)
  case Nil
  then show ?case by simp
next
  case (Cons c ip)
  have d: "c \<noteq> CHR ''['' \<and> c \<noteq> CHR '':''" if "isdigit c" using that by (auto simp: isdigit_def)
  show ?case
    using Cons.prems d by (cases "c = CHR ''.''") (simp_all add: Cons.IH)
qed

lemma takeWhile_all: "list_all P xs \<Longrightarrow> takeWhile P xs = xs"
  by (simp add: takeWhile_eq_all_conv list_all_iff)

section \<open>Properties\<close>

text \<open>C36: reading back a printed configuration gives the same sections, in the same order, with the
  same pairs, for every configuration whose headings, keys and values contain white space only as single
  blanks inside, whose keys have no equals sign, and where no pair looks like a heading.\<close>

theorem config_roundtrip:
  assumes "config_ok ss"
  shows "read_config (print_config ss) = Some ss"
proof -
  obtain h where "read_chars (print_config ss) ([], [], []) = Some ([], h, ss)"
    using read_sections [of "[]" ss "[]"] assms by auto
  then show ?thesis by (simp add: read_config_def)
qed

theorem config_roundtrip_witness:
  "read_config (print_config [(''a b'', [(''bind'', ''tcp://0.0.0.0:80''), (''mode'', ''x'')]), (''c'', [])])
     = Some [(''a b'', [(''bind'', ''tcp://0.0.0.0:80''), (''mode'', ''x'')]), (''c'', [])]"
  by (rule config_roundtrip)
    (simp add: config_ok_def pair_ok_def clean_def framed_def ksorted_def isspace_def less_list_code less_char_def)

text \<open>a configuration line takes effect only when a newline ends it: what follows the last newline of
  the file is dropped without a message.\<close>

theorem config_last_line_dropped:
  assumes "read_chars txt ([], [], []) = Some (l @ [NL], hs)" and "clean w"
  shows "read_config (txt @ w) = read_config txt"
proof -
  have r: "read_chars (txt @ w) ([], [], []) = read_chars w (l @ [NL], hs)"
    by (simp add: read_chars_append assms(1))
  have "read_chars w (l @ [NL], hs) = map_option (\<lambda>hs'. (w, hs')) (parse_line (l @ [NL]) hs)"
  proof -
    obtain c u where w: "w = c # u" "\<not> isspace c" "single_spaces u"
      using assms(2) by (cases w) (auto simp: clean_def framed_def)
    have "read_chars u ([c], hs') = Some (w, hs')" for hs' using w by (subst read_clean) auto
    then show ?thesis using w by (cases "parse_line (l @ [NL]) hs") (simp_all add: read_char_def)
  qed
  moreover have "w \<noteq> []" "last w \<noteq> NL" using assms(2) by (auto simp: clean_def framed_def)
  ultimately show ?thesis
    by (cases "parse_line (l @ [NL]) hs") (auto simp: read_config_def r assms(1))
qed

theorem config_last_line_dropped_witness:
  "read_config (''[a]'' @ [NL] @ ''k=v'') = read_config (''[a]'' @ [NL])"
  using config_last_line_dropped [of "''[a]'' @ [NL]" "''[a]''" "([], [])" "''k=v''"]
  by (simp add: read_char_def isspace_def clean_def framed_def)

text \<open>an address written as scheme, dotted numeric host and port is parsed into exactly these parts: the
  socket address has the family, the port in network order and the host's bytes; a port above 65535
  gives no address.\<close>

theorem ipv4_address_parsed:
  assumes "map toupper p = pr" and "pr \<in> {''TCP'', ''UDP'', ''SCTP''}"
    and "list_all (\<lambda>c. isdigit c \<or> c = CHR ''.'') ip" and "length (filter (\<lambda>c. c = CHR ''.'') ip) = 3"
    and "list_all isdigit port" and "port \<noteq> []" and "pton 2 ip = Some a"
  shows "config_make_address pton (p @ ''://'' @ ip @ '':'' @ port) =
    Some (if decimal port < 65536 then SOCKADDR pr (storage (le16 2 @ be16 (word_of_nat (decimal port)) @ a)) 16
          else no_address)"
proof -
  let ?host = "ip @ CHR '':'' # port" and ?line = "p @ ''://'' @ ip @ CHR '':'' # port"
  have pr: "pr \<in> {''TCP'', ''UDP'', ''SCTP'', ''UNIX''}" using assms(2) by auto
  note ma = config_address_scheme(1) [OF assms(1) pr, of pton "ip @ '':'' @ port"]
    config_address_scheme(2) [OF assms(1) pr, of "ip @ '':'' @ port"]
  have d: "\<not> isspace c" if "isdigit c \<or> c = CHR ''.''" for c using that by (auto simp: isdigit_def isspace_def)
  then have "list_all (\<lambda>c. \<not> isspace c) ?host" using assms(3,5) by (auto simp: list_all_iff)
  then have host: "scan_host ?host = ?host" by (simp add: scan_host_def takeWhile_all)
  have "isdigit c \<or> c = CHR ''.'' \<Longrightarrow> c \<noteq> CHR '':''" for c by (auto simp: isdigit_def)
  then have colon: "CHR '':'' \<notin> set ip" using assms(3) by (auto simp: list_all_iff)
  have ip: "scan_ipv4 ?host = ip" using takeWhile_key(1) [OF colon] by (simp add: scan_ipv4_def)
  have ne: "ip \<noteq> []" using assms(4) by auto
  have "hostname_type ?host = IPV4"
    using hostname_digits [OF assms(3), of 0 True port] assms(4) by (simp add: hostname_type_def)
  moreover have "make_ipv4_address pton ?host =
      (if decimal port < 65536 then Some (storage (le16 2 @ be16 (word_of_nat (decimal port)) @ a), 16) else None)"
    using ne assms(6,7) by (simp add: make_ipv4_address_def Let_def ip scan_port_def port_value_def takeWhile_all [OF assms(5)])
  moreover have "length pr = length p" using assms(1) by auto
  ultimately show ?thesis
    using ma host assms(2) by (auto simp: config_address_of_def sockaddr_of_def Let_def)
qed

lemma toupper_tcp: "map toupper ''tcp'' = ''TCP''"
  by code_simp

lemma bytes_8080: "le16 2 = [2, 0]" "be16 8080 = [31, 144]"
  by code_simp+

theorem ipv4_address_parsed_witness:
  "config_make_address (\<lambda>f s. if s = ''10.0.0.1'' then Some [10, 0, 0, 1] else None) ''tcp://10.0.0.1:8080''
     = Some (SOCKADDR ''TCP'' (storage [2, 0, 31, 144, 10, 0, 0, 1]) 16)"
  using ipv4_address_parsed [of "''tcp''" "''TCP''" "''10.0.0.1''" "''8080''"
      "\<lambda>f s. if s = ''10.0.0.1'' then Some [10, 0, 0, 1] else None" "[10, 0, 0, 1]"]
  unfolding toupper_tcp by (simp add: isdigit_def decimal_def bytes_8080)

text \<open>a line that names a socket protocol but is shorter than the scheme and its three
  separators makes the parser compute a negative length and read outside of the line.\<close>

theorem short_address_overruns:
  assumes "map toupper p \<in> {''TCP'', ''UDP'', ''SCTP'', ''UNIX''}" and "length rest < 2"
  shows "config_make_address pton (p @ '':'' @ rest) = None"
proof -
  have "scan_protocol (p @ CHR '':'' # rest) = p" using scan_protocol_scheme [OF assms(1)] .
  then show ?thesis using assms by (auto simp: config_make_address_def config_address_of_def Let_def)
qed

theorem short_address_overruns_witness: "config_make_address (\<lambda>_ _. None) ''tcp:/'' = None"
  using short_address_overruns [of "''tcp''" "''/''" "\<lambda>_ _. None"] unfolding toupper_tcp by simp

end
