(* ===== verification/Connector.thy ===== *)
theory Connector
  imports Marshaller Poller TimerQueue Metrics Interfaces
begin

unbundle bit_operations_syntax

text \<open>
  What the controller and the segment connectors share (\<^verbatim>\<open>src/connector/connectors.hpp\<close>,
  \<^verbatim>\<open>connectors.cpp\<close> and the helper functions both connector sources repeat): connections and their
  state machine, the state of a connector, its streams, and the bounded copy into a stream.

  A stream object lives in \<open>c_heap\<close> under its owner as long as an interface holds it (the interfaces
  have the only strong references); locking a weak pointer is looking its owner up. The operating
  system is the record \<open>env\<close>: which control block the next allocation gets (any function, so any order of
  owners), the kernel script of each new socket, the clocks, and the answers of the next calls of
  \<^verbatim>\<open>accept\<close>, \<^verbatim>\<open>socket\<close> and \<^verbatim>\<open>getsockopt\<close>, and whether a socket can be bound and listened on; the calls of \<^verbatim>\<open>shutdown\<close> and of the resolver are recorded. \<^verbatim>\<open>fcntl\<close> and
  \<^verbatim>\<open>setsockopt\<close> on accepted sockets succeed (their failure ends the program with an exception).
  Shown: the connection state only moves forward and is determined by the stops and aborts seen;
  its time stamps are those of the transitions; the write guard never lets a peer's put area grow
  beyond 256 MiB.
\<close>

section \<open>Connections\<close>

datatype conn_state = HALF_OPEN | OPEN | HALF_CLOSED | CLOSED

fun state_no :: "conn_state \<Rightarrow> nat" where
  "state_no HALF_OPEN = 0"
| "state_no OPEN = 1"
| "state_no HALF_CLOSED = 2"
| "state_no CLOSED = 3"

instantiation conn_state :: linorder
begin

definition less_eq_conn_state :: "conn_state \<Rightarrow> conn_state \<Rightarrow> bool" where
  "less_eq_conn_state s t \<longleftrightarrow> state_no s \<le> state_no t"

definition less_conn_state :: "conn_state \<Rightarrow> conn_state \<Rightarrow> bool" where
  "less_conn_state s t \<longleftrightarrow> state_no s < state_no t"

instance
proof
  fix x y z :: conn_state
  show "x < y \<longleftrightarrow> x \<le> y \<and> \<not> y \<le> x" by (auto simp: less_conn_state_def less_eq_conn_state_def)
  show "x \<le> x" by (simp add: less_eq_conn_state_def)
  show "x \<le> y \<Longrightarrow> y \<le> z \<Longrightarrow> x \<le> z" by (simp add: less_eq_conn_state_def)
  show "x \<le> y \<Longrightarrow> y \<le> x \<Longrightarrow> x = y"
    by (cases x; cases y) (simp_all add: less_eq_conn_state_def)
  show "x \<le> y \<or> y \<le> x" by (auto simp: less_eq_conn_state_def)
qed

end

record connection =
  cn_uuid :: uuid
  cn_north :: owner
  cn_south :: owner
  cn_times :: "int list"
  cn_state :: conn_state

definition connection_make :: "uuid \<Rightarrow> owner \<Rightarrow> owner \<Rightarrow> conn_state \<Rightarrow> int \<Rightarrow> connection" where
  "connection_make u north south state t =
     \<lparr>cn_uuid = u, cn_north = north, cn_south = south,
      cn_times = map (\<lambda>i. if i \<le> state_no state then t else 0) [0..<4], cn_state = state\<rparr>"

fun next_state :: "conn_state \<Rightarrow> conn_state" where
  "next_state HALF_OPEN = OPEN"
| "next_state OPEN = HALF_CLOSED"
| "next_state HALF_CLOSED = CLOSED"
| "next_state CLOSED = CLOSED"

text \<open>\<^verbatim>\<open>conn.timestamps->at(conn.state = s) = time\<close>\<close>

definition enter_state :: "conn_state \<Rightarrow> int \<Rightarrow> connection \<Rightarrow> connection" where
  "enter_state s time c = c\<lparr>cn_state := s, cn_times := (cn_times c)[state_no s := time]\<rparr>"

text \<open>\<^verbatim>\<open>state_update\<close> of both connectors: the \<^verbatim>\<open>switch\<close> falls through from \<^verbatim>\<open>HALF_OPEN\<close>.\<close>

definition state_update :: "msgtype \<Rightarrow> int \<Rightarrow> connection \<Rightarrow> connection" where
  "state_update type time c =
     (if cn_state c = CLOSED then c
      else
        (let c1 = (if cn_state c = HALF_OPEN then enter_state OPEN time c else c) in
         if msg_op type \<noteq> STOP then c1
         else
           (let c2 = enter_state (next_state (cn_state c1)) time c1 in
            if has_flag type ABORT then enter_state CLOSED time c2 else c2)))"

section \<open>The state of a connector\<close>

datatype accept_result = Accepted fd | AcceptErr int

text \<open>The answer of \<^verbatim>\<open>socket\<close> (\<open>None\<close> for -1) and whether \<^verbatim>\<open>setsockopt\<close> on it succeeds.\<close>

type_synonym socket_answer = "fd option \<times> bool"

text \<open>A connect callback holds the index of the interface and the north stream it captured.\<close>

datatype connect_cb = ConnectCb nat owner

text \<open>The timer callback of an idle south stream.\<close>

datatype timer_cb = IdleSouth owner

text \<open>The answers of the operating system. \<open>v_others\<close> are the descriptors that others in the process have open, the lookup library and the manager.\<close>

record env =
  v_alloc :: "nat \<Rightarrow> owner"
  v_nalloc :: nat
  v_kernels :: "nat \<Rightarrow> kernel"
  v_now :: int
  v_wall :: int
  v_ms :: u64
  v_urandom :: "byte list option list"
  v_accept :: "accept_result list"
  v_socket :: "socket_answer list"
  v_sockerr :: "fd \<Rightarrow> int"
  v_shutdown :: "fd list"
  v_resolves :: "nat list"
  v_memeq :: "byte list \<Rightarrow> bool"
  v_listen :: "fd \<Rightarrow> bool"
  v_others :: "fd list"

record ('n, 's) connector =
  c_heap :: "owner \<rightharpoonup> sockstream"
  c_north :: "connect_cb iface list"
  c_south :: "connect_cb iface list"
  c_conns :: "connection list"
  c_timeouts :: "timer_cb timeout_event list"
  c_full_duplex :: bool
  c_drain :: bool
  c_triggers :: trigger
  c_mar :: "('n, 's) marshaller"
  c_metrics :: "metric list"
  c_arrivals :: u64
  c_env :: env

abbreviation c_live :: "('n, 's, 'z) connector_scheme \<Rightarrow> owner \<Rightarrow> bool" where
  "c_live s p \<equiv> c_heap s p \<noteq> None"

definition upd_stream :: "owner \<Rightarrow> (sockstream \<Rightarrow> sockstream) \<Rightarrow> ('n, 's, 'z) connector_scheme \<Rightarrow> ('n, 's, 'z) connector_scheme" where
  "upd_stream p f s = (case c_heap s p of None \<Rightarrow> s | Some x \<Rightarrow> s\<lparr>c_heap := (c_heap s)(p \<mapsto> f x)\<rparr>)"

definition trig_set :: "fd \<Rightarrow> u32 \<Rightarrow> ('n, 's, 'z) connector_scheme \<Rightarrow> ('n, 's, 'z) connector_scheme" where
  "trig_set fd m s = s\<lparr>c_triggers := tset fd m (c_triggers s)\<rparr>"

definition trig_clear :: "fd \<Rightarrow> u32 \<Rightarrow> ('n, 's, 'z) connector_scheme \<Rightarrow> ('n, 's, 'z) connector_scheme" where
  "trig_clear fd m s = s\<lparr>c_triggers := tclear fd m (c_triggers s)\<rparr>"

text \<open>A stream that is asked for a state bit after it is gone counts as not having it.\<close>

definition eof_at :: "('n, 's, 'z) connector_scheme \<Rightarrow> owner \<Rightarrow> bool" where
  "eof_at s p = (case c_heap s p of None \<Rightarrow> False | Some x \<Rightarrow> eofbit x)"

text \<open>\<^verbatim>\<open>make_handle\<close> and the allocation of a stream object.\<close>

definition new_stream :: "fd \<Rightarrow> bool \<Rightarrow> ('n, 's, 'z) connector_scheme \<Rightarrow> owner \<times> ('n, 's, 'z) connector_scheme" where
  "new_stream fd connected s =
     (let e = c_env s; n = v_nalloc e; p = v_alloc e n
      in (p, s\<lparr>c_heap := (c_heap s)(p \<mapsto> ios_init (sockbuf_make fd connected True True (v_kernels e n))),
               c_env := e\<lparr>v_nalloc := Suc n\<rparr>\<rparr>))"

section \<open>Bounded output\<close>

definition MAX_BUFSIZE :: int where "MAX_BUFSIZE = 65536 * 4096"

text \<open>\<^verbatim>\<open>clear_triggers\<close>: returns the new \<^verbatim>\<open>revents\<close>.\<close>

definition clear_triggers :: "fd \<Rightarrow> u16 \<Rightarrow> u16 \<Rightarrow> ('n, 's, 'z) connector_scheme \<Rightarrow> u16 \<times> ('n, 's, 'z) connector_scheme" where
  "clear_triggers sockfd msk revents s = (revents AND NOT msk, trig_clear sockfd (ucast msk) s)"

text \<open>
  The guarded copy of a message payload into a stream, the controller's \<^verbatim>\<open>_south_write\<close> and the
  segment's \<^verbatim>\<open>_north_write\<close>; only the controller's tests \<^verbatim>\<open>fail()\<close> first (\<open>check\<close>). The result is the number of
  bytes, 0 for a peer that has too much pending, -1 for a broken one.
\<close>

definition guarded_write :: "bool \<Rightarrow> xmsgstream \<Rightarrow> sockstream \<Rightarrow> int \<times> xmsgstream \<times> sockstream" where
  "guarded_write check buf n =
     (case xmsg_tellg buf of (g, buf1) \<Rightarrow> (case xmsg_tellp buf1 of (p, buf2) \<Rightarrow>
        (let pos = MAX_BUFSIZE - (p - g) in
         if check \<and> fail_of n then (- 1, buf2, n)
         else
           (let n1 = (if pos \<le> sock_tellp n then sock_flush n else n) in
            if pos \<le> sock_tellp n \<and> badbit n1 then (- 1, buf2, n1)
            else if sock_tellp n1 < pos then
              (case stream_write_xmsg sock_write n1 buf2 of (n2, buf3) \<Rightarrow>
                 (if badbit n2 then - 1 else p - g, buf3, n2))
            else (0, buf2, n1)))))"

section \<open>Handlers both connectors share\<close>

text \<open>A loop over the connections, in the order of the vector, that updates them and a state.\<close>

fun conn_loop :: "(connection \<Rightarrow> 'a \<Rightarrow> connection \<times> 'a) \<Rightarrow> connection list \<Rightarrow> 'a \<Rightarrow> connection list \<times> 'a" where
  "conn_loop f [] a = ([], a)"
| "conn_loop f (c # cs) a = (case f c a of (c', a') \<Rightarrow> (case conn_loop f cs a' of (cs', a'') \<Rightarrow> (c' # cs', a'')))"

definition abort_type :: msgtype where
  "abort_type = \<lparr>msg_op = STOP, msg_flags = ABORT\<rparr>"

definition make_head :: "uuid \<Rightarrow> int \<Rightarrow> msgtype \<Rightarrow> msgheader" where
  "make_head u len type = \<lparr>msg_eid = u, msg_len = \<lparr>seqno = 1, msg_length = word_of_int len\<rparr>,
     msg_version = \<lparr>major = 0, minor = 0\<rparr>, msg_type = type\<rparr>"

definition abort_header :: "uuid \<Rightarrow> msgheader" where
  "abort_header u = make_head u 24 abort_type"

definition write_header :: "msgheader \<Rightarrow> sockstream \<Rightarrow> sockstream" where
  "write_header h x = sock_write (header_bytes h) x"

text \<open>One envelope: header, then \<open>p\<close> bytes of the buffer from its beginning.\<close>

definition send_envelope :: "msgheader \<Rightarrow> int \<Rightarrow> stringstream \<Rightarrow> sockstream \<Rightarrow> sockstream \<times> stringstream" where
  "send_envelope h p buf x = stream_write_n sstream_readsome sock_write p (write_header h x) (sstream_seekg 0 buf)"

text \<open>\<^verbatim>\<open>interface.make\<close> on the north interface \<open>i\<close> and the south interface \<open>j\<close>; returns the new handle's position.\<close>

definition north_make :: "nat \<Rightarrow> fd \<Rightarrow> bool \<Rightarrow> ('n, 's) connector \<Rightarrow> nat \<times> ('n, 's) connector" where
  "north_make i fd connected s =
     (case new_stream fd connected s of (p, s1) \<Rightarrow>
        (case iface_insert (p, fd) (c_north s1 ! i) of (k, f) \<Rightarrow> (k, s1\<lparr>c_north := (c_north s1)[i := f]\<rparr>)))"

definition south_make :: "nat \<Rightarrow> ('n, 's) connector \<Rightarrow> nat \<times> ('n, 's) connector" where
  "south_make j s =
     (case new_stream BAD_SOCKET False s of (p, s1) \<Rightarrow>
        (case iface_insert (p, BAD_SOCKET) (c_south s1 ! j) of (k, f) \<Rightarrow> (k, s1\<lparr>c_south := (c_south s1)[j := f]\<rparr>)))"

text \<open>\<^verbatim>\<open>interface.erase(stream)\<close>; the interface holds the only strong reference.\<close>

definition north_erase :: "nat \<Rightarrow> handle \<Rightarrow> ('n, 's) connector \<Rightarrow> ('n, 's) connector" where
  "north_erase i hnd s =
     s\<lparr>c_north := (c_north s)[i := iface_erase hnd (c_north s ! i)], c_heap := (c_heap s)(fst hnd := None)\<rparr>"

definition south_erase :: "nat \<Rightarrow> handle \<Rightarrow> ('n, 's) connector \<Rightarrow> ('n, 's) connector" where
  "south_erase j hnd s =
     s\<lparr>c_south := (c_south s)[j := iface_erase hnd (c_south s ! j)], c_heap := (c_heap s)(fst hnd := None)\<rparr>"

text \<open>
  The connect callback: \<open>erase\<close> is the connector's \<^verbatim>\<open>erase_connect\<close>. A socket that could not be created
  leaves \<^verbatim>\<open>BAD_SOCKET\<close> in the handle.
\<close>

definition take_socket :: "('n, 's) connector \<Rightarrow> socket_answer \<times> ('n, 's) connector" where
  "take_socket s = (case v_socket (c_env s) of
      [] \<Rightarrow> ((None, True), s)
    | a # as \<Rightarrow> (a, s\<lparr>c_env := (c_env s)\<lparr>v_socket := as\<rparr>\<rparr>))"

definition connect_run ::
  "(handle \<Rightarrow> connect_cb iface \<Rightarrow> ('n, 's) connector \<Rightarrow> connect_cb iface \<times> ('n, 's) connector) \<Rightarrow>
   nat \<Rightarrow> byte list option \<Rightarrow> nat \<Rightarrow> string \<Rightarrow> connect_cb iface \<Rightarrow> ('n, 's) connector \<Rightarrow>
   connect_cb iface \<times> ('n, 's) connector" where
  "connect_run erase i addr addrlen protocol f s =
     (case if_streams f ! i of (sptr, sockfd) \<Rightarrow>
        (case addr of
           None \<Rightarrow> erase (sptr, sockfd) f s
         | Some a \<Rightarrow>
             if sockfd \<noteq> BAD_SOCKET then (f, trig_set sockfd (POLLIN OR POLLOUT) s)
             else if \<not> (protocol = ''TCP'' \<or> protocol = ''UNIX'') then erase (sptr, sockfd) f s
             else
               (case take_socket s of
                  ((None, nodelay), s1) \<Rightarrow> erase (sptr, BAD_SOCKET) f s1
                | ((Some fd, nodelay), s1) \<Rightarrow>
                    (let f1 = f\<lparr>if_streams := (if_streams f)[i := (sptr, fd)]\<rparr> in
                     if protocol = ''TCP'' \<and> \<not> nodelay then erase (sptr, fd) f1 s1
                     else (f1, trig_set fd (POLLIN OR POLLOUT)
                            (upd_stream sptr (\<lambda>x. x\<lparr>rdbuf := snd (connectto a addrlen ((rdbuf x)\<lparr>sk_socket := fd\<rparr>))\<rparr>) s1))))))"

text \<open>\<^verbatim>\<open>_accept\<close>: interrupted calls are repeated; a failure is returned as the negated error.\<close>

fun accept_call :: "accept_result list \<Rightarrow> int \<times> accept_result list" where
  "accept_call [] = (- EAGAIN, [])"
| "accept_call (Accepted fd # as) = (fd, as)"
| "accept_call (AcceptErr e # as) = (if e = EINTR then accept_call as else (- e, as))"

text \<open>
  The accept loop on the north interface \<open>i\<close>: every accepted socket becomes a connected stream polled
  for input; the result is the negated error that ended it.
\<close>

fun accept_loop :: "nat \<Rightarrow> accept_result list \<Rightarrow> ('n, 's) connector \<Rightarrow> int \<times> ('n, 's) connector" where
  "accept_loop i [] s = (- EAGAIN, s\<lparr>c_env := (c_env s)\<lparr>v_accept := []\<rparr>\<rparr>)"
| "accept_loop i (Accepted fd # as) s = accept_loop i as (trig_set fd POLLIN (snd (north_make i fd True s)))"
| "accept_loop i (AcceptErr e # as) s =
     (if e = EINTR then accept_loop i as s else (- e, s\<lparr>c_env := (c_env s)\<lparr>v_accept := as\<rparr>\<rparr>))"

text \<open>It is the loop \<^verbatim>\<open>while( (fd = _accept(...)) >= 0 )\<close> as long as descriptors are not negative and errors are positive.\<close>

lemma accept_loop_calls:
  assumes "\<forall>a \<in> set as. case a of Accepted fd \<Rightarrow> 0 \<le> fd | AcceptErr e \<Rightarrow> 0 < e"
  shows "accept_loop i as s = (case accept_call as of (fd, as') \<Rightarrow>
    if 0 \<le> fd then accept_loop i as' (trig_set fd POLLIN (snd (north_make i fd True s)))
    else (fd, s\<lparr>c_env := (c_env s)\<lparr>v_accept := as'\<rparr>\<rparr>))"
  using assms by (induction as rule: accept_call.induct) auto

definition accept_handler :: "nat \<Rightarrow> u16 \<Rightarrow> ('n, 's) connector \<Rightarrow> int \<times> u16 \<times> ('n, 's) connector" where
  "accept_handler i revents s =
     (if c_drain s then (- 1, revents, s)
      else (case accept_loop i (v_accept (c_env s)) s of (r, s1) \<Rightarrow>
              (if r = - EAGAIN then 0 else - 1, revents AND NOT (POLLIN OR POLLHUP), s1)))"

text \<open>The four \<^verbatim>\<open>pollout\<close> handlers are the same code.\<close>

definition pollout_handler :: "handle \<Rightarrow> u16 \<Rightarrow> ('n, 's) connector \<Rightarrow> int \<times> u16 \<times> ('n, 's) connector" where
  "pollout_handler hnd revents s =
     (case hnd of (sp, sfd) \<Rightarrow>
        (case c_heap s sp of
           None \<Rightarrow> (- 1, revents, s)
         | Some x \<Rightarrow>
             (let ec = v_sockerr (c_env s) sfd;
                  x1 = (if revents AND POLLERR \<noteq> 0 \<and> ec \<noteq> 0 then x\<lparr>rdbuf := (rdbuf x)\<lparr>sk_errno := ec\<rparr>\<rparr> else x);
                  x2 = (if revents AND (POLLERR OR POLLNVAL) \<noteq> 0 then x1\<lparr>badbit := True\<rparr> else x1);
                  x3 = sock_flush x2;
                  s1 = s\<lparr>c_heap := (c_heap s)(sp \<mapsto> x3)\<rparr>
              in if fail_of x3 then (- 1, revents, s1)
                 else (0, revents AND NOT (POLLOUT OR POLLERR OR POLLNVAL),
                       if sock_tellp x3 = 0 then trig_clear sfd POLLOUT s1 else s1))))"

text \<open>
  The filter of \<^verbatim>\<open>expire_address_of\<close>. It compares the length of the put area (the \<^verbatim>\<open>iovec\<close> of the last send
  message) with the address lengths, and the bytes of the local pointer with those of the
  address; the outcome of the latter comparison is \<open>v_memeq\<close>.
\<close>

definition unexpired_of :: "sockstream \<Rightarrow> env \<Rightarrow> address list \<Rightarrow> address list" where
  "unexpired_of x e addrs =
     filter (\<lambda>a. \<not> (- 1 < ad_ttl a \<and> ad_len a = sm_iov_len (last (sk_send (rdbuf x)))
                  \<and> v_memeq e (take (ad_len a) (ad_addr a)))) addrs"

text \<open>The search for the stream an event belongs to: the first interface that has one.\<close>

fun find_stream :: "fd \<Rightarrow> nat \<Rightarrow> 'cb iface list \<Rightarrow> (nat \<times> handle) option" where
  "find_stream fd i [] = None"
| "find_stream fd i (f # fs) =
     (case find (\<lambda>h. snd h = fd) (if_streams f) of Some h \<Rightarrow> Some (i, h) | None \<Rightarrow> find_stream fd (Suc i) fs)"

text \<open>Streams on the other side whose peer can take output again are polled for input.\<close>

definition wake :: "(connection \<Rightarrow> owner) \<Rightarrow> (connection \<Rightarrow> owner) \<Rightarrow> owner \<Rightarrow> ('n, 's) connector \<Rightarrow> ('n, 's) connector" where
  "wake this other sp s =
     fold (\<lambda>c s. case c_heap s (other c) of
        Some x \<Rightarrow> if this c = sp \<and> \<not> eofbit x then trig_set (native_handle x) POLLIN s else s
      | None \<Rightarrow> s) (c_conns s) s"

text \<open>
  \<^verbatim>\<open>_handle(events)\<close>: every event with something returned goes to the stream that owns the descriptor,
  looked up on one side and then on the other (the controller asks the south side first, the
  segment the north side); events that are used up are removed, the rest goes to the resolver's
  handler (the argument \<open>resolver\<close>), and the timers that are due run.
\<close>

definition handle_side ::
  "(('n, 's) connector \<Rightarrow> connect_cb iface list) \<Rightarrow> (connection \<Rightarrow> owner) \<Rightarrow> (connection \<Rightarrow> owner) \<Rightarrow>
   (nat \<Rightarrow> handle \<Rightarrow> u16 \<Rightarrow> ('n, 's) connector \<Rightarrow> nat \<times> u16 \<times> ('n, 's) connector) \<Rightarrow>
   pollfd \<Rightarrow> ('n, 's) connector \<Rightarrow> (nat \<times> u16 \<times> ('n, 's) connector) option" where
  "handle_side ifaces this other handler ev s =
     (case find_stream (pfd_fd ev) 0 (ifaces s) of
        None \<Rightarrow> None
      | Some (j, h) \<Rightarrow> Some (handler j h (pfd_revents ev)
          (if pfd_revents ev AND (POLLOUT OR POLLERR) \<noteq> 0 then wake this other (fst h) s else s)))"

definition handle_event ::
  "(pollfd \<Rightarrow> ('n, 's) connector \<Rightarrow> (nat \<times> u16 \<times> ('n, 's) connector) option) \<Rightarrow>
   (pollfd \<Rightarrow> ('n, 's) connector \<Rightarrow> (nat \<times> u16 \<times> ('n, 's) connector) option) \<Rightarrow>
   nat \<times> ('n, 's) connector \<Rightarrow> pollfd \<Rightarrow> bool \<times> pollfd \<times> nat \<times> ('n, 's) connector" where
  "handle_event side1 side2 st ev =
     (case st of (handled, s) \<Rightarrow>
       (if pfd_revents ev = 0 then (True, ev, st)
        else (case (case side1 ev s of Some r \<Rightarrow> Some r | None \<Rightarrow> side2 ev s) of
            Some (n, r, s') \<Rightarrow> (r = 0, ev\<lparr>pfd_revents := r\<rparr>, handled + n, s')
          | None \<Rightarrow> (False, ev, st))))"

definition handle_events ::
  "(pollfd list \<Rightarrow> ('n, 's) connector \<Rightarrow> nat \<times> pollfd list \<times> ('n, 's) connector) \<Rightarrow>
   (timer_cb \<Rightarrow> ('n, 's) connector \<Rightarrow> ('n, 's) connector) \<Rightarrow>
   (pollfd \<Rightarrow> ('n, 's) connector \<Rightarrow> (nat \<times> u16 \<times> ('n, 's) connector) option) \<Rightarrow>
   (pollfd \<Rightarrow> ('n, 's) connector \<Rightarrow> (nat \<times> u16 \<times> ('n, 's) connector) option) \<Rightarrow>
   pollfd list \<Rightarrow> ('n, 's) connector \<Rightarrow> nat \<times> pollfd list \<times> ('n, 's) connector" where
  "handle_events resolver timer side1 side2 events s =
     (case remove_if_st (handle_event side1 side2) (0, s) events of (events1, handled, s1) \<Rightarrow>
        (case resolver events1 s1 of (n, events2, s2) \<Rightarrow>
           (case process_events (v_now (c_env s2)) (c_timeouts s2) of (_, cbs, q) \<Rightarrow>
              (handled + n, events2, fold timer cbs (s2\<lparr>c_timeouts := q\<rparr>)))))"

section \<open>Frames\<close>

text \<open>What the small operations on the state leave alone.\<close>

lemma trig_frame [simp]:
  "c_heap (trig_set fd m s) = c_heap s" "c_north (trig_set fd m s) = c_north s" "c_south (trig_set fd m s) = c_south s"
  "c_conns (trig_set fd m s) = c_conns s" "c_mar (trig_set fd m s) = c_mar s" "c_env (trig_set fd m s) = c_env s"
  "c_metrics (trig_set fd m s) = c_metrics s" "c_full_duplex (trig_set fd m s) = c_full_duplex s"
  "c_drain (trig_set fd m s) = c_drain s" "c_timeouts (trig_set fd m s) = c_timeouts s"
  "c_heap (trig_clear fd m s) = c_heap s" "c_north (trig_clear fd m s) = c_north s" "c_south (trig_clear fd m s) = c_south s"
  "c_conns (trig_clear fd m s) = c_conns s" "c_mar (trig_clear fd m s) = c_mar s" "c_env (trig_clear fd m s) = c_env s"
  "c_metrics (trig_clear fd m s) = c_metrics s" "c_full_duplex (trig_clear fd m s) = c_full_duplex s"
  "c_drain (trig_clear fd m s) = c_drain s" "c_timeouts (trig_clear fd m s) = c_timeouts s"
  by (simp_all add: trig_set_def trig_clear_def)

lemma upd_stream_heap: "c_heap (upd_stream p f s) = (c_heap s)(p := map_option f (c_heap s p))"
  by (auto simp: upd_stream_def fun_eq_iff split: option.split)

lemma upd_stream_frame [simp]:
  "c_north (upd_stream p f s) = c_north s" "c_south (upd_stream p f s) = c_south s" "c_conns (upd_stream p f s) = c_conns s"
  "c_mar (upd_stream p f s) = c_mar s" "c_env (upd_stream p f s) = c_env s" "c_triggers (upd_stream p f s) = c_triggers s"
  by (simp_all add: upd_stream_def split: option.split)

lemma conn_loop_append:
  "conn_loop f (xs @ ys) a = (case conn_loop f xs a of (xs', a') \<Rightarrow> (case conn_loop f ys a' of (ys', a'') \<Rightarrow> (xs' @ ys', a'')))"
  by (induction xs arbitrary: a) (simp_all split: prod.split)

lemma conn_loop_length [simp]: "length (fst (conn_loop f cs a)) = length cs"
proof (induction cs arbitrary: a)
  case (Cons c cs)
  obtain c' a' where f: "f c a = (c', a')" by fastforce
  show ?case using Cons.IH [of a'] by (cases "conn_loop f cs a'") (simp add: f)
qed simp

text \<open>A loop whose body keeps a property of the state keeps it.\<close>

lemma conn_loop_invariant:
  assumes "I a" and "\<And>c a. c \<in> set cs \<Longrightarrow> I a \<Longrightarrow> I (snd (f c a))"
  shows "I (snd (conn_loop f cs a))"
  using assms
proof (induction cs arbitrary: a)
  case Nil
  then show ?case by simp
next
  case (Cons c cs)
  obtain c' a' where f: "f c a = (c', a')" by fastforce
  have "I a'" using Cons.prems(2) [of c a] Cons.prems(1) f by simp
  then have "I (snd (conn_loop f cs a'))" using Cons.prems(2) by (intro Cons.IH) auto
  then show ?case by (cases "conn_loop f cs a'") (simp add: f)
qed

text \<open>A loop whose body computes the new connection from the old one alone maps it over the list.\<close>

lemma conn_loop_map:
  assumes "\<And>c a. c \<in> set cs \<Longrightarrow> I a \<Longrightarrow> fst (f c a) = g c \<and> I (snd (f c a))" and "I a"
  shows "fst (conn_loop f cs a) = map g cs"
  using assms
proof (induction cs arbitrary: a)
  case Nil
  then show ?case by simp
next
  case (Cons c cs)
  obtain c' a' where f: "f c a = (c', a')" by fastforce
  have "c' = g c" "I a'" using Cons.prems(1) [of c a] Cons.prems(2) f by simp_all
  moreover have "fst (conn_loop f cs a') = map g cs" using Cons.prems(1) calculation(2) by (intro Cons.IH) auto
  ultimately show ?case by (cases "conn_loop f cs a'") (simp add: f)
qed

section \<open>Connecting keeps the selection state\<close>

text \<open>The contract \<open>connect_callbacks\<close> of the interfaces holds for a callback whose \<^verbatim>\<open>erase_connect\<close> keeps it.\<close>

lemma connect_run_selection:
  assumes "\<And>hnd f s g s'. erase hnd f s = (g, s') \<Longrightarrow>
      if_addresses g = if_addresses f \<and> if_total g = if_total f \<and> if_prio g = if_prio f \<and> if_idx g = if_idx f"
    and "connect_run erase i addr len proto f s = (g, s')"
  shows "if_addresses g = if_addresses f \<and> if_total g = if_total f \<and> if_prio g = if_prio f \<and> if_idx g = if_idx f"
  using assms(2)
  by (auto simp: connect_run_def Let_def split: prod.splits option.splits if_splits dest!: assms(1))

section \<open>The write guard\<close>

lemma xmsg_tell:
  assumes "xb_inv (rdbuf buf)" and "good buf"
  shows "\<exists>buf1. xmsg_tellg buf = (int (xb_gptr (rdbuf buf)), buf1) \<and> good buf1 \<and> xb_inv (rdbuf buf1)
      \<and> xb_bytes (rdbuf buf1) = xb_bytes (rdbuf buf) \<and> xb_gptr (rdbuf buf1) = xb_gptr (rdbuf buf)
      \<and> xb_pptr (rdbuf buf1) = xb_pptr (rdbuf buf) \<and> xb_mem (rdbuf buf1) = xb_mem (rdbuf buf)"
    and "\<exists>buf1. xmsg_tellp buf = (int (xb_pptr (rdbuf buf)), buf1) \<and> good buf1 \<and> xb_inv (rdbuf buf1)
      \<and> xb_bytes (rdbuf buf1) = xb_bytes (rdbuf buf) \<and> xb_gptr (rdbuf buf1) = xb_gptr (rdbuf buf)
      \<and> xb_pptr (rdbuf buf1) = xb_pptr (rdbuf buf) \<and> xb_mem (rdbuf buf1) = xb_mem (rdbuf buf)"
  using assms
  by (auto simp: tellg_def tellp_def good_def fail_of_def xb_seekoff_def xb_seekpos_in_def xb_seekpos_out_def xb_inv_def xb_bytes_def)

lemma stream_write_xmsg_pending:
  assumes "xb_complete (rdbuf is)" and "good is" and "sk_out_inv (rdbuf os)"
    and "stream_write_xmsg sock_write os is = (os', is')"
  shows "length (sk_pending (rdbuf os')) \<le> length (sk_pending (rdbuf os)) + length (xb_unread (rdbuf is))
    \<and> (sk_single (rdbuf os) \<longrightarrow> sk_single (rdbuf os')) \<and> native_handle os' = native_handle os \<and> eofbit os' = eofbit os"
  using assms
proof (induction "sock_write" os "is" arbitrary: os' is' rule: stream_write_xmsg.induct)
  case (1 os "is")
  obtain bs is1 where r: "xmsg_readsome 256 is = (bs, is1)" by fastforce
  note rd = xmsg_readsome_complete [OF "1.prems"(1,2) r zero_less_numeral]
  let ?os1 = "sock_write bs os"
  have eq: "(os', is') = (if bs = [] then (os, is1) else if badbit ?os1 then (?os1, is1)
      else stream_write_xmsg sock_write ?os1 is1)"
    using "1.prems"(4) unfolding stream_write_xmsg.simps [of _ os "is"] r prod.case Let_def by (rule sym)
  have p: "length (sk_pending (rdbuf ?os1)) \<le> length (sk_pending (rdbuf os)) + length bs"
    by (rule sock_write_pending [OF "1.prems"(3)])
  show ?case
  proof (cases "bs = [] \<or> badbit ?os1")
    case True
    then have "os' = os \<and> bs = [] \<or> os' = ?os1" using eq by (auto split: if_splits)
    moreover have "length bs \<le> length (xb_unread (rdbuf is))" using rd by simp
    ultimately show ?thesis using p sock_write_single [of os bs] by (elim disjE conjE) simp_all
  next
    case False
    then have nb: "bs \<noteq> []" "\<not> badbit ?os1" by blast+
    have "stream_write_xmsg sock_write ?os1 is1 = (os', is')"
      using eq [unfolded if_not_P [OF nb(1)] if_not_P [OF nb(2)]] by (rule sym)
    moreover have "bs \<noteq> []" "\<not> badbit ?os1" "xb_complete (rdbuf is1)" "good is1" using nb rd by blast+
    moreover note sock_write_inv [OF "1.prems"(3), of bs]
    ultimately have "length (sk_pending (rdbuf os')) \<le> length (sk_pending (rdbuf ?os1)) + length (xb_unread (rdbuf is1))
      \<and> (sk_single (rdbuf ?os1) \<longrightarrow> sk_single (rdbuf os')) \<and> native_handle os' = native_handle ?os1
      \<and> eofbit os' = eofbit ?os1"
      by (intro "1.hyps" [OF r [symmetric] _ refl])
    moreover have "length (xb_unread (rdbuf is)) = length bs + length (xb_unread (rdbuf is1))" using rd by simp
    ultimately show ?thesis using p sock_write_single [of os bs] by simp
  qed
qed

text \<open>What the guard does with a complete message and a good peer.\<close>

lemma guarded_write_spec:
  assumes "xb_complete (rdbuf buf)" and "good buf" and "good n" and "sk_single (rdbuf n)"
    and "guarded_write chk buf n = (len, buf', n')"
  shows "sk_single (rdbuf n') \<and> native_handle n' = native_handle n \<and> eofbit n' = eofbit n
    \<and> (if xb_unread (rdbuf buf) \<noteq> [] \<and> len = 0
       then sk_stream (rdbuf n') = sk_stream (rdbuf n) \<and> xb_bytes (rdbuf buf') = xb_bytes (rdbuf buf)
         \<and> xb_unread (rdbuf buf') = xb_unread (rdbuf buf) \<and> good buf' \<and> (\<not> badbit n' \<longrightarrow> good n')
       else \<not> badbit n' \<longrightarrow> good n' \<and> len = int (length (xb_unread (rdbuf buf)))
         \<and> sk_stream (rdbuf n') = sk_stream (rdbuf n) @ xb_unread (rdbuf buf)
         \<and> xb_bytes (rdbuf buf') = xb_bytes (rdbuf buf) \<and> xb_unread (rdbuf buf') = [])
    \<and> (int (length (sk_pending (rdbuf n))) \<le> MAX_BUFSIZE \<longrightarrow> int (length (sk_pending (rdbuf n'))) \<le> MAX_BUFSIZE)"
proof -
  have inv: "xb_inv (rdbuf buf)" using assms(1) by (simp add: xb_complete_def)
  obtain buf1 where b1: "xmsg_tellg buf = (int (xb_gptr (rdbuf buf)), buf1)" "good buf1" "xb_inv (rdbuf buf1)"
      "xb_bytes (rdbuf buf1) = xb_bytes (rdbuf buf)" "xb_gptr (rdbuf buf1) = xb_gptr (rdbuf buf)"
      "xb_pptr (rdbuf buf1) = xb_pptr (rdbuf buf)" "xb_mem (rdbuf buf1) = xb_mem (rdbuf buf)"
    using xmsg_tell(1) [OF inv assms(2)] by blast
  obtain buf2 where b2: "xmsg_tellp buf1 = (int (xb_pptr (rdbuf buf)), buf2)" "good buf2" "xb_inv (rdbuf buf2)"
      "xb_bytes (rdbuf buf2) = xb_bytes (rdbuf buf)" "xb_gptr (rdbuf buf2) = xb_gptr (rdbuf buf)"
      "xb_pptr (rdbuf buf2) = xb_pptr (rdbuf buf)" "xb_mem (rdbuf buf2) = xb_mem (rdbuf buf)"
    using xmsg_tell(2) [OF b1(3,2)] b1 by metis
  have c2: "xb_complete (rdbuf buf2)"
    using assms(1) b2 len_is_cong [of "rdbuf buf2" "rdbuf buf"] by (simp add: xb_complete_def)
  have u2: "xb_unread (rdbuf buf2) = xb_unread (rdbuf buf)" using b2 by (simp add: xb_unread_def)
  let ?u = "xb_unread (rdbuf buf)"
  have len: "int (xb_pptr (rdbuf buf)) - int (xb_gptr (rdbuf buf)) = int (length ?u)"
    using inv length_xb_bytes [OF inv] by (auto simp: xb_unread_def xb_inv_def)
  define pos where "pos = MAX_BUFSIZE - int (length ?u)"
  define n1 where "n1 = (if pos \<le> sock_tellp n then sock_flush n else n)"
  have n1: "sk_single (rdbuf n1)" "sk_stream (rdbuf n1) = sk_stream (rdbuf n)" "native_handle n1 = native_handle n" "eofbit n1 = eofbit n"
      "length (sk_pending (rdbuf n1)) \<le> length (sk_pending (rdbuf n))"
    using assms(4) sock_flush_single [OF assms(4)] sock_flush_stream [OF sk_single_inv [OF assms(4)]]
      sock_flush_pending [OF sk_single_inv [OF assms(4)]] by (simp_all add: n1_def)
  have g1: "\<not> badbit n1 \<Longrightarrow> good n1" using assms(3) by (auto simp: n1_def ostream_flush_def good_def split: prod.splits)
  have t1: "sock_tellp n1 = int (length (sk_pending (rdbuf n1)))" if "\<not> badbit n1"
    using sock_tellp_single [OF n1(1)] g1 [OF that] by (simp add: fail_of_def good_def)
  have fl: "\<not> fail_of n" using assms(3) by (simp add: good_def fail_of_def)
  have eq: "(len, buf', n') =
     (if pos \<le> sock_tellp n \<and> badbit n1 then (- 1, buf2, n1)
      else if sock_tellp n1 < pos then
        (case stream_write_xmsg sock_write n1 buf2 of (n2, buf3) \<Rightarrow> (if badbit n2 then - 1 else int (length ?u), buf3, n2))
      else (0, buf2, n1))"
    using assms(5) unfolding guarded_write_def b1(1) b2(1) prod.case Let_def n1_def [symmetric] pos_def [symmetric] len
    by (simp add: fl)
  obtain n2 buf3 where w: "stream_write_xmsg sock_write n1 buf2 = (n2, buf3)" by fastforce
  consider (broken) "pos \<le> sock_tellp n \<and> badbit n1"
    | (full) "\<not> (pos \<le> sock_tellp n \<and> badbit n1)" and "\<not> sock_tellp n1 < pos"
    | (room) "\<not> (pos \<le> sock_tellp n \<and> badbit n1)" and "sock_tellp n1 < pos" by blast
  then show ?thesis
  proof cases
    case broken
    then show ?thesis using eq n1 by auto
  next
    case full
    then have "(len, buf', n') = (0, buf2, n1)" using eq by simp
    moreover have "\<not> badbit n1" using full assms(3) by (auto simp: n1_def good_def)
    then have "?u \<noteq> [] \<or> int (length (sk_pending (rdbuf n1))) = MAX_BUFSIZE \<or> MAX_BUFSIZE < int (length (sk_pending (rdbuf n1)))"
      using full t1 by (cases "?u = []") (auto simp: pos_def)
    ultimately show ?thesis using n1 b2 u2 g1 \<open>\<not> badbit n1\<close> by auto
  next
    case room
    then have eq': "(len, buf', n') = (if badbit n2 then - 1 else int (length ?u), buf3, n2)"
      using eq [unfolded if_not_P [OF room(1)] if_P [OF room(2)] w prod.case] by simp
    have nb: "\<not> badbit n1" using room assms(3) by (auto simp: n1_def good_def)
    note mv = output_buffer.stream_write_xmsg_moves [OF sk_out.output_buffer_axioms c2 b2(2) g1 [OF nb] sk_single_inv [OF n1(1)] w]
    note pd = stream_write_xmsg_pending [OF c2 b2(2) sk_single_inv [OF n1(1)] w]
    have "int (length (sk_pending (rdbuf n2))) \<le> MAX_BUFSIZE"
      using pd u2 room(2) t1 [OF nb] by (simp add: pos_def)
    then show ?thesis using eq' mv pd u2 n1 b2 by auto
  qed
qed

section \<open>What is sent\<close>

text \<open>
  \<open>sends w x x'\<close>: from \<open>x\<close> to \<open>x'\<close> a stream socket that was good and did not break has accepted exactly the
  bytes \<open>w\<close>. \<open>carried w h h'\<close> says this of every stream of the heap, with the bytes \<open>w q\<close> for stream \<open>q\<close>.
\<close>

definition sends :: "byte list \<Rightarrow> sockstream \<Rightarrow> sockstream \<Rightarrow> bool" where
  "sends w x x' \<longleftrightarrow> (sk_single (rdbuf x) \<longrightarrow> sk_single (rdbuf x')) \<and> eofbit x' = eofbit x
     \<and> native_handle x' = native_handle x \<and> (badbit x \<longrightarrow> badbit x')
     \<and> (sk_single (rdbuf x) \<and> good x \<and> \<not> badbit x' \<longrightarrow> good x' \<and> sk_stream (rdbuf x') = sk_stream (rdbuf x) @ w)"

definition carried :: "(owner \<Rightarrow> byte list) \<Rightarrow> (owner \<rightharpoonup> sockstream) \<Rightarrow> (owner \<rightharpoonup> sockstream) \<Rightarrow> bool" where
  "carried w h h' \<longleftrightarrow> (\<forall>q. rel_option (sends (w q)) (h q) (h' q))"

lemma sends_refl: "sends [] x x"
  by (simp add: sends_def)

lemma sends_trans: "sends v x y \<Longrightarrow> sends w y z \<Longrightarrow> sends (v @ w) x z"
  by (auto simp: sends_def)

lemma sends_write: "sends bs x (sock_write bs x)"
proof -
  have "badbit x \<longrightarrow> badbit (sock_write bs x)" by (simp add: ostream_write_def good_def)
  then show ?thesis
    using sock_write_single [of x bs] sk_out.write_accepts(2) [OF sk_single_inv, of x bs]
    by (auto simp: sends_def)
qed

lemma sends_flush: "sends [] x (sock_flush x)"
proof -
  have "badbit x \<longrightarrow> badbit (sock_flush x)" by (simp add: ostream_flush_def good_def)
  moreover have "good x \<Longrightarrow> \<not> badbit (sock_flush x) \<Longrightarrow> good (sock_flush x)"
    by (auto simp: ostream_flush_def good_def split: prod.splits)
  ultimately show ?thesis
    using sock_flush_single [of x] sock_flush_stream [OF sk_single_inv, of x] by (auto simp: sends_def)
qed

lemma guarded_write_sends:
  assumes "xb_complete (rdbuf buf)" and "good buf" and "good n" and "sk_single (rdbuf n)"
    and "guarded_write chk buf n = (len, buf', n')"
  shows "sends (if xb_unread (rdbuf buf) \<noteq> [] \<and> len = 0 then [] else xb_unread (rdbuf buf)) n n'"
    and "xb_unread (rdbuf buf) \<noteq> [] \<Longrightarrow> len = 0 \<Longrightarrow> good buf' \<and> xb_unread (rdbuf buf') = xb_unread (rdbuf buf)"
    and "int (length (sk_pending (rdbuf n))) \<le> MAX_BUFSIZE \<Longrightarrow> int (length (sk_pending (rdbuf n'))) \<le> MAX_BUFSIZE"
proof -
  note gs = guarded_write_spec [OF assms]
  show "sends (if xb_unread (rdbuf buf) \<noteq> [] \<and> len = 0 then [] else xb_unread (rdbuf buf)) n n'"
    using gs assms(3) by (auto simp: sends_def good_def split: if_splits)
  show "xb_unread (rdbuf buf) \<noteq> [] \<Longrightarrow> len = 0 \<Longrightarrow> good buf' \<and> xb_unread (rdbuf buf') = xb_unread (rdbuf buf)"
    using gs by simp
  show "int (length (sk_pending (rdbuf n))) \<le> MAX_BUFSIZE \<Longrightarrow> int (length (sk_pending (rdbuf n'))) \<le> MAX_BUFSIZE"
    using gs by blast
qed

lemma carried_refl: "carried (\<lambda>_. []) h h"
  by (auto simp: carried_def intro!: option.rel_refl sends_refl)

lemma carried_at: "carried w h h' \<Longrightarrow> h q = Some x \<Longrightarrow> \<exists>x'. h' q = Some x' \<and> sends (w q) x x'"
  unfolding carried_def by (metis option_rel_Some1)

lemma carried_none: "carried w h h' \<Longrightarrow> h q = None \<Longrightarrow> h' q = None"
  unfolding carried_def by (metis rel_option_None1)

lemma carried_trans:
  assumes "carried v h h1" and "carried w h1 h2"
  shows "carried (\<lambda>q. v q @ w q) h h2"
  unfolding carried_def
proof
  fix q
  show "rel_option (sends (v q @ w q)) (h q) (h2 q)"
  proof (cases "h q")
    case None
    then show ?thesis using carried_none [OF assms(1)] carried_none [OF assms(2)] by simp
  next
    case (Some x)
    obtain x1 where x1: "h1 q = Some x1" "sends (v q) x x1" using carried_at [OF assms(1) Some] by blast
    obtain x2 where "h2 q = Some x2" "sends (w q) x1 x2" using carried_at [OF assms(2) x1(1)] by blast
    then show ?thesis using Some sends_trans [OF x1(2)] by simp
  qed
qed

lemma carried_upd:
  "h q = Some x \<Longrightarrow> sends w x x' \<Longrightarrow> carried (\<lambda>p. if p = q then w else []) h (h(q \<mapsto> x'))"
  by (auto simp: carried_def intro!: option.rel_refl sends_refl)

lemma carried_live: "carried w h h' \<Longrightarrow> h' q = None \<longleftrightarrow> h q = None"
  using carried_none [of w h h' q] carried_at [of w h h' q] by (cases "h q") auto

text \<open>A bounded copy out of a string buffer that has enough unread bytes moves exactly as many as asked for.\<close>

lemma sstream_readsome_exact:
  assumes "good is" and "sb_get (rdbuf is) < length (sb_data (rdbuf is))" and "0 < m"
    and "sstream_readsome m is = (bs, is')"
  shows "bs = take m (drop (sb_get (rdbuf is)) (sb_data (rdbuf is)))" and "bs \<noteq> []" and "good is'"
    and "rdbuf is' = (rdbuf is)\<lparr>sb_get := sb_get (rdbuf is) + length bs\<rparr>"
proof -
  let ?u = "drop (sb_get (rdbuf is)) (sb_data (rdbuf is))"
  have n: "nat (int (length (sb_data (rdbuf is))) - int (sb_get (rdbuf is))) = length ?u" by auto
  have t: "take (min m (length ?u)) ?u = take m ?u" by (simp add: min_def)
  show bs: "bs = take m ?u"
    using assms t unfolding readsome_def sb_in_avail_def sb_sgetn_def Let_def prod.case n by auto
  show "bs \<noteq> []" using bs assms(2,3) by auto
  show "good is'" "rdbuf is' = (rdbuf is)\<lparr>sb_get := sb_get (rdbuf is) + length bs\<rparr>"
    using assms unfolding readsome_def sb_in_avail_def sb_sgetn_def Let_def prod.case by (auto simp: good_def)
qed

lemma sends_copy:
  assumes "good is" and "0 < m" and "m \<le> length (drop (sb_get (rdbuf is)) (sb_data (rdbuf is)))"
    and "copy_upto sstream_readsome sock_write m os is = (os', is')"
  shows "sends (take m (drop (sb_get (rdbuf is)) (sb_data (rdbuf is)))) os os' \<and> good is'
    \<and> sb_data (rdbuf is') = sb_data (rdbuf is) \<and> sb_put (rdbuf is') = sb_put (rdbuf is)
    \<and> sb_get (rdbuf is') \<le> length (sb_data (rdbuf is')) \<and> (\<not> badbit os' \<longrightarrow> sb_get (rdbuf is') = sb_get (rdbuf is) + m)"
  using assms
proof (induction "sstream_readsome" "sock_write" m os "is" arbitrary: os' is' rule: copy_upto.induct)
  case (1 m os "is")
  let ?u = "drop (sb_get (rdbuf is)) (sb_data (rdbuf is))"
  obtain bs is1 where r: "sstream_readsome (min m 256) is = (bs, is1)" by fastforce
  have lt: "sb_get (rdbuf is) < length (sb_data (rdbuf is))" and m0: "0 < min m 256" using "1.prems"(2,3) by auto
  note rd = sstream_readsome_exact [OF "1.prems"(1) lt m0 r]
  have lb: "length bs = min m 256" "bs = take (length bs) ?u" using rd(1) "1.prems"(3) by auto
  have u1: "drop (sb_get (rdbuf is1)) (sb_data (rdbuf is1)) = drop (length bs) ?u" using rd(4) by (simp add: add.commute)
  let ?os1 = "sock_write bs os"
  have w: "sends bs os ?os1" by (rule sends_write)
  have eq: "(os', is') = (if bs = [] then (os, is1) else if badbit ?os1 then (?os1, is1)
      else if m \<le> length bs then (?os1, is1) else copy_upto sstream_readsome sock_write (m - length bs) ?os1 is1)"
    using "1.prems"(4) unfolding copy_upto.simps [of _ _ m os "is"] r prod.case Let_def by (rule sym)
  note eq1 = eq [unfolded if_not_P [OF rd(2)]]
  show ?case
  proof (cases "badbit ?os1 \<or> m \<le> length bs")
    case True
    then have e: "os' = ?os1" "is' = is1" using eq1 by (auto split: if_splits)
    have "badbit ?os1 \<Longrightarrow> sends v os ?os1" for v using w by (simp add: sends_def)
    moreover have "m \<le> length bs \<Longrightarrow> take m ?u = bs \<and> length bs = m" using lb by auto
    moreover have "sb_get (rdbuf is) + length bs \<le> length (sb_data (rdbuf is))" using lt rd(1) by auto
    ultimately show ?thesis using True w e rd(3,4) by auto
  next
    case False
    then have nb: "\<not> badbit ?os1" "\<not> m \<le> length bs" by blast+
    have c: "copy_upto sstream_readsome sock_write (m - length bs) ?os1 is1 = (os', is')"
      using eq1 [unfolded if_not_P [OF nb(1)] if_not_P [OF nb(2)]] by (rule sym)
    have "0 < m - length bs" "m - length bs \<le> length (drop (sb_get (rdbuf is1)) (sb_data (rdbuf is1)))"
      using nb "1.prems"(3) unfolding u1 by simp_all
    note ih = "1.hyps" [OF r [symmetric] rd(2) refl nb rd(3) this c]
    have "take m ?u = bs @ take (m - length bs) (drop (length bs) ?u)"
      using lb nb(2) by (metis append_take_drop_id le_add_diff_inverse nat_le_linear take_add)
    then have "sends (take m ?u) os os'" using sends_trans [OF w] ih u1 by metis
    then show ?thesis using ih rd(4) nb(2) by auto
  qed
qed

section \<open>Envelopes\<close>

text \<open>The plain-side buffer of a client: not failed, positions inside the data.\<close>

definition ss_ok :: "nat \<Rightarrow> byte list \<Rightarrow> stringstream \<Rightarrow> bool" where
  "ss_ok p payload buf \<longleftrightarrow> \<not> failbit buf \<and> \<not> badbit buf \<and> sb_inv (rdbuf buf) \<and> sb_put (rdbuf buf) = p
     \<and> take p (sb_data (rdbuf buf)) = payload"

lemma ss_ok_length: "ss_ok p payload buf \<Longrightarrow> length payload = p"
  by (auto simp: ss_ok_def sb_inv_def)

lemma ss_ok_tellp: "ss_ok p payload buf \<Longrightarrow> sstream_tellp buf = (int p, buf)"
  by (simp add: ss_ok_def tellp_def fail_of_def)

lemma send_envelope_sends:
  assumes "ss_ok p payload buf" and "send_envelope h (int p) buf x = (x', buf')"
  shows "sends (header_bytes h @ payload) x x' \<and> ss_ok p payload buf'"
proof -
  have b0: "sstream_seekg 0 buf = buf\<lparr>eofbit := False, rdbuf := (rdbuf buf)\<lparr>sb_get := 0\<rparr>, failbit := False\<rparr>" (is "_ = ?b")
    using assms(1) by (simp add: seekg_def Let_def good_def ss_ok_def sb_seekpos_in_def)
  have g: "good ?b" "sb_get (rdbuf ?b) = 0" "sb_data (rdbuf ?b) = sb_data (rdbuf buf)" "sb_put (rdbuf ?b) = p"
    "p \<le> length (sb_data (rdbuf buf))"
    using assms(1) by (auto simp: good_def ss_ok_def sb_inv_def)
  have w: "sends (header_bytes h) x (write_header h x)" unfolding write_header_def by (rule sends_write)
  show ?thesis
  proof (cases "p = 0")
    case True
    then have "x' = write_header h x" "buf' = ?b" "payload = []"
      using assms by (auto simp: send_envelope_def stream_write_n_def b0 ss_ok_def)
    then show ?thesis using w assms(1) True by (auto simp: ss_ok_def sb_inv_def)
  next
    case False
    then have c: "copy_upto sstream_readsome sock_write p (write_header h x) ?b = (x', buf')"
      using assms(2) by (simp add: send_envelope_def stream_write_n_def b0)
    have le: "p \<le> length (drop (sb_get (rdbuf ?b)) (sb_data (rdbuf ?b)))" using g by simp
    note cp = sends_copy [OF g(1) _ le c]
    have "sends payload (write_header h x) x'" "ss_ok p payload buf'"
    proof -
      show "sends payload (write_header h x) x'" using cp False assms(1) by (simp add: ss_ok_def)
      show "ss_ok p payload buf'" using cp False assms(1) by (auto simp: ss_ok_def good_def sb_inv_def)
    qed
    with sends_trans [OF w] show ?thesis by simp
  qed
qed

section \<open>Complete messages\<close>

lemma xmsg_tell_exact:
  assumes "xb_inv (rdbuf buf)" and "good buf"
  shows "xmsg_tellp buf = (int (xb_pptr (rdbuf buf)), buf\<lparr>rdbuf := (rdbuf buf)\<lparr>xb_egptr := xb_pptr (rdbuf buf)\<rparr>\<rparr>)"
    and "xmsg_tellg buf = (int (xb_gptr (rdbuf buf)), buf\<lparr>rdbuf := (rdbuf buf)\<lparr>xb_egptr := xb_pptr (rdbuf buf)\<rparr>\<rparr>)"
  using assms
  by (simp_all add: tellg_def tellp_def good_def fail_of_def xb_seekoff_def xb_seekpos_in_def xb_seekpos_out_def xb_inv_def)

lemma xmsg_seekg_exact:
  assumes "good buf" and "n \<le> xb_pptr (rdbuf buf)"
  shows "xmsg_seekg (int n) buf = buf\<lparr>rdbuf := (rdbuf buf)\<lparr>xb_gptr := n, xb_egptr := xb_pptr (rdbuf buf)\<rparr>\<rparr>"
  using assms by (cases buf) (simp add: seekg_def Let_def good_def xb_seekpos_in_def)

text \<open>A complete message whose payload has not been read yet, as the south reader hands it over.\<close>

definition fresh_message :: "xmsgstream \<Rightarrow> uuid \<Rightarrow> msgtype \<Rightarrow> byte list \<Rightarrow> bool" where
  "fresh_message buf eid type payload \<longleftrightarrow> xb_complete (rdbuf buf) \<and> good buf \<and> 24 \<le> xb_pptr (rdbuf buf) \<and> xb_gptr (rdbuf buf) \<le> 24
     \<and> xb_eid (rdbuf buf) = Some eid \<and> xb_type (rdbuf buf) = Some type \<and> drop 24 (xb_bytes (rdbuf buf)) = payload"

abbreviation at_payload :: "xmsgstream \<Rightarrow> xmsgstream" where
  "at_payload buf \<equiv> buf\<lparr>rdbuf := (rdbuf buf)\<lparr>xb_gptr := 24, xb_egptr := xb_pptr (rdbuf buf)\<rparr>\<rparr>"

lemma at_payload_complete:
  assumes "fresh_message buf eid type payload"
  shows "xb_complete (rdbuf (at_payload buf)) \<and> good (at_payload buf) \<and> xb_unread (rdbuf (at_payload buf)) = payload"
proof -
  let ?b = "(rdbuf buf)\<lparr>xb_gptr := 24, xb_egptr := xb_pptr (rdbuf buf)\<rparr>"
  have "len_is ?b n \<longleftrightarrow> len_is (rdbuf buf) n" for n by (intro len_is_cong) simp_all
  then show ?thesis
    using assms by (auto simp: fresh_message_def xb_complete_def xb_inv_def good_def xb_unread_def xb_bytes_def)
qed

text \<open>What the positions and fields of such a message read as.\<close>

lemma fresh_message_fields:
  assumes "fresh_message buf eid type payload" and "b2 = buf\<lparr>rdbuf := (rdbuf buf)\<lparr>xb_egptr := xb_pptr (rdbuf buf)\<rparr>\<rparr>"
  shows "xmsg_tellp buf = (24 + int (length payload), b2)" and "xmsg_tellg b2 = (int (xb_gptr (rdbuf buf)), b2)"
    and "int (announced (rdbuf b2)) = 24 + int (length payload)" and "xb_eid (rdbuf b2) = Some eid"
    and "xb_type (rdbuf buf) = Some type" and "xb_gptr (rdbuf buf) \<le> 24" and "xmsg_seekg 24 b2 = at_payload buf"
proof -
  have f: "xb_inv (rdbuf buf)" "len_is (rdbuf buf) (xb_pptr (rdbuf buf))" "good buf" "24 \<le> xb_pptr (rdbuf buf)"
    "xb_eid (rdbuf buf) = Some eid" "drop 24 (xb_bytes (rdbuf buf)) = payload"
    using assms(1) by (auto simp: fresh_message_def xb_complete_def)
  have b2: "xb_inv (rdbuf b2)" "good b2" using f assms(2) by (auto simp: xb_inv_def good_def)
  have len: "int (xb_pptr (rdbuf buf)) = 24 + int (length payload)"
    using length_xb_bytes [OF f(1)] f(4,6) by auto
  show "xmsg_tellp buf = (24 + int (length payload), b2)" "xmsg_tellg b2 = (int (xb_gptr (rdbuf buf)), b2)"
    using xmsg_tell_exact(1) [OF f(1,3)] xmsg_tell_exact(2) [OF b2] assms(2) len by simp_all
  show "int (announced (rdbuf b2)) = 24 + int (length payload)" "xb_eid (rdbuf b2) = Some eid"
    using f(2,5) assms(2) len
    by (auto simp: announced_def len_is_def xb_len_def xb_eid_def split: option.splits if_splits)
  show "xb_type (rdbuf buf) = Some type" "xb_gptr (rdbuf buf) \<le> 24" using assms(1) by (auto simp: fresh_message_def)
  show "xmsg_seekg 24 b2 = at_payload buf" using xmsg_seekg_exact [of b2 24] b2(2) f(4) assms(2) by simp
qed

text \<open>A client with room for the payload is never refused.\<close>

lemma guarded_write_room:
  assumes "xb_inv (rdbuf buf)" and "good buf" and "xb_gptr (rdbuf buf) < xb_pptr (rdbuf buf)" and "good n" and "sk_single (rdbuf n)"
    and "int (length (sk_pending (rdbuf n))) + (int (xb_pptr (rdbuf buf)) - int (xb_gptr (rdbuf buf))) < MAX_BUFSIZE"
  shows "fst (guarded_write chk buf n) \<noteq> 0"
proof -
  let ?b = "buf\<lparr>rdbuf := (rdbuf buf)\<lparr>xb_egptr := xb_pptr (rdbuf buf)\<rparr>\<rparr>"
  have b: "xb_inv (rdbuf ?b)" "good ?b" using assms(1,2) by (auto simp: xb_inv_def good_def)
  have t: "sock_tellp n = int (length (sk_pending (rdbuf n)))" "\<not> fail_of n"
    using sock_tellp_single [OF assms(5)] assms(4) by (auto simp: fail_of_def good_def)
  show ?thesis
    unfolding guarded_write_def xmsg_tell_exact(2) [OF assms(1,2)] xmsg_tell_exact(1) [OF b] prod.case Let_def t(1)
    using assms(3,6) t(2) by (auto simp: t(1) split: prod.split)
qed

section \<open>Examples\<close>

definition sample_kernel :: kernel where
  "sample_kernel = \<lparr>k_send = [], k_conn = [], k_recv = [], k_wire = []\<rparr>"

definition sample_stream :: "fd \<Rightarrow> sockstream" where
  "sample_stream fd = ios_init (sockbuf_make fd True True True sample_kernel)"

definition sample_env :: env where
  "sample_env = \<lparr>v_alloc = (\<lambda>n. 3), v_nalloc = 0, v_kernels = (\<lambda>_. sample_kernel), v_now = 7, v_wall = 0, v_ms = 0,
     v_urandom = [], v_accept = [Accepted 12], v_socket = [], v_sockerr = (\<lambda>_. 0), v_shutdown = [], v_resolves = [],
     v_memeq = (\<lambda>_. False), v_listen = (\<lambda>_. True), v_others = []\<rparr>"

lemma sample_stream_ok: "good (sample_stream fd)" "sk_single (rdbuf (sample_stream fd))" "eofbit (sample_stream fd) = False"
  "sk_pending (rdbuf (sample_stream fd)) = []" "sk_stream (rdbuf (sample_stream fd)) = []"
  by (simp_all add: sample_stream_def sockbuf_make_def init_buf_ptrs_def empty_message_def sk_single_def MIN_BUFSIZE_def
      sk_pending_def sk_stream_def sample_kernel_def)

lemma sample_tellp: "sock_tellp (sample_stream fd) = 0"
  using sock_tellp_single [OF sample_stream_ok(2)] sample_stream_ok by (simp add: fail_of_def good_def)

definition sample_text :: "byte list \<Rightarrow> stringstream" where
  "sample_text bs = ios_init \<lparr>sb_data = bs, sb_put = length bs, sb_get = 0\<rparr>"

lemma sample_text_ok: "ss_ok (length bs) bs (sample_text bs)"
  by (simp add: sample_text_def ss_ok_def sb_inv_def)

definition sample_message :: "uuid \<Rightarrow> msgtype \<Rightarrow> byte list \<Rightarrow> xmsgstream" where
  "sample_message u type payload = ios_init \<lparr>xb_mem = header_bytes (make_head u (int (length payload) + 24) type) @ payload @ replicate BUFINC 0,
     xb_pptr = 24 + length payload, xb_gptr = 0, xb_egptr = 0\<rparr>"

lemma make_head_length: "n \<le> 65511 \<Longrightarrow> unat (msg_length (msg_len (make_head u (int n + 24) type))) = n + 24"
proof -
  assume n: "n \<le> 65511"
  have "(word_of_int (int n + 24) :: u16) = word_of_nat (n + 24)" by simp
  moreover have "unat (word_of_nat (n + 24) :: u16) = n + 24" using n unfolding unat_of_nat by simp
  ultimately show ?thesis by (simp add: make_head_def)
qed

lemma sample_message_fresh:
  assumes "length payload \<le> 65511"
  shows "fresh_message (sample_message u type payload) u type payload"
proof -
  let ?h = "make_head u (int (length payload) + 24) type" and ?b = "rdbuf (sample_message u type payload)"
  have bytes: "xb_bytes ?b = header_bytes ?h @ payload" by (simp add: sample_message_def xb_bytes_def)
  have inv: "xb_inv ?b" by (simp add: sample_message_def xb_inv_def)
  have h: "header_of_bytes (xb_bytes ?b) = ?h" unfolding bytes by (simp add: header_of_bytes_append)
  note f = xb_fields [OF inv, unfolded h]
  have "24 \<le> length (xb_bytes ?b)" by (simp add: bytes)
  then have f: "xb_eid ?b = Some u" "xb_len ?b = Some (msg_len ?h)" "xb_type ?b = Some type"
    using f(1,2,4) by (simp_all add: make_head_def)
  have "xb_pptr ?b = length payload + 24" by (simp add: sample_message_def)
  then have "len_is ?b (xb_pptr ?b)"
    unfolding len_is_def f(2) using make_head_length [OF assms] by simp
  moreover have "good (sample_message u type payload)" "24 \<le> xb_pptr ?b" "xb_gptr ?b \<le> 24" by (simp_all add: sample_message_def)
  ultimately show ?thesis using inv f(1,3) bytes unfolding fresh_message_def xb_complete_def by simp
qed

definition sample_conn :: connection where
  "sample_conn = connection_make zero_uuid 1 2 HALF_OPEN 0"

lemma sample_message_room:
  assumes "length payload \<le> 65511" and "payload \<noteq> []"
  shows "fst (guarded_write chk (at_payload (sample_message u type payload)) (sample_stream fd)) \<noteq> 0"
proof -
  have fm: "fresh_message (sample_message u type payload) u type payload" by (rule sample_message_fresh [OF assms(1)])
  note ap = at_payload_complete [OF fm]
  have "xb_pptr (rdbuf (sample_message u type payload)) = 24 + length payload" by (simp add: sample_message_def)
  then show ?thesis
    using ap assms sample_stream_ok [of fd]
    by (intro guarded_write_room) (auto simp: xb_complete_def MAX_BUFSIZE_def)
qed

section \<open>The connection state machine\<close>

lemma enter_state_simps [simp]:
  "cn_state (enter_state s t c) = s" "cn_uuid (enter_state s t c) = cn_uuid c"
  "cn_north (enter_state s t c) = cn_north c" "cn_south (enter_state s t c) = cn_south c"
  "cn_times (enter_state s t c) = (cn_times c)[state_no s := t]"
  by (simp_all add: enter_state_def)

lemma state_update_keeps [simp]:
  "cn_uuid (state_update ty t c) = cn_uuid c" "cn_north (state_update ty t c) = cn_north c"
  "cn_south (state_update ty t c) = cn_south c"
  by (simp_all add: state_update_def Let_def)

definition is_stop :: "msgtype \<Rightarrow> bool" where
  "is_stop ty \<longleftrightarrow> msg_op ty = STOP"

definition is_abort :: "msgtype \<Rightarrow> bool" where
  "is_abort ty \<longleftrightarrow> msg_op ty = STOP \<and> has_flag ty ABORT"

lemma state_update_no:
  "state_no (cn_state (state_update ty t c)) =
     (if cn_state c = CLOSED \<or> is_abort ty then 3
      else max 1 (state_no (cn_state c)) + (if is_stop ty then 1 else 0))"
  by (cases "cn_state c") (auto simp: state_update_def Let_def is_stop_def is_abort_def)

lemma state_no_le: "state_no s \<le> 3"
  by (cases s) simp_all

lemma state_no_inj: "state_no s = state_no t \<longleftrightarrow> s = t"
  by (cases s; cases t) simp_all

definition run_messages :: "(msgtype \<times> int) list \<Rightarrow> connection \<Rightarrow> connection" where
  "run_messages ms c = fold (\<lambda>(ty, t) c. state_update ty t c) ms c"

lemma run_messages_no:
  "state_no (cn_state (run_messages ms c)) =
     (if ms = [] then state_no (cn_state c)
      else if \<exists>(ty, t) \<in> set ms. is_abort ty then 3
      else min 3 (max 1 (state_no (cn_state c)) + length (filter (\<lambda>(ty, t). is_stop ty) ms)))"
proof (induction ms arbitrary: c)
  case Nil
  then show ?case by (simp add: run_messages_def)
next
  case (Cons m ms)
  obtain ty t where m: "m = (ty, t)" by fastforce
  have r: "run_messages (m # ms) c = run_messages ms (state_update ty t c)" by (simp add: m run_messages_def)
  have le: "state_no (cn_state c) \<le> 3" by (rule state_no_le)
  have c3: "cn_state c = CLOSED \<longleftrightarrow> state_no (cn_state c) = 3" by (cases "cn_state c") simp_all
  show ?case
    unfolding r Cons.IH state_update_no c3 using le by (auto simp: m)
qed

inductive conn_reach :: "connection \<Rightarrow> int \<Rightarrow> bool" where
  make: "conn_reach (connection_make u n s st t) t"
| message: "conn_reach c t \<Longrightarrow> t \<le> t' \<Longrightarrow> conn_reach (state_update ty t' c) t'"

inductive_cases conn_reachE: "conn_reach c t"

text \<open>The time stamps of the states passed so far.\<close>

definition passed :: "connection \<Rightarrow> int list" where
  "passed c = take (Suc (state_no (cn_state c))) (cn_times c)"

definition times_ok :: "int \<Rightarrow> connection \<Rightarrow> bool" where
  "times_ok t c \<longleftrightarrow> length (cn_times c) = 4 \<and> sorted (passed c) \<and> (\<forall>x \<in> set (passed c). x \<le> t)"

lemma enter_next_times:
  assumes "times_ok t c" and "t \<le> t'" and "state_no s = Suc (state_no (cn_state c))"
  shows "times_ok t' (enter_state s t' c)" and "passed (enter_state s t' c) = passed c @ [t']"
proof -
  have len: "length (cn_times c) = 4" "state_no s < 4"
    using assms(1) state_no_le [of s] by (simp_all add: times_ok_def)
  then show p: "passed (enter_state s t' c) = passed c @ [t']"
    using assms(3) by (simp add: passed_def take_Suc_conv_app_nth)
  show "times_ok t' (enter_state s t' c)"
    using assms(1,2) len p by (auto simp: times_ok_def sorted_append)
qed

lemma enter_again_times:
  assumes "times_ok t c" and "t \<le> t'" and "cn_state c = s"
  shows "times_ok t' (enter_state s t' c)"
proof -
  have "length (cn_times c) = 4" "state_no s < 4"
    using assms(1) state_no_le [of s] by (simp_all add: times_ok_def)
  moreover have "passed c = take (state_no s) (cn_times c) @ [cn_times c ! state_no s]"
    using assms(3) calculation by (simp add: passed_def take_Suc_conv_app_nth)
  moreover have "passed (enter_state s t' c) = take (state_no s) (cn_times c) @ [t']"
    using calculation by (simp add: passed_def take_Suc_conv_app_nth)
  ultimately show ?thesis using assms(1,2) by (auto simp: times_ok_def sorted_append intro: order_trans)
qed

lemma times_ok_mono: "times_ok t c \<Longrightarrow> t \<le> t' \<Longrightarrow> times_ok t' c"
  by (auto simp: times_ok_def)

text \<open>\<^verbatim>\<open>CLOSED\<close> may be entered from \<^verbatim>\<open>HALF_CLOSED\<close> or again; every other step is to the next state.\<close>

lemma state_update_times:
  assumes "times_ok t c" and "t \<le> t'"
  shows "times_ok t' (state_update ty t' c)"
proof -
  define c1 where "c1 = (if cn_state c = HALF_OPEN then enter_state OPEN t' c else c)"
  have c1: "times_ok t' c1"
    using assms enter_next_times(1) [OF assms, of OPEN] times_ok_mono [OF assms] by (auto simp: c1_def)
  define c2 where "c2 = enter_state (next_state (cn_state c1)) t' c1"
  show ?thesis
  proof (cases "cn_state c = CLOSED")
    case True
    then show ?thesis using times_ok_mono [OF assms] by (simp add: state_update_def)
  next
    case False
    then have ns: "state_no (next_state (cn_state c1)) = Suc (state_no (cn_state c1))"
      by (cases "cn_state c") (auto simp: c1_def)
    then have c2: "times_ok t' c2" "passed c2 = passed c1 @ [t']"
      using enter_next_times [OF c1 order_refl] by (simp_all add: c2_def)
    have "cn_state c2 = HALF_CLOSED \<or> cn_state c2 = CLOSED"
      using False by (cases "cn_state c") (auto simp: c1_def c2_def)
    then have c3: "times_ok t' (enter_state CLOSED t' c2)"
      using enter_next_times(1) [OF c2(1) order_refl, of CLOSED] enter_again_times [OF c2(1) order_refl, of CLOSED]
      by auto
    show ?thesis
      using False c1 c2(1) c3 by (simp add: state_update_def Let_def flip: c1_def c2_def)
  qed
qed

lemma conn_reach_times: "conn_reach c t \<Longrightarrow> times_ok t c"
proof (induction rule: conn_reach.induct)
  case (make u n s st t)
  have "set (passed (connection_make u n s st t)) \<subseteq> {t}" "sorted (passed (connection_make u n s st t))"
    by (cases st; simp add: passed_def connection_make_def upt_rec)+
  then show ?case by (auto simp: times_ok_def connection_make_def)
next
  case (message c t t' ty)
  then show ?case by (intro state_update_times)
qed

section \<open>Properties\<close>

text \<open>C27: the state of a connection is determined by the messages it has seen: from half open it is
  closed exactly when a stop with the abort flag or two stops have been seen, half closed after
  one stop, and open after any other message; it never moves back.\<close>

theorem connection_state_determined:
  assumes "cn_state c = HALF_OPEN"
  shows "cn_state (run_messages ms c) =
     (if ms = [] then HALF_OPEN
      else if (\<exists>(ty, t) \<in> set ms. is_abort ty) \<or> 2 \<le> length (filter (\<lambda>(ty, t). is_stop ty) ms) then CLOSED
      else if length (filter (\<lambda>(ty, t). is_stop ty) ms) = 1 then HALF_CLOSED else OPEN)
   \<and> cn_state (run_messages ms c) \<le> cn_state (run_messages (ms @ ms') c)"
proof -
  define k where "k = length (filter (\<lambda>(ty, t). is_stop ty) ms)"
  have 1: "cn_state (run_messages ms c) =
     (if ms = [] then HALF_OPEN
      else if (\<exists>(ty, t) \<in> set ms. is_abort ty) \<or> 2 \<le> k then CLOSED
      else if k = 1 then HALF_CLOSED else OPEN)"
    unfolding state_no_inj [symmetric] run_messages_no k_def [symmetric] using assms by (auto simp: min_def)
  have "run_messages (ms @ ms') c = run_messages ms' (run_messages ms c)" by (simp add: run_messages_def)
  moreover have "state_no (cn_state d) \<le> state_no (cn_state (run_messages ms' d))" for d
    using state_no_le [of "cn_state d"] by (auto simp: run_messages_no)
  ultimately have "cn_state (run_messages ms c) \<le> cn_state (run_messages (ms @ ms') c)"
    by (simp add: less_eq_conn_state_def)
  with 1 show ?thesis unfolding k_def by blast
qed

theorem connection_state_determined_witness:
  "cn_state (run_messages [(\<lparr>msg_op = DATA, msg_flags = 0\<rparr>, 5), (\<lparr>msg_op = STOP, msg_flags = 0\<rparr>, 6)]
     (connection_make zero_uuid 1 2 HALF_OPEN 0)) = HALF_CLOSED"
  using connection_state_determined [of "connection_make zero_uuid 1 2 HALF_OPEN 0"
      "[(\<lparr>msg_op = DATA, msg_flags = 0\<rparr>, 5), (\<lparr>msg_op = STOP, msg_flags = 0\<rparr>, 6)]" "[]"]
  by (simp add: connection_make_def is_stop_def is_abort_def DATA_def STOP_def has_flag_def)

text \<open>the time stamps of a connection are those of its transitions: for a connection made and
  updated at non-decreasing times, the stamps of the states passed so far are in the order of
  the states and none lies in the future.\<close>

theorem connection_times_ordered:
  assumes "conn_reach c t"
  shows "length (cn_times c) = 4 \<and> sorted (passed c) \<and> (\<forall>x \<in> set (passed c). x \<le> t)"
  using conn_reach_times [OF assms] by (simp add: times_ok_def)

theorem connection_times_ordered_witness:
  "sorted (passed (state_update \<lparr>msg_op = STOP, msg_flags = ABORT\<rparr> 9 (connection_make zero_uuid 1 2 HALF_OPEN 4)))"
  using connection_times_ordered [OF conn_reach.message [OF conn_reach.make, of 4 9]] by simp

text \<open>C26: the write guard bounds the output pending for a slow peer and never loses or splits a payload: the
  pending output stays within the limit, a payload that does not fit is refused whole and stays readable,
  an accepted one is appended to the peer's output, and one that fits is accepted.\<close>

theorem write_guard_bounds_output:
  assumes "xb_complete (rdbuf buf)" and "good buf" and "xb_unread (rdbuf buf) \<noteq> []" and "good n" and "sk_single (rdbuf n)"
    and "int (length (sk_pending (rdbuf n))) \<le> MAX_BUFSIZE" and "guarded_write chk buf n = (len, buf', n')"
  shows "int (length (sk_pending (rdbuf n'))) \<le> MAX_BUFSIZE
    \<and> (len = 0 \<longrightarrow> sk_stream (rdbuf n') = sk_stream (rdbuf n) \<and> xb_unread (rdbuf buf') = xb_unread (rdbuf buf))
    \<and> (len \<noteq> 0 \<and> \<not> badbit n' \<longrightarrow> len = int (length (xb_unread (rdbuf buf)))
         \<and> sk_stream (rdbuf n') = sk_stream (rdbuf n) @ xb_unread (rdbuf buf) \<and> xb_unread (rdbuf buf') = [])
    \<and> (int (length (sk_pending (rdbuf n))) + int (length (xb_unread (rdbuf buf))) < MAX_BUFSIZE \<longrightarrow> len \<noteq> 0)"
proof -
  have inv: "xb_inv (rdbuf buf)" using assms(1) by (simp add: xb_complete_def)
  have len: "int (xb_pptr (rdbuf buf)) - int (xb_gptr (rdbuf buf)) = int (length (xb_unread (rdbuf buf)))"
    using inv length_xb_bytes [OF inv] by (auto simp: xb_unread_def xb_inv_def)
  then have "xb_gptr (rdbuf buf) < xb_pptr (rdbuf buf)" using assms(3) by (cases "xb_unread (rdbuf buf)") auto
  note room = guarded_write_room [OF inv assms(2) this assms(4,5), of chk, unfolded len assms(7) fst_conv]
  show ?thesis using guarded_write_spec [OF assms(1,2,4,5,7)] assms(3,6) room by (simp split: if_splits)
qed

theorem write_guard_bounds_output_witness:
  "\<exists>len buf' n'. guarded_write True (at_payload (sample_message zero_uuid abort_type [7, 8])) (sample_stream 10) = (len, buf', n')
     \<and> len \<noteq> 0 \<and> int (length (sk_pending (rdbuf n'))) \<le> MAX_BUFSIZE"
proof -
  let ?b = "at_payload (sample_message zero_uuid abort_type [7, 8])"
  obtain len buf' n' where g: "guarded_write True ?b (sample_stream 10) = (len, buf', n')"
    by (cases "guarded_write True ?b (sample_stream 10)") auto
  have "fresh_message (sample_message zero_uuid abort_type [7, 8]) zero_uuid abort_type [7, 8]" by (rule sample_message_fresh) simp
  note b = at_payload_complete [OF this]
  then have b: "xb_complete (rdbuf ?b)" "good ?b" "xb_unread (rdbuf ?b) = [7, 8]" by blast+
  have "int (length (sk_pending (rdbuf (sample_stream 10)))) \<le> MAX_BUFSIZE" by (simp add: sample_stream_ok MAX_BUFSIZE_def)
  from write_guard_bounds_output [OF b(1,2) _ sample_stream_ok(1,2) this g] b(3) g show ?thesis
    by (simp add: sample_stream_ok MAX_BUFSIZE_def)
qed

text \<open>a refused address stays in the list. The code that should drop the address a connect was refused on
  compares the length of the put area of the stream's output buffer with the length of an address; a put area
  is never as small as an address, so nothing is dropped.\<close>

theorem refused_address_kept:
  assumes "sm_iov_len (last (sk_send (rdbuf x))) = put_capacity k" and "\<forall>a \<in> set addrs. ad_len a \<le> 128"
  shows "unexpired_of x e addrs = addrs"
proof -
  have "128 < put_capacity k" by (simp add: put_capacity_def MIN_BUFSIZE_def)
  then show ?thesis using assms by (auto simp: unexpired_of_def filter_id_conv)
qed

theorem refused_address_kept_witness:
  "unexpired_of (sample_stream 10) (sample_env\<lparr>v_memeq := (\<lambda>_. True)\<rparr>)
     [\<lparr>ad_addr = replicate 128 0, ad_len = 16, ad_time = 0, ad_ttl = 5, ad_max = 1, ad_count = 0, ad_prio = 0\<rparr>]
   = [\<lparr>ad_addr = replicate 128 0, ad_len = 16, ad_time = 0, ad_ttl = 5, ad_max = 1, ad_count = 0, ad_prio = 0\<rparr>]"
  by (rule refused_address_kept [where k = 0])
    (simp_all add: sample_stream_def sockbuf_make_def init_buf_ptrs_def put_capacity_def)

end
