(* ===== verification/Setup.thy ===== *)
theory Setup
  imports Config Connector
begin

text \<open>
  Building a connector from a configuration section (\<^verbatim>\<open>src/connector/connectors.cpp\<close>, the constructor of
  \<^verbatim>\<open>connector_handler\<close> in \<^verbatim>\<open>connectors.hpp\<close>). Exceptions are values of \<open>setup_error\<close>; what the operating
  system answers is in \<open>env\<close>, as for the handlers.
  Shown: a connector that comes up has a listening stream for every bind address, polls the first
  one, and has a south interface for every backend entry, malformed ones included.
\<close>

datatype setup_error = InvalidBind | InvalidBackend | NoBind | NoBackend | FanoutOverflow | SystemError
  | InvalidAddress | AddressOverrun

definition connector_init :: "env \<Rightarrow> ('n, 's) connector" where
  "connector_init e = \<lparr>c_heap = Map.empty, c_north = [], c_south = [], c_conns = [], c_timeouts = [],
     c_full_duplex = False, c_drain = False, c_triggers = trigger_init,
     c_mar = \<lparr>mar_north = [], mar_south = []\<rparr>, c_metrics = [], c_arrivals = 0, c_env = e\<rparr>"

text \<open>\<^verbatim>\<open>_north.back().make(family, SOCK_STREAM, 0, openmode())\<close>: a stream without get and put area.\<close>

definition make_listener :: "nat \<Rightarrow> ('n, 's) connector \<Rightarrow> fd option \<times> ('n, 's) connector" where
  "make_listener i s =
     (case take_socket s of
        ((None, _), s1) \<Rightarrow> (None, s1)
      | ((Some fd, _), s1) \<Rightarrow>
          (let e = c_env s1; n = v_nalloc e; p = v_alloc e n;
               s2 = s1\<lparr>c_heap := (c_heap s1)(p \<mapsto> ios_init (sockbuf_make fd False False False (v_kernels e n))),
                       c_env := e\<lparr>v_nalloc := Suc n\<rparr>\<rparr>
           in (Some fd, s2\<lparr>c_north := (c_north s2)[i := snd (iface_insert (p, fd) (c_north s2 ! i))]\<rparr>)))"

definition make_north :: "address_type \<Rightarrow> ('n, 's) connector \<Rightarrow> setup_error + int \<times> ('n, 's) connector" where
  "make_north address s =
     (case address of
        SOCKADDR protocol addr addrlen \<Rightarrow>
          (case iface_of_sockaddr (v_wall (c_env s)) (Some addr) addrlen protocol [] (- 1) of
             None \<Rightarrow> Inl InvalidAddress
           | Some f \<Rightarrow>
               (let s1 = s\<lparr>c_north := c_north s @ [f]\<rparr> in
                if protocol = ''TCP'' \<or> protocol = ''UNIX'' then
                  (case make_listener (length (c_north s)) s1 of
                     (None, s2) \<Rightarrow> Inl SystemError
                   | (Some fd, s2) \<Rightarrow> if v_listen (c_env s2) fd then Inr (fd, s2) else Inl SystemError)
                else Inr (- 1, s1)))
      | _ \<Rightarrow> Inr (- 1, s))"

text \<open>\<^verbatim>\<open>make_south\<close> never refuses: the three alternatives of the variant are all accepted.\<close>

definition make_south :: "address_type \<Rightarrow> ('n, 's) connector \<Rightarrow> setup_error + ('n, 's) connector" where
  "make_south address s =
     (case address of
        SOCKADDR protocol addr addrlen \<Rightarrow>
          (case iface_of_sockaddr (v_wall (c_env s)) (Some addr) addrlen protocol [] (- 1) of
             None \<Rightarrow> Inl InvalidAddress
           | Some f \<Rightarrow> Inr (s\<lparr>c_south := c_south s @ [f]\<rparr>))
      | URL host protocol \<Rightarrow> Inr (s\<lparr>c_south := c_south s @ [iface_make [] protocol host]\<rparr>)
      | URI uri \<Rightarrow> Inr (s\<lparr>c_south := c_south s @ [iface_make [] [] uri]\<rparr>))"

record build =
  b_dir :: int
  b_noptions :: "(string \<times> string) list"
  b_soptions :: "(string \<times> string) list"

text \<open>One pair of the section; \<open>dir\<close> says which side later options belong to.\<close>

definition setup_pair ::
  "(nat \<Rightarrow> string \<Rightarrow> byte list option) \<Rightarrow> string \<times> string \<Rightarrow> build \<times> ('n, 's) connector \<Rightarrow>
   setup_error + build \<times> ('n, 's) connector" where
  "setup_pair pton kv st =
     (case (kv, st) of ((key, value), (b, s)) \<Rightarrow>
       (let k = map toupper key in
        if k = ''BIND'' then
          (case config_make_address pton value of
             None \<Rightarrow> Inl AddressOverrun
           | Some a \<Rightarrow> (case make_north a s of
               Inl e \<Rightarrow> Inl e
             | Inr (fd, s') \<Rightarrow> if fd < 0 then Inl InvalidBind else Inr (b\<lparr>b_dir := 1\<rparr>, s')))
        else if k = ''BACKEND'' then
          (case config_make_address pton value of
             None \<Rightarrow> Inl AddressOverrun
           | Some a \<Rightarrow> (case make_south a s of Inl e \<Rightarrow> Inl e | Inr s' \<Rightarrow> Inr (b\<lparr>b_dir := - 1\<rparr>, s')))
        else if k = ''MODE'' then
          Inr (b, if map toupper value = ''FULL_DUPLEX'' then s\<lparr>c_full_duplex := True\<rparr> else s)
        else if b_dir b = 0 then Inr (b, s)
        else if 0 < b_dir b then Inr (b\<lparr>b_noptions := b_noptions b @ [(k, value)]\<rparr>, s)
        else Inr (b\<lparr>b_soptions := b_soptions b @ [(k, value)]\<rparr>, s)))"

fun setup_pairs ::
  "(nat \<Rightarrow> string \<Rightarrow> byte list option) \<Rightarrow> config_section \<Rightarrow> build \<times> ('n, 's) connector \<Rightarrow>
   setup_error + build \<times> ('n, 's) connector" where
  "setup_pairs pton [] st = Inr st"
| "setup_pairs pton (kv # kvs) st = (case setup_pair pton kv st of Inl e \<Rightarrow> Inl e | Inr st' \<Rightarrow> setup_pairs pton kvs st')"

definition connector_base_make ::
  "(nat \<Rightarrow> string \<Rightarrow> byte list option) \<Rightarrow> config_section \<Rightarrow> env \<Rightarrow> setup_error + ('n, 's) connector" where
  "connector_base_make pton conf e =
     (case setup_pairs pton conf (\<lparr>b_dir = 0, b_noptions = [], b_soptions = []\<rparr>, connector_init e) of
        Inl er \<Rightarrow> Inl er
      | Inr (b, s) \<Rightarrow>
          (if c_north s = [] then Inl NoBind
           else if c_south s = [] then Inl NoBackend
           else
             (let s1 = s\<lparr>c_north := map (\<lambda>f. f\<lparr>if_options := b_noptions b\<rparr>) (c_north s),
                         c_south := map (\<lambda>f. f\<lparr>if_options := b_soptions b\<rparr>) (c_south s)\<rparr> in
              if c_full_duplex s1 \<and> unat CLOCK_SEQ_MAX < length (c_south s1) then Inl FanoutOverflow else Inr s1)))"

text \<open>The constructor of \<^verbatim>\<open>connector_handler\<close>: the first stream of the first north interface is polled.\<close>

definition connector_handler_make ::
  "(nat \<Rightarrow> string \<Rightarrow> byte list option) \<Rightarrow> config_section \<Rightarrow> env \<Rightarrow> setup_error + ('n, 's) connector" where
  "connector_handler_make pton conf e =
     (case connector_base_make pton conf e of
        Inl er \<Rightarrow> Inl er
      | Inr s \<Rightarrow> Inr (trig_set (snd (hd (if_streams (hd (c_north s))))) POLLIN s))"


section \<open>What a configuration builds\<close>

definition entries :: "string \<Rightarrow> config_section \<Rightarrow> nat" where
  "entries k conf = length (filter (\<lambda>kv. map toupper (fst kv) = k) conf)"

text \<open>A north interface with its one listening stream.\<close>

definition listening :: "(fd \<Rightarrow> bool) \<Rightarrow> connect_cb iface \<Rightarrow> bool" where
  "listening listens f \<longleftrightarrow> (\<exists>p fd. if_streams f = [(p, fd)] \<and> 0 \<le> fd \<and> listens fd)"

definition built :: "nat \<Rightarrow> nat \<Rightarrow> (fd \<Rightarrow> bool) \<Rightarrow> ('n, 's) connector \<Rightarrow> bool" where
  "built n m listens s \<longleftrightarrow> length (c_north s) = n \<and> length (c_south s) = m \<and> (\<forall>f \<in> set (c_north s). listening listens f)
     \<and> (\<forall>f \<in> set (c_south s). if_streams f = [] \<and> if_pending f = []) \<and> c_triggers s = trigger_init \<and> c_conns s = [] \<and> v_listen (c_env s) = listens"

lemma iface_insert_first: "if_streams f = [] \<Longrightarrow> iface_insert h f = (0, f\<lparr>if_streams := [h]\<rparr>)"
  using upper_bound_le [of "\<lambda>x. fst h < fst x" "[]"] by (simp add: iface_insert_def insert_at_def)

lemma make_listener_built:
  assumes "make_listener (length (c_north s)) (s\<lparr>c_north := c_north s @ [f]\<rparr>) = (Some fd, s')" and "if_streams f = []"
  shows "\<exists>p. c_north s' = c_north s @ [f\<lparr>if_streams := [(p, fd)]\<rparr>]" and "c_south s' = c_south s" and "c_triggers s' = c_triggers s"
    and "c_conns s' = c_conns s" and "v_listen (c_env s') = v_listen (c_env s)"
  using assms
  by (auto simp: make_listener_def take_socket_def iface_insert_first Let_def split: list.splits option.splits prod.splits)

lemma make_north_built:
  assumes "built n m l s" and "make_north a s = Inr (fd, s')" and "0 \<le> fd"
  shows "built (Suc n) m l s'"
proof -
  obtain pr addr len where a: "a = SOCKADDR pr addr len"
    using assms(2,3) by (cases a) (auto simp: make_north_def)
  obtain f :: "connect_cb iface" where f: "iface_of_sockaddr (v_wall (c_env s)) (Some addr) len pr [] (- 1) = Some f"
    using assms(2) a by (cases "iface_of_sockaddr (v_wall (c_env s)) (Some addr) len pr [] (- 1) :: connect_cb iface option") (simp_all add: make_north_def)
  have "if_streams f = []" using f by (auto simp: iface_of_sockaddr_def iface_make_def split: if_splits)
  moreover have "make_listener (length (c_north s)) (s\<lparr>c_north := c_north s @ [f]\<rparr>) = (Some fd, s') \<and> v_listen (c_env s') fd"
    using assms(2,3) a f by (auto simp: make_north_def Let_def split: if_splits option.splits prod.splits)
  ultimately show ?thesis
    using make_listener_built [of s f fd s'] assms(1,3) by (auto simp: built_def listening_def)
qed

lemma make_south_built:
  assumes "built n m l s" and "make_south a s = Inr s'"
  shows "built n (Suc m) l s'"
  using assms by (auto simp: make_south_def built_def iface_of_sockaddr_def iface_make_def split: address_type.splits option.splits if_splits)

lemma setup_pair_built:
  assumes "built n m l s" and "setup_pair pton kv (b, s) = Inr (b', s')"
  shows "built (n + entries ''BIND'' [kv]) (m + entries ''BACKEND'' [kv]) l s'"
proof -
  obtain key val where kv: "kv = (key, val)" by fastforce
  consider (bind) "map toupper key = ''BIND''" | (south) "map toupper key = ''BACKEND''"
    | (other) "map toupper key \<notin> {''BIND'', ''BACKEND''}" by blast
  then show ?thesis
  proof cases
    case bind
    then obtain a fd where "make_north a s = Inr (fd, s')" "0 \<le> fd"
      using assms(2) kv by (auto simp: setup_pair_def split: option.splits sum.splits if_splits)
    from make_north_built [OF assms(1) this] bind kv show ?thesis by (simp add: entries_def)
  next
    case south
    then obtain a where "make_south a s = Inr s'"
      using assms(2) kv by (auto simp: setup_pair_def split: option.splits sum.splits)
    from make_south_built [OF assms(1) this] south kv show ?thesis by (simp add: entries_def)
  next
    case other
    then have "s' = s \<or> s' = s\<lparr>c_full_duplex := True\<rparr>" using assms(2) kv by (auto simp: setup_pair_def Let_def split: if_splits)
    then show ?thesis using assms(1) other kv by (auto simp: built_def entries_def)
  qed
qed

lemma setup_pairs_built:
  assumes "built n m l s" and "setup_pairs pton kvs (b, s) = Inr (b', s')"
  shows "built (n + entries ''BIND'' kvs) (m + entries ''BACKEND'' kvs) l s'"
  using assms
proof (induction kvs arbitrary: n m b s)
  case Nil
  then show ?case by (simp add: entries_def)
next
  case (Cons kv kvs)
  obtain b1 s1 where st: "setup_pair pton kv (b, s) = Inr (b1, s1)" "setup_pairs pton kvs (b1, s1) = Inr (b', s')"
    using Cons.prems(2) by (auto split: sum.splits)
  have "entries k (kv # kvs) = entries k [kv] + entries k kvs" for k by (simp add: entries_def)
  with Cons.IH [OF setup_pair_built [OF Cons.prems(1) st(1)] st(2)] show ?case by (simp add: add.assoc)
qed

section \<open>Properties\<close>

text \<open>a connector that comes up has exactly one listening stream for every bind entry of its section and a south interface for every
  backend entry, malformed ones included, and it has at least one of each; there is no connection yet. Of the listening
  streams only the one of the first bind entry is polled: clients of the others are never accepted.\<close>

theorem connector_comes_up:
  assumes "connector_handler_make pton conf e = Inr s"
  shows "length (c_north s) = entries ''BIND'' conf \<and> length (c_south s) = entries ''BACKEND'' conf
    \<and> c_north s \<noteq> [] \<and> c_south s \<noteq> [] \<and> c_conns s = [] \<and> (\<forall>f \<in> set (c_north s). listening (v_listen e) f)
    \<and> (\<exists>p fd. if_streams (c_north s ! 0) = [(p, fd)]
        \<and> (\<forall>q. interest (c_triggers s) q = (if q = fd then Some POLLIN else None)))"
proof -
  have init: "built 0 0 (v_listen e) (connector_init e)" by (simp add: built_def connector_init_def)
  obtain b s0 where b: "setup_pairs pton conf (\<lparr>b_dir = 0, b_noptions = [], b_soptions = []\<rparr>, connector_init e) = Inr (b, s0)"
    and ne: "c_north s0 \<noteq> []" "c_south s0 \<noteq> []"
    and s: "s = trig_set (snd (hd (if_streams (hd (c_north s0))))) POLLIN (s0\<lparr>c_north := map (\<lambda>f. f\<lparr>if_options := b_noptions b\<rparr>) (c_north s0),
         c_south := map (\<lambda>f. f\<lparr>if_options := b_soptions b\<rparr>) (c_south s0)\<rparr>)"
    using assms by (auto simp: connector_handler_make_def connector_base_make_def Let_def hd_map split: sum.splits if_splits)
  note bu = setup_pairs_built [OF init b]
  then obtain p fd where hd: "if_streams (hd (c_north s0)) = [(p, fd)]" using hd_in_set [OF ne(1)] by (fastforce simp: built_def listening_def)
  have "interest (c_triggers s) q = (if q = fd then Some POLLIN else None)" for q
    using bu trig.mask_set [OF trigger_init_inv, of fd POLLIN] s hd
    by (simp add: built_def trig_set_def interest_def trigger_init_def kmap_def)
  moreover have "if_streams (c_north s ! 0) = [(p, fd)]" using s ne(1) hd by (simp add: trig_set_def hd_conv_nth)
  ultimately have "\<exists>p fd. if_streams (c_north s ! 0) = [(p, fd)] \<and> (\<forall>q. interest (c_triggers s) q = (if q = fd then Some POLLIN else None))"
    by blast
  moreover have "length (c_north s) = entries ''BIND'' conf \<and> length (c_south s) = entries ''BACKEND'' conf \<and> c_north s \<noteq> [] \<and> c_south s \<noteq> []
      \<and> c_conns s = [] \<and> (\<forall>f \<in> set (c_north s). listening (v_listen e) f)"
    using bu ne s by (simp add: built_def listening_def trig_set_def)
  ultimately show ?thesis by blast
qed


section \<open>Leaving\<close>

text \<open>The destructor of \<^verbatim>\<open>connector_base\<close> removes the paths of the sockets it was bound to.\<close>

definition sun_path :: "byte list \<Rightarrow> byte list" where
  "sun_path addr = takeWhile (\<lambda>b. b \<noteq> 0) (drop 2 addr)"

definition connector_base_unlinks :: "('n, 's) connector \<Rightarrow> byte list list" where
  "connector_base_unlinks s = concat (map (\<lambda>n. map (\<lambda>a. sun_path (ad_addr a)) (filter (\<lambda>a. family_of (ad_addr a) = 1) (if_addresses n))) (c_north s))"

lemma of_char_zero: "of_char c = (0 :: byte) \<Longrightarrow> c = CHR 0x00"
proof -
  assume "of_char c = (0 :: byte)"
  then have "word_of_nat (of_char c) = (0 :: byte)" by (simp add: of_nat_of_char)
  then have d: "256 dvd (of_char c :: nat)" by (simp add: word_of_nat_eq_0_iff)
  have "(of_char c :: nat) < 256" by (rule nat_of_char_less_256)
  then have "(of_char c :: nat) = of_char (CHR 0x00)" using d nat_dvd_not_less [of "of_char c" 256] by fastforce
  then show "c = CHR 0x00" by (simp only: of_char_eq_iff)
qed

text \<open>what a connector removes when it goes are the paths in its \<^verbatim>\<open>bind\<close> entries, character for character.\<close>

theorem bound_paths_unlinked:
  assumes "make_unix_address path = Some (addr, len)" and "CHR 0x00 \<notin> set path" and "make_north (SOCKADDR ''UNIX'' addr len) s = Inr (fd, s')"
  shows "connector_base_unlinks s' = connector_base_unlinks s @ [string_bytes path]"
proof -
  let ?f = "iface_make [make_address addr len (v_wall (c_env s), - 1) (1, 0, SIZE_MAX)] ''UNIX'' [] :: connect_cb iface"
  have a: "addr = storage (le16 1 @ string_bytes path)" "len = 2 + length path" "length path \<le> 107"
    using assms(1) by (auto simp: make_unix_address_def split: if_splits)
  have l: "len = length (le16 1 @ string_bytes path)" using a(2) by (simp add: le16_def string_bytes_def)
  have ad: "ad_addr (make_address addr len t w) = addr" for t w
    using a(3) unfolding a(1) l by (cases t; cases w) (simp add: make_address_def storage_def string_bytes_def)
  have nz: "0 \<notin> set (string_bytes path)" using assms(2) of_char_zero by (auto simp: string_bytes_def)
  have "sun_path addr = string_bytes path" using nz by (simp add: a(1) sun_path_def storage_def le16_def takeWhile_append)
  moreover have "family_of addr = 1" by (simp add: a(1) family_of_def storage_def le16_def le_nat_le_bytes)
  moreover have "\<exists>g. c_north s' = c_north s @ [g] \<and> if_addresses g = if_addresses ?f"
    using assms(3) l
    by (auto simp: make_north_def iface_of_sockaddr_def make_listener_def take_socket_def iface_insert_def Let_def split: if_splits list.splits option.splits prod.splits)
  ultimately show ?thesis using ad by (auto simp: connector_base_unlinks_def iface_make_def)
qed

text \<open>A section with two bind entries and a backend that is no address.\<close>

definition sample_section :: config_section where
  "sample_section = [(''BIND'', ''UNIX://a''), (''bind'', ''UNIX://b''), (''BACKEND'', ''?'')]"

lemma sample_upper: "map toupper ''UNIX'' = ''UNIX''" "map toupper ''BIND'' = ''BIND''" "map toupper ''bind'' = ''BIND''" "map toupper ''BACKEND'' = ''BACKEND''"
  by code_simp+

lemma sample_unix:
  assumes "\<not> isspace c"
  shows "config_make_address pton (''UNIX://'' @ [c]) = Some (SOCKADDR ''UNIX'' (storage (le16 1 @ [of_char c])) 3)"
  using config_address_scheme(1) [OF sample_upper(1), of pton "[c]"] assms
  by (simp add: config_address_of_def sockaddr_of_def make_unix_address_def scan_path_def trim_left_def string_bytes_def)

lemma sample_addresses:
  "config_make_address pton ''UNIX://a'' = Some (SOCKADDR ''UNIX'' (storage (le16 1 @ [97])) 3)"
  "config_make_address pton ''UNIX://b'' = Some (SOCKADDR ''UNIX'' (storage (le16 1 @ [98])) 3)"
  "config_make_address pton ''?'' = Some (URI [])"
  using sample_unix [of "CHR ''a''" pton] sample_unix [of "CHR ''b''" pton]
  by (simp_all add: isspace_def config_make_address_def scan_protocol_def trim_left_def isalpha_def no_address_def)

lemma sample_comes_up:
  "\<exists>s. connector_handler_make (\<lambda>_ _. None) sample_section (sample_env\<lparr>v_alloc := alloc, v_socket := [(Some 5, True), (Some 6, True)]\<rparr>)
     = Inr (s :: ('n, 's) connector) \<and> if_streams (c_north s ! 0) = [(alloc 0, 5)]"
  by (simp add: connector_handler_make_def connector_base_make_def sample_section_def setup_pair_def sample_upper sample_addresses make_north_def make_south_def
      iface_of_sockaddr_def make_listener_def take_socket_def iface_insert_first connector_init_def sample_env_def iface_make_def Let_def trig_set_def del: list.map)

theorem connector_comes_up_witness:
  "\<exists>s. connector_handler_make (\<lambda>_ _. None) sample_section (sample_env\<lparr>v_alloc := Suc, v_socket := [(Some 5, True), (Some 6, True)]\<rparr>)
       = Inr (s :: (unit, unit) connector)
     \<and> length (c_north s) = 2 \<and> length (c_south s) = 1 \<and> interest (c_triggers s) 6 = None"
proof -
  obtain s :: "(unit, unit) connector" where s: "connector_handler_make (\<lambda>_ _. None) sample_section
      (sample_env\<lparr>v_alloc := Suc, v_socket := [(Some 5, True), (Some 6, True)]\<rparr>) = Inr s" "if_streams (c_north s ! 0) = [(1, 5)]"
    using sample_comes_up [of Suc] by auto
  have "entries ''BIND'' sample_section = 2" "entries ''BACKEND'' sample_section = 1"
    by (simp_all add: entries_def sample_section_def sample_upper del: list.map)
  with connector_comes_up [OF s(1)] s show ?thesis by auto
qed

end
