(* ===== verification/Controller.thy ===== *)
theory Controller
  imports Connector
begin

unbundle bit_operations_syntax

text \<open>
  The controller connector (\<^verbatim>\<open>src/cloudbus/controller/controller_connector.cpp\<close>): plain client streams on the
  north side, enveloped backend streams on the south side. Every handler is a function on the
  connector state; what the code returns through references (event masks, buffers) is returned. The clocks
  stand still during one call.

  The callback of \<^verbatim>\<open>register_connect\<close> captures references to the north interface and stream; the model
  captures their values. The resolver's own event handling is an argument of \<open>ctl_handle_events\<close>.
  Log output is left out.
\<close>

type_synonym ctl = "(stringstream, xmsgstream) connector"

text \<open>\<^verbatim>\<open>state_update\<close>: closing a connection counts as a completion of its south stream.\<close>

definition ctl_state_update :: "msgtype \<Rightarrow> int \<Rightarrow> connection \<Rightarrow> ctl \<Rightarrow> connection \<times> ctl" where
  "ctl_state_update type time c s =
     (let c' = state_update type time c in
      (c', if cn_state c' \<noteq> cn_state c \<and> cn_state c' = CLOSED
           then s\<lparr>c_metrics := snd (add_completion (c_live s) (cn_south c) (v_now (c_env s)) (c_metrics s))\<rparr>
           else s))"

section \<open>Writing to the south streams\<close>

text \<open>\<^verbatim>\<open>write_prepare\<close>: whether some south stream of the north stream has too much pending.\<close>

fun write_prepare :: "connection list \<Rightarrow> owner \<Rightarrow> int \<Rightarrow> ctl \<Rightarrow> bool \<times> ctl" where
  "write_prepare [] np tp s = (False, s)"
| "write_prepare (c # cs) np tp s =
     (let pos = MAX_BUFSIZE - (tp + 24) in
      if cn_north c = np then
        (case c_heap s (cn_south c) of
           None \<Rightarrow> write_prepare cs np tp s
         | Some x \<Rightarrow>
             (if fail_of x then write_prepare cs np tp s
              else
                (let x1 = (if pos \<le> sock_tellp x then sock_flush x else x);
                     s1 = s\<lparr>c_heap := (c_heap s)(cn_south c \<mapsto> x1)\<rparr> in
                 if pos \<le> sock_tellp x \<and> badbit x1 then write_prepare cs np tp s1
                 else if pos < sock_tellp x1 then (True, s1)
                 else write_prepare cs np tp s1)))
      else write_prepare cs np tp s)"

section \<open>Selecting and connecting south streams\<close>

definition rescale :: "nat \<Rightarrow> nat" where
  "rescale n = (if n = 3 then 4
     else (let half = n div 2 in if half \<le> SIZE_MAX div 3 then max (3 * half) 1 else n))"

text \<open>
  The loop of \<^verbatim>\<open>select_stream\<close> from index \<open>i\<close>: either the index of a stream without measurements, or the
  number of loaded streams and the least recently used one. Both durations are compared unsigned.
\<close>

fun select_loop :: "metric list \<Rightarrow> handle list \<Rightarrow> nat \<Rightarrow> nat \<Rightarrow> nat \<Rightarrow> nat \<Rightarrow> nat + (nat \<times> nat)" where
  "select_loop ms [] i loaded mn lru = Inr (loaded, lru)"
| "select_loop ms ((sp, fd) # hs) i loaded mn lru =
     (let lb = lower_bound (\<lambda>x. mt_wp x < sp) ms in
      if \<not> key_hit mt_wp sp ms lb then Inl i
      else
        (let x = ms ! lb;
             loaded' = (if (word_of_int (mt_interarrival x) :: u64) div 2 < word_of_int (mt_intercompletion x)
                        then loaded + 1 else loaded) in
         if mt_last_arrival x < mt_last_arrival (ms ! mn)
         then select_loop ms hs (Suc i) loaded' lb i
         else select_loop ms hs (Suc i) loaded' mn lru))"

definition select_stream :: "nat \<Rightarrow> ctl \<Rightarrow> nat \<times> ctl" where
  "select_stream j s =
     (let f = c_south s ! j; num = length (if_streams f) in
      if num = 0 then south_make j s
      else (case select_loop (c_metrics s) (if_streams f) 0 0 0 0 of
          Inl i \<Rightarrow> (i, s)
        | Inr (loaded, lru) \<Rightarrow>
            (if num \<le> loaded \<and> num < rescale (length (if_addresses f)) then south_make j s else (lru, s))))"

text \<open>
  \<^verbatim>\<open>erase_connect\<close>: gives up a connect; the connections of the south stream go and so does the north
  stream. (Erasing a north stream that is gone already is undefined in the code and does nothing here.)
\<close>

definition ctl_erase_connect :: "nat \<Rightarrow> owner \<Rightarrow> handle \<Rightarrow> ctl \<Rightarrow> ctl" where
  "ctl_erase_connect ni nsp hnd s =
     (case hnd of (ssp, sfd) \<Rightarrow>
       (let s1 = (if sfd \<noteq> BAD_SOCKET \<and> (\<exists>c \<in> set (c_conns s). cn_south c = ssp)
                  then trig_set sfd POLLOUT s else s);
            s2 = s1\<lparr>c_conns := filter (\<lambda>c. cn_south c \<noteq> ssp) (c_conns s1)\<rparr>;
            f = c_north s2 ! ni;
            i = length (takeWhile (\<lambda>h. fst h \<noteq> nsp) (if_streams f)) in
        if i < length (if_streams f)
        then (trig_clear (snd (if_streams f ! i)) (- 1) s2)
               \<lparr>c_north := (c_north s2)[ni := iface_erase_at i f], c_heap := (c_heap s2)(nsp := None)\<rparr>
        else s2))"

fun ctl_connect_run ::
  "connect_cb \<Rightarrow> nat \<Rightarrow> byte list option \<Rightarrow> nat \<Rightarrow> string \<Rightarrow> connect_cb iface \<Rightarrow> ctl \<Rightarrow> connect_cb iface \<times> ctl" where
  "ctl_connect_run (ConnectCb ni nsp) i addr addrlen protocol f s =
     connect_run (\<lambda>hnd f s. (f, ctl_erase_connect ni nsp hnd s)) i addr addrlen protocol f s"

text \<open>
  \<^verbatim>\<open>register_connect\<close> on the south interface \<open>j\<close>. Resolution always returns when the addresses are well
  formed (\<open>ctl_cb.resolve_returns\<close>); a call that did not return would leave the state unchanged here.
\<close>

definition ctl_register :: "nat \<Rightarrow> owner \<Rightarrow> connect_cb \<Rightarrow> ctl \<Rightarrow> ctl" where
  "ctl_register j ptr cb s =
     (case register_connect c_live ctl_connect_run (v_wall (c_env s)) ptr cb (c_south s ! j) s of
        None \<Rightarrow> s
      | Some (f, s') \<Rightarrow> s'\<lparr>c_south := (c_south s')[j := f]\<rparr>)"

definition bump_clock_seq :: "uuid \<Rightarrow> uuid" where
  "bump_clock_seq u =
     (if clock_seq_reserved u AND CLOCK_SEQ_MAX = CLOCK_SEQ_MAX
      then u\<lparr>clock_seq_reserved := clock_seq_reserved u AND NOT CLOCK_SEQ_MAX\<rparr>
      else u\<lparr>clock_seq_reserved := clock_seq_reserved u + 1\<rparr>)"

text \<open>One south interface of \<^verbatim>\<open>_north_connect\<close>: select a stream, start connecting it, add the connection.\<close>

definition connect_south :: "nat \<Rightarrow> owner \<Rightarrow> int \<Rightarrow> nat \<Rightarrow> uuid \<times> connection list \<times> ctl \<Rightarrow> uuid \<times> connection list \<times> ctl" where
  "connect_south ni nsp n j st =
     (case st of (eid, conns, s) \<Rightarrow>
       (case select_stream j s of (i, s1) \<Rightarrow>
         (let (sptr, sockfd) = if_streams (c_south s1 ! j) ! i;
              s2 = s1\<lparr>c_metrics := snd (add_arrival (c_live s1) sptr (v_now (c_env s1)) (c_metrics s1))\<rparr>;
              s3 = (if sockfd \<noteq> BAD_SOCKET
                    then upd_stream sptr (\<lambda>x. x\<lparr>failbit := False\<rparr>) (trig_set sockfd (POLLIN OR POLLOUT) s2)
                    else
                      (let s' = ctl_register j sptr (ConnectCb ni nsp) s2 in
                       if if_addresses (c_south s' ! j) = [] \<and> length (if_pending (c_south s' ! j)) = 1
                       then s'\<lparr>c_env := (c_env s')\<lparr>v_resolves := v_resolves (c_env s') @ [j]\<rparr>\<rparr> else s'));
              eid' = (if c_full_duplex s3 then bump_clock_seq eid else eid);
              st0 = (if eof_at s3 nsp then HALF_CLOSED else HALF_OPEN)
          in (eid', conns @ [connection_make eid' nsp sptr st0 n], s3))))"

definition take_urandom :: "ctl \<Rightarrow> byte list option \<times> ctl" where
  "take_urandom s = (case v_urandom (c_env s) of
      [] \<Rightarrow> (None, s) | r # rs \<Rightarrow> (r, s\<lparr>c_env := (c_env s)\<lparr>v_urandom := rs\<rparr>\<rparr>))"

text \<open>The initial envelopes of a session, one per connection.\<close>

fun send_initial :: "int \<Rightarrow> msgtype \<Rightarrow> connection list \<Rightarrow> stringstream \<Rightarrow> ctl \<Rightarrow> stringstream \<times> ctl" where
  "send_initial p type [] buf s = (buf, s)"
| "send_initial p type (c # cs) buf s =
     (case c_heap s (cn_south c) of
        None \<Rightarrow> send_initial p type cs buf s
      | Some x \<Rightarrow>
          (case send_envelope (make_head (cn_uuid c) (p + 24) type) p buf x of (x', buf') \<Rightarrow>
             send_initial p type cs buf' (s\<lparr>c_heap := (c_heap s)(cn_south c \<mapsto> x')\<rparr>)))"

definition ctl_north_connect :: "nat \<Rightarrow> owner \<Rightarrow> stringstream \<Rightarrow> ctl \<Rightarrow> int \<times> stringstream \<times> ctl" where
  "ctl_north_connect ni nsp buf s =
     (case take_urandom s of (urnd, s0) \<Rightarrow>
       (let eid = make_uuid_v7 urnd (v_ms (c_env s0)) in
        if uuid_eq eid zero_uuid then (- 1, buf, s0)
        else
          (let s1 = s0\<lparr>c_arrivals := c_arrivals s0 + 1\<rparr> in
           case fold (connect_south ni nsp (v_now (c_env s0))) [0..<length (c_south s1)] (eid, [], s1) of
             (_, connect, s2) \<Rightarrow>
               (case sstream_tellp buf of (p, buf1) \<Rightarrow>
                 (let type = (if eof_at s2 nsp then \<lparr>msg_op = STOP, msg_flags = INIT\<rparr>
                              else \<lparr>msg_op = DATA, msg_flags = INIT\<rparr>) in
                  case write_prepare connect nsp p s2 of (blocked, s3) \<Rightarrow>
                    (let (len, buf2, s4) =
                           (if blocked then (0, buf1, s3)
                            else (case send_initial p type connect buf1 s3 of (b, s') \<Rightarrow> (24 + p, b, s')))
                     in (len, buf2, s4\<lparr>c_conns := c_conns s4 @ connect\<rparr>)))))))"

section \<open>Routing\<close>

text \<open>One connection in the loop of the north \<^verbatim>\<open>_route\<close>: counts it, and sends it the buffer unless it is closed.\<close>

definition route_step ::
  "owner \<Rightarrow> msgtype \<Rightarrow> int \<Rightarrow> int \<Rightarrow> connection \<Rightarrow> nat \<times> stringstream \<times> ctl \<Rightarrow> connection \<times> nat \<times> stringstream \<times> ctl" where
  "route_step nsp type p time c st =
     (case st of (connected, buf, s) \<Rightarrow>
        (if cn_north c = nsp then
           (case c_heap s (cn_south c) of
              None \<Rightarrow> (c, st)
            | Some x \<Rightarrow>
                (if cn_state c = CLOSED then (c, Suc connected, buf, s)
                 else
                   (case send_envelope (make_head (cn_uuid c) (p + 24) type) p buf x of (x', buf') \<Rightarrow>
                      (let s1 = s\<lparr>c_heap := (c_heap s)(cn_south c \<mapsto> x')\<rparr>;
                           s2 = (if native_handle x' \<noteq> BAD_SOCKET then trig_set (native_handle x') POLLOUT s1 else s1)
                       in case ctl_state_update type time c s2 of (c', s3) \<Rightarrow> (c', Suc connected, buf', s3)))))
         else (c, st)))"

text \<open>The sending part of the north \<^verbatim>\<open>_route\<close>; \<open>Some r\<close> is a return from inside it.\<close>

definition route_north_send ::
  "stringstream \<Rightarrow> nat \<Rightarrow> handle \<Rightarrow> bool \<Rightarrow> u16 \<Rightarrow> ctl \<Rightarrow> int option \<times> stringstream \<times> u16 \<times> ctl" where
  "route_north_send buf ni hnd eof revents s =
     (case hnd of (nsp, nfd) \<Rightarrow> (case sstream_tellp buf of (p, buf1) \<Rightarrow>
        (if eof \<or> 0 < p then
           (case write_prepare (c_conns s) nsp p s of (blocked, s1) \<Rightarrow>
              (if blocked then
                 (case clear_triggers nfd (POLLIN OR POLLHUP) revents s1 of (r, s2) \<Rightarrow> (Some 0, buf1, r, s2))
               else
                 (case conn_loop (route_step nsp \<lparr>msg_op = (if eof then STOP else DATA), msg_flags = 0\<rparr> p (v_now (c_env s1)))
                         (c_conns s1) (0, buf1, s1) of (cs, connected, buf2, s2) \<Rightarrow>
                    (let s3 = s2\<lparr>c_conns := cs\<rparr> in
                     if \<not> eof \<and> connected = 0 then
                       (case ctl_north_connect ni nsp buf2 s3 of (status, buf3, s4) \<Rightarrow>
                          (if status = 0 then
                             (case clear_triggers nfd (POLLIN OR POLLHUP) revents s4 of (r, s5) \<Rightarrow> (Some 0, buf3, r, s5))
                           else if status < 0 then (Some (- 1), buf3, revents, s4)
                           else (None, buf3, revents, s4)))
                     else (None, buf2, revents, s3)))))
         else (None, buf1, revents, s))))"

definition route_north ::
  "stringstream \<Rightarrow> nat \<Rightarrow> handle \<Rightarrow> u16 \<Rightarrow> ctl \<Rightarrow> int \<times> stringstream \<times> u16 \<times> ctl" where
  "route_north buf ni hnd revents s =
     (let eof = eof_at s (fst hnd) in
      case route_north_send buf ni hnd eof revents s of (r, buf1, revents1, s1) \<Rightarrow>
        (case r of
           Some st \<Rightarrow> (st, buf1, revents1, s1)
         | None \<Rightarrow> (0, buf1, revents1,
             if eof then trig_clear (snd hnd) POLLIN (trig_set (snd hnd) POLLOUT s1) else s1)))"

text \<open>The latch of half-duplex mode: the session's other south streams that are not half closed are aborted.\<close>

definition latch_step :: "uuid \<Rightarrow> owner \<Rightarrow> int \<Rightarrow> connection \<Rightarrow> ctl \<Rightarrow> connection \<times> ctl" where
  "latch_step eid ssp time c s =
     (if uuid_eq (cn_uuid c) eid \<and> cn_state c < HALF_CLOSED \<and> cn_south c \<noteq> ssp then
        (case c_heap s (cn_south c) of
           None \<Rightarrow> (c, s)
         | Some x \<Rightarrow> ctl_state_update abort_type time c (trig_set (native_handle x) POLLOUT
             (s\<lparr>c_heap := (c_heap s)(cn_south c \<mapsto> write_header (abort_header eid) x)\<rparr>)))
      else (c, s))"

text \<open>
  A complete message for the connection at index \<open>k\<close>, whose north stream \<open>n\<close> is alive: the payload from
  \<open>seekpos\<close> on is written to it (a north stream with too much pending stops the south stream), the
  connection's state advances, and in half-duplex mode the first payload latches the session.
\<close>

definition deliver_south ::
  "xmsgstream \<Rightarrow> handle \<Rightarrow> u16 \<Rightarrow> nat \<Rightarrow> sockstream \<Rightarrow> uuid \<Rightarrow> msgtype \<Rightarrow> int \<Rightarrow> int \<Rightarrow> int \<Rightarrow> ctl \<Rightarrow>
   int \<times> xmsgstream \<times> u16 \<times> ctl" where
  "deliver_south buf hnd revents k n eid type p seekpos ret s =
     (let c = c_conns s ! k; time = v_now (c_env s);
          (len, buf1, n') = (if seekpos < p then guarded_write True (xmsg_seekg seekpos buf) n else (1, buf, n));
          s1 = (trig_set (native_handle n) POLLOUT s)\<lparr>c_heap := (c_heap s)(cn_north c \<mapsto> n')\<rparr>
      in if len = 0
         then (case clear_triggers (snd hnd) (POLLIN OR POLLHUP) revents s1 of (r, s2) \<Rightarrow> (0, buf1, r, s2))
         else
           (case ctl_state_update type time c s1 of (c', s2) \<Rightarrow>
              (let s3 = s2\<lparr>c_conns := (c_conns s2)[k := c']\<rparr>;
                   s4 = (if \<not> c_full_duplex s \<and> cn_state c = HALF_OPEN \<and> cn_state c' \<noteq> HALF_OPEN
                            \<and> seekpos = 24 \<and> seekpos < p
                         then (case conn_loop (latch_step eid (fst hnd) time) (c_conns s3) s3 of (cs, s') \<Rightarrow> s'\<lparr>c_conns := cs\<rparr>)
                         else s3)
               in (ret, buf1\<lparr>eofbit := True\<rparr>, revents, s4))))"

text \<open>
  The south \<^verbatim>\<open>_route\<close>. The loop over the connections stops at the first one of this session and south
  stream; a closed one, or a half closed one whose client still sends, is treated like an
  unknown session, which is answered with an abort.
\<close>

definition refuses :: "msgtype \<Rightarrow> connection \<Rightarrow> ctl \<Rightarrow> bool" where
  "refuses type c s \<longleftrightarrow> cn_state c = CLOSED
     \<or> (c_live s (cn_north c) \<and> cn_state c = HALF_CLOSED \<and> \<not> eof_at s (cn_north c) \<and> \<not> has_flag type ABORT)"

definition session_index :: "uuid \<Rightarrow> owner \<Rightarrow> connection list \<Rightarrow> nat" where
  "session_index eid ssp cs = length (takeWhile (\<lambda>c. \<not> (uuidcmp_node (cn_uuid c) eid = 0 \<and> cn_south c = ssp)) cs)"

definition route_south :: "xmsgstream \<Rightarrow> handle \<Rightarrow> u16 \<Rightarrow> ctl \<Rightarrow> int \<times> xmsgstream \<times> u16 \<times> ctl" where
  "route_south buf hnd revents s =
     (case hnd of (ssp, sfd) \<Rightarrow>
       (let eof = eof_at s ssp; ret = (if eof then - 1 else 0) in
        case xb_type (rdbuf buf) of
          None \<Rightarrow> (ret, buf, revents, s)
        | Some type \<Rightarrow>
            (case xmsg_tellp buf of (p, buf1) \<Rightarrow> (case xmsg_tellg buf1 of (g, buf2) \<Rightarrow>
               (if int (announced (rdbuf buf2)) - p \<noteq> 0 then (ret, buf2, revents, s)
                else (case xb_eid (rdbuf buf2) of
                    None \<Rightarrow> (ret, buf2, revents, s)
                  | Some eid \<Rightarrow>
                      (let seekpos = (if g \<le> 24 then 24 else g); k = session_index eid ssp (c_conns s) in
                       if k < length (c_conns s) \<and> \<not> refuses type (c_conns s ! k) s
                       then (case c_heap s (cn_north (c_conns s ! k)) of
                           Some n \<Rightarrow> deliver_south buf2 hnd revents k n eid type p seekpos ret s
                         | None \<Rightarrow> (ret, buf2\<lparr>eofbit := True\<rparr>, revents, s))
                       else (ret, buf2\<lparr>eofbit := True\<rparr>, revents,
                         if \<not> eof \<and> \<not> has_flag type ABORT
                         then (case c_heap s ssp of
                             Some x \<Rightarrow> trig_set (native_handle x) POLLOUT (upd_stream ssp (write_header (abort_header eid)) s)
                           | None \<Rightarrow> s)
                         else s))))))))"

section \<open>North handlers\<close>

definition north_err_handler :: "nat \<Rightarrow> handle \<Rightarrow> ctl \<Rightarrow> u16 \<times> ctl" where
  "north_err_handler ni hnd s =
     (case hnd of (nsp, nfd) \<Rightarrow>
        (case remove_if_st (\<lambda>s c.
             if cn_north c = nsp then
               (True, c, case c_heap s (cn_south c) of
                  None \<Rightarrow> s
                | Some x \<Rightarrow>
                    (let s1 = trig_set (native_handle x) POLLOUT s in
                     if cn_state c < CLOSED
                     then s1\<lparr>c_heap := (c_heap s1)(cn_south c \<mapsto> write_header (abort_header (cn_uuid c)) x)\<rparr>
                     else s1))
             else (False, c, s)) s (c_conns s) of (cs, s1) \<Rightarrow>
           (0, north_erase ni hnd (trig_clear nfd (- 1) (s1\<lparr>c_conns := cs\<rparr>)))))"

definition north_pollin_handler :: "nat \<Rightarrow> handle \<Rightarrow> u16 \<Rightarrow> ctl \<Rightarrow> int \<times> u16 \<times> ctl" where
  "north_pollin_handler ni hnd revents s =
     (case c_heap s (fst hnd) of
        None \<Rightarrow> (- 1, revents, s)
      | Some x \<Rightarrow>
          (case ctl_unmarshal (c_live s) (fst hnd) x (c_mar s) of (i, m, x') \<Rightarrow>
             (let s1 = s\<lparr>c_mar := m, c_heap := (c_heap s)(fst hnd \<mapsto> x')\<rparr>;
                  revents1 = (if gcount x' = 0 then revents AND NOT (POLLIN OR POLLHUP) else revents)
              in case route_north (buf_fmt (mar_north m ! i)) ni hnd revents1 s1 of (st, buf, revents2, s2) \<Rightarrow>
                   (st, revents2, s2\<lparr>c_mar := (c_mar s2)\<lparr>mar_north := set_fmt i buf (mar_north (c_mar s2))\<rparr>\<rparr>))))"

fun session_state :: "connection list \<Rightarrow> owner \<Rightarrow> conn_state \<Rightarrow> conn_state" where
  "session_state [] nsp st = st"
| "session_state (c # cs) nsp st =
     session_state cs nsp
       (if cn_north c = nsp then (if cn_state c = OPEN then OPEN else if st \<noteq> OPEN then min st (cn_state c) else st)
        else st)"

definition north_state_handler :: "nat \<Rightarrow> handle \<Rightarrow> u16 \<Rightarrow> ctl \<Rightarrow> u16 \<times> ctl" where
  "north_state_handler ni hnd revents s =
     (case session_state (c_conns s) (fst hnd) CLOSED of
        CLOSED \<Rightarrow> north_err_handler ni hnd s
      | HALF_CLOSED \<Rightarrow> (revents OR POLLHUP, s\<lparr>c_env := (c_env s)\<lparr>v_shutdown := v_shutdown (c_env s) @ [snd hnd]\<rparr>\<rparr>)
      | _ \<Rightarrow> (revents, s))"

definition handle_north :: "nat \<Rightarrow> handle \<Rightarrow> u16 \<Rightarrow> ctl \<Rightarrow> nat \<times> u16 \<times> ctl" where
  "handle_north ni hnd revents s =
     (let (h1, r1, s1) =
        (if revents AND (POLLOUT OR POLLERR OR POLLNVAL) \<noteq> 0 then
           (case pollout_handler hnd revents s of (st, r, s') \<Rightarrow>
              (1, if st \<noteq> 0 then north_err_handler ni hnd s' else north_state_handler ni hnd r s'))
         else (0, revents, s))
      in if r1 AND (POLLIN OR POLLHUP) \<noteq> 0 then
           (case (if if_streams (c_north s1 ! ni) \<noteq> [] \<and> hnd = hd (if_streams (c_north s1 ! ni))
                  then accept_handler ni r1 s1 else north_pollin_handler ni hnd r1 s1) of (st, r, s2) \<Rightarrow>
              (h1 + 1, if st \<noteq> 0 then north_err_handler ni hnd s2 else (r, s2)))
         else (h1, r1, s1))"

section \<open>South handlers\<close>

definition expire_address_of :: "owner \<Rightarrow> nat \<Rightarrow> ctl \<Rightarrow> ctl" where
  "expire_address_of sptr j s =
     (case c_heap s sptr of
        None \<Rightarrow> s
      | Some x \<Rightarrow>
          (case set_addresses c_live ctl_connect_run (v_wall (c_env s))
                  (unexpired_of x (c_env s) (if_addresses (c_south s ! j))) (c_south s ! j) s of
             None \<Rightarrow> s
           | Some (f, s') \<Rightarrow> s'\<lparr>c_south := (c_south s')[j := f]\<rparr>))"

definition south_err_handler :: "nat \<Rightarrow> handle \<Rightarrow> ctl \<Rightarrow> u16 \<times> ctl" where
  "south_err_handler j hnd s =
     (case hnd of (ssp, sfd) \<Rightarrow>
        (case remove_if_st (\<lambda>s c.
             if cn_south c = ssp then
               (case c_heap s (cn_north c) of
                  Some n \<Rightarrow>
                    (case ctl_state_update abort_type (v_now (c_env s)) c s of (c', s1) \<Rightarrow>
                       (False, c', trig_set (native_handle n) POLLOUT s1))
                | None \<Rightarrow> (True, c, s))
             else (False, c, s)) s (c_conns s) of (cs, s1) \<Rightarrow>
           (let s2 = trig_clear sfd (- 1) (s1\<lparr>c_conns := cs\<rparr>);
                refused = (case c_heap s2 ssp of Some x \<Rightarrow> sk_errno (rdbuf x) = ECONNREFUSED | None \<Rightarrow> False);
                s3 = (if refused then expire_address_of ssp j s2 else s2)
            in (0, south_erase j hnd s3))))"

definition south_pollin_handler :: "handle \<Rightarrow> u16 \<Rightarrow> ctl \<Rightarrow> int \<times> u16 \<times> ctl" where
  "south_pollin_handler hnd revents s =
     (case c_heap s (fst hnd) of
        None \<Rightarrow> (- 1, revents, s)
      | Some x \<Rightarrow>
          (case ctl_marshal (c_live s) (fst hnd) x (c_mar s) of (i, m, x') \<Rightarrow>
             (let s1 = s\<lparr>c_mar := m, c_heap := (c_heap s)(fst hnd \<mapsto> x')\<rparr>;
                  revents1 = (if gcount x' = 0 then revents AND NOT (POLLIN OR POLLHUP) else revents)
              in case route_south (buf_fmt (mar_south m ! i)) hnd revents1 s1 of (st, buf, revents2, s2) \<Rightarrow>
                   (st, revents2, s2\<lparr>c_mar := (c_mar s2)\<lparr>mar_south := set_fmt i buf (mar_south (c_mar s2))\<rparr>\<rparr>))))"

definition south_busy :: "owner \<Rightarrow> ctl \<Rightarrow> bool" where
  "south_busy ssp s \<longleftrightarrow> (\<exists>c \<in> set (c_conns s). cn_south c = ssp \<and> cn_state c < CLOSED)"

text \<open>A stream without open connections is no longer polled and times out after 30 seconds.\<close>

definition south_state_handler :: "handle \<Rightarrow> ctl \<Rightarrow> ctl" where
  "south_state_handler hnd s =
     (if south_busy (fst hnd) s then s
      else (trig_clear (snd hnd) (- 1) s)
             \<lparr>c_timeouts := add_event (fst hnd) (v_now (c_env s) + 30000 * 1000000) (Some (IdleSouth (fst hnd))) (c_timeouts s)\<rparr>)"

fun run_timer :: "timer_cb \<Rightarrow> ctl \<Rightarrow> ctl" where
  "run_timer (IdleSouth wp) s =
     (case c_heap s wp of
        None \<Rightarrow> s
      | Some x \<Rightarrow> (if south_busy wp s then s
          else trig_set (native_handle x) POLLOUT (s\<lparr>c_heap := (c_heap s)(wp \<mapsto> x\<lparr>failbit := True\<rparr>)\<rparr>)))"

definition south_pollout_handler :: "handle \<Rightarrow> u16 \<Rightarrow> ctl \<Rightarrow> int \<times> u16 \<times> ctl" where
  [simp]: "south_pollout_handler = pollout_handler"

definition handle_south :: "nat \<Rightarrow> handle \<Rightarrow> u16 \<Rightarrow> ctl \<Rightarrow> nat \<times> u16 \<times> ctl" where
  "handle_south j hnd revents s =
     (let (h1, r1, s1) =
        (if revents AND (POLLOUT OR POLLERR OR POLLNVAL) \<noteq> 0 then
           (case south_pollout_handler hnd revents s of (st, r, s') \<Rightarrow>
              (1, if st \<noteq> 0 then south_err_handler j hnd s' else (r, south_state_handler hnd s')))
         else (0, revents, s))
      in if r1 AND (POLLIN OR POLLHUP) \<noteq> 0 then
           (case south_pollin_handler hnd r1 s1 of (st, r, s2) \<Rightarrow>
              (h1 + 1, if st \<noteq> 0 then south_err_handler j hnd s2 else (r, s2)))
         else (h1, r1, s1))"

definition ctl_handle_events ::
  "(pollfd list \<Rightarrow> ctl \<Rightarrow> nat \<times> pollfd list \<times> ctl) \<Rightarrow> pollfd list \<Rightarrow> ctl \<Rightarrow> nat \<times> pollfd list \<times> ctl" where
  "ctl_handle_events resolver events s =
     handle_events resolver run_timer (handle_side c_south cn_south cn_north handle_south)
       (handle_side c_north cn_north cn_south handle_north) events s"

section \<open>Contracts\<close>

interpretation ctl_cb: connect_callbacks c_live ctl_connect_run
proof
  fix cb i addr len proto and f g :: "connect_cb iface" and s s' :: ctl
  assume r: "ctl_connect_run cb i addr len proto f s = (g, s')"
  obtain ni nsp where cb: "cb = ConnectCb ni nsp" by (cases cb)
  show "if_addresses g = if_addresses f \<and> if_total g = if_total f \<and> if_prio g = if_prio f \<and> if_idx g = if_idx f"
    by (rule connect_run_selection [where erase = "\<lambda>hnd f s. (f, ctl_erase_connect ni nsp hnd s)"])
      (use r cb in simp_all)
qed

section \<open>Sending to the south\<close>

lemma ctl_state_update_simps:
  assumes "ctl_state_update type time c s = (c', s')"
  shows "c' = state_update type time c" and "c_heap s' = c_heap s" and "c_conns s' = c_conns s"
    and "c_north s' = c_north s" and "c_south s' = c_south s" and "c_env s' = c_env s" and "c_mar s' = c_mar s"
    and "c_triggers s' = c_triggers s" and "c_full_duplex s' = c_full_duplex s"
  using assms by (auto simp: ctl_state_update_def Let_def split: if_splits)

lemma write_prepare_carried:
  "write_prepare cs np tp s = (b, s') \<Longrightarrow> \<exists>h. s' = s\<lparr>c_heap := h\<rparr> \<and> carried (\<lambda>_. []) (c_heap s) h"
proof (induction cs arbitrary: s)
  case Nil
  then have "s' = s\<lparr>c_heap := c_heap s\<rparr>" by simp
  then show ?case using carried_refl by blast
next
  case (Cons c cs)
  let ?pos = "MAX_BUFSIZE - (tp + 24)"
  show ?case
  proof (cases "cn_north c = np \<and> (\<exists>x. c_heap s (cn_south c) = Some x \<and> \<not> fail_of x)")
    case True
    then obtain x where x: "cn_north c = np" "c_heap s (cn_south c) = Some x" "\<not> fail_of x" by blast
    define x1 where "x1 = (if ?pos \<le> sock_tellp x then sock_flush x else x)"
    define s1 where "s1 = s\<lparr>c_heap := (c_heap s)(cn_south c \<mapsto> x1)\<rparr>"
    have "sends [] x x1" using sends_flush sends_refl by (simp add: x1_def)
    from carried_upd [where h = "c_heap s", OF x(2) this] have c1: "carried (\<lambda>_. []) (c_heap s) (c_heap s1)" by (simp add: s1_def)
    have "(b, s') = (True, s1) \<or> write_prepare cs np tp s1 = (b, s')"
      using Cons.prems x by (auto simp: x1_def s1_def Let_def split: if_splits)
    then show ?thesis
    proof
      assume "(b, s') = (True, s1)"
      then have "s' = s\<lparr>c_heap := c_heap s1\<rparr>" by (simp add: s1_def)
      with c1 show ?thesis by blast
    next
      assume w: "write_prepare cs np tp s1 = (b, s')"
      obtain h where h: "s' = s1\<lparr>c_heap := h\<rparr>" "carried (\<lambda>_. []) (c_heap s1) h" using Cons.IH [OF w] by blast
      have "carried (\<lambda>_. []) (c_heap s) h" using carried_trans [OF c1 h(2)] by simp
      then show ?thesis using h(1) by (auto simp: s1_def)
    qed
  next
    case False
    then have "write_prepare cs np tp s = (b, s')" using Cons.prems by (auto simp: Let_def split: option.splits if_splits)
    then show ?thesis by (rule Cons.IH)
  qed
qed

text \<open>What the connections of one client send to the stream \<open>q\<close>: one envelope each.\<close>

definition envelopes :: "owner \<Rightarrow> msgtype \<Rightarrow> byte list \<Rightarrow> connection list \<Rightarrow> owner \<Rightarrow> byte list" where
  "envelopes nsp type payload cs q =
     concat (map (\<lambda>c. header_bytes (make_head (cn_uuid c) (int (length payload) + 24) type) @ payload)
       (filter (\<lambda>c. cn_north c = nsp \<and> cn_south c = q \<and> cn_state c \<noteq> CLOSED) cs))"

definition served :: "ctl \<Rightarrow> owner \<Rightarrow> connection \<Rightarrow> bool" where
  "served s nsp c \<longleftrightarrow> cn_north c = nsp \<and> c_live s (cn_south c)"

lemma route_loop:
  assumes "ss_ok p payload buf" and "conn_loop (route_step nsp type (int p) time) cs (k, buf, s) = (cs', k', buf', s')"
  shows "cs' = map (\<lambda>c. if served s nsp c then state_update type time c else c) cs
    \<and> k' = k + length (filter (served s nsp) cs) \<and> ss_ok p payload buf' \<and> c_conns s' = c_conns s \<and> c_env s' = c_env s
    \<and> carried (\<lambda>q. if c_live s q then envelopes nsp type payload cs q else []) (c_heap s) (c_heap s')"
  using assms
proof (induction cs arbitrary: k buf s cs' k' buf' s')
  case Nil
  have "(\<lambda>q. if c_live s q then envelopes nsp type payload [] q else []) = (\<lambda>_. [])" by (auto simp: envelopes_def)
  then show ?case using Nil carried_refl by auto
next
  case (Cons c cs)
  obtain c1 k1 b1 s1 where st: "route_step nsp type (int p) time c (k, buf, s) = (c1, k1, b1, s1)"
    by (cases "route_step nsp type (int p) time c (k, buf, s)") auto
  obtain cs2 where lp: "conn_loop (route_step nsp type (int p) time) cs (k1, b1, s1) = (cs2, k', buf', s')" and cs': "cs' = c1 # cs2"
    using Cons.prems(2) st by (auto split: prod.splits)
  have len: "length payload = p" by (rule ss_ok_length [OF Cons.prems(1)])
  let ?w = "\<lambda>q. if c_live s q then envelopes nsp type payload [c] q else []"
  have one: "c1 = (if served s nsp c then state_update type time c else c) \<and> k1 = k + (if served s nsp c then 1 else 0)
     \<and> ss_ok p payload b1 \<and> c_conns s1 = c_conns s \<and> c_env s1 = c_env s \<and> carried ?w (c_heap s) (c_heap s1)"
  proof (cases "served s nsp c \<and> cn_state c \<noteq> CLOSED")
    case True
    then obtain x where x: "cn_north c = nsp" "c_heap s (cn_south c) = Some x" "cn_state c \<noteq> CLOSED" by (auto simp: served_def)
    let ?h = "make_head (cn_uuid c) (int p + 24) type"
    obtain x' b' where e: "send_envelope ?h (int p) buf x = (x', b')" by fastforce
    note se = send_envelope_sends [OF Cons.prems(1) e]
    define s2 where "s2 = (if native_handle x' \<noteq> BAD_SOCKET
        then trig_set (native_handle x') POLLOUT (s\<lparr>c_heap := (c_heap s)(cn_south c \<mapsto> x')\<rparr>)
        else s\<lparr>c_heap := (c_heap s)(cn_south c \<mapsto> x')\<rparr>)"
    have s2: "c_heap s2 = (c_heap s)(cn_south c \<mapsto> x')" "c_conns s2 = c_conns s" "c_env s2 = c_env s" by (auto simp: s2_def)
    obtain c3 s3 where u: "ctl_state_update type time c s2 = (c3, s3)" by fastforce
    have "(c1, k1, b1, s1) = (c3, Suc k, b', s3)"
      using st x e u by (simp add: route_step_def Let_def s2_def [symmetric])
    moreover have "?w = (\<lambda>q. if q = cn_south c then header_bytes ?h @ payload else [])"
      using x by (auto simp: envelopes_def len fun_eq_iff)
    ultimately show ?thesis
      using True se s2 ctl_state_update_simps [OF u] carried_upd [where h = "c_heap s", OF x(2)] by simp
  next
    case False
    then have "(k1, b1, s1) = (if served s nsp c then Suc k else k, buf, s) \<and> c1 = c"
      using st by (auto simp: route_step_def served_def split: option.splits if_splits)
    moreover have "served s nsp c \<Longrightarrow> state_update type time c = c" using False by (simp add: state_update_def)
    moreover have "?w = (\<lambda>_. [])" using False by (auto simp: envelopes_def served_def fun_eq_iff)
    ultimately show ?thesis using Cons.prems(1) carried_refl by auto
  qed
  then have live: "c_live s1 = c_live s" using carried_live [of ?w "c_heap s" "c_heap s1"] by auto
  then have sv: "served s1 nsp = served s nsp" by (auto simp: served_def fun_eq_iff)
  note ih = Cons.IH [OF _ lp] 
  have "carried (\<lambda>q. ?w q @ (if c_live s1 q then envelopes nsp type payload cs q else [])) (c_heap s) (c_heap s')"
    using one ih carried_trans by blast
  moreover have "(\<lambda>q. ?w q @ (if c_live s1 q then envelopes nsp type payload cs q else []))
      = (\<lambda>q. if c_live s q then envelopes nsp type payload (c # cs) q else [])"
    using live by (auto simp: envelopes_def fun_eq_iff)
  ultimately show ?case using one ih sv cs' by auto
qed

text \<open>Routing of a client's bytes when some connection of the client has a live south stream, or at its end of file.\<close>

lemma route_north_sends:
  assumes "ss_ok p payload buf" and "c_heap s nsp = Some x" and "eofbit x \<or> 0 < p"
    and "eofbit x \<or> (\<exists>c \<in> set (c_conns s). served s nsp c)"
    and "write_prepare (c_conns s) nsp (int p) s = (blocked, s1)"
    and "route_north buf ni (nsp, nfd) revents s = (st, buf', revents', s')"
  shows "st = 0 \<and> (if blocked
     then revents' = revents AND NOT (POLLIN OR POLLHUP) \<and> c_conns s' = c_conns s
       \<and> carried (\<lambda>_. []) (c_heap s) (c_heap s')
     else revents' = revents
       \<and> c_conns s' = map (\<lambda>c. if served s nsp c
           then state_update \<lparr>msg_op = (if eofbit x then STOP else DATA), msg_flags = 0\<rparr> (v_now (c_env s)) c else c) (c_conns s)
       \<and> carried (\<lambda>q. if c_live s q
           then envelopes nsp \<lparr>msg_op = (if eofbit x then STOP else DATA), msg_flags = 0\<rparr> payload (c_conns s) q else [])
           (c_heap s) (c_heap s'))"
proof -
  have eof: "eof_at s nsp = eofbit x" using assms(2) by (simp add: eof_at_def)
  obtain h where h: "s1 = s\<lparr>c_heap := h\<rparr>" "carried (\<lambda>_. []) (c_heap s) h"
    using write_prepare_carried [OF assms(5)] by blast
  then have s1: "c_conns s1 = c_conns s" "c_env s1 = c_env s" and wp: "carried (\<lambda>_. []) (c_heap s) (c_heap s1)" by simp_all
  have live: "c_live s1 = c_live s" using carried_live [OF wp] by auto
  then have sv: "served s1 nsp = served s nsp" by (auto simp: served_def fun_eq_iff)
  note tp = ss_ok_tellp [OF assms(1)]
  show ?thesis
  proof (cases blocked)
    case True
    then have "route_north_send buf ni (nsp, nfd) (eofbit x) revents s
        = (Some 0, buf, revents AND NOT (POLLIN OR POLLHUP), trig_clear nfd (ucast (POLLIN OR POLLHUP :: u16)) s1)"
      using assms(3,5) by (simp add: route_north_send_def tp clear_triggers_def)
    then show ?thesis using True assms(6) s1 wp eof by (auto simp: route_north_def Let_def)
  next
    case False
    let ?type = "\<lparr>msg_op = (if eofbit x then STOP else DATA), msg_flags = 0\<rparr> :: msgtype"
    obtain cs k b s2 where lp: "conn_loop (route_step nsp ?type (int p) (v_now (c_env s1))) (c_conns s1) (0, buf, s1) = (cs, k, b, s2)"
      by (cases "conn_loop (route_step nsp ?type (int p) (v_now (c_env s1))) (c_conns s1) (0, buf, s1)") auto
    note rl = route_loop [OF assms(1) lp]
    have "eofbit x \<or> k \<noteq> 0" using assms(4) rl s1(1) sv by (auto simp: filter_empty_conv)
    then have "route_north_send buf ni (nsp, nfd) (eofbit x) revents s = (None, b, revents, s2\<lparr>c_conns := cs\<rparr>)"
      using assms(3,5) False lp by (auto simp: route_north_send_def tp Let_def)
    then have r: "st = 0" "revents' = revents" "c_conns s' = cs" "c_heap s' = c_heap s2"
      using assms(6) eof by (auto simp: route_north_def Let_def)
    have "carried (\<lambda>q. [] @ (if c_live s1 q then envelopes nsp ?type payload (c_conns s1) q else [])) (c_heap s) (c_heap s2)"
      using carried_trans wp rl by blast
    moreover have "(\<lambda>q. [] @ (if c_live s1 q then envelopes nsp ?type payload (c_conns s1) q else []))
        = (\<lambda>q. if c_live s q then envelopes nsp ?type payload (c_conns s) q else [])"
      using live s1(1) by (auto simp: fun_eq_iff)
    ultimately have "carried (\<lambda>q. if c_live s q then envelopes nsp ?type payload (c_conns s) q else []) (c_heap s) (c_heap s')"
      using r(4) by simp
    moreover have "cs = map (\<lambda>c. if served s nsp c then state_update ?type (v_now (c_env s)) c else c) (c_conns s)"
      using rl s1 sv by simp
    ultimately show ?thesis using False r by simp
  qed
qed

section \<open>The latch\<close>

definition latched :: "ctl \<Rightarrow> uuid \<Rightarrow> owner \<Rightarrow> connection \<Rightarrow> bool" where
  "latched s eid ssp c \<longleftrightarrow> cn_uuid c = eid \<and> cn_state c < HALF_CLOSED \<and> cn_south c \<noteq> ssp \<and> c_live s (cn_south c)"

text \<open>One abort for every connection in \<open>cs\<close> that \<open>P\<close> selects and whose south stream is \<open>q\<close>.\<close>

definition aborts :: "(connection \<Rightarrow> bool) \<Rightarrow> connection list \<Rightarrow> owner \<Rightarrow> byte list" where
  "aborts P cs q = concat (map (\<lambda>c. header_bytes (abort_header (cn_uuid c))) (filter (\<lambda>c. P c \<and> cn_south c = q) cs))"

lemma aborts_Nil [simp]: "aborts P [] = (\<lambda>_. [])"
  by (simp add: aborts_def fun_eq_iff)

lemma aborts_Cons:
  "aborts P (c # cs) = (\<lambda>q. (if q = cn_south c then if P c then header_bytes (abort_header (cn_uuid c)) else [] else [])
     @ aborts P cs q)"
  by (auto simp: aborts_def fun_eq_iff)

lemma latch_loop:
  assumes "conn_loop (latch_step eid ssp time) cs s = (cs', s')"
  shows "cs' = map (\<lambda>c. if latched s eid ssp c then state_update abort_type time c else c) cs
    \<and> c_conns s' = c_conns s \<and> c_env s' = c_env s \<and> c_north s' = c_north s \<and> c_mar s' = c_mar s
    \<and> carried (aborts (latched s eid ssp) cs) (c_heap s) (c_heap s')"
  using assms
proof (induction cs arbitrary: s cs' s')
  case Nil
  then show ?case by (auto simp: carried_refl)
next
  case (Cons c cs)
  obtain c1 s1 where st: "latch_step eid ssp time c s = (c1, s1)" by fastforce
  obtain cs2 where lp: "conn_loop (latch_step eid ssp time) cs s1 = (cs2, s')" and cs': "cs' = c1 # cs2"
    using Cons.prems st by (auto split: prod.splits)
  let ?w = "\<lambda>q. if q = cn_south c then if latched s eid ssp c then header_bytes (abort_header (cn_uuid c)) else [] else []"
  have one: "c1 = (if latched s eid ssp c then state_update abort_type time c else c)
     \<and> c_conns s1 = c_conns s \<and> c_env s1 = c_env s \<and> c_north s1 = c_north s \<and> c_mar s1 = c_mar s \<and> carried ?w (c_heap s) (c_heap s1)"
  proof (cases "latched s eid ssp c")
    case True
    then obtain x where x: "c_heap s (cn_south c) = Some x" by (auto simp: latched_def)
    define s2 where "s2 = trig_set (native_handle x) POLLOUT (s\<lparr>c_heap := (c_heap s)(cn_south c \<mapsto> write_header (abort_header eid) x)\<rparr>)"
    have s2: "c_heap s2 = (c_heap s)(cn_south c \<mapsto> write_header (abort_header eid) x)" "c_conns s2 = c_conns s"
      "c_env s2 = c_env s" "c_north s2 = c_north s" "c_mar s2 = c_mar s" by (simp_all add: s2_def)
    have u: "ctl_state_update abort_type time c s2 = (c1, s1)"
      using st x True by (simp add: latch_step_def latched_def s2_def)
    have "sends (header_bytes (abort_header eid)) x (write_header (abort_header eid) x)"
      unfolding write_header_def by (rule sends_write)
    from carried_upd [where h = "c_heap s", OF x this] show ?thesis
      using ctl_state_update_simps [OF u] s2 True by (auto simp: latched_def)
  next
    case False
    then have "(c1, s1) = (c, s)" using st by (auto simp: latch_step_def latched_def split: option.splits if_splits)
    then show ?thesis using False carried_refl by auto
  qed
  then have "latched s1 eid ssp = latched s eid ssp"
    using carried_live [of ?w "c_heap s" "c_heap s1"] by (auto simp: latched_def fun_eq_iff)
  with Cons.IH [OF lp] one cs' carried_trans [of ?w "c_heap s" "c_heap s1"] show ?case
    by (simp add: aborts_Cons)
qed

text \<open>Delivering a message: the north stream gets the payload or, when it has too much pending, nothing changes.\<close>

lemma deliver_south_blocked:
  assumes "guarded_write True (xmsg_seekg seekpos buf) n = (0, buf1, n')" and "seekpos < p"
  shows "deliver_south buf hnd revents k n eid type p seekpos ret s =
    (0, buf1, revents AND NOT (POLLIN OR POLLHUP),
     trig_clear (snd hnd) (ucast (POLLIN OR POLLHUP :: u16))
       ((trig_set (native_handle n) POLLOUT s)\<lparr>c_heap := (c_heap s)(cn_north (c_conns s ! k) \<mapsto> n')\<rparr>))"
  using assms by (simp add: deliver_south_def Let_def clear_triggers_def)

definition latching :: "ctl \<Rightarrow> connection \<Rightarrow> int \<Rightarrow> int \<Rightarrow> bool" where
  "latching s c p seekpos \<longleftrightarrow> \<not> c_full_duplex s \<and> cn_state c = HALF_OPEN \<and> seekpos = 24 \<and> seekpos < p"

lemma state_update_leaves_half_open: "cn_state (state_update ty t c) \<noteq> HALF_OPEN"
  using state_update_no [of ty t c] by (cases "cn_state (state_update ty t c)") (auto split: if_splits)

text \<open>The connections after a delivery, and what every south stream is sent by it.\<close>

lemma deliver_south_ok:
  assumes w: "(len, buf1, n') = (if seekpos < p then guarded_write True (xmsg_seekg seekpos buf) n else (1, buf, n))"
    and len: "len \<noteq> 0" and k: "k < length (c_conns s)" and c: "c = c_conns s ! k"
    and n: "c_heap s (cn_north c) = Some n"
    and d: "deliver_south buf hnd revents k n eid type p seekpos ret s = (r, buf', revents', s')"
  shows "r = ret \<and> buf' = buf1\<lparr>eofbit := True\<rparr> \<and> revents' = revents
    \<and> c_conns s' = map (\<lambda>c'. if latching s c p seekpos \<and> latched s eid (fst hnd) c'
          then state_update abort_type (v_now (c_env s)) c' else c')
        ((c_conns s)[k := state_update type (v_now (c_env s)) c])
    \<and> carried (if latching s c p seekpos
        then aborts (latched s eid (fst hnd)) ((c_conns s)[k := state_update type (v_now (c_env s)) c]) else (\<lambda>_. []))
        ((c_heap s)(cn_north c \<mapsto> n')) (c_heap s')"
proof -
  define s1 where "s1 = (trig_set (native_handle n) POLLOUT s)\<lparr>c_heap := (c_heap s)(cn_north c \<mapsto> n')\<rparr>"
  have s1: "c_heap s1 = (c_heap s)(cn_north c \<mapsto> n')" "c_conns s1 = c_conns s" "c_env s1 = c_env s" by (simp_all add: s1_def)
  obtain c' s2 where u: "ctl_state_update type (v_now (c_env s)) c s1 = (c', s2)" by fastforce
  note us = ctl_state_update_simps [OF u]
  define s3 where "s3 = s2\<lparr>c_conns := (c_conns s2)[k := c']\<rparr>"
  have s3: "c_heap s3 = (c_heap s)(cn_north c \<mapsto> n')" "c_conns s3 = (c_conns s)[k := c']" using us s1 by (simp_all add: s3_def)
  have lv: "latched s3 eid (fst hnd) = latched s eid (fst hnd)" using s3(1) n by (auto simp: latched_def fun_eq_iff)
  have ns: "cn_state c' \<noteq> HALF_OPEN" using us(1) state_update_leaves_half_open by simp
  have eq: "(r, buf', revents', s') = (ret, buf1\<lparr>eofbit := True\<rparr>, revents,
      if latching s c p seekpos
      then (case conn_loop (latch_step eid (fst hnd) (v_now (c_env s))) (c_conns s3) s3 of (cs, s') \<Rightarrow> s'\<lparr>c_conns := cs\<rparr>)
      else s3)"
    using d len u ns unfolding deliver_south_def Let_def w [symmetric] prod.case c [symmetric]
    by (auto simp: s1_def [symmetric] s3_def latching_def)
  show ?thesis
  proof (cases "latching s c p seekpos")
    case True
    obtain cs s4 where lp: "conn_loop (latch_step eid (fst hnd) (v_now (c_env s))) (c_conns s3) s3 = (cs, s4)" by fastforce
    have r: "r = ret" "buf' = buf1\<lparr>eofbit := True\<rparr>" "revents' = revents" "s' = s4\<lparr>c_conns := cs\<rparr>"
      using eq lp True by simp_all
    show ?thesis using True r latch_loop [OF lp] s3 lv us(1) by simp
  next
    case False
    then show ?thesis using eq s3 us(1) carried_refl [of "(c_heap s)(cn_north c \<mapsto> n')"] by simp
  qed
qed

section \<open>Losing a client\<close>

lemma north_err_loop:
  assumes "remove_if_st (\<lambda>s c.
             if cn_north c = nsp then
               (True, c, case c_heap s (cn_south c) of
                  None \<Rightarrow> s
                | Some x \<Rightarrow>
                    (let s1 = trig_set (native_handle x) POLLOUT s in
                     if cn_state c < CLOSED
                     then s1\<lparr>c_heap := (c_heap s1)(cn_south c \<mapsto> write_header (abort_header (cn_uuid c)) x)\<rparr>
                     else s1))
             else (False, c, s)) (s :: ctl) cs = (cs', s')" (is "remove_if_st ?f s cs = _")
  shows "cs' = filter (\<lambda>c. cn_north c \<noteq> nsp) cs \<and> c_conns s' = c_conns s
    \<and> carried (\<lambda>q. if c_live s q then aborts (\<lambda>c. cn_north c = nsp \<and> cn_state c < CLOSED) cs q else []) (c_heap s) (c_heap s')"
  using assms
proof (induction cs arbitrary: s cs' s')
  case Nil
  have "(\<lambda>q. if c_live s q then aborts (\<lambda>c. cn_north c = nsp \<and> cn_state c < CLOSED) [] q else []) = (\<lambda>_. [])" by auto
  then show ?case using Nil carried_refl by auto
next
  case (Cons c cs)
  obtain del c1 s1 where st: "?f s c = (del, c1, s1)" by (cases "?f s c") auto
  obtain cs2 where lp: "remove_if_st ?f s1 cs = (cs2, s')" and cs': "cs' = (if del then cs2 else c1 # cs2)"
    using Cons.prems st by (auto split: prod.splits)
  let ?P = "\<lambda>c. cn_north c = nsp \<and> cn_state c < CLOSED"
  let ?w = "\<lambda>q. if q = cn_south c then (if c_live s q \<and> ?P c then header_bytes (abort_header (cn_uuid c)) else []) else []"
  have one: "del = (cn_north c = nsp) \<and> c1 = c \<and> c_conns s1 = c_conns s \<and> carried ?w (c_heap s) (c_heap s1)"
  proof (cases "?P c \<and> c_live s (cn_south c)")
    case True
    then obtain x where x: "c_heap s (cn_south c) = Some x" by auto
    have "sends (header_bytes (abort_header (cn_uuid c))) x (write_header (abort_header (cn_uuid c)) x)"
      unfolding write_header_def by (rule sends_write)
    from carried_upd [where h = "c_heap s", OF x this]
    have "carried ?w (c_heap s) ((c_heap s)(cn_south c \<mapsto> write_header (abort_header (cn_uuid c)) x))"
      by (rule back_subst [where P = "\<lambda>w. carried w _ _"]) (use True x in auto)
    then show ?thesis using True st x by (auto simp: Let_def)
  next
    case False
    then have "c_heap s1 = c_heap s \<and> c_conns s1 = c_conns s \<and> del = (cn_north c = nsp) \<and> c1 = c"
      using st by (auto simp: Let_def split: option.splits if_splits)
    moreover have "?w = (\<lambda>_. [])" using False by auto
    ultimately show ?thesis using carried_refl [of "c_heap s"] by simp
  qed
  then have live: "c_live s1 q = c_live s q" for q using carried_live [of ?w "c_heap s" "c_heap s1"] by auto
  note ih = Cons.IH [OF lp]
  have "carried (\<lambda>q. ?w q @ (if c_live s1 q then aborts ?P cs q else [])) (c_heap s) (c_heap s')"
    using one ih carried_trans by blast
  moreover have "(\<lambda>q. ?w q @ (if c_live s1 q then aborts ?P cs q else [])) = (\<lambda>q. if c_live s q then aborts ?P (c # cs) q else [])"
    using live by (auto simp: aborts_Cons fun_eq_iff)
  ultimately show ?case using one ih cs' by auto
qed

section \<open>Replies\<close>

text \<open>The south routing function on such a message, cut at its decisions.\<close>

lemma route_south_fresh:
  assumes "fresh_message buf eid type payload" and "eof_at s ssp = eof"
  shows "route_south buf (ssp, sfd) revents s =
    (let ret = (if eof then - 1 else 0); k = session_index eid ssp (c_conns s);
         buf2 = buf\<lparr>rdbuf := (rdbuf buf)\<lparr>xb_egptr := xb_pptr (rdbuf buf)\<rparr>\<rparr> in
     if k < length (c_conns s) \<and> \<not> refuses type (c_conns s ! k) s
     then (case c_heap s (cn_north (c_conns s ! k)) of
         Some n \<Rightarrow> deliver_south buf2 (ssp, sfd) revents k n eid type (24 + int (length payload)) 24 ret s
       | None \<Rightarrow> (ret, buf2\<lparr>eofbit := True\<rparr>, revents, s))
     else (ret, buf2\<lparr>eofbit := True\<rparr>, revents,
       if \<not> eof \<and> \<not> has_flag type ABORT
       then (case c_heap s ssp of
           Some x \<Rightarrow> trig_set (native_handle x) POLLOUT (upd_stream ssp (write_header (abort_header eid)) s)
         | None \<Rightarrow> s)
       else s))"
proof -
  note f = fresh_message_fields [OF assms(1) refl]
  show ?thesis
    unfolding route_south_def prod.case Let_def assms(2) f(5) option.case f(1,2,4) using f(3,6) by simp
qed

text \<open>Delivery to a good client: what \<open>deliver_south\<close> does from the start of the payload.\<close>

lemma deliver_fresh:
  assumes fm: "fresh_message buf eid type payload" and k: "k < length (c_conns s)" and c: "c = c_conns s ! k"
    and n: "c_heap s (cn_north c) = Some n" "good n" "sk_single (rdbuf n)"
    and ssp: "cn_south c = ssp" and sep: "\<forall>c' \<in> set (c_conns s). cn_south c' \<noteq> cn_north c"
    and d: "deliver_south (buf\<lparr>rdbuf := (rdbuf buf)\<lparr>xb_egptr := xb_pptr (rdbuf buf)\<rparr>\<rparr>) (ssp, sfd) revents k n eid type
        (24 + int (length payload)) 24 ret s = (st, buf', revents', s')"
    and full: "full \<longleftrightarrow> payload \<noteq> [] \<and> fst (guarded_write True (at_payload buf) n) = 0"
  shows "\<exists>n'. c_heap s' (cn_north c) = Some n' \<and> sends (if full then [] else payload) n n'
    \<and> (if full then revents' = revents AND NOT (POLLIN OR POLLHUP) \<and> st = 0 \<and> c_conns s' = c_conns s
         \<and> good buf' \<and> xb_unread (rdbuf buf') = payload
       else revents' = revents \<and> st = ret \<and> eofbit buf' \<and> c_conns s' ! k = state_update type (v_now (c_env s)) c)
    \<and> (\<forall>q x. q \<noteq> cn_north c \<longrightarrow> (\<forall>c' \<in> set (c_conns s). cn_south c' \<noteq> q) \<longrightarrow> c_heap s q = Some x \<longrightarrow>
         (\<exists>x'. c_heap s' q = Some x' \<and> sends [] x x'))"
proof -
  let ?b2 = "buf\<lparr>rdbuf := (rdbuf buf)\<lparr>xb_egptr := xb_pptr (rdbuf buf)\<rparr>\<rparr>"
  have sg: "xmsg_seekg 24 ?b2 = at_payload buf" by (rule fresh_message_fields(7) [OF fm refl])
  have ap: "xb_complete (rdbuf (at_payload buf))" "good (at_payload buf)" "xb_unread (rdbuf (at_payload buf)) = payload"
    using at_payload_complete [OF fm] by blast+
  obtain len buf1 n' where gw: "guarded_write True (at_payload buf) n = (len, buf1, n')"
    by (cases "guarded_write True (at_payload buf) n") auto
  have snd: "sends (if payload \<noteq> [] \<and> len = 0 then [] else payload) n n'"
    and kept: "payload \<noteq> [] \<Longrightarrow> len = 0 \<Longrightarrow> good buf1 \<and> xb_unread (rdbuf buf1) = payload"
    using guarded_write_sends(1,2) [OF ap(1,2) n(2,3) gw] unfolding ap(3) by blast+
  show ?thesis
  proof (cases full)
    case True
    then have len: "payload \<noteq> []" "len = 0" using full gw by simp_all
    have "(st, buf', revents', s') = (0, buf1, revents AND NOT (POLLIN OR POLLHUP),
       trig_clear sfd (ucast (POLLIN OR POLLHUP :: u16))
         ((trig_set (native_handle n) POLLOUT s)\<lparr>c_heap := (c_heap s)(cn_north c \<mapsto> n')\<rparr>))"
      using d deliver_south_blocked [where seekpos = 24 and buf = ?b2 and p = "24 + int (length payload)" and hnd = "(ssp, sfd)"] gw len
      by (simp add: sg c)
    then show ?thesis using True len snd kept by (auto intro: sends_refl)
  next
    case False
    define w where "w = (if payload = [] then (1, ?b2, n) else (len, buf1, n'))"
    obtain len2 buf2 n2 where w2: "w = (len2, buf2, n2)" by (cases w) auto
    have w: "(len2, buf2, n2) = (if 24 < 24 + int (length payload) then guarded_write True (xmsg_seekg 24 ?b2) n else (1, ?b2, n))"
      and len2: "len2 \<noteq> 0" and s2: "sends payload n n2"
      using w2 gw False full snd sends_refl by (auto simp: w_def sg split: if_splits)
    note ok = deliver_south_ok [OF w len2 k c n(1) d]
    let ?cs = "(c_conns s)[k := state_update type (v_now (c_env s)) c]"
    define v where "v = (if latching s c (24 + int (length payload)) 24 then aborts (latched s eid ssp) ?cs else (\<lambda>_. []))"
    have car: "carried v ((c_heap s)(cn_north c \<mapsto> n2)) (c_heap s')"
      using ok unfolding v_def fst_conv by blast
    have cs: "cn_south c' \<in> cn_south ` set (c_conns s)" if "c' \<in> set ?cs" for c'
    proof -
      have "c' = state_update type (v_now (c_env s)) c \<or> c' \<in> set (c_conns s)" using that set_update_subset_insert [of "c_conns s" k] by auto
      then show ?thesis using c k by auto
    qed
    have v0: "v q = []" if "\<forall>c' \<in> set (c_conns s). cn_south c' \<noteq> q" for q
      using that cs by (fastforce simp: v_def aborts_def filter_empty_conv)
    have "\<exists>n3. c_heap s' (cn_north c) = Some n3 \<and> sends payload n n3"
      using carried_at [OF car, of "cn_north c" n2] v0 [OF sep] sends_trans [OF s2, of "[]"] by auto
    moreover have "c_conns s' ! k = state_update type (v_now (c_env s)) c"
      using ok k ssp by (simp add: latched_def)
    moreover have "\<exists>x'. c_heap s' q = Some x' \<and> sends [] x x'"
      if "q \<noteq> cn_north c" "\<forall>c' \<in> set (c_conns s). cn_south c' \<noteq> q" "c_heap s q = Some x" for q x
      using carried_at [OF car, of q x] v0 [OF that(2)] that by simp
    ultimately show ?thesis using False ok by simp
  qed
qed

lemma session_index_match:
  assumes "session_index eid ssp cs < length cs"
  shows "node_id (cn_uuid (cs ! session_index eid ssp cs)) = node_id eid" and "cn_south (cs ! session_index eid ssp cs) = ssp"
  using nth_length_takeWhile [of "\<lambda>c. \<not> (uuidcmp_node (cn_uuid c) eid = 0 \<and> cn_south c = ssp)" cs] assms
  by (simp_all add: session_index_def)

section \<open>Selection and identifiers\<close>

text \<open>The low six bits of the clock sequence count round; the rest of the identifier stays.\<close>

lemma bump_step:
  "unat (clock_seq_reserved (bump_clock_seq u) AND CLOCK_SEQ_MAX) = (unat (clock_seq_reserved u AND CLOCK_SEQ_MAX) + 1) mod 64
   \<and> node_id (bump_clock_seq u) = node_id u"
proof -
  let ?c = "clock_seq_reserved u"
  have m: "CLOCK_SEQ_MAX = mask 6" by (simp add: CLOCK_SEQ_MAX_def mask_eq_exp_minus_1)
  have u6: "unat (w AND CLOCK_SEQ_MAX) = unat w mod 64" for w :: byte
    unfolding m by (simp add: take_bit_eq_mask [symmetric] unsigned_take_bit_eq take_bit_nat_def)
  show ?thesis
  proof (cases "?c AND CLOCK_SEQ_MAX = CLOCK_SEQ_MAX")
    case True
    then have "unat ?c mod 64 = 63" using u6 [of ?c] by (simp add: CLOCK_SEQ_MAX_def)
    moreover have "(?c AND NOT CLOCK_SEQ_MAX) AND CLOCK_SEQ_MAX = 0" by (simp add: and.assoc and.commute [of "NOT CLOCK_SEQ_MAX"])
    ultimately show ?thesis using True u6 [of ?c] by (simp add: bump_clock_seq_def)
  next
    case False
    have "unat (?c + 1) mod 64 = (unat ?c + 1) mod 64"
      by (simp add: unat_word_ariths mod_mod_cancel)
    then show ?thesis using False u6 [of ?c] u6 [of "?c + 1"] by (simp add: bump_clock_seq_def mod_Suc_eq)
  qed
qed

lemma bump_iterate:
  "unat (clock_seq_reserved ((bump_clock_seq ^^ i) u) AND CLOCK_SEQ_MAX) = (unat (clock_seq_reserved u AND CLOCK_SEQ_MAX) + i) mod 64
   \<and> node_id ((bump_clock_seq ^^ i) u) = node_id u"
proof (induction i)
  case 0
  have "clock_seq_reserved u AND CLOCK_SEQ_MAX \<le> CLOCK_SEQ_MAX" by (rule word_and_le1)
  then have "unat (clock_seq_reserved u AND CLOCK_SEQ_MAX) < 64" by (simp add: word_le_nat_alt CLOCK_SEQ_MAX_def)
  then show ?case by simp
next
  case (Suc i)
  then show ?case using bump_step [of "(bump_clock_seq ^^ i) u"] by (simp add: mod_Suc_eq)
qed

text \<open>With the oldest arrival at the front of the table the selection never moves off its first candidate.\<close>

lemma select_loop_stuck:
  assumes "\<forall>m \<in> set ms. mt_last_arrival (ms ! 0) \<le> mt_last_arrival m"
    and "\<forall>h \<in> set hs. key_hit mt_wp (fst h) ms (lower_bound (\<lambda>x. mt_wp x < fst h) ms)"
  shows "\<exists>n. select_loop ms hs i loaded 0 lru = Inr (n, lru)"
  using assms(2)
proof (induction hs arbitrary: i loaded)
  case Nil
  then show ?case by simp
next
  case (Cons h hs)
  obtain sp fd where h: "h = (sp, fd)" by fastforce
  have hit: "key_hit mt_wp sp ms (lower_bound (\<lambda>x. mt_wp x < sp) ms)" using Cons.prems h by simp
  then have "mt_last_arrival (ms ! 0) \<le> mt_last_arrival (ms ! lower_bound (\<lambda>x. mt_wp x < sp) ms)"
    using assms(1) by (simp add: key_hit_def)
  with Cons hit h show ?case by (auto simp: Let_def)
qed

section \<open>Properties\<close>

text \<open>C3: what a client sends reaches its backends as envelopes. While none of its south streams has too
  much pending, every good stream that does not break gets, for each of the client's open
  connections to it, one header with the connection's identifier followed by exactly the client's bytes,
  and no other stream gets anything; every connection with a live south stream advances. The length
  field never wraps around for as many bytes as the marshaller takes at once. If some south stream
  has too much pending, nothing is sent, no connection changes and the client is no longer polled.\<close>

theorem client_bytes_enveloped:
  assumes "ss_ok p payload buf" and "c_heap s nsp = Some x" and "eofbit x \<or> 0 < p" and "p \<le> 65511"
    and "eofbit x \<or> (\<exists>c \<in> set (c_conns s). served s nsp c)"
    and "write_prepare (c_conns s) nsp (int p) s = (blocked, s1)"
    and "route_north buf ni (nsp, nfd) revents s = (st, buf', revents', s')"
    and "type = \<lparr>msg_op = (if eofbit x then STOP else DATA), msg_flags = 0\<rparr>"
    and "c_heap s q = Some y" and "good y" and "sk_single (rdbuf y)"
  shows "st = 0
    \<and> c_conns s' = map (\<lambda>c. if \<not> blocked \<and> served s nsp c then state_update type (v_now (c_env s)) c else c) (c_conns s)
    \<and> revents' = (if blocked then revents AND NOT (POLLIN OR POLLHUP) else revents)
    \<and> (\<exists>y'. c_heap s' q = Some y' \<and> (\<not> badbit y' \<longrightarrow> good y' \<and> sk_stream (rdbuf y') =
         sk_stream (rdbuf y) @ (if blocked then [] else envelopes nsp type payload (c_conns s) q)))
    \<and> unat (msg_length (msg_len (make_head u (int p + 24) type))) = p + 24"
proof -
  note r = route_north_sends [OF assms(1-3,5-7), folded assms(8)]
  define w where "w = (\<lambda>q. if \<not> blocked \<and> c_live s q then envelopes nsp type payload (c_conns s) q else [])"
  have "carried w (c_heap s) (c_heap s')" using r by (cases blocked) (simp_all add: w_def)
  from carried_at [OF this assms(9)] have "\<exists>y'. c_heap s' q = Some y' \<and> sends (w q) y y'" .
  then have "\<exists>y'. c_heap s' q = Some y' \<and> (\<not> badbit y' \<longrightarrow> good y' \<and> sk_stream (rdbuf y') =
         sk_stream (rdbuf y) @ (if blocked then [] else envelopes nsp type payload (c_conns s) q))"
    using assms(9-11) by (auto simp: sends_def w_def)
  moreover have "unat (msg_length (msg_len (make_head u (int p + 24) type))) = p + 24"
    by (rule make_head_length [OF assms(4)])
  ultimately show ?thesis using r by (cases blocked) simp_all
qed

text \<open>a reply reaches the client of its session and nobody else. For a complete message of a known session
  the client's stream, good and not broken by the write, gets exactly the payload, the message is used up
  and the connection advances; when the client has too much pending it gets nothing, the
  message stays in the buffer for the next attempt and the south stream is no longer polled. Streams
  that are not a south stream of some connection get nothing.\<close>

theorem reply_reaches_its_client:
  assumes "fresh_message buf eid type payload" and "k = session_index eid ssp (c_conns s)" and "k < length (c_conns s)"
    and "\<not> refuses type (c_conns s ! k) s" and "np = cn_north (c_conns s ! k)"
    and "c_heap s np = Some n" and "good n" and "sk_single (rdbuf n)"
    and "\<forall>c \<in> set (c_conns s). cn_south c \<noteq> np"
    and "route_south buf (ssp, sfd) revents s = (st, buf', revents', s')"
    and "full \<longleftrightarrow> payload \<noteq> [] \<and> fst (guarded_write True (at_payload buf) n) = 0"
  shows "\<exists>n'. c_heap s' np = Some n'
    \<and> (\<not> badbit n' \<longrightarrow> sk_stream (rdbuf n') = sk_stream (rdbuf n) @ (if full then [] else payload))
    \<and> (if full then revents' = revents AND NOT (POLLIN OR POLLHUP) \<and> c_conns s' = c_conns s
         \<and> good buf' \<and> xb_unread (rdbuf buf') = payload
       else revents' = revents \<and> eofbit buf' \<and> c_conns s' ! k = state_update type (v_now (c_env s)) (c_conns s ! k))
    \<and> (\<forall>q x. q \<noteq> np \<longrightarrow> (\<forall>c \<in> set (c_conns s). cn_south c \<noteq> q) \<longrightarrow> c_heap s q = Some x \<longrightarrow>
         (\<exists>x'. c_heap s' q = Some x' \<and> sends [] x x'))"
proof -
  have d: "deliver_south (buf\<lparr>rdbuf := (rdbuf buf)\<lparr>xb_egptr := xb_pptr (rdbuf buf)\<rparr>\<rparr>) (ssp, sfd) revents k n eid type
        (24 + int (length payload)) 24 (if eof_at s ssp then - 1 else 0) s = (st, buf', revents', s')"
    using assms(10) route_south_fresh [OF assms(1) refl, where s = s and ssp = ssp and sfd = sfd and revents = revents] assms(2-6) by (simp add: Let_def)
  have s: "cn_south (c_conns s ! k) = ssp" using session_index_match(2) assms(2,3) by simp
  from deliver_fresh [OF assms(1,3) refl assms(6) [unfolded assms(5)] assms(7,8) s assms(9) [unfolded assms(5)] d assms(11)]
  show ?thesis using assms(7,8) by (auto simp: assms(5) sends_def)
qed

text \<open>C19: a message of a session that does not exist, or is closed, changes no connection and no client stream;
  unless it is an abort itself or its stream is at end of file, exactly one abort for its
  identifier goes back to the stream it came from, whose socket is then polled for output, and the message is used up.\<close>

theorem unknown_reply_aborted:
  assumes "fresh_message buf eid type payload" and "k = session_index eid ssp (c_conns s)"
    and "length (c_conns s) \<le> k \<or> refuses type (c_conns s ! k) s"
    and "c_heap s ssp = Some x" and "route_south buf (ssp, sfd) revents s = (st, buf', revents', s')"
  shows "c_conns s' = c_conns s \<and> eofbit buf' \<and> revents' = revents \<and> st = (if eofbit x then - 1 else 0)
    \<and> (\<forall>q. q \<noteq> ssp \<longrightarrow> c_heap s' q = c_heap s q)
    \<and> c_heap s' ssp = Some (if eofbit x \<or> has_flag type ABORT then x else write_header (abort_header eid) x)
    \<and> c_triggers s' = (if eofbit x \<or> has_flag type ABORT then c_triggers s else tset (native_handle x) POLLOUT (c_triggers s))"
proof -
  have e: "eof_at s ssp = eofbit x" using assms(4) by (simp add: eof_at_def)
  show ?thesis
    using assms(2-5) route_south_fresh [OF assms(1) e, of sfd revents]
    by (auto simp: Let_def upd_stream_heap trig_set_def)
qed


text \<open>C21: when a client is lost, all of its connections go, the backends of those that were not closed are
  sent one abort per connection, no other stream is sent anything, and the client's stream is gone from the
  heap, from its interface and from the polled descriptors.\<close>

theorem client_loss_aborts:
  assumes "north_err_handler ni (nsp, nfd) s = (revents', s')" and "ni < length (c_north s)"
    and "ksorted fst (if_streams (c_north s ! ni))" and "c_heap s q = Some y" and "q \<noteq> nsp"
  shows "revents' = 0 \<and> c_conns s' = filter (\<lambda>c. cn_north c \<noteq> nsp) (c_conns s)
    \<and> (\<exists>y'. c_heap s' q = Some y' \<and> sends (aborts (\<lambda>c. cn_north c = nsp \<and> cn_state c < CLOSED) (c_conns s) q) y y')
    \<and> c_heap s' nsp = None \<and> \<not> has_key fst nsp (if_streams (c_north s' ! ni))
    \<and> (tr_inv (c_triggers s) \<longrightarrow> interest (c_triggers s') nfd = None)"
proof -
  obtain cs s1 where lp: "remove_if_st (\<lambda>s c.
             if cn_north c = nsp then
               (True, c, case c_heap s (cn_south c) of
                  None \<Rightarrow> s
                | Some x \<Rightarrow>
                    (let s1 = trig_set (native_handle x) POLLOUT s in
                     if cn_state c < CLOSED
                     then s1\<lparr>c_heap := (c_heap s1)(cn_south c \<mapsto> write_header (abort_header (cn_uuid c)) x)\<rparr>
                     else s1))
             else (False, c, s)) s (c_conns s) = (cs, s1)" (is "remove_if_st ?f s _ = _") by fastforce
  note nl = north_err_loop [OF lp]
  have s': "revents' = 0" "s' = north_erase ni (nsp, nfd) (trig_clear nfd (- 1) (s1\<lparr>c_conns := cs\<rparr>))"
    using assms(1) lp by (simp_all add: north_err_handler_def)
  have nth: "c_north s1 = c_north s"
    using remove_if_st_invariant [of "\<lambda>s1. c_north s1 = c_north s" s "c_conns s" ?f] lp
    by (auto simp: Let_def split: option.splits if_splits)
  have "\<exists>y'. c_heap s1 q = Some y' \<and> sends (aborts (\<lambda>c. cn_north c = nsp \<and> cn_state c < CLOSED) (c_conns s) q) y y'"
    using carried_at [OF conjunct2 [OF conjunct2 [OF nl]] assms(4)] assms(4) by simp
  moreover have "if_streams (c_north s' ! ni) = filter (\<lambda>h. fst h \<noteq> nsp) (if_streams (c_north s ! ni))"
    using assms(2,3) nth by (simp add: s'(2) north_erase_def iface_erase_spec)
  moreover have "tr_inv (c_triggers s1)" if "tr_inv (c_triggers s)"
    using remove_if_st_invariant [of "\<lambda>s1. tr_inv (c_triggers s1)" s "c_conns s" ?f] lp that
    by (auto simp: Let_def trig_set_def trig.set_inv split: option.splits if_splits)
  ultimately show ?thesis using s' nl assms(5)
    by (auto simp: north_erase_def has_key_def trig_clear_def trig.clear_all)
qed

text \<open>the identifiers of a fan-out are pairwise different and belong to one session: the connections that
  \<^verbatim>\<open>_north_connect\<close> makes in full-duplex mode carry the session identifier stepped on once per backend; up
  to 63 backends, the bound the constructor checks, all clock sequences differ and all node parts
  are that of the session.\<close>

theorem fanout_ids_distinct:
  assumes "m \<le> unat CLOCK_SEQ_MAX" and "1 \<le> i" and "i < j" and "j \<le> m"
  shows "clock_seq_reserved ((bump_clock_seq ^^ i) u) \<noteq> clock_seq_reserved ((bump_clock_seq ^^ j) u)
    \<and> uuidcmp_node ((bump_clock_seq ^^ i) u) ((bump_clock_seq ^^ j) u) = 0"
proof -
  let ?c = "unat (clock_seq_reserved u AND CLOCK_SEQ_MAX)"
  have "j \<le> 63" using assms(1,4) by (simp add: CLOCK_SEQ_MAX_def)
  then have "\<not> 64 dvd j - i" using assms(2,3) by (auto dest: dvd_imp_le)
  then have "(?c + i) mod 64 \<noteq> (?c + j) mod 64"
    using assms(3) by (metis add_diff_cancel_left less_imp_le mod_eq_dvd_iff_nat mod_eq_iff_dvd_symdiff_nat nat_add_left_cancel_le)
  then show ?thesis using bump_iterate [of i u] bump_iterate [of j u] by auto
qed

theorem fanout_ids_distinct_witness:
  "clock_seq_reserved ((bump_clock_seq ^^ 1) zero_uuid) \<noteq> clock_seq_reserved ((bump_clock_seq ^^ 63) zero_uuid)"
  using fanout_ids_distinct [of 63 1 63 zero_uuid] by (simp add: CLOCK_SEQ_MAX_def)

text \<open>starting to connect a stream always comes back: registering a connect on an interface whose
  addresses are well formed runs all pending callbacks that can run and returns.\<close>

theorem connect_registration_returns:
  assumes "addrs_ok (if_addresses f)"
  shows "\<exists>g s'. register_connect c_live ctl_connect_run now ptr cb f s = Some (g, s')"
  using ctl_cb.resolve_returns [of "f\<lparr>if_pending := if_pending f @ [(ptr, cb)]\<rparr>" now s] assms
  by (auto simp: register_connect_def)

text \<open>the choice of the least recently used stream goes wrong when the oldest measurement of the
  table is not one of the interface's: the running minimum starts with the first measurement
  of the whole table, so no stream of the interface is ever older and the first stream is taken every time.\<close>

theorem lru_takes_first_stream:
  assumes "if_streams (c_south s ! j) \<noteq> []"
    and "\<forall>m \<in> set (c_metrics s). mt_last_arrival (c_metrics s ! 0) \<le> mt_last_arrival m"
    and "\<forall>h \<in> set (if_streams (c_south s ! j)).
      key_hit mt_wp (fst h) (c_metrics s) (lower_bound (\<lambda>x. mt_wp x < fst h) (c_metrics s))"
    and "rescale (length (if_addresses (c_south s ! j))) \<le> length (if_streams (c_south s ! j))"
  shows "select_stream j s = (0, s)"
  using select_loop_stuck [OF assms(2,3), of 0 0 0] assms(1,4) by (auto simp: select_stream_def Let_def)

text \<open>an accepted client can take the listener's place. The streams of an interface are ordered by the
  address of their control block, and the first one counts as the listener; when the block of an accepted
  stream lies below the listener's, the events of that client are given to the accept handler from then on
  and the events of the listener to the handler for client data.\<close>

theorem listener_displaced:
  assumes "0 < length (c_north s)" and "if_streams (c_north s ! 0) = [(l, lfd)]" and "\<not> c_drain s"
    and "v_accept (c_env s) = [Accepted fd]" and "p = v_alloc (c_env s) (v_nalloc (c_env s))" and "p < l"
    and "handle_north 0 (l, lfd) POLLIN s = (h, r, s')"
  shows "if_streams (c_north s' ! 0) = [(p, fd), (l, lfd)]
    \<and> handle_north 0 (l, lfd) POLLIN s' = (case north_pollin_handler 0 (l, lfd) POLLIN s' of (st, r, s2) \<Rightarrow>
         (1, if st \<noteq> 0 then north_err_handler 0 (l, lfd) s2 else (r, s2)))
    \<and> handle_north 0 (p, fd) POLLIN s' = (case accept_handler 0 POLLIN s' of (st, r, s2) \<Rightarrow>
         (1, if st \<noteq> 0 then north_err_handler 0 (p, fd) s2 else (r, s2)))"
proof -
  have m: "(POLLIN :: u16) AND (POLLOUT OR POLLERR OR POLLNVAL) = 0" "(POLLIN :: u16) AND (POLLIN OR POLLHUP) = POLLIN" "(POLLIN :: u16) \<noteq> 0"
    by (simp_all add: POLLIN_def POLLOUT_def POLLERR_def POLLNVAL_def POLLHUP_def)
  have ub: "upper_bound (\<lambda>x. p < fst x) [(l, lfd)] = 0"
    using assms(6) by (simp add: upper_bound_def lower_bound_def lb_loop.simps)
  have "if_streams (c_north s' ! 0) = [(p, fd), (l, lfd)]"
    using assms(1-5,7) m ub
    by (auto simp: handle_north_def Let_def accept_handler_def north_make_def new_stream_def iface_insert_def insert_at_def
        split: if_splits)
  then show ?thesis using assms(6) m by (simp add: handle_north_def Let_def case_prod_unfold)
qed

section \<open>Examples\<close>

text \<open>A client (owner 1) with one connection to a backend (owner 2), and a listener (owner 5).\<close>

definition sample_ctl :: ctl where
  "sample_ctl = \<lparr>c_heap = [1 \<mapsto> sample_stream 10, 2 \<mapsto> sample_stream 11],
     c_north = [(iface_make [] ''TCP'' [])\<lparr>if_streams := [(5, 4)]\<rparr>], c_south = [iface_make [] ''TCP'' []],
     c_conns = [sample_conn], c_timeouts = [], c_full_duplex = False, c_drain = False, c_triggers = trigger_init,
     c_mar = \<lparr>mar_north = [], mar_south = []\<rparr>, c_metrics = [], c_arrivals = 0, c_env = sample_env\<rparr>"

lemma sample_prepare: "write_prepare [sample_conn] 1 2 sample_ctl = (False, sample_ctl)"
  using sample_tellp [of 11] sample_stream_ok [of 11]
  by (simp add: sample_conn_def connection_make_def sample_ctl_def MAX_BUFSIZE_def fail_of_def good_def Let_def fun_upd_idem)

theorem client_bytes_enveloped_witness:
  "\<exists>st buf' revents' s' y'. route_north (sample_text [65, 66]) 0 (1, 10) POLLIN sample_ctl = (st, buf', revents', s')
     \<and> st = 0 \<and> c_heap s' 2 = Some y' \<and> (badbit y' \<or> sk_stream (rdbuf y') =
          header_bytes (make_head zero_uuid 26 \<lparr>msg_op = DATA, msg_flags = 0\<rparr>) @ [65, 66])"
proof -
  obtain st buf' revents' s' where r: "route_north (sample_text [65, 66]) 0 (1, 10) POLLIN sample_ctl = (st, buf', revents', s')"
    by (cases "route_north (sample_text [65, 66]) 0 (1, 10) POLLIN sample_ctl") auto
  have h: "c_heap sample_ctl 1 = Some (sample_stream 10)" "c_heap sample_ctl 2 = Some (sample_stream 11)"
    "c_conns sample_ctl = [sample_conn]" by (simp_all add: sample_ctl_def)
  have sv: "\<exists>c \<in> set (c_conns sample_ctl). served sample_ctl 1 c"
    by (simp add: h served_def sample_conn_def connection_make_def)
  have wp: "write_prepare (c_conns sample_ctl) 1 (int 2) sample_ctl = (False, sample_ctl)" using sample_prepare h by simp
  have ok: "ss_ok 2 [65, 66] (sample_text [65, 66])" using sample_text_ok [of "[65, 66]"] by (simp add: numeral_2_eq_2)
  have e: "envelopes 1 \<lparr>msg_op = DATA, msg_flags = 0\<rparr> [65, 66] [sample_conn] 2
      = header_bytes (make_head zero_uuid 26 \<lparr>msg_op = DATA, msg_flags = 0\<rparr>) @ [65, 66]"
    by (simp add: envelopes_def sample_conn_def connection_make_def)
  from client_bytes_enveloped [OF ok h(1) _ _ _ wp r refl h(2) sample_stream_ok(1,2)] sv r e h(3)
  show ?thesis by (auto simp: sample_stream_ok)
qed

theorem connect_registration_returns_witness:
  "\<exists>g s'. register_connect c_live ctl_connect_run 0 2 (ConnectCb 0 1) (iface_make [] ''TCP'' []) sample_ctl = Some (g, s')"
  by (rule connect_registration_returns) (simp add: iface_make_def addrs_ok_def)

theorem listener_displaced_witness:
  "\<exists>h r s'. handle_north 0 (5, 4) POLLIN sample_ctl = (h, r, s') \<and> if_streams (c_north s' ! 0) = [(3, 12), (5, 4)]"
proof -
  obtain h r s' where e: "handle_north 0 (5, 4) POLLIN sample_ctl = (h, r, s')"
    by (cases "handle_north 0 (5, 4) POLLIN sample_ctl") auto
  from listener_displaced [OF _ _ _ _ refl _ e, of 12] e show ?thesis
    by (auto simp: sample_ctl_def sample_env_def iface_make_def)
qed

lemma sample_ctl_facts:
  "c_heap sample_ctl 1 = Some (sample_stream 10)" "c_heap sample_ctl 2 = Some (sample_stream 11)"
  "c_conns sample_ctl = [sample_conn]" "c_full_duplex sample_ctl = False"
  "cn_north sample_conn = 1" "cn_south sample_conn = 2" "cn_uuid sample_conn = zero_uuid" "cn_state sample_conn = HALF_OPEN"
  by (simp_all add: sample_ctl_def sample_conn_def connection_make_def)

lemma sample_session: "session_index zero_uuid 2 [sample_conn] = 0"
  by (simp add: session_index_def sample_ctl_facts)

theorem reply_reaches_its_client_witness:
  "\<exists>st buf' revents' s' n'. route_south (sample_message zero_uuid \<lparr>msg_op = DATA, msg_flags = 0\<rparr> [7, 8]) (2, 11) POLLIN sample_ctl
       = (st, buf', revents', s') \<and> c_heap s' 1 = Some n' \<and> (badbit n' \<or> sk_stream (rdbuf n') = [7, 8])
     \<and> cn_state (c_conns s' ! 0) = OPEN"
proof -
  let ?m = "sample_message zero_uuid \<lparr>msg_op = DATA, msg_flags = 0\<rparr> [7, 8]"
  obtain st buf' revents' s' where r: "route_south ?m (2, 11) POLLIN sample_ctl = (st, buf', revents', s')"
    by (cases "route_south ?m (2, 11) POLLIN sample_ctl") auto
  have k: "0 = session_index zero_uuid 2 (c_conns sample_ctl)" "0 < length (c_conns sample_ctl)"
    "\<not> refuses \<lparr>msg_op = DATA, msg_flags = 0\<rparr> (c_conns sample_ctl ! 0) sample_ctl" "1 = cn_north (c_conns sample_ctl ! 0)"
    by (simp_all add: sample_ctl_facts sample_session refuses_def)
  have m: "fresh_message ?m zero_uuid \<lparr>msg_op = DATA, msg_flags = 0\<rparr> [7, 8]" by (rule sample_message_fresh) simp
  have sep: "\<forall>c \<in> set (c_conns sample_ctl). cn_south c \<noteq> 1" by (simp add: sample_ctl_facts)
  have full: "False \<longleftrightarrow> [7, 8] \<noteq> ([] :: byte list) \<and> fst (guarded_write True (at_payload ?m) (sample_stream 10)) = 0"
    using sample_message_room [of "[7, 8]"] by simp
  have "cn_state (state_update \<lparr>msg_op = DATA, msg_flags = 0\<rparr> t sample_conn) = OPEN" for t
    by (simp add: state_update_def sample_ctl_facts DATA_def STOP_def)
  with reply_reaches_its_client [OF m k sample_ctl_facts(1) sample_stream_ok(1,2) sep r full] r
  show ?thesis by (auto simp: sample_stream_ok sample_ctl_facts)
qed

theorem unknown_reply_aborted_witness:
  "\<exists>st buf' revents' s'. route_south (sample_message (zero_uuid\<lparr>node_id := node_of_bytes [1, 0, 0, 0, 0, 0]\<rparr>) \<lparr>msg_op = DATA, msg_flags = 0\<rparr> [7])
       (2, 11) POLLIN sample_ctl = (st, buf', revents', s')
     \<and> c_heap s' 2 = Some (write_header (abort_header (zero_uuid\<lparr>node_id := node_of_bytes [1, 0, 0, 0, 0, 0]\<rparr>)) (sample_stream 11))"
proof -
  let ?u = "zero_uuid\<lparr>node_id := node_of_bytes [1, 0, 0, 0, 0, 0]\<rparr>" and ?t = "\<lparr>msg_op = DATA, msg_flags = 0\<rparr> :: msgtype"
  obtain st buf' revents' s' where r: "route_south (sample_message ?u ?t [7]) (2, 11) POLLIN sample_ctl = (st, buf', revents', s')"
    by (cases "route_south (sample_message ?u ?t [7]) (2, 11) POLLIN sample_ctl") auto
  have "node_id ?u \<noteq> node_id zero_uuid" by (simp add: node_of_bytes_def zero_uuid_def)
  then have k: "length (c_conns sample_ctl) \<le> session_index ?u 2 (c_conns sample_ctl)"
    by (simp add: sample_ctl_facts session_index_def)
  have "fresh_message (sample_message ?u ?t [7]) ?u ?t [7]" by (rule sample_message_fresh) simp
  from unknown_reply_aborted [OF this refl disjI1 [OF k] sample_ctl_facts(2) r] r show ?thesis
    by (simp add: sample_stream_ok has_flag_def)
qed

theorem client_loss_aborts_witness:
  "\<exists>revents' s' y'. north_err_handler 0 (1, 10) sample_ctl = (revents', s') \<and> c_conns s' = []
     \<and> c_heap s' 2 = Some y' \<and> sends (header_bytes (abort_header zero_uuid)) (sample_stream 11) y'"
proof -
  obtain revents' s' where r: "north_err_handler 0 (1, 10) sample_ctl = (revents', s')" by fastforce
  have n: "0 < length (c_north sample_ctl)" "ksorted fst (if_streams (c_north sample_ctl ! 0))"
    by (simp_all add: sample_ctl_def ksorted_def)
  from client_loss_aborts [OF r n sample_ctl_facts(2)] r show ?thesis
    by (simp add: sample_ctl_facts aborts_def less_conn_state_def)
qed

text \<open>Two backends of one session, owners 2 and 3.\<close>

definition sample_pair :: ctl where
  "sample_pair = sample_ctl\<lparr>c_heap := [1 \<mapsto> sample_stream 10, 2 \<mapsto> sample_stream 11, 3 \<mapsto> sample_stream 12],
     c_conns := [sample_conn, sample_conn\<lparr>cn_south := 3\<rparr>]\<rparr>"


definition sample_metric :: "owner \<Rightarrow> int \<Rightarrow> metric" where
  "sample_metric p t = \<lparr>mt_wp = p, mt_interarrival = 1, mt_intercompletion = 0, mt_last_arrival = t, mt_last_completion = 0\<rparr>"

theorem lru_takes_first_stream_witness:
  "select_stream 0 (sample_ctl\<lparr>c_metrics := [sample_metric 1 0, sample_metric 2 9, sample_metric 3 5],
       c_south := [(iface_make [] ''TCP'' [])\<lparr>if_streams := [(2, 11), (3, 12)]\<rparr>]\<rparr>)
   = (0, sample_ctl\<lparr>c_metrics := [sample_metric 1 0, sample_metric 2 9, sample_metric 3 5],
       c_south := [(iface_make [] ''TCP'' [])\<lparr>if_streams := [(2, 11), (3, 12)]\<rparr>]\<rparr>)"
  by (rule lru_takes_first_stream)
    (simp_all add: iface_make_def sample_metric_def rescale_def key_hit_def lower_bound_def lb_loop.simps)

end
