(* ===== verification/Segment.thy ===== *)
theory Segment
  imports Connector
begin

unbundle bit_operations_syntax

text \<open>
  The segment connector (\<^verbatim>\<open>src/cloudbus/segment/segment_connector.cpp\<close>): enveloped controller streams on
  the north side, one plain backend stream per session on the south side. The conventions are
  those of \<open>Controller\<close>. The callback of \<^verbatim>\<open>register_connect\<close> captures references to the north stream and
  the south interface; the model captures the stream's owner and passes the interface.
\<close>

type_synonym seg = "(xmsgstream, stringstream) connector"

text \<open>
  \<^verbatim>\<open>state_update\<close> of the segment: the same transitions as the controller's, without the measurements; the \<^verbatim>\<open>switch\<close>
  enters at the state the connection is in.
\<close>

definition seg_state_update :: "msgtype \<Rightarrow> int \<Rightarrow> connection \<Rightarrow> connection" where
  "seg_state_update type time c =
     (let stop = (\<lambda>c. if msg_op type \<noteq> STOP then c
            else (let c' = enter_state (next_state (cn_state c)) time c in
                  if has_flag type ABORT then enter_state CLOSED time c' else c'))
      in case cn_state c of
           HALF_OPEN \<Rightarrow> stop (enter_state OPEN time c)
         | OPEN \<Rightarrow> stop c
         | HALF_CLOSED \<Rightarrow> stop c
         | CLOSED \<Rightarrow> c)"

lemma seg_state_update_eq [simp]: "seg_state_update = state_update"
  by (intro ext) (simp add: seg_state_update_def state_update_def Let_def split: conn_state.split)

section \<open>Connecting\<close>

text \<open>\<^verbatim>\<open>erase_connect\<close>: the sessions of the south stream are aborted towards the north and the stream goes.\<close>

definition seg_erase_connect :: "owner \<Rightarrow> handle \<Rightarrow> connect_cb iface \<Rightarrow> seg \<Rightarrow> connect_cb iface \<times> seg" where
  "seg_erase_connect nsp hnd f s =
     (case remove_if_st (\<lambda>s c.
          if cn_south c = fst hnd then
            (True, c, case c_heap s nsp of
               None \<Rightarrow> s
             | Some x \<Rightarrow> trig_set (native_handle x) POLLOUT
                 (s\<lparr>c_heap := (c_heap s)(nsp \<mapsto> write_header (abort_header (cn_uuid c)) x)\<rparr>))
          else (False, c, s)) s (c_conns s) of (cs, s1) \<Rightarrow>
        (iface_erase hnd f, s1\<lparr>c_conns := cs, c_heap := (c_heap s1)(fst hnd := None)\<rparr>))"

fun seg_connect_run ::
  "connect_cb \<Rightarrow> nat \<Rightarrow> byte list option \<Rightarrow> nat \<Rightarrow> string \<Rightarrow> connect_cb iface \<Rightarrow> seg \<Rightarrow> connect_cb iface \<times> seg" where
  "seg_connect_run (ConnectCb ni nsp) i addr addrlen protocol f s =
     connect_run (seg_erase_connect nsp) i addr addrlen protocol f s"

definition seg_register :: "nat \<Rightarrow> owner \<Rightarrow> connect_cb \<Rightarrow> seg \<Rightarrow> seg" where
  "seg_register j ptr cb s =
     (case register_connect c_live seg_connect_run (v_wall (c_env s)) ptr cb (c_south s ! j) s of
        None \<Rightarrow> s
      | Some (f, s') \<Rightarrow> s'\<lparr>c_south := (c_south s')[j := f]\<rparr>)"

text \<open>The file has its own copies of \<^verbatim>\<open>clear_triggers\<close> and of the bounded \<^verbatim>\<open>stream_write\<close>.\<close>

definition seg_clear_triggers :: "fd \<Rightarrow> u16 \<Rightarrow> u16 \<Rightarrow> seg \<Rightarrow> u16 \<times> seg" where
  [simp]: "seg_clear_triggers = clear_triggers"

definition seg_stream_write_n ::
  "(nat \<Rightarrow> 'i \<Rightarrow> byte list \<times> 'i) \<Rightarrow> (byte list \<Rightarrow> 'o ios \<Rightarrow> 'o ios) \<Rightarrow> int \<Rightarrow> 'o ios \<Rightarrow> 'i \<Rightarrow> 'o ios \<times> 'i" where
  [simp]: "seg_stream_write_n = stream_write_n"

text \<open>\<^verbatim>\<open>_north_write\<close>: the payload goes to the south stream (no test of \<^verbatim>\<open>fail()\<close> here).\<close>

definition seg_north_write :: "owner \<Rightarrow> xmsgstream \<Rightarrow> seg \<Rightarrow> int \<times> xmsgstream \<times> seg" where
  "seg_north_write ssp buf s =
     (case c_heap s ssp of
        None \<Rightarrow> (- 1, buf, s)
      | Some x \<Rightarrow> (case guarded_write False buf x of (len, buf', x') \<Rightarrow>
          (len, buf', s\<lparr>c_heap := (c_heap s)(ssp \<mapsto> x')\<rparr>)))"

definition seg_north_connect :: "nat \<Rightarrow> owner \<Rightarrow> xmsgstream \<Rightarrow> seg \<Rightarrow> int \<times> xmsgstream \<times> seg" where
  "seg_north_connect ni nsp buf s =
     (case south_make 0 s of (i, s1) \<Rightarrow>
        (let ssp = fst (if_streams (c_south s1 ! 0) ! i);
             s2 = seg_register 0 ssp (ConnectCb ni nsp) (s1\<lparr>c_arrivals := c_arrivals s1 + 1\<rparr>);
             s3 = (if if_addresses (c_south s2 ! 0) = [] \<and> length (if_pending (c_south s2 ! 0)) = 1
                   then s2\<lparr>c_env := (c_env s2)\<lparr>v_resolves := v_resolves (c_env s2) @ [0]\<rparr>\<rparr> else s2)
         in case (xb_eid (rdbuf buf), xb_type (rdbuf buf)) of
              (Some eid, Some type) \<Rightarrow>
                seg_north_write ssp buf (s3\<lparr>c_conns := c_conns s3 @
                  [connection_make eid nsp ssp (if msg_op type = STOP then HALF_CLOSED else HALF_OPEN) (v_now (c_env s3))]\<rparr>)
            | _ \<Rightarrow> (- 1, buf, s3)))"

section \<open>Routing\<close>

text \<open>A complete message for the connection at index \<open>k\<close>.\<close>

definition seg_deliver_north ::
  "xmsgstream \<Rightarrow> handle \<Rightarrow> u16 \<Rightarrow> nat \<Rightarrow> msgtype \<Rightarrow> int \<Rightarrow> int \<Rightarrow> int \<Rightarrow> seg \<Rightarrow> int \<times> xmsgstream \<times> u16 \<times> seg" where
  "seg_deliver_north buf hnd revents k type p seekpos ret s =
     (let c = c_conns s ! k;
          finish = (\<lambda>buf s. (ret, buf\<lparr>eofbit := True\<rparr>, revents,
             s\<lparr>c_conns := (c_conns s)[k := seg_state_update type (v_now (c_env s)) c]\<rparr>))
      in case c_heap s (cn_south c) of
           None \<Rightarrow> finish buf s
         | Some x \<Rightarrow>
             (let s1 = (if native_handle x \<noteq> BAD_SOCKET then trig_set (native_handle x) POLLOUT s else s);
                  (len, buf1, s2) = (if seekpos < p then seg_north_write (cn_south c) (xmsg_seekg seekpos buf) s1 else (1, buf, s1))
              in if len = 0
                 then (case seg_clear_triggers (snd hnd) (POLLIN OR POLLHUP) revents s2 of (r, s3) \<Rightarrow> (0, buf1, r, s3))
                 else finish buf1 (if has_flag type ABORT then upd_stream (cn_south c) (\<lambda>x. x\<lparr>badbit := True\<rparr>) s2 else s2)))"

definition seg_session_index :: "uuid \<Rightarrow> owner \<Rightarrow> connection list \<Rightarrow> nat" where
  "seg_session_index eid nsp cs = length (takeWhile (\<lambda>c. \<not> (uuid_eq (cn_uuid c) eid \<and> cn_north c = nsp)) cs)"

text \<open>
  The north \<^verbatim>\<open>_route\<close>: a message of an unknown or closed session opens a session when it is flagged
  \<^verbatim>\<open>INIT\<close> and carries payload, and is answered with an abort otherwise (unless it is one).
\<close>

definition seg_unknown :: "xmsgstream \<Rightarrow> nat \<Rightarrow> handle \<Rightarrow> u16 \<Rightarrow> uuid \<Rightarrow> msgtype \<Rightarrow> int \<Rightarrow> seg \<Rightarrow> int \<times> xmsgstream \<times> u16 \<times> seg" where
  "seg_unknown buf ni hnd revents eid type p s =
     (if has_flag type INIT \<and> 24 < p then
        (case seg_north_connect ni (fst hnd) (xmsg_seekg 24 buf) s of (status, buf1, s1) \<Rightarrow>
           (if status = 0
            then (case seg_clear_triggers (snd hnd) (POLLIN OR POLLHUP) revents s1 of (r, s2) \<Rightarrow> (0, buf1, r, s2))
            else (if status < 0 then - 1 else 0, buf1, revents, s1)))
      else if \<not> has_flag type ABORT
      then (0, buf, revents, trig_set (snd hnd) POLLOUT (upd_stream (fst hnd) (write_header (abort_header eid)) s))
      else (0, buf, revents, s))"

definition seg_route_north :: "xmsgstream \<Rightarrow> nat \<Rightarrow> handle \<Rightarrow> u16 \<Rightarrow> seg \<Rightarrow> int \<times> xmsgstream \<times> u16 \<times> seg" where
  "seg_route_north buf ni hnd revents s =
     (let eof = eof_at s (fst hnd); ret = (if eof then - 1 else 0) in
      case xb_type (rdbuf buf) of
        None \<Rightarrow> (ret, buf, revents, s)
      | Some type \<Rightarrow>
          (case xmsg_tellp buf of (p, buf1) \<Rightarrow> (case xmsg_tellg buf1 of (g, buf2) \<Rightarrow>
             (if int (announced (rdbuf buf2)) - p \<noteq> 0 then (ret, buf2, revents, s)
              else (case xb_eid (rdbuf buf2) of
                  None \<Rightarrow> (ret, buf2, revents, s)
                | Some eid \<Rightarrow>
                    (let seekpos = (if g \<le> 24 then 24 else g); k = seg_session_index eid (fst hnd) (c_conns s) in
                     if k < length (c_conns s) \<and> cn_state (c_conns s ! k) \<noteq> CLOSED
                     then seg_deliver_north buf2 hnd revents k type p seekpos ret s
                     else if eof then (ret, buf2\<lparr>eofbit := True\<rparr>, revents, s)
                     else seg_unknown (buf2\<lparr>eofbit := True\<rparr>) ni hnd revents eid type p s))))))"

text \<open>\<^verbatim>\<open>_south_write\<close>: the envelope of what the backend sent; the header says \<^verbatim>\<open>STOP\<close> at end of file.\<close>

definition seg_south_write :: "connection \<Rightarrow> bool \<Rightarrow> stringstream \<Rightarrow> sockstream \<Rightarrow> int \<times> stringstream \<times> sockstream" where
  "seg_south_write c stop buf n =
     (case sstream_tellp buf of (p, buf1) \<Rightarrow>
        (let limit = MAX_BUFSIZE - (24 + p);
             n1 = (if limit \<le> sock_tellp n then sock_flush n else n) in
         if limit \<le> sock_tellp n \<and> badbit n1 then (- 1, buf1, n1)
         else if limit < sock_tellp n1 then (0, buf1, n1)
         else
           (let n2 = write_header (make_head (cn_uuid c) (24 + p) \<lparr>msg_op = (if stop then STOP else DATA), msg_flags = 0\<rparr>) n1 in
            if badbit n2 then (- 1, buf1, n2)
            else (case seg_stream_write_n sstream_readsome sock_write p n2 buf1 of (n3, buf2) \<Rightarrow>
                    (if badbit n3 then - 1 else 24 + p, buf2, n3)))))"

definition seg_route_south :: "stringstream \<Rightarrow> handle \<Rightarrow> u16 \<Rightarrow> seg \<Rightarrow> int \<times> stringstream \<times> u16 \<times> seg" where
  "seg_route_south buf hnd revents s =
     (case hnd of (ssp, sfd) \<Rightarrow> (case sstream_tellp buf of (p, buf1) \<Rightarrow>
       (let eof = eof_at s ssp;
            k = length (takeWhile (\<lambda>c. \<not> (cn_south c = ssp \<and> c_live s (cn_north c))) (c_conns s)) in
        if k < length (c_conns s) then
          (let c = c_conns s ! k in
           case c_heap s (cn_north c) of
             None \<Rightarrow> (0, buf1, revents, s)
           | Some n \<Rightarrow>
               (let (len, buf2, s1) =
                      (if eof \<or> p \<noteq> 0 then
                         (case seg_south_write c (\<not> c_live s ssp \<or> eof) (sstream_seekg 0 buf1) n of (len, b, n') \<Rightarrow>
                            (len, b, (trig_set (native_handle n) POLLOUT s)\<lparr>c_heap := (c_heap s)(cn_north c \<mapsto> n')\<rparr>))
                       else (1, buf1, s))
                in if len = 0
                   then (case seg_clear_triggers sfd (POLLIN OR POLLHUP) revents s1 of (r, s2) \<Rightarrow> (0, buf2, r, s2))
                   else
                     (let c' = seg_state_update \<lparr>msg_op = (if eof then STOP else DATA), msg_flags = 0\<rparr> (v_now (c_env s1)) c;
                          s2 = s1\<lparr>c_conns := (c_conns s1)[k := c']\<rparr>
                      in (if cn_state c' = CLOSED then - 1 else 0, buf2, revents,
                          if eof then trig_clear sfd POLLIN s2 else s2))))
        else (if p \<noteq> 0 then - 1 else 0, buf1, revents, s))))"

section \<open>North handlers\<close>

definition seg_north_err_handler :: "nat \<Rightarrow> handle \<Rightarrow> seg \<Rightarrow> u16 \<times> seg" where
  "seg_north_err_handler ni hnd s =
     (case hnd of (nsp, nfd) \<Rightarrow>
        (case remove_if_st (\<lambda>s c.
             if cn_north c = nsp then
               (case c_heap s (cn_south c) of
                  Some x \<Rightarrow> (False, seg_state_update abort_type (v_now (c_env s)) c, trig_set (native_handle x) POLLOUT s)
                | None \<Rightarrow> (True, c, s))
             else (False, c, s)) s (c_conns s) of (cs, s1) \<Rightarrow>
           (0, north_erase ni hnd (trig_clear nfd (- 1) (s1\<lparr>c_conns := cs\<rparr>)))))"

definition seg_north_pollin_handler :: "nat \<Rightarrow> handle \<Rightarrow> u16 \<Rightarrow> seg \<Rightarrow> int \<times> u16 \<times> seg" where
  "seg_north_pollin_handler ni hnd revents s =
     (case c_heap s (fst hnd) of
        None \<Rightarrow> (- 1, revents, s)
      | Some x \<Rightarrow>
          (case seg_unmarshal (c_live s) (fst hnd) x (c_mar s) of (i, m, x') \<Rightarrow>
             (let s1 = s\<lparr>c_mar := m, c_heap := (c_heap s)(fst hnd \<mapsto> x')\<rparr>;
                  revents1 = (if gcount x' = 0 then revents AND NOT (POLLIN OR POLLHUP) else revents)
              in case seg_route_north (buf_fmt (mar_north m ! i)) ni hnd revents1 s1 of (st, buf, revents2, s2) \<Rightarrow>
                   (st, revents2, s2\<lparr>c_mar := (c_mar s2)\<lparr>mar_north := set_fmt i buf (mar_north (c_mar s2))\<rparr>\<rparr>))))"

text \<open>Accepting and flushing are the controller's code again.\<close>

definition seg_north_accept_handler :: "nat \<Rightarrow> u16 \<Rightarrow> seg \<Rightarrow> int \<times> u16 \<times> seg" where
  "seg_north_accept_handler = accept_handler"

definition seg_north_pollout_handler :: "handle \<Rightarrow> u16 \<Rightarrow> seg \<Rightarrow> int \<times> u16 \<times> seg" where
  "seg_north_pollout_handler = pollout_handler"

definition seg_handle_north :: "nat \<Rightarrow> handle \<Rightarrow> u16 \<Rightarrow> seg \<Rightarrow> nat \<times> u16 \<times> seg" where
  "seg_handle_north ni hnd revents s =
     (let (h1, r1, s1) =
        (if revents AND (POLLOUT OR POLLERR OR POLLNVAL) \<noteq> 0 then
           (case seg_north_pollout_handler hnd revents s of (st, r, s') \<Rightarrow>
              (1, if st \<noteq> 0 then seg_north_err_handler ni hnd s' else (r, s')))
         else (0, revents, s))
      in if r1 AND (POLLIN OR POLLHUP) \<noteq> 0 then
           (case (if if_streams (c_north s1 ! ni) \<noteq> [] \<and> hnd = hd (if_streams (c_north s1 ! ni))
                  then seg_north_accept_handler ni r1 s1 else seg_north_pollin_handler ni hnd r1 s1) of (st, r, s2) \<Rightarrow>
              (h1 + 1, if st \<noteq> 0 then seg_north_err_handler ni hnd s2 else (r, s2)))
         else (h1, r1, s1))"

section \<open>South handlers\<close>

definition seg_expire_address_of :: "owner \<Rightarrow> nat \<Rightarrow> seg \<Rightarrow> seg" where
  "seg_expire_address_of sptr j s =
     (case c_heap s sptr of
        None \<Rightarrow> s
      | Some x \<Rightarrow>
          (case set_addresses c_live seg_connect_run (v_wall (c_env s))
                  (unexpired_of x (c_env s) (if_addresses (c_south s ! j))) (c_south s ! j) s of
             None \<Rightarrow> s
           | Some (f, s') \<Rightarrow> s'\<lparr>c_south := (c_south s')[j := f]\<rparr>))"

definition seg_south_err_handler :: "nat \<Rightarrow> handle \<Rightarrow> seg \<Rightarrow> u16 \<times> seg" where
  "seg_south_err_handler j hnd s =
     (case hnd of (ssp, sfd) \<Rightarrow>
        (case remove_if_st (\<lambda>s c.
             if cn_south c = ssp then
               (True, c, case c_heap s (cn_north c) of
                  Some n \<Rightarrow>
                    (if cn_state c < CLOSED
                     then trig_set (native_handle n) POLLOUT
                       (s\<lparr>c_heap := (c_heap s)(cn_north c \<mapsto> write_header (abort_header (cn_uuid c)) n)\<rparr>)
                     else s)
                | None \<Rightarrow> s)
             else (False, c, s)) s (c_conns s) of (cs, s1) \<Rightarrow>
           (let s2 = trig_clear sfd (- 1) (s1\<lparr>c_conns := cs\<rparr>);
                refused = (case c_heap s2 ssp of Some x \<Rightarrow> sk_errno (rdbuf x) = ECONNREFUSED | None \<Rightarrow> False);
                s3 = (if refused then seg_expire_address_of ssp j s2 else s2)
            in (0, south_erase j hnd s3))))"

definition seg_south_pollin_handler :: "handle \<Rightarrow> u16 \<Rightarrow> seg \<Rightarrow> int \<times> u16 \<times> seg" where
  "seg_south_pollin_handler hnd revents s =
     (case c_heap s (fst hnd) of
        None \<Rightarrow> (- 1, revents, s)
      | Some x \<Rightarrow>
          (case seg_marshal (c_live s) (fst hnd) x (c_mar s) of (i, m, x') \<Rightarrow>
             (let s1 = s\<lparr>c_mar := m, c_heap := (c_heap s)(fst hnd \<mapsto> x')\<rparr>;
                  revents1 = (if gcount x' = 0 then revents AND NOT (POLLIN OR POLLHUP) else revents)
              in case seg_route_south (buf_fmt (mar_south m ! i)) hnd revents1 s1 of (st, buf, revents2, s2) \<Rightarrow>
                   (st, revents2, s2\<lparr>c_mar := (c_mar s2)\<lparr>mar_south := set_fmt i buf (mar_south (c_mar s2))\<rparr>\<rparr>))))"

text \<open>The first connection of the stream decides.\<close>

definition seg_south_state_handler :: "nat \<Rightarrow> handle \<Rightarrow> u16 \<Rightarrow> seg \<Rightarrow> u16 \<times> seg" where
  "seg_south_state_handler j hnd revents s =
     (case find (\<lambda>c. cn_south c = fst hnd) (c_conns s) of
        None \<Rightarrow> (revents, s)
      | Some c \<Rightarrow>
          (case cn_state c of
             CLOSED \<Rightarrow> seg_south_err_handler j hnd s
           | HALF_CLOSED \<Rightarrow> (revents OR POLLHUP, s\<lparr>c_env := (c_env s)\<lparr>v_shutdown := v_shutdown (c_env s) @ [snd hnd]\<rparr>\<rparr>)
           | _ \<Rightarrow> (revents, s)))"

definition seg_south_pollout_handler :: "handle \<Rightarrow> u16 \<Rightarrow> seg \<Rightarrow> int \<times> u16 \<times> seg" where
  "seg_south_pollout_handler = pollout_handler"

definition seg_handle_south :: "nat \<Rightarrow> handle \<Rightarrow> u16 \<Rightarrow> seg \<Rightarrow> nat \<times> u16 \<times> seg" where
  "seg_handle_south j hnd revents s =
     (let (h1, r1, s1) =
        (if revents AND (POLLOUT OR POLLERR OR POLLNVAL) \<noteq> 0 then
           (case seg_south_pollout_handler hnd revents s of (st, r, s') \<Rightarrow>
              (1, if st \<noteq> 0 then seg_south_err_handler j hnd s' else seg_south_state_handler j hnd r s'))
         else (0, revents, s))
      in if r1 AND (POLLIN OR POLLHUP) \<noteq> 0 then
           (case seg_south_pollin_handler hnd r1 s1 of (st, r, s2) \<Rightarrow>
              (h1 + 1, if st \<noteq> 0 then seg_south_err_handler j hnd s2 else (r, s2)))
         else (h1, r1, s1))"

text \<open>The segment adds no timers of its own.\<close>

definition seg_handle_events ::
  "(pollfd list \<Rightarrow> seg \<Rightarrow> nat \<times> pollfd list \<times> seg) \<Rightarrow> pollfd list \<Rightarrow> seg \<Rightarrow> nat \<times> pollfd list \<times> seg" where
  "seg_handle_events resolver events s =
     handle_events resolver (\<lambda>_ s. s) (handle_side c_north cn_north cn_south seg_handle_north)
       (handle_side c_south cn_south cn_north seg_handle_south) events s"

lemmas seg_shared [simp] = seg_north_accept_handler_def seg_north_pollout_handler_def seg_south_pollout_handler_def

section \<open>Contracts\<close>

interpretation seg_cb: connect_callbacks c_live seg_connect_run
proof
  fix cb i addr len proto and f g :: "connect_cb iface" and s s' :: seg
  assume r: "seg_connect_run cb i addr len proto f s = (g, s')"
  obtain ni nsp where cb: "cb = ConnectCb ni nsp" by (cases cb)
  have "if_addresses g = if_addresses f \<and> if_total g = if_total f \<and> if_prio g = if_prio f \<and> if_idx g = if_idx f"
    if "seg_erase_connect nsp hnd f s = (g, s')" for hnd f g and s s' :: seg
    using that by (auto simp: seg_erase_connect_def iface_erase_def iface_erase_at_def Let_def split: prod.splits)
  then show "if_addresses g = if_addresses f \<and> if_total g = if_total f \<and> if_prio g = if_prio f \<and> if_idx g = if_idx f"
    by (rule connect_run_selection [where erase = "seg_erase_connect nsp"]) (use r cb in simp_all)
qed

section \<open>From the backend to the controller\<close>

lemma sends_broken: "sends v x y \<Longrightarrow> badbit y \<Longrightarrow> sends w x y"
  by (auto simp: sends_def)

text \<open>The envelope written by \<open>seg_south_write\<close>.\<close>

lemma seg_south_write_sends:
  assumes "ss_ok p payload buf" and "seg_south_write c stop (sstream_seekg 0 buf) n = (len, buf', n')"
    and "h = make_head (cn_uuid c) (24 + int p) \<lparr>msg_op = (if stop then STOP else DATA), msg_flags = 0\<rparr>"
  shows "sends (if len = 0 then [] else header_bytes h @ payload) n n'"
    and "len = 0 \<Longrightarrow> MAX_BUFSIZE - (24 + int p) < sock_tellp n'"
proof -
  have tp: "sstream_tellp (sstream_seekg 0 buf) = (int p, sstream_seekg 0 buf)"
    using assms(1) by (simp add: seekg_def Let_def good_def ss_ok_def sb_seekpos_in_def tellp_def fail_of_def)
  define n1 where "n1 = (if MAX_BUFSIZE - (24 + int p) \<le> sock_tellp n then sock_flush n else n)"
  define n2 where "n2 = write_header h n1"
  have s1: "sends [] n n1" by (simp add: n1_def sends_flush sends_refl)
  have s2: "sends (header_bytes h) n n2"
    using sends_trans [OF s1 sends_write, of "header_bytes h"] by (simp add: n2_def write_header_def)
  obtain n3 b3 where e: "send_envelope h (int p) buf n1 = (n3, b3)" by fastforce
  then have e': "stream_write_n sstream_readsome sock_write (int p) n2 (sstream_seekg 0 buf) = (n3, b3)"
    by (simp add: send_envelope_def n2_def)
  have s3: "sends (header_bytes h @ payload) n n3"
    using sends_trans [OF s1] send_envelope_sends [OF assms(1) e] by (metis append_Nil)
  have r: "(len, n') = (if MAX_BUFSIZE - (24 + int p) \<le> sock_tellp n \<and> badbit n1 then (- 1, n1)
      else if MAX_BUFSIZE - (24 + int p) < sock_tellp n1 then (0, n1)
      else if badbit n2 then (- 1, n2) else (if badbit n3 then - 1 else 24 + int p, n3))"
    using assms(2) unfolding seg_south_write_def tp prod.case Let_def assms(3) [symmetric] n1_def [symmetric] n2_def [symmetric] seg_stream_write_n_def e'
    by (auto split: if_splits)
  show "sends (if len = 0 then [] else header_bytes h @ payload) n n'" "len = 0 \<Longrightarrow> MAX_BUFSIZE - (24 + int p) < sock_tellp n'"
    using r s1 s3 sends_broken [OF s1] sends_broken [OF s2] by (auto split: if_splits)
qed

section \<open>From the controller to the backend\<close>

text \<open>The north routing function on a fresh message, cut at its decisions.\<close>

lemma seg_route_north_fresh:
  assumes "fresh_message buf eid type payload" and "eof_at s nsp = eof"
  shows "seg_route_north buf ni (nsp, nfd) revents s =
    (let ret = (if eof then - 1 else 0); k = seg_session_index eid nsp (c_conns s);
         buf2 = buf\<lparr>rdbuf := (rdbuf buf)\<lparr>xb_egptr := xb_pptr (rdbuf buf)\<rparr>\<rparr> in
     if k < length (c_conns s) \<and> cn_state (c_conns s ! k) \<noteq> CLOSED
     then seg_deliver_north buf2 (nsp, nfd) revents k type (24 + int (length payload)) 24 ret s
     else if eof then (ret, buf2\<lparr>eofbit := True\<rparr>, revents, s)
     else seg_unknown (buf2\<lparr>eofbit := True\<rparr>) ni (nsp, nfd) revents eid type (24 + int (length payload)) s)"
proof -
  note f = fresh_message_fields [OF assms(1) refl]
  show ?thesis
    unfolding seg_route_north_def fst_conv assms(2) Let_def f(5) option.case f(1,2,4) prod.case using f(3,6) by simp
qed

text \<open>Delivery to the south stream of a session.\<close>

lemma seg_deliver_fresh:
  assumes fm: "fresh_message buf eid type payload" and c: "c = c_conns s ! k"
    and x: "c_heap s (cn_south c) = Some x" "good x" "sk_single (rdbuf x)"
    and d: "seg_deliver_north (buf\<lparr>rdbuf := (rdbuf buf)\<lparr>xb_egptr := xb_pptr (rdbuf buf)\<rparr>\<rparr>) (nsp, nfd) revents k type
        (24 + int (length payload)) 24 ret s = (st, buf', revents', s')"
    and full: "full \<longleftrightarrow> payload \<noteq> [] \<and> fst (guarded_write False (at_payload buf) x) = 0"
  shows "\<exists>x'. c_heap s' = (c_heap s)(cn_south c \<mapsto> x') \<and> sends (if full then [] else payload) x x'
    \<and> (if full then revents' = revents AND NOT (POLLIN OR POLLHUP) \<and> st = 0 \<and> c_conns s' = c_conns s
         \<and> good buf' \<and> xb_unread (rdbuf buf') = payload
       else revents' = revents \<and> st = ret \<and> eofbit buf' \<and> (has_flag type ABORT \<longrightarrow> badbit x')
         \<and> c_conns s' = (c_conns s)[k := state_update type (v_now (c_env s)) c])
    \<and> c_triggers s' = (if full then tclear nfd (ucast (POLLIN OR POLLHUP :: u16)) else id)
         (if native_handle x \<noteq> BAD_SOCKET then tset (native_handle x) POLLOUT (c_triggers s) else c_triggers s)"
proof -
  let ?b2 = "buf\<lparr>rdbuf := (rdbuf buf)\<lparr>xb_egptr := xb_pptr (rdbuf buf)\<rparr>\<rparr>"
  define s1 where "s1 = (if native_handle x \<noteq> BAD_SOCKET then trig_set (native_handle x) POLLOUT s else s)"
  have s1: "c_heap s1 = c_heap s" "c_conns s1 = c_conns s" "c_env s1 = c_env s"
    "c_triggers s1 = (if native_handle x \<noteq> BAD_SOCKET then tset (native_handle x) POLLOUT (c_triggers s) else c_triggers s)"
    by (simp_all add: s1_def trig_set_def)
  have ap: "xb_complete (rdbuf (at_payload buf))" "good (at_payload buf)" "xb_unread (rdbuf (at_payload buf)) = payload"
    using at_payload_complete [OF fm] by blast+
  obtain len buf1 x1 where gw: "guarded_write False (at_payload buf) x = (len, buf1, x1)"
    by (cases "guarded_write False (at_payload buf) x") auto
  note snd = guarded_write_sends(1,2) [OF ap(1,2) x(2,3) gw, unfolded ap(3)]
  have brk: "sends w x y \<Longrightarrow> sends w x (y\<lparr>badbit := True\<rparr>)" for w y by (auto simp: sends_def)
  have nw: "seg_north_write (cn_south c) (xmsg_seekg 24 ?b2) s1 = (len, buf1, s1\<lparr>c_heap := (c_heap s)(cn_south c \<mapsto> x1)\<rparr>)"
    unfolding fresh_message_fields(7) [OF fm refl] seg_north_write_def s1(1) x(1) option.case gw prod.case by simp
  note eq = d [unfolded seg_deliver_north_def Let_def c [symmetric] x(1) option.case s1_def [symmetric] nw]
  show ?thesis
  proof (cases "payload = []")
    case True
    then have "\<not> full" using full by simp
    then show ?thesis using eq True x(1) sends_refl [of x] brk [OF sends_refl]
      by (auto simp: s1 upd_stream_heap intro!: exI [of _ "if has_flag type ABORT then x\<lparr>badbit := True\<rparr> else x"])
  next
    case False
    then have f: "full \<longleftrightarrow> len = 0" using full gw by simp
    show ?thesis
    proof (cases "len = 0")
      case True
      then show ?thesis using eq False f snd by (auto simp: s1 clear_triggers_def trig_clear_def)
    next
      case len: False
      then show ?thesis using eq False f snd brk [of payload x1]
        by (auto simp: s1 upd_stream_heap intro!: exI [of _ "if has_flag type ABORT then x1\<lparr>badbit := True\<rparr> else x1"])
    qed
  qed
qed

section \<open>Opening a session\<close>

lemma register_unresolved:
  assumes "if_addresses f = []"
  shows "\<exists>g. register_connect live run now ptr cb f s = Some (g, s) \<and> if_addresses g = []
    \<and> if_pending g = if_pending f @ [(ptr, cb)] \<and> if_streams g = if_streams f"
  using assms by (simp add: register_connect_def resolve_callbacks_def expire_addresses_def reweigh_def find_weights_def Let_def)

lemma fresh_message_bound:
  assumes "fresh_message buf eid type payload"
  shows "length payload < 65512"
proof -
  have "len_is (rdbuf buf) (xb_pptr (rdbuf buf))" "xb_inv (rdbuf buf)" "24 \<le> xb_pptr (rdbuf buf)" "drop 24 (xb_bytes (rdbuf buf)) = payload"
    using assms by (auto simp: fresh_message_def xb_complete_def)
  moreover have "unat (w :: u16) < 65536" for w using unsigned_less [where 'a = nat and w = w] by simp
  moreover have "\<exists>w :: u16. xb_pptr (rdbuf buf) = unat w"
    using calculation(1) by (cases "xb_len (rdbuf buf)") (auto simp: len_is_def intro: sym)
  ultimately have "xb_pptr (rdbuf buf) < 65536 \<and> 24 \<le> xb_pptr (rdbuf buf) \<and> length payload = xb_pptr (rdbuf buf) - 24"
    using length_xb_bytes [of "rdbuf buf"] by (metis length_drop)
  then show ?thesis by linarith
qed

text \<open>A message for a new session when the backend's address is not known yet: \<open>p\<close> is the new south stream.\<close>

lemma seg_north_connect_unresolved:
  assumes fm: "fresh_message buf eid type payload" and pl: "payload \<noteq> []" and j: "0 < length (c_south s)"
    and un: "if_addresses (c_south s ! 0) = []" and p: "p = v_alloc (c_env s) (v_nalloc (c_env s))"
    and k: "k = v_kernels (c_env s) (v_nalloc (c_env s))"
    and r: "seg_north_connect ni nsp (at_payload buf) s = (status, buf', s')"
  shows "\<exists>x'. c_heap s' = (c_heap s)(p \<mapsto> x') \<and> status \<noteq> 0
    \<and> (\<not> badbit x' \<longrightarrow> status = int (length payload) \<and> sk_stream (rdbuf x') = k_wire k @ payload)
    \<and> c_conns s' = c_conns s @ [connection_make eid nsp p (if msg_op type = STOP then HALF_CLOSED else HALF_OPEN) (v_now (c_env s))]
    \<and> if_pending (c_south s' ! 0) = if_pending (c_south s ! 0) @ [(p, ConnectCb ni nsp)]
    \<and> v_resolves (c_env s') = v_resolves (c_env s) @ (if if_pending (c_south s ! 0) = [] then [0] else [])"
proof -
  define x where "x = (ios_init (sockbuf_make BAD_SOCKET False True True k) :: sockstream)"
  have x: "good x" "sk_single (rdbuf x)" "sk_pending (rdbuf x) = []" "sk_stream (rdbuf x) = k_wire k"
    by (simp_all add: x_def sockbuf_make_def init_buf_ptrs_def empty_message_def sk_single_def MIN_BUFSIZE_def sk_pending_def sk_stream_def)
  obtain i f s1 where mk: "south_make 0 s = (i, s1)" and s1: "c_heap s1 = (c_heap s)(p \<mapsto> x)" "c_conns s1 = c_conns s"
      "c_south s1 = (c_south s)[0 := f]" "if_streams f ! i = (p, BAD_SOCKET)" "if_addresses f = []"
      "if_pending f = if_pending (c_south s ! 0)" "v_resolves (c_env s1) = v_resolves (c_env s)" "v_now (c_env s1) = v_now (c_env s)"
    using un by (auto simp: south_make_def new_stream_def Let_def p k x_def iface_insert_def nth_insert_at upper_bound_le)
  obtain g where g: "register_connect c_live seg_connect_run (v_wall (c_env s1)) p (ConnectCb ni nsp) f (s1\<lparr>c_arrivals := c_arrivals s1 + 1\<rparr>)
      = Some (g, s1\<lparr>c_arrivals := c_arrivals s1 + 1\<rparr>)" "if_addresses g = []"
      "if_pending g = if_pending (c_south s ! 0) @ [(p, ConnectCb ni nsp)]"
    using register_unresolved [OF s1(5)] s1(6) by metis
  have sp: "fst (if_streams (c_south s1 ! 0) ! i) = p" using s1(3,4) j by simp
  have ap: "xb_complete (rdbuf (at_payload buf))" "good (at_payload buf)" "xb_unread (rdbuf (at_payload buf)) = payload"
    using at_payload_complete [OF fm] by blast+
  obtain len b x' where gw: "guarded_write False (at_payload buf) x = (len, b, x')"
    by (cases "guarded_write False (at_payload buf) x") auto
  have inv: "xb_inv (rdbuf (at_payload buf))" using ap(1) by (simp add: xb_complete_def)
  have un: "int (xb_pptr (rdbuf (at_payload buf))) - int (xb_gptr (rdbuf (at_payload buf))) = int (length payload)"
    using inv length_xb_bytes [OF inv] ap(3) by (auto simp: xb_unread_def xb_inv_def)
  then have "xb_gptr (rdbuf (at_payload buf)) < xb_pptr (rdbuf (at_payload buf))" using pl by (cases payload) auto
  note room = guarded_write_room [OF inv ap(2) this x(1,2), of False, unfolded un gw fst_conv]
  have len: "len \<noteq> 0" using room fresh_message_bound [OF fm] x(3) by (simp add: MAX_BUFSIZE_def)
  have spec: "\<not> badbit x' \<Longrightarrow> len = int (length payload) \<and> sk_stream (rdbuf x') = k_wire k @ payload"
    using guarded_write_spec [OF ap(1,2) x(1,2) gw, unfolded ap(3)] len x(4) by simp
  have ty: "xb_eid (rdbuf (at_payload buf)) = Some eid" "xb_type (rdbuf (at_payload buf)) = Some type"
    using fm by (auto simp: fresh_message_def xb_eid_def xb_type_def split: if_splits)
  show ?thesis
    using r len spec g j unfolding seg_north_connect_def mk prod.case Let_def sp ty option.case
    by (intro exI [of _ x']) (auto simp: seg_register_def s1 seg_north_write_def gw)
qed

lemma seg_route_south_sends:
  assumes "ss_ok p payload buf" and "c_heap s ssp = Some x" and "eofbit x \<or> 0 < p"
    and "k < length (c_conns s)" and "c = c_conns s ! k" and "cn_south c = ssp" and "c_heap s (cn_north c) = Some n"
    and "\<forall>i < k. \<not> (cn_south (c_conns s ! i) = ssp \<and> c_live s (cn_north (c_conns s ! i)))"
    and "seg_route_south buf (ssp, sfd) revents s = (st, buf', revents', s')"
    and "type = \<lparr>msg_op = (if eofbit x then STOP else DATA), msg_flags = 0\<rparr>"
    and "full \<longleftrightarrow> fst (seg_south_write c (eofbit x) (sstream_seekg 0 buf) n) = 0"
  shows "\<exists>n'. c_heap s' = (c_heap s)(cn_north c \<mapsto> n')
    \<and> sends (if full then [] else header_bytes (make_head (cn_uuid c) (24 + int p) type) @ payload) n n'
    \<and> (if full then st = 0 \<and> revents' = revents AND NOT (POLLIN OR POLLHUP) \<and> c_conns s' = c_conns s
         \<and> MAX_BUFSIZE - (24 + int p) < sock_tellp n'
       else revents' = revents \<and> c_conns s' = (c_conns s)[k := state_update type (v_now (c_env s)) c]
         \<and> st = (if cn_state (state_update type (v_now (c_env s)) c) = CLOSED then - 1 else 0))"
proof -
  let ?P = "\<lambda>c. \<not> (cn_south c = ssp \<and> c_live s (cn_north c))"
  have "takeWhile ?P (c_conns s) = take k (c_conns s)"
    using assms(5-8) by (intro takeWhile_eq_take_P_nth) auto
  then have k: "length (takeWhile ?P (c_conns s)) = k" using assms(4) by simp
  obtain len b n' where w: "seg_south_write c (eofbit x) (sstream_seekg 0 buf) n = (len, b, n')"
    by (cases "seg_south_write c (eofbit x) (sstream_seekg 0 buf) n") auto
  have e: "eof_at s ssp = eofbit x" "c_live s ssp" using assms(2) by (simp_all add: eof_at_def)
  have r: "seg_route_south buf (ssp, sfd) revents s =
     (if len = 0 then (0, b, revents AND NOT (POLLIN OR POLLHUP),
         trig_clear sfd (ucast (POLLIN OR POLLHUP :: u16)) ((trig_set (native_handle n) POLLOUT s)\<lparr>c_heap := (c_heap s)(cn_north c \<mapsto> n')\<rparr>))
      else (let s2 = (trig_set (native_handle n) POLLOUT s)\<lparr>c_heap := (c_heap s)(cn_north c \<mapsto> n'),
                       c_conns := (c_conns s)[k := state_update type (v_now (c_env s)) c]\<rparr>
            in (if cn_state (state_update type (v_now (c_env s)) c) = CLOSED then - 1 else 0, b, revents,
                if eofbit x then trig_clear sfd POLLIN s2 else s2)))"
    using assms(3,4,7) w
    unfolding seg_route_south_def prod.case ss_ok_tellp [OF assms(1)] Let_def k assms(5) [symmetric] e(1) assms(10)
    by (auto simp: assms(2) clear_triggers_def)
  have "full \<longleftrightarrow> len = 0" using assms(11) w by simp
  then show ?thesis
    using r assms(9) seg_south_write_sends [OF assms(1) w refl]
    unfolding assms(10) [symmetric] by (auto simp: Let_def intro!: exI [of _ n'])
qed

section \<open>Properties\<close>

text \<open>what a backend sends reaches the controller as one envelope. The output buffered for the first live session
  of the backend's stream goes to that session's north stream as a header with the session's identifier, the
  length and \<^verbatim>\<open>DATA\<close> (\<^verbatim>\<open>STOP\<close> at end of file), followed by exactly those bytes; or, when the north stream has too much
  pending, nothing is sent, the session does not change and the backend is no longer polled for input. No
  other stream changes.\<close>

theorem backend_bytes_enveloped:
  assumes "ss_ok p payload buf" and "c_heap s ssp = Some x" and "eofbit x \<or> 0 < p" and "p \<le> 65511"
    and "k < length (c_conns s)" and "c = c_conns s ! k" and "cn_south c = ssp" and "c_heap s (cn_north c) = Some n"
    and "\<forall>i < k. \<not> (cn_south (c_conns s ! i) = ssp \<and> c_live s (cn_north (c_conns s ! i)))"
    and "good n" and "sk_single (rdbuf n)"
    and "seg_route_south buf (ssp, sfd) revents s = (st, buf', revents', s')"
    and "type = \<lparr>msg_op = (if eofbit x then STOP else DATA), msg_flags = 0\<rparr>"
    and "full \<longleftrightarrow> fst (seg_south_write c (eofbit x) (sstream_seekg 0 buf) n) = 0"
  shows "\<exists>n'. c_heap s' = (c_heap s)(cn_north c \<mapsto> n')
    \<and> (\<not> badbit n' \<longrightarrow> good n' \<and> sk_stream (rdbuf n') = sk_stream (rdbuf n) @
         (if full then [] else header_bytes (make_head (cn_uuid c) (24 + int p) type) @ payload))
    \<and> (if full then st = 0 \<and> revents' = revents AND NOT (POLLIN OR POLLHUP) \<and> c_conns s' = c_conns s
         \<and> MAX_BUFSIZE - (24 + int p) < sock_tellp n'
       else revents' = revents \<and> c_conns s' = (c_conns s)[k := state_update type (v_now (c_env s)) c]
         \<and> st = (if cn_state (state_update type (v_now (c_env s)) c) = CLOSED then - 1 else 0))
    \<and> unat (msg_length (msg_len (make_head (cn_uuid c) (24 + int p) type))) = p + 24"
proof -
  have len: "unat (msg_length (msg_len (make_head (cn_uuid c) (24 + int p) type))) = p + 24"
    using make_head_length [OF assms(4)] by (simp add: add.commute)
  show ?thesis
    using seg_route_south_sends [OF assms(1-3,5-9,12-14)] assms(10,11) len by (auto simp: sends_def)
qed

text \<open>C4: a message of a session reaches that session's backend and nobody else: its payload is appended to the output
  of the session's south stream, whose socket is polled for output, the session is updated, and an abort breaks the stream; or the stream has too
  much pending, then the message stays whole and readable and the controller stream is no longer polled.\<close>

theorem session_message_delivered:
  assumes "fresh_message buf eid type payload" and "k = seg_session_index eid nsp (c_conns s)" and "k < length (c_conns s)"
    and "c = c_conns s ! k" and "cn_state c \<noteq> CLOSED" and "c_heap s (cn_south c) = Some x" and "good x" and "sk_single (rdbuf x)"
    and "seg_route_north buf ni (nsp, nfd) revents s = (st, buf', revents', s')"
    and "full \<longleftrightarrow> payload \<noteq> [] \<and> fst (guarded_write False (at_payload buf) x) = 0"
  shows "\<exists>x'. c_heap s' = (c_heap s)(cn_south c \<mapsto> x')
    \<and> (\<not> badbit x' \<longrightarrow> sk_stream (rdbuf x') = sk_stream (rdbuf x) @ (if full then [] else payload))
    \<and> (if full then revents' = revents AND NOT (POLLIN OR POLLHUP) \<and> st = 0 \<and> c_conns s' = c_conns s
         \<and> good buf' \<and> xb_unread (rdbuf buf') = payload
       else revents' = revents \<and> st = (if eof_at s nsp then - 1 else 0) \<and> eofbit buf' \<and> (has_flag type ABORT \<longrightarrow> badbit x')
         \<and> c_conns s' = (c_conns s)[k := state_update type (v_now (c_env s)) c])
    \<and> c_triggers s' = (if full then tclear nfd (ucast (POLLIN OR POLLHUP :: u16)) else id)
         (if native_handle x \<noteq> BAD_SOCKET then tset (native_handle x) POLLOUT (c_triggers s) else c_triggers s)"
proof -
  have d: "seg_deliver_north (buf\<lparr>rdbuf := (rdbuf buf)\<lparr>xb_egptr := xb_pptr (rdbuf buf)\<rparr>\<rparr>) (nsp, nfd) revents k type
      (24 + int (length payload)) 24 (if eof_at s nsp then - 1 else 0) s = (st, buf', revents', s')"
    using assms(9) seg_route_north_fresh [OF assms(1) refl] assms(2-5) by (simp add: Let_def)
  show ?thesis
    using seg_deliver_fresh [OF assms(1,4,6-8) d assms(10)] assms(7,8) by (auto simp: sends_def)
qed

text \<open>C18: only a message flagged \<^verbatim>\<open>INIT\<close> that carries payload opens a session. Any other message of an unknown or closed
  session leaves the connections and every stream but its own alone, is used up, and is answered with one
  abort for its identifier, unless it is an abort itself; the controller's socket is then polled for output.\<close>

theorem stray_message_aborted:
  assumes "fresh_message buf eid type payload" and "k = seg_session_index eid nsp (c_conns s)"
    and "length (c_conns s) \<le> k \<or> cn_state (c_conns s ! k) = CLOSED" and "c_heap s nsp = Some n" and "\<not> eofbit n"
    and "\<not> has_flag type INIT \<or> payload = []"
    and "seg_route_north buf ni (nsp, nfd) revents s = (st, buf', revents', s')"
  shows "c_conns s' = c_conns s \<and> st = 0 \<and> revents' = revents \<and> eofbit buf'
    \<and> c_heap s' = (if has_flag type ABORT then c_heap s else (c_heap s)(nsp \<mapsto> write_header (abort_header eid) n))
    \<and> c_triggers s' = (if has_flag type ABORT then c_triggers s else tset nfd POLLOUT (c_triggers s))"
proof -
  have e: "eof_at s nsp = False" using assms(4,5) by (simp add: eof_at_def)
  show ?thesis
    using assms(2-7) seg_route_north_fresh [OF assms(1) e, of ni nfd revents]
    by (auto simp: Let_def seg_unknown_def upd_stream_heap trig_set_def)
qed


section \<open>Examples\<close>

text \<open>One session: north stream 1, south stream 2; new streams are 3; the backend's address is not known.\<close>

definition sample_seg :: seg where
  "sample_seg = \<lparr>c_heap = [1 \<mapsto> sample_stream 10, 2 \<mapsto> sample_stream 11],
     c_north = [(iface_make [] ''TCP'' [])\<lparr>if_streams := [(5, 4)]\<rparr>], c_south = [iface_make [] ''TCP'' []],
     c_conns = [sample_conn], c_timeouts = [], c_full_duplex = False, c_drain = False, c_triggers = trigger_init,
     c_mar = \<lparr>mar_north = [], mar_south = []\<rparr>, c_metrics = [], c_arrivals = 0, c_env = sample_env\<rparr>"

lemma sample_seg_facts:
  "c_heap sample_seg 1 = Some (sample_stream 10)" "c_heap sample_seg 2 = Some (sample_stream 11)"
  "c_conns sample_seg = [sample_conn]" "cn_north sample_conn = 1" "cn_south sample_conn = 2"
  "cn_uuid sample_conn = zero_uuid" "cn_state sample_conn = HALF_OPEN"
  by (simp_all add: sample_seg_def sample_conn_def connection_make_def)

lemma seg_south_write_room:
  assumes "ss_ok p payload buf" and "p \<le> 65511"
  shows "fst (seg_south_write c stop (sstream_seekg 0 buf) (sample_stream fd)) \<noteq> 0"
proof
  let ?w = "seg_south_write c stop (sstream_seekg 0 buf) (sample_stream fd)"
  assume z: "fst ?w = 0"
  obtain len b n' where w: "?w = (len, b, n')" by (cases ?w) auto
  have tp: "sstream_tellp (sstream_seekg 0 buf) = (int p, sstream_seekg 0 buf)"
    using assms(1) by (simp add: seekg_def Let_def good_def ss_ok_def sb_seekpos_in_def tellp_def fail_of_def)
  show False
    using z w assms(2) unfolding seg_south_write_def tp prod.case Let_def sample_tellp
    by (auto simp: MAX_BUFSIZE_def sample_tellp split: if_splits prod.splits)
qed

theorem backend_bytes_enveloped_witness:
  "\<exists>st buf' revents' s' n'. seg_route_south (sample_text [65, 66]) (2, 11) POLLIN sample_seg = (st, buf', revents', s')
     \<and> st = 0 \<and> c_heap s' 1 = Some n' \<and> (badbit n' \<or> sk_stream (rdbuf n') =
          header_bytes (make_head zero_uuid 26 \<lparr>msg_op = DATA, msg_flags = 0\<rparr>) @ [65, 66])"
proof -
  obtain st buf' revents' s' where r: "seg_route_south (sample_text [65, 66]) (2, 11) POLLIN sample_seg = (st, buf', revents', s')"
    by (cases "seg_route_south (sample_text [65, 66]) (2, 11) POLLIN sample_seg") auto
  have ok: "ss_ok 2 [65, 66] (sample_text [65, 66])" using sample_text_ok [of "[65, 66]"] by (simp add: numeral_2_eq_2)
  have f: "False \<longleftrightarrow> fst (seg_south_write sample_conn (eofbit (sample_stream 11)) (sstream_seekg 0 (sample_text [65, 66])) (sample_stream 10)) = 0"
    using seg_south_write_room [OF ok] by simp
  have "cn_state (state_update \<lparr>msg_op = DATA, msg_flags = 0\<rparr> t sample_conn) = OPEN" for t
    by (simp add: state_update_def sample_seg_facts DATA_def STOP_def)
  with backend_bytes_enveloped [OF ok sample_seg_facts(2) _ _ _ _ _ _ _ sample_stream_ok(1,2) r refl f, of 0] r show ?thesis
    by (auto simp: sample_seg_facts sample_stream_ok simp del: One_nat_def)
qed

theorem session_message_delivered_witness:
  "\<exists>st buf' revents' s' x'. seg_route_north (sample_message zero_uuid \<lparr>msg_op = DATA, msg_flags = 0\<rparr> [7, 8]) 0 (1, 10) POLLIN sample_seg
       = (st, buf', revents', s') \<and> c_heap s' 2 = Some x' \<and> (badbit x' \<or> sk_stream (rdbuf x') = [7, 8])"
proof -
  let ?m = "sample_message zero_uuid \<lparr>msg_op = DATA, msg_flags = 0\<rparr> [7, 8]"
  obtain st buf' revents' s' where r: "seg_route_north ?m 0 (1, 10) POLLIN sample_seg = (st, buf', revents', s')"
    by (cases "seg_route_north ?m 0 (1, 10) POLLIN sample_seg") auto
  have m: "fresh_message ?m zero_uuid \<lparr>msg_op = DATA, msg_flags = 0\<rparr> [7, 8]" by (rule sample_message_fresh) simp
  have k: "0 = seg_session_index zero_uuid 1 (c_conns sample_seg)"
    by (simp add: sample_seg_facts seg_session_index_def uuid_eq_def)
  have full: "False \<longleftrightarrow> [7, 8] \<noteq> ([] :: byte list) \<and> fst (guarded_write False (at_payload ?m) (sample_stream 11)) = 0"
    using sample_message_room [of "[7, 8]" False] by simp
  from session_message_delivered [OF m k _ refl _ _ sample_stream_ok(1,2) r full] r show ?thesis
    by (auto simp: sample_seg_facts sample_stream_ok simp del: One_nat_def)
qed

lemma sample_stray:
  "length (c_conns sample_seg) \<le> seg_session_index (zero_uuid\<lparr>node_id := node_of_bytes [1, 0, 0, 0, 0, 0]\<rparr>) 1 (c_conns sample_seg)"
proof -
  have "node_id (zero_uuid\<lparr>node_id := node_of_bytes [1, 0, 0, 0, 0, 0]\<rparr>) \<noteq> node_id zero_uuid" by (simp add: node_of_bytes_def zero_uuid_def)
  then have "zero_uuid \<noteq> zero_uuid\<lparr>node_id := node_of_bytes [1, 0, 0, 0, 0, 0]\<rparr>" by metis
  then show ?thesis by (simp add: sample_seg_facts seg_session_index_def uuid_eq_def)
qed

theorem stray_message_aborted_witness:
  "\<exists>st buf' revents' s'. seg_route_north (sample_message (zero_uuid\<lparr>node_id := node_of_bytes [1, 0, 0, 0, 0, 0]\<rparr>) \<lparr>msg_op = DATA, msg_flags = 0\<rparr> [7])
       0 (1, 10) POLLIN sample_seg = (st, buf', revents', s')
     \<and> c_heap s' 1 = Some (write_header (abort_header (zero_uuid\<lparr>node_id := node_of_bytes [1, 0, 0, 0, 0, 0]\<rparr>)) (sample_stream 10))"
proof -
  let ?u = "zero_uuid\<lparr>node_id := node_of_bytes [1, 0, 0, 0, 0, 0]\<rparr>" and ?t = "\<lparr>msg_op = DATA, msg_flags = 0\<rparr> :: msgtype"
  obtain st buf' revents' s' where r: "seg_route_north (sample_message ?u ?t [7]) 0 (1, 10) POLLIN sample_seg = (st, buf', revents', s')"
    by (cases "seg_route_north (sample_message ?u ?t [7]) 0 (1, 10) POLLIN sample_seg") auto
  have "fresh_message (sample_message ?u ?t [7]) ?u ?t [7]" by (rule sample_message_fresh) simp
  from stray_message_aborted [OF this refl disjI1 [OF sample_stray] sample_seg_facts(1) _ _ r] r show ?thesis
    by (simp add: sample_stream_ok has_flag_def)
qed


end
