(* ===== verification/Resolver.thy ===== *)
theory Resolver
  imports Config Interfaces Poller
begin

unbundle bit_operations_syntax

text \<open>
  Name resolution (\<^verbatim>\<open>src/dns/dns.cpp\<close>, \<^verbatim>\<open>dns.hpp\<close>, \<^verbatim>\<open>dns_poll.hpp\<close>). The resolver library (c-ares) and the
  pattern library (PCRE2) are not part of the program: a lookup that is started is a value of
  \<open>query\<close>, its parsed answer an argument of the callback; what the libraries compute is an argument of
  the definitions. Null and empty strings of an answer are both \<open>[]\<close>, as the code treats them alike.
  Shown: how the name of an interface becomes a lookup and the answer of a lookup the addresses
  of the interface, that a failed lookup tells every waiting connect, that the socket table is a map that
  the interest list follows; and three flaws: answers for several service records replace one
  another, a pattern that does not compile makes the program read a null string, and an interface named by
  a scheme of its own is looked up once only.
\<close>

section \<open>Data\<close>

datatype query =
    AddrInfo string string bool "nat \<times> nat \<times> nat"
  | Srv string
  | Naptr string string

record addrinfo_node =
  an_addr :: "byte list"
  an_len :: nat
  an_ttl :: int

record srv_reply =
  sv_host :: string
  sv_port :: u16
  sv_weight :: u16
  sv_priority :: u16

record naptr_reply =
  np_flags :: string
  np_regexp :: string
  np_replacement :: string

datatype resolve_error = NameOverrun | NullString | OutOfRange | InvalidProtocol | Diverges

section \<open>Names of lookups\<close>

text \<open>
  \<^verbatim>\<open>extract_protocol\<close>: the second label without its first character and what is not a letter after it. Without a
  second label, or when the search leaves it, the code reads outside of the name (\<open>None\<close>).
\<close>

definition extract_protocol :: "string \<Rightarrow> string option" where
  "extract_protocol name =
     (case dropWhile (\<lambda>c. c \<noteq> CHR ''.'') name of
        [] \<Rightarrow> None
      | _ # rest \<Rightarrow>
          (let label = takeWhile (\<lambda>c. c \<noteq> CHR ''.'') rest;
               start = dropWhile (\<lambda>c. \<not> isalpha c) (tl rest);
               k = length rest - length start in
           if rest = [] \<or> start = [] \<or> length label < k then None
           else Some (map toupper (drop k label))))"

text \<open>\<^verbatim>\<open>std::to_chars\<close> of a port number.\<close>

fun to_chars :: "nat \<Rightarrow> string" where
  "to_chars n = (if n < 10 then [char_of (48 + n)] else to_chars (n div 10) @ [char_of (48 + n mod 10)])"

declare to_chars.simps [simp del]

definition getaddrinfo :: "'cb iface \<Rightarrow> string \<Rightarrow> string \<Rightarrow> nat \<times> nat \<times> nat \<Rightarrow> query" where
  "getaddrinfo f name service weight = AddrInfo name service (if_protocol f = ''TCP'') weight"

definition substr :: "nat \<Rightarrow> string \<Rightarrow> string option" where
  "substr p s = (if p \<le> length s then Some (drop p s) else None)"

text \<open>\<^verbatim>\<open>resolver_base::resolve\<close>: the lookup started for an interface.\<close>

definition resolve :: "'cb iface \<Rightarrow> resolve_error + query" where
  "resolve f =
     (let uri = if_uri f; scheme = uri_scheme uri in
      if if_protocol f = [] then
        (if scheme = ''srv'' then
           (case substr (length scheme + 1) uri of None \<Rightarrow> Inl OutOfRange | Some name \<Rightarrow> Inr (Srv name))
         else if scheme = ''naptr'' then
           (case substr (length scheme + 1) uri of None \<Rightarrow> Inl OutOfRange | Some name \<Rightarrow> Inr (Naptr name name))
         else if scheme = ''urn'' then Inr (Naptr (uri_nid uri @ ''.'' @ scheme) uri)
         else Inr (Naptr (scheme @ ''.uri'') uri))
      else if if_protocol f = ''TCP'' then Inr (getaddrinfo f (uri_host uri) (uri_port uri) (1, 0, SIZE_MAX))
      else Inl InvalidProtocol)"

section \<open>Address answers\<close>

text \<open>The interface gets new addresses; \<open>t\<close> is the time they are stamped with, \<open>now\<close> the time of the call.\<close>

definition settle ::
  "('s \<Rightarrow> owner \<Rightarrow> bool) \<Rightarrow>
   ('cb \<Rightarrow> nat \<Rightarrow> byte list option \<Rightarrow> nat \<Rightarrow> string \<Rightarrow> 'cb iface \<Rightarrow> 's \<Rightarrow> 'cb iface \<times> 's) \<Rightarrow>
   int \<Rightarrow> address list \<Rightarrow> 'cb iface \<Rightarrow> 's \<Rightarrow> resolve_error + query list \<times> 'cb iface \<times> 's" where
  "settle live run now addrs f s =
     (case set_addresses live run now addrs f s of None \<Rightarrow> Inl Diverges | Some (g, s') \<Rightarrow> Inr ([], g, s'))"

definition answer_address :: "int \<Rightarrow> nat \<times> nat \<times> nat \<Rightarrow> addrinfo_node \<Rightarrow> address" where
  "answer_address t weight n = make_address (an_addr n) (an_len n) (t, an_ttl n) weight"

definition ares_addrinfo_success ::
  "('s \<Rightarrow> owner \<Rightarrow> bool) \<Rightarrow>
   ('cb \<Rightarrow> nat \<Rightarrow> byte list option \<Rightarrow> nat \<Rightarrow> string \<Rightarrow> 'cb iface \<Rightarrow> 's \<Rightarrow> 'cb iface \<times> 's) \<Rightarrow>
   int \<Rightarrow> int \<Rightarrow> nat \<times> nat \<times> nat \<Rightarrow> addrinfo_node list \<Rightarrow> 'cb iface \<Rightarrow> 's \<Rightarrow> resolve_error + query list \<times> 'cb iface \<times> 's" where
  "ares_addrinfo_success live run t now weight nodes f s = settle live run now (map (answer_address t weight) nodes) f s"

text \<open>A failure is one address whose length is -1, which the callbacks see as a null pointer.\<close>

definition error_address :: "int \<Rightarrow> address" where
  "error_address t = \<lparr>ad_addr = replicate 128 0, ad_len = 4294967295, ad_time = t, ad_ttl = 0,
     ad_max = 1, ad_count = 0, ad_prio = SIZE_MAX\<rparr>"

definition ares_handle_error ::
  "('s \<Rightarrow> owner \<Rightarrow> bool) \<Rightarrow>
   ('cb \<Rightarrow> nat \<Rightarrow> byte list option \<Rightarrow> nat \<Rightarrow> string \<Rightarrow> 'cb iface \<Rightarrow> 's \<Rightarrow> 'cb iface \<times> 's) \<Rightarrow>
   int \<Rightarrow> int \<Rightarrow> 'cb iface \<Rightarrow> 's \<Rightarrow> resolve_error + query list \<times> 'cb iface \<times> 's" where
  "ares_handle_error live run t now f s = settle live run now [error_address t] f s"

definition ares_addrinfo_cb ::
  "('s \<Rightarrow> owner \<Rightarrow> bool) \<Rightarrow>
   ('cb \<Rightarrow> nat \<Rightarrow> byte list option \<Rightarrow> nat \<Rightarrow> string \<Rightarrow> 'cb iface \<Rightarrow> 's \<Rightarrow> 'cb iface \<times> 's) \<Rightarrow>
   int \<Rightarrow> int \<Rightarrow> nat \<times> nat \<times> nat \<Rightarrow> addrinfo_node list option \<Rightarrow> 'cb iface \<Rightarrow> 's \<Rightarrow> resolve_error + query list \<times> 'cb iface \<times> 's" where
  "ares_addrinfo_cb live run t now weight answer f s =
     (case answer of
        Some nodes \<Rightarrow> ares_addrinfo_success live run t now weight nodes f s
      | None \<Rightarrow> ares_handle_error live run t now f s)"

section \<open>Service records\<close>

definition ares_parse_srv_success :: "string \<Rightarrow> srv_reply list \<Rightarrow> 'cb iface \<Rightarrow> 's \<Rightarrow> resolve_error + query list \<times> 'cb iface \<times> 's" where
  "ares_parse_srv_success name srv f s =
     (case extract_protocol name of
        None \<Rightarrow> Inl NameOverrun
      | Some protocol \<Rightarrow>
          (let g = f\<lparr>if_protocol := protocol\<rparr> in
           Inr (map (\<lambda>r. getaddrinfo g (sv_host r) (to_chars (unat (sv_port r))) (unat (sv_weight r), 0, unat (sv_priority r))) srv, g, s)))"

text \<open>
  The callback: \<open>None\<close> is a failed lookup, \<open>Some None\<close> a reply that the library does not parse and
  \<open>Some (Some srv)\<close> one with its records.
\<close>

definition ares_getsrv_success ::
  "('s \<Rightarrow> owner \<Rightarrow> bool) \<Rightarrow>
   ('cb \<Rightarrow> nat \<Rightarrow> byte list option \<Rightarrow> nat \<Rightarrow> string \<Rightarrow> 'cb iface \<Rightarrow> 's \<Rightarrow> 'cb iface \<times> 's) \<Rightarrow>
   int \<Rightarrow> int \<Rightarrow> string \<Rightarrow> srv_reply list option \<Rightarrow> 'cb iface \<Rightarrow> 's \<Rightarrow> resolve_error + query list \<times> 'cb iface \<times> 's" where
  "ares_getsrv_success live run t now name parsed f s =
     (case parsed of
        Some srv \<Rightarrow> ares_parse_srv_success name srv f s
      | None \<Rightarrow> ares_handle_error live run t now f s)"

definition ares_getsrv_cb ::
  "('s \<Rightarrow> owner \<Rightarrow> bool) \<Rightarrow>
   ('cb \<Rightarrow> nat \<Rightarrow> byte list option \<Rightarrow> nat \<Rightarrow> string \<Rightarrow> 'cb iface \<Rightarrow> 's \<Rightarrow> 'cb iface \<times> 's) \<Rightarrow>
   int \<Rightarrow> int \<Rightarrow> string \<Rightarrow> srv_reply list option option \<Rightarrow> 'cb iface \<Rightarrow> 's \<Rightarrow> resolve_error + query list \<times> 'cb iface \<times> 's" where
  "ares_getsrv_cb live run t now name answer f s =
     (case answer of
        Some parsed \<Rightarrow> ares_getsrv_success live run t now name parsed f s
      | None \<Rightarrow> ares_handle_error live run t now f s)"

section \<open>Naming authority pointers\<close>

text \<open>\<^verbatim>\<open>ares_match_naptr_flag\<close>: no flag, the flag s in either case, or a flag that is not handled (\<open>None\<close>).\<close>

definition ares_match_naptr_flag :: "naptr_reply \<Rightarrow> string option" where
  "ares_match_naptr_flag cur =
     (case np_flags cur of
        [] \<Rightarrow> Some []
      | c # _ \<Rightarrow> (if to_lower c = CHR ''s'' then Some ''s'' else None))"

definition naptr_resolve_sub :: "string \<Rightarrow> string \<Rightarrow> string \<Rightarrow> query option" where
  "naptr_resolve_sub subject substitution flag =
     (if flag = [] then Some (Naptr substitution subject)
      else if hd flag = CHR ''s'' then Some (Srv substitution)
      else None)"

definition extract_part :: "string \<Rightarrow> string" where
  "extract_part regexp = (case regexp of [] \<Rightarrow> [] | delim # rest \<Rightarrow> takeWhile (\<lambda>c. c \<noteq> delim) rest)"

fun replace_backreferences :: "string \<Rightarrow> string" where
  "replace_backreferences (a # b # s) =
     (if a = CHR 0x5C
      then (if isdigit b \<and> b \<noteq> CHR ''0'' then CHR ''$'' else a) # b # replace_backreferences s
      else a # replace_backreferences (b # s))"
| "replace_backreferences s = s"

abbreviation (input) PCRE2_ERROR_NOMEMORY :: int where "PCRE2_ERROR_NOMEMORY \<equiv> - 48"

text \<open>
  The loop around \<^verbatim>\<open>pcre2_substitute\<close>: \<open>sub len\<close> is the answer for a result buffer of \<open>len\<close> units, a return code, the
  length the library stores and the text.
\<close>

partial_function (option) subst_loop :: "(nat \<Rightarrow> int \<times> nat \<times> string) \<Rightarrow> nat \<Rightarrow> (int \<times> nat \<times> string) option" where
  "subst_loop sub len =
     (case sub len of (rc, len', text) \<Rightarrow>
        if rc = PCRE2_ERROR_NOMEMORY then subst_loop sub len' else Some (rc, len', text))"

text \<open>
  \<^verbatim>\<open>pcre_substitute_\<close>: \<open>compile\<close> is \<open>Some rc\<close> for a pattern the library refuses, with the error number it stores, and
  \<open>sub match substitute subject\<close> the substitution. \<open>result\<close> is the result buffer, a null pointer at first. The
  result: return code, length, buffer; \<open>None\<close> when the loop does not end.
\<close>

definition pcre_parts :: "string \<Rightarrow> string \<Rightarrow> string \<times> string \<times> string" where
  "pcre_parts regexp subject =
     (let match = extract_part regexp;
          substitute = replace_backreferences (extract_part (drop (length match + 1) regexp)) in
      if last regexp = CHR ''i'' then (map to_lower match, map to_lower substitute, map to_lower subject)
      else (match, substitute, subject))"

definition pcre_substitute ::
  "(string \<Rightarrow> int option) \<Rightarrow> (string \<Rightarrow> string \<Rightarrow> string \<Rightarrow> nat \<Rightarrow> int \<times> nat \<times> string) \<Rightarrow>
   string \<Rightarrow> string \<Rightarrow> string option \<Rightarrow> nat \<Rightarrow> (int \<times> nat \<times> string option) option" where
  "pcre_substitute compile sub regexp subject result result_len =
     (case pcre_parts regexp subject of (match, substitute, subj) \<Rightarrow>
        (case compile match of
           Some rc \<Rightarrow> Some (rc, result_len, result)
         | None \<Rightarrow> (case subst_loop (sub match substitute subj) result_len of
             None \<Rightarrow> None
           | Some (rc, len, text) \<Rightarrow> Some (rc, len, Some text))))"

text \<open>
  \<^verbatim>\<open>ares_parse_naptr_success\<close>: the records in the order of the answer; the first usable one starts the next
  lookup. \<open>Inr None\<close> when none matches.
\<close>

fun naptr_loop ::
  "(string \<Rightarrow> int option) \<Rightarrow> (string \<Rightarrow> string \<Rightarrow> string \<Rightarrow> nat \<Rightarrow> int \<times> nat \<times> string) \<Rightarrow>
   string \<Rightarrow> string option \<Rightarrow> naptr_reply list \<Rightarrow> resolve_error + query option" where
  "naptr_loop compile sub subject result [] = Inr None"
| "naptr_loop compile sub subject result (cur # cs) =
     (case ares_match_naptr_flag cur of
        None \<Rightarrow> naptr_loop compile sub subject result cs
      | Some flag \<Rightarrow>
          (if np_regexp cur \<noteq> [] \<and> np_replacement cur \<noteq> [] then naptr_loop compile sub subject result cs
           else if np_regexp cur \<noteq> [] then
             (case pcre_substitute compile sub (np_regexp cur) subject result 256 of
                None \<Rightarrow> Inl Diverges
              | Some (rc, result_len, result') \<Rightarrow>
                  (if 0 < rc \<and> result_len \<noteq> 0 then
                     (case result' of
                        None \<Rightarrow> Inl NullString
                      | Some text \<Rightarrow> (case naptr_resolve_sub subject text flag of
                          Some q \<Rightarrow> Inr (Some q)
                        | None \<Rightarrow> naptr_loop compile sub subject result' cs))
                   else naptr_loop compile sub subject result' cs))
           else if np_replacement cur \<noteq> [] then
             (case naptr_resolve_sub subject (np_replacement cur) flag of
                Some q \<Rightarrow> Inr (Some q)
              | None \<Rightarrow> naptr_loop compile sub subject result cs)
           else naptr_loop compile sub subject result cs))"

definition ares_getnaptr_success ::
  "('s \<Rightarrow> owner \<Rightarrow> bool) \<Rightarrow>
   ('cb \<Rightarrow> nat \<Rightarrow> byte list option \<Rightarrow> nat \<Rightarrow> string \<Rightarrow> 'cb iface \<Rightarrow> 's \<Rightarrow> 'cb iface \<times> 's) \<Rightarrow>
   (string \<Rightarrow> int option) \<Rightarrow> (string \<Rightarrow> string \<Rightarrow> string \<Rightarrow> nat \<Rightarrow> int \<times> nat \<times> string) \<Rightarrow>
   int \<Rightarrow> int \<Rightarrow> string \<Rightarrow> naptr_reply list option \<Rightarrow> 'cb iface \<Rightarrow> 's \<Rightarrow> resolve_error + query list \<times> 'cb iface \<times> 's" where
  "ares_getnaptr_success live run compile sub t now subject parsed f s =
     (case parsed of
        None \<Rightarrow> ares_handle_error live run t now f s
      | Some naptr \<Rightarrow>
          (case naptr_loop compile sub subject None naptr of
             Inl e \<Rightarrow> Inl e
           | Inr None \<Rightarrow> ares_handle_error live run t now f s
           | Inr (Some q) \<Rightarrow> Inr ([q], f, s)))"

definition ares_getnaptr_cb ::
  "('s \<Rightarrow> owner \<Rightarrow> bool) \<Rightarrow>
   ('cb \<Rightarrow> nat \<Rightarrow> byte list option \<Rightarrow> nat \<Rightarrow> string \<Rightarrow> 'cb iface \<Rightarrow> 's \<Rightarrow> 'cb iface \<times> 's) \<Rightarrow>
   (string \<Rightarrow> int option) \<Rightarrow> (string \<Rightarrow> string \<Rightarrow> string \<Rightarrow> nat \<Rightarrow> int \<times> nat \<times> string) \<Rightarrow>
   int \<Rightarrow> int \<Rightarrow> string \<Rightarrow> naptr_reply list option option \<Rightarrow> 'cb iface \<Rightarrow> 's \<Rightarrow> resolve_error + query list \<times> 'cb iface \<times> 's" where
  "ares_getnaptr_cb live run compile sub t now subject answer f s =
     (case answer of
        None \<Rightarrow> ares_handle_error live run t now f s
      | Some parsed \<Rightarrow> ares_getnaptr_success live run compile sub t now subject parsed f s)"

section \<open>The library\<close>

text \<open>The library is initialised by the first resolver and cleaned up by the last; exceptions are the first component.\<close>

datatype library_error = InitOverflow | UnsupportedVersion | InitFailed int | NotInitialized | NoMemory | NoResolverFile

record ares_library =
  al_initialized :: int
  al_ready :: bool

definition initialize_ares_library :: "int \<Rightarrow> int \<Rightarrow> ares_library \<Rightarrow> library_error option \<times> ares_library" where
  "initialize_ares_library version err l =
     (if al_initialized l = 2147483647 then (Some InitOverflow, l)
      else
        (let l1 = l\<lparr>al_initialized := al_initialized l + 1\<rparr> in
         if al_initialized l = 0 then
           (if version < 0x011201 then (Some UnsupportedVersion, l1)
            else if err \<noteq> 0 then (Some (InitFailed err), l1)
            else (None, l1\<lparr>al_ready := True\<rparr>))
         else (None, l1)))"

definition cleanup_ares_library :: "ares_library \<Rightarrow> ares_library" where
  "cleanup_ares_library l =
     (let l1 = l\<lparr>al_initialized := al_initialized l - 1\<rparr> in
      if al_initialized l1 = 0 then l1\<lparr>al_ready := False\<rparr> else l1)"

section \<open>Sockets and time\<close>

definition READABLE :: u16 where "READABLE = 1"
definition WRITABLE :: u16 where "WRITABLE = 4"

text \<open>\<open>rs_chan\<close> is what the library and the rest of the program keep; times are milliseconds.\<close>

record 'x resolver =
  rs_handles :: "(fd \<times> u16) list"
  rs_time :: int
  rs_interval :: int
  rs_chan :: 'x

definition sock_state :: "bool \<Rightarrow> bool \<Rightarrow> u16" where
  "sock_state readable writable = (if readable then READABLE else 0) OR (if writable then WRITABLE else 0)"

definition ares_socket_cb :: "fd \<times> bool \<times> bool \<Rightarrow> (fd \<times> u16) list \<Rightarrow> (fd \<times> u16) list" where
  "ares_socket_cb cb hnds =
     (case cb of (socket_fd, readable, writable) \<Rightarrow>
       (let lb = lower_bound (\<lambda>x. fst x < socket_fd) hnds;
            h = (socket_fd, sock_state readable writable) in
        if \<not> key_hit fst socket_fd hnds lb then insert_at lb h hnds else hnds[lb := h]))"

definition set_timeout :: "('x \<Rightarrow> int option) \<Rightarrow> int \<Rightarrow> 'x resolver \<Rightarrow> 'x resolver" where
  "set_timeout ares_timeout now r =
     (case ares_timeout (rs_chan r) of
        Some interval \<Rightarrow> r\<lparr>rs_time := now, rs_interval := interval\<rparr>
      | None \<Rightarrow> r\<lparr>rs_time := now, rs_interval := - 1\<rparr>)"

text \<open>
  \<^verbatim>\<open>process_event\<close>: \<open>ares_process readfd writefd\<close> is the library's work on its state; the socket states it reports on
  the way are the first part of its result.
\<close>

definition process_event ::
  "(fd \<Rightarrow> fd \<Rightarrow> 'x \<Rightarrow> (fd \<times> bool \<times> bool) list \<times> 'x) \<Rightarrow> ('x \<Rightarrow> int option) \<Rightarrow> int \<Rightarrow> fd \<times> u16 \<Rightarrow> 'x resolver \<Rightarrow> 'x resolver" where
  "process_event ares_process ares_timeout now hnd r =
     (let in_time = now < rs_time r + rs_interval r;
          readfd = (if in_time \<and> snd hnd AND READABLE \<noteq> 0 then fst hnd else BAD_SOCKET);
          writefd = (if in_time \<and> snd hnd AND WRITABLE \<noteq> 0 then fst hnd else BAD_SOCKET)
      in case ares_process readfd writefd (rs_chan r) of (cbs, x) \<Rightarrow>
           set_timeout ares_timeout now (r\<lparr>rs_handles := fold ares_socket_cb cbs (rs_handles r), rs_chan := x\<rparr>))"

text \<open>\<^verbatim>\<open>resolve\<close> ends with setting the time out; starting the lookup may report sockets too.\<close>

definition start_query ::
  "(query \<Rightarrow> 'x \<Rightarrow> (fd \<times> bool \<times> bool) list \<times> 'x) \<Rightarrow> ('x \<Rightarrow> int option) \<Rightarrow> int \<Rightarrow> 'cb iface \<Rightarrow> 'x resolver \<Rightarrow> resolve_error + 'x resolver" where
  "start_query ares_start ares_timeout now f r =
     (case resolve f of
        Inl e \<Rightarrow> Inl e
      | Inr q \<Rightarrow> (case ares_start q (rs_chan r) of (cbs, x) \<Rightarrow>
          Inr (set_timeout ares_timeout now (r\<lparr>rs_handles := fold ares_socket_cb cbs (rs_handles r), rs_chan := x\<rparr>))))"

section \<open>Resolvers come and go\<close>

text \<open>What \<^verbatim>\<open>ares_init_options\<close> reports; only three results are errors for the code.\<close>

datatype channel_status = ARES_ENOTINITIALIZED | ARES_ENOMEM | ARES_EFILE | ARES_OTHER

definition initialize_ares_channel :: "channel_status \<Rightarrow> library_error option" where
  "initialize_ares_channel status =
     (case status of
        ARES_ENOTINITIALIZED \<Rightarrow> Some NotInitialized
      | ARES_ENOMEM \<Rightarrow> Some NoMemory
      | ARES_EFILE \<Rightarrow> Some NoResolverFile
      | ARES_OTHER \<Rightarrow> None)"

text \<open>The constructor; \<open>x\<close> is the channel. When it throws, no destructor runs.\<close>

definition resolver_make :: "int \<Rightarrow> int \<Rightarrow> channel_status \<Rightarrow> int \<Rightarrow> 'x \<Rightarrow> ares_library \<Rightarrow> (library_error + 'x resolver) \<times> ares_library" where
  "resolver_make version err status now x l =
     (case initialize_ares_library version err l of
        (Some e, l') \<Rightarrow> (Inl e, l')
      | (None, l') \<Rightarrow>
          (case initialize_ares_channel status of
             Some e \<Rightarrow> (Inl e, l')
           | None \<Rightarrow> (Inr \<lparr>rs_handles = [], rs_time = now, rs_interval = - 1, rs_chan = x\<rparr>, l')))"

definition resolver_destroy :: "'x resolver \<Rightarrow> ares_library \<Rightarrow> ares_library" where
  "resolver_destroy r l = cleanup_ares_library l"

text \<open>The library is ready exactly while there is a resolver, as long as no constructor throws.\<close>

definition lib_inv :: "nat \<Rightarrow> ares_library \<Rightarrow> bool" where
  "lib_inv n l \<longleftrightarrow> al_initialized l = int n \<and> (al_ready l \<longleftrightarrow> 0 < n)"

lemma library_ready_while_used:
  assumes "lib_inv n l"
  shows "resolver_make version err status now x l = (Inr r, l') \<Longrightarrow> lib_inv (Suc n) l' \<and> rs_handles r = []"
    and "0 < n \<Longrightarrow> lib_inv (n - 1) (resolver_destroy r l)"
  using assms
  by (auto simp: lib_inv_def resolver_make_def resolver_destroy_def initialize_ares_library_def cleanup_ares_library_def
      Let_def of_nat_diff split: if_splits option.splits)

text \<open>A failed first initialisation is counted: the next resolver finds a library that was never initialised.\<close>

lemma library_failure_counted:
  assumes "lib_inv 0 l" and "version < 0x011201 \<or> err \<noteq> 0"
  shows "\<exists>e l'. resolver_make version err status now x l = (Inl e, l')
    \<and> (\<exists>r l''. resolver_make version' err' ARES_OTHER now' x' l' = (Inr r, l'') \<and> \<not> al_ready l'')"
  using assms by (auto simp: lib_inv_def resolver_make_def initialize_ares_channel_def initialize_ares_library_def Let_def)

section \<open>Polling\<close>

text \<open>What the state of a socket adds to and takes from the interest list; \<open>cur_ev\<close> is what the poll entry asked for.\<close>

definition sync_interest :: "fd \<Rightarrow> u16 \<Rightarrow> u16 \<Rightarrow> trigger \<Rightarrow> trigger" where
  "sync_interest sockfd sockev cur_ev t =
     (let r = sockev AND READABLE \<noteq> 0; w = sockev AND WRITABLE \<noteq> 0; i = cur_ev AND POLLIN \<noteq> 0; u = cur_ev AND POLLOUT \<noteq> 0;
          set_bits = (if r \<and> \<not> i then POLLIN else 0) OR (if w \<and> \<not> u then POLLOUT else 0);
          unset = (if \<not> r \<and> i then POLLIN else 0) OR (if \<not> w \<and> u then POLLOUT else 0);
          t1 = (if set_bits \<noteq> 0 then tset sockfd set_bits t else t)
      in if unset \<noteq> 0 then tclear sockfd unset t1 else t1)"

text \<open>
  \<^verbatim>\<open>_handle\<close>: a \<^verbatim>\<open>std::remove_if\<close> over the socket table, read position \<open>i\<close> and write position \<open>j\<close>, during which the
  library reports sockets into the same table. A report of a new socket inserts into the vector and
  invalidates the iterators of the loop: the result is \<open>None\<close>.
\<close>

function handle_sockets ::
  "(fd \<Rightarrow> fd \<Rightarrow> 'x \<Rightarrow> (fd \<times> bool \<times> bool) list \<times> 'x) \<Rightarrow> ('x \<Rightarrow> int option) \<Rightarrow> int \<Rightarrow> nat \<Rightarrow> nat \<Rightarrow>
   nat \<times> pollfd list \<times> trigger \<times> 'x resolver \<Rightarrow> (nat \<times> pollfd list \<times> trigger \<times> 'x resolver) option" where
  "handle_sockets ares_process ares_timeout now i j (handled, events, t, r) =
     (if length (rs_handles r) \<le> i then Some (handled, events, t, r\<lparr>rs_handles := take j (rs_handles r)\<rparr>)
      else
        (let (sockfd, sockev) = rs_handles r ! i in
         if sockev = 0
         then handle_sockets ares_process ares_timeout now (Suc i) j (handled, events, tclear_all sockfd t, r)
         else
           (let k = length (takeWhile (\<lambda>e. pfd_fd e \<noteq> sockfd) events);
                found = k < length events;
                cur_ev = (if found then pfd_events (events ! k) else 0);
                due = (if found then pfd_revents (events ! k) \<noteq> 0 else rs_time r + rs_interval r < now);
                r1 = (if due then process_event ares_process ares_timeout now (sockfd, sockev) r else r);
                events1 = (if found then erase_at k events else events);
                handled1 = (if due then handled + 1 else handled)
            in if length (rs_handles r1) \<noteq> length (rs_handles r) then None
               else
                 (let sockev1 = snd (rs_handles r1 ! i);
                      t1 = sync_interest sockfd sockev1 cur_ev t in
                  if sockev1 = 0
                  then handle_sockets ares_process ares_timeout now (Suc i) j (handled1, events1, t1, r1)
                  else handle_sockets ares_process ares_timeout now (Suc i) (Suc j)
                    (handled1, events1, t1, r1\<lparr>rs_handles := (rs_handles r1)[j := rs_handles r1 ! i]\<rparr>)))))"
  by pat_completeness auto
termination
  by (relation "measure (\<lambda>(p, tm, now, i, j, (h, e, t, r)). length (rs_handles r) - i)") (auto simp: Let_def split: if_splits)

declare handle_sockets.simps [simp del]

definition resolver_handle ::
  "(fd \<Rightarrow> fd \<Rightarrow> 'x \<Rightarrow> (fd \<times> bool \<times> bool) list \<times> 'x) \<Rightarrow> ('x \<Rightarrow> int option) \<Rightarrow> int \<Rightarrow>
   pollfd list \<Rightarrow> trigger \<Rightarrow> 'x resolver \<Rightarrow> (nat \<times> pollfd list \<times> trigger \<times> 'x resolver) option" where
  "resolver_handle ares_process ares_timeout now events t r =
     handle_sockets ares_process ares_timeout now 0 0 (0, events, t, r)"

section \<open>What an answer leaves in the interface\<close>

text \<open>The part of an address that weighing and selecting never change.\<close>

definition addr_key :: "address \<Rightarrow> (byte list \<times> nat) \<times> (int \<times> int) \<times> nat" where
  "addr_key a = ((ad_addr a, ad_len a), (ad_time a, ad_ttl a), ad_prio a)"

lemma map_update_same: "k x = k (xs ! i) \<Longrightarrow> map k (xs[i := x]) = map k xs"
  by (cases "i < length xs") (simp_all add: map_update list_update_same_conv list_update_beyond)

lemma addr_key_update:
  "addr_key (f (xs ! i)) = addr_key (xs ! i) \<Longrightarrow> map addr_key (xs[i := f (xs ! i)]) = map addr_key xs"
  by (rule map_update_same)

lemma find_weights_keeps:
  assumes "find_weights addrs = (w, p, addrs')"
  shows "map addr_key addrs' = map addr_key addrs" and "map ad_count addrs' = map ad_count addrs"
proof -
  have keep: "map k (fold (\<lambda>i as. as[i := (as ! i)\<lparr>ad_max := 1\<rparr>]) its addrs) = map k addrs"
    if "\<And>a. k (a\<lparr>ad_max := 1\<rparr>) = k a" for k :: "address \<Rightarrow> 'k" and its :: "nat list"
    by (induction its arbitrary: addrs) (simp_all add: map_update_same that del: One_nat_def)
  have "map addr_key (fold (\<lambda>i as. as[i := (as ! i)\<lparr>ad_max := 1\<rparr>]) its addrs) = map addr_key addrs"
    and "map ad_count (fold (\<lambda>i as. as[i := (as ! i)\<lparr>ad_max := 1\<rparr>]) its addrs) = map ad_count addrs" for its
    by (rule keep, simp add: addr_key_def)+
  with assms show "map addr_key addrs' = map addr_key addrs" "map ad_count addrs' = map ad_count addrs"
    by (auto simp: find_weights_def split: prod.splits if_splits)
qed

lemma reweigh_keeps:
  "map addr_key (if_addresses (reweigh f)) = map addr_key (if_addresses f)"
  "map ad_count (if_addresses (reweigh f)) = map ad_count (if_addresses f)"
  using find_weights_keeps [of "if_addresses f"] by (simp_all add: reweigh_def split: prod.split)

lemma expire_keeps:
  assumes "expire_addresses t f = (n, g)"
  shows "map addr_key (if_addresses g) = map addr_key (filter (\<lambda>a. \<not> expired t a) (if_addresses f))"
  using assms reweigh_keeps(1) [of "f\<lparr>if_addresses := filter (\<lambda>a. \<not> expired t a) (if_addresses f)\<rparr>"]
  by (auto simp: expire_addresses_def Let_def split: if_splits)

lemma next_addr_keys:
  assumes "sel_inv f"
  obtains a g where "next_addr f = Some (a, g)" and "sel_inv g" and "map addr_key (if_addresses g) = map addr_key (if_addresses f)"
    and "addr_key a \<in> addr_key ` set (if_addresses f)"
proof -
  obtain i k where i: "avail (round_start f) i"
    "next_addr f = Some (if_addresses (take_addr i (round_start f)) ! i, take_addr i ((round_start f)\<lparr>if_idx := k\<rparr>))"
    using next_addr_takes [OF assms] by blast
  have "sel_inv ((round_start f)\<lparr>if_idx := k\<rparr>)"
    using assms reset_counts_inv [OF assms] by (auto simp: round_start_def sel_inv_def)
  then have inv: "sel_inv (take_addr i ((round_start f)\<lparr>if_idx := k\<rparr>))" using i(1) by (intro take_addr_inv) simp_all
  have r: "map addr_key (if_addresses (round_start f)) = map addr_key (if_addresses f)"
    by (auto simp: round_start_def reset_counts_def clear_counters_def addr_key_def)
  have k: "map addr_key (if_addresses (take_addr i g)) = map addr_key (if_addresses g)" for g :: "'a iface"
    unfolding take_addr_def
    using addr_key_update [where f = "\<lambda>a. a\<lparr>ad_count := ad_count a + 1\<rparr>" and xs = "if_addresses g" and i = i]
    by (simp add: addr_key_def)
  have "i < length (if_addresses (take_addr i (round_start f)))" using i(1) by (simp add: avail_def best_def)
  then have "addr_key (if_addresses (take_addr i (round_start f)) ! i) \<in> set (map addr_key (if_addresses (take_addr i (round_start f))))"
    unfolding set_map by (intro imageI nth_mem)
  then have "addr_key (if_addresses (take_addr i (round_start f)) ! i) \<in> addr_key ` set (if_addresses f)"
    unfolding k r by simp
  moreover have "map addr_key (if_addresses (take_addr i ((round_start f)\<lparr>if_idx := k'\<rparr>))) = map addr_key (if_addresses f)" for k'
    unfolding k using r by simp
  ultimately show thesis using that [OF i(2) inv] by blast
qed

lemma next_addr_frame:
  assumes "sel_inv f"
  obtains a h where "next_addr f = Some (a, h)" and "sel_inv h" and "if_streams h = if_streams f" and "if_pending h = if_pending f"
    and "map addr_key (if_addresses h) = map addr_key (if_addresses f)" and "addr_key a \<in> addr_key ` set (if_addresses f)"
proof -
  obtain a h where h: "next_addr f = Some (a, h)" "sel_inv h" "map addr_key (if_addresses h) = map addr_key (if_addresses f)"
      "addr_key a \<in> addr_key ` set (if_addresses f)"
    using next_addr_keys [OF assms] by blast
  obtain i k where "next_addr f = Some (if_addresses (take_addr i (round_start f)) ! i, take_addr i ((round_start f)\<lparr>if_idx := k\<rparr>))"
    using next_addr_takes [OF assms] by blast
  then have "if_streams h = if_streams f" "if_pending h = if_pending f"
    using h(1) by (simp_all add: take_addr_def round_start_def reset_counts_def)
  with h that show thesis by blast
qed

lemma expire_frame: "if_pending (snd (expire_addresses t f)) = if_pending f" "if_streams (snd (expire_addresses t f)) = if_streams f"
  by (simp_all add: expire_addresses_def reweigh_def Let_def split: prod.split)

lemma handle_found:
  "length (takeWhile (\<lambda>h. fst h \<noteq> wp) hs) < length hs \<longleftrightarrow> wp \<in> fst ` set hs"
  "wp \<in> fst ` set hs \<Longrightarrow> fst (hs ! length (takeWhile (\<lambda>h. fst h \<noteq> wp) hs)) = wp"
proof -
  show "length (takeWhile (\<lambda>h. fst h \<noteq> wp) hs) < length hs \<longleftrightarrow> wp \<in> fst ` set hs"
    by (induction hs) auto
  show "wp \<in> fst ` set hs \<Longrightarrow> fst (hs ! length (takeWhile (\<lambda>h. fst h \<noteq> wp) hs)) = wp"
    by (induction hs) auto
qed

lemma addrs_ok_unused:
  assumes "\<forall>a \<in> set addrs. ad_count a = 0 \<and> ad_prio a \<le> SIZE_MAX" and "map addr_key as = map addr_key addrs"
    and "map ad_count as = map ad_count addrs"
  shows "addrs_ok as"
proof -
  have "ad_count a = 0 \<and> ad_prio a \<le> SIZE_MAX" if a: "a \<in> set as" for a
  proof -
    obtain i where i: "i < length as" "as ! i = a" using a by (auto simp: in_set_conv_nth)
    have l: "length as = length addrs" using assms(2) by (metis length_map)
    have "addr_key (as ! i) = addr_key (addrs ! i)" "ad_count (as ! i) = ad_count (addrs ! i)"
      using i(1) l assms(2,3) by (metis nth_map)+
    then show ?thesis using assms(1) i l by (force simp: addr_key_def)
  qed
  then show ?thesis by (simp add: addrs_ok_def)
qed

context connect_callbacks
begin

lemma run_pending_keys:
  assumes "sel_inv f" and "run_pending live run ps f s = Some (g, s')"
  shows "map addr_key (if_addresses g) = map addr_key (if_addresses f)"
  using assms
proof (induction ps arbitrary: f s)
  case Nil
  then show ?case by simp
next
  case (Cons p ps)
  obtain wp cb where p: "p = (wp, cb)" by fastforce
  obtain a h where h: "next_addr f = Some (a, h)" "sel_inv h" "map addr_key (if_addresses h) = map addr_key (if_addresses f)"
    using next_addr_keys [OF Cons.prems(1)] by blast
  have run: "map addr_key (if_addresses g) = map addr_key (if_addresses f)"
    if "run cb i addrp (ad_len a) (if_protocol h) h s = (f2, s2)" "run_pending live run ps f2 s2 = Some (g, s')" for i addrp f2 s2
    using Cons.IH [OF run_sel_inv [OF that(1) h(2)] that(2)] run_selection [OF that(1)] h(3) by simp
  show ?case
    using Cons.prems p h Cons.IH run by (auto simp: Let_def split: if_splits prod.splits)
qed

text \<open>After an answer the interface has addresses of that answer only, and the call returns.\<close>

lemma set_addresses_keys:
  assumes "\<forall>a \<in> set addrs. ad_count a = 0 \<and> ad_prio a \<le> SIZE_MAX"
  shows "\<exists>g s'. set_addresses live run now addrs f s = Some (g, s') \<and> addr_key ` set (if_addresses g) \<subseteq> addr_key ` set addrs
    \<and> (filter (\<lambda>a. \<not> expired (now - HYST_WND) a) (if_addresses (reweigh (f\<lparr>if_addresses := addrs\<rparr>))) \<noteq> [] \<longrightarrow>
      (\<exists>h. g = snd (expire_addresses now h) \<and> addr_key ` set (if_addresses h) \<subseteq> addr_key ` set addrs))"
proof -
  let ?f = "reweigh (f\<lparr>if_addresses := addrs\<rparr>)"
  have k: "map addr_key (if_addresses ?f) = map addr_key addrs" "map ad_count (if_addresses ?f) = map ad_count addrs"
    using reweigh_keeps [of "f\<lparr>if_addresses := addrs\<rparr>"] by simp_all
  then have ks: "addr_key ` set (if_addresses ?f) = addr_key ` set addrs" by (metis list.set_map)
  have ok: "addrs_ok (if_addresses ?f)" by (rule addrs_ok_unused [OF assms k])
  obtain n e where e: "expire_addresses (now - HYST_WND) ?f = (n, e)" by fastforce
  have ek: "addr_key ` set (if_addresses e) \<subseteq> addr_key ` set addrs"
  proof -
    have "addr_key ` set (if_addresses e) = addr_key ` set (filter (\<lambda>a. \<not> expired (now - HYST_WND) a) (if_addresses ?f))"
      using expire_keeps [OF e] by (metis list.set_map)
    then show ?thesis using ks by auto
  qed
  have n: "n = length (if_addresses e)" using e by (auto simp: expire_addresses_def Let_def)
  show ?thesis
  proof (cases "n = 0")
    case True
    then have "filter (\<lambda>a. \<not> expired (now - HYST_WND) a) (if_addresses ?f) = []" using n expire_keeps [OF e] by simp
    moreover have "set_addresses live run now addrs f s = Some (e, s)"
      using True e by (simp add: set_addresses_def resolve_callbacks_def)
    ultimately show ?thesis using ek by blast
  next
    case False
    then have inv: "sel_inv (e\<lparr>if_pending := []\<rparr>)"
      using expire_sel_inv [OF ok e] sel_inv_cong [of "e\<lparr>if_pending := []\<rparr>" e] by simp
    obtain h s2 where h: "run_pending live run (if_pending e) (e\<lparr>if_pending := []\<rparr>) s = Some (h, s2)"
      using run_pending_returns [OF inv] by fastforce
    have hk: "addr_key ` set (if_addresses h) \<subseteq> addr_key ` set addrs"
      using run_pending_keys [OF inv h] ek by (metis iface.select_convs(3) iface.surjective iface.update_convs(5) list.set_map)
    obtain m g where g: "expire_addresses now h = (m, g)" by fastforce
    have "addr_key ` set (if_addresses g) = addr_key ` set (filter (\<lambda>a. \<not> expired now a) (if_addresses h))"
      using expire_keeps [OF g] by (metis list.set_map)
    then have "addr_key ` set (if_addresses g) \<subseteq> addr_key ` set addrs" using hk by auto
    moreover have "set_addresses live run now addrs f s = Some (g, s2)"
      using False e h g by (simp add: set_addresses_def resolve_callbacks_def)
    moreover have "g = snd (expire_addresses now h)" using g by simp
    ultimately show ?thesis using hk by blast
  qed
qed

text \<open>A callback that is told of failures only cannot be told apart from one that agrees with it on failures.\<close>

lemma run_pending_agree:
  assumes "\<And>cb i len proto f s. run cb i None len proto f s = run' cb i None len proto f s"
    and "sel_inv f" and "\<forall>a \<in> set (if_addresses f). ad_len a = 4294967295"
  shows "run_pending live run ps f s = run_pending live run' ps f s"
  using assms(2,3)
proof (induction ps arbitrary: f s)
  case Nil
  then show ?case by simp
next
  case (Cons p ps)
  obtain wp cb where p: "p = (wp, cb)" by fastforce
  obtain a h where h: "next_addr f = Some (a, h)" "sel_inv h" "map addr_key (if_addresses h) = map addr_key (if_addresses f)"
      "addr_key a \<in> addr_key ` set (if_addresses f)"
    using next_addr_keys [OF Cons.prems(1)] by blast
  have len: "ad_len a = 4294967295" using h(4) Cons.prems(2) by (auto simp: addr_key_def)
  have hl: "\<forall>a \<in> set (if_addresses h). ad_len a = 4294967295"
  proof -
    have "addr_key ` set (if_addresses h) = addr_key ` set (if_addresses f)" using h(3) by (metis list.set_map)
    then show ?thesis using Cons.prems(2) by (force simp: addr_key_def image_def set_eq_iff)
  qed
  have step: "run_pending live run ps f2 s2 = run_pending live run' ps f2 s2"
    if "run cb i None len proto h s = (f2, s2)" for i len proto f2 s2
    using Cons.IH [OF run_sel_inv [OF that h(2)]] run_selection [OF that] hl by simp
  show ?case
    using p h(1) len Cons.IH [OF Cons.prems] Cons.IH [OF h(2) hl] step
    by (auto simp: Let_def assms(1) split: prod.split)
qed

lemma handle_error_agree:
  assumes "\<And>cb i len proto f s. run cb i None len proto f s = run' cb i None len proto f s"
  shows "ares_handle_error live run t now f s = ares_handle_error live run' t now f s"
proof -
  let ?f = "reweigh (f\<lparr>if_addresses := [error_address t]\<rparr>)"
  obtain n e where e: "expire_addresses (now - HYST_WND) ?f = (n, e)" by fastforce
  have k: "map addr_key (if_addresses ?f) = [addr_key (error_address t)]" "map ad_count (if_addresses ?f) = [0]"
    using reweigh_keeps [of "f\<lparr>if_addresses := [error_address t]\<rparr>"] by (simp_all add: error_address_def)
  have ok: "addrs_ok (if_addresses ?f)"
    by (rule addrs_ok_unused [of "[error_address t]"]) (use k in \<open>simp_all add: error_address_def\<close>)
  have "addr_key ` set (if_addresses e) \<subseteq> {addr_key (error_address t)}"
  proof -
    have "addr_key ` set (if_addresses e) = addr_key ` set (filter (\<lambda>a. \<not> expired (now - HYST_WND) a) (if_addresses ?f))"
      using expire_keeps [OF e] by (metis list.set_map)
    moreover have "addr_key ` set (if_addresses ?f) = {addr_key (error_address t)}" using k(1) by (metis list.set(1,2) list.set_map)
    ultimately show ?thesis by auto
  qed
  then have len: "\<forall>a \<in> set (if_addresses (e\<lparr>if_pending := []\<rparr>)). ad_len a = 4294967295"
    by (auto simp: addr_key_def error_address_def)
  show ?thesis
  proof (cases "n = 0")
    case True
    then show ?thesis using e by (simp add: ares_handle_error_def settle_def set_addresses_def resolve_callbacks_def)
  next
    case False
    then have "sel_inv (e\<lparr>if_pending := []\<rparr>)"
      using expire_sel_inv [OF ok e] sel_inv_cong [of "e\<lparr>if_pending := []\<rparr>" e] by simp
    from run_pending_agree [OF _ this len, of run' "if_pending e" s] assms show ?thesis
      using e False by (simp add: ares_handle_error_def settle_def set_addresses_def resolve_callbacks_def)
  qed
qed

lemma handle_error_forgets:
  assumes "t < now" and "now - HYST_WND \<le> t"
  shows "\<exists>g s'. ares_handle_error live run t now f s = Inr ([], g, s') \<and> if_addresses g = []"
proof -
  let ?as = "[error_address t]"
  have c: "\<forall>a \<in> set ?as. ad_count a = 0 \<and> ad_prio a \<le> SIZE_MAX" by (simp add: error_address_def)
  have fw: "if_addresses (reweigh (f\<lparr>if_addresses := ?as\<rparr>)) = ?as"
    by (simp add: reweigh_def find_weights_def error_address_def)
  obtain g s' where g: "set_addresses live run now ?as f s = Some (g, s')"
    and h: "filter (\<lambda>a. \<not> expired (now - HYST_WND) a) ?as \<noteq> [] \<longrightarrow>
      (\<exists>h. g = snd (expire_addresses now h) \<and> addr_key ` set (if_addresses h) \<subseteq> addr_key ` set ?as)"
    using set_addresses_keys [OF c, of now f s, unfolded fw] by (elim exE conjE)
  have "\<not> expired (now - HYST_WND) (error_address t)" using assms by (simp add: expired_def error_address_def)
  then obtain h where hh: "g = snd (expire_addresses now h)" "addr_key ` set (if_addresses h) \<subseteq> {addr_key (error_address t)}"
    using h by auto
  have "filter (\<lambda>a. \<not> expired now a) (if_addresses h) = []"
    using hh(2) assms(1) by (force simp: filter_empty_conv expired_def addr_key_def error_address_def)
  then have "if_addresses g = []"
    using hh(1) expire_keeps [of now h "fst (expire_addresses now h)" g] by simp
  with g show ?thesis by (simp add: ares_handle_error_def settle_def)
qed

text \<open>What an answer with addresses leaves is from that answer.\<close>

lemma addrinfo_only_last:
  assumes "snd (snd weight) \<le> SIZE_MAX" and "fst (snd weight) = 0"
  shows "\<exists>g s'. ares_addrinfo_success live run t now weight nodes f s = Inr ([], g, s')
    \<and> (\<forall>a \<in> set (if_addresses g). \<exists>n \<in> set nodes. ad_addr a = ad_addr (answer_address t weight n) \<and> ad_len a = an_len n)"
proof -
  let ?as = "map (answer_address t weight) nodes"
  have "\<forall>a \<in> set ?as. ad_count a = 0 \<and> ad_prio a \<le> SIZE_MAX"
    using assms by (auto simp: answer_address_def make_address_def)
  from set_addresses_keys [OF this, of now f s]
  obtain g s' where g: "set_addresses live run now ?as f s = Some (g, s')" "addr_key ` set (if_addresses g) \<subseteq> addr_key ` set ?as"
    by (elim exE conjE)
  have "\<exists>n \<in> set nodes. ad_addr a = ad_addr (answer_address t weight n) \<and> ad_len a = an_len n" if a: "a \<in> set (if_addresses g)" for a
  proof -
    obtain n where n: "n \<in> set nodes" "addr_key a = addr_key (answer_address t weight n)" using g(2) a by force
    then have "ad_addr a = ad_addr (answer_address t weight n)" "ad_len a = ad_len (answer_address t weight n)"
      by (simp_all add: addr_key_def)
    then show ?thesis using n(1) by (auto simp: answer_address_def make_address_def)
  qed
  then show ?thesis using g(1) by (simp add: ares_addrinfo_success_def settle_def)
qed

end

section \<open>The socket table\<close>

definition socket_states :: "(fd \<times> u16) list \<Rightarrow> fd \<rightharpoonup> u16" where
  "socket_states hnds fd = map_option snd (kmap fst hnds fd)"

lemma ares_socket_cb_spec:
  assumes "ksorted fst hnds"
  shows "ksorted fst (ares_socket_cb (fd, r, w) hnds)"
    and "socket_states (ares_socket_cb (fd, r, w) hnds) = (socket_states hnds)(fd \<mapsto> sock_state r w)"
proof -
  let ?k = "length (upto_key fst fd hnds)" and ?h = "(fd, sock_state r w)"
  let ?res = "ares_socket_cb (fd, r, w) hnds"
  have lb: "lower_bound (\<lambda>x. fst x < fd) hnds = ?k" by (rule lower_bound_upto [OF assms])
  have both: "ksorted fst ?res \<and> set ?res = insert ?h {x \<in> set hnds. fst x \<noteq> fd}"
  proof (cases "has_key fst fd hnds")
    case True
    then have hit: "key_hit fst fd hnds ?k" using key_hit_iff [OF assms] by blast
    then have i: "?k < length hnds" "fst (hnds ! ?k) = fd" by (simp_all add: key_hit_def)
    have res: "?res = hnds[?k := ?h]" using hit by (simp add: ares_socket_cb_def lb Let_def)
    have d: "distinct (map fst hnds)" by (rule ksorted_distinct [OF assms])
    have "set (hnds[?k := ?h]) = insert ?h {x \<in> set hnds. fst x \<noteq> fd}"
    proof -
      have "distinct hnds" using d by (simp add: distinct_map)
      then have "set (hnds[?k := ?h]) = insert ?h (set hnds - {hnds ! ?k})" by (rule set_update_distinct [OF _ i(1)])
      moreover have "set hnds - {hnds ! ?k} = {x \<in> set hnds. fst x \<noteq> fd}"
        using ksorted_inj [OF assms _ nth_mem [OF i(1)]] i by auto
      ultimately show ?thesis by simp
    qed
    then show ?thesis using ksorted_update [OF assms i(1), of ?h] i(2) by (simp add: res)
  next
    case False
    then have "\<not> key_hit fst fd hnds ?k" using key_hit_iff [OF assms] by blast
    then have res: "?res = insert_at ?k ?h hnds" by (simp add: ares_socket_cb_def lb Let_def)
    show ?thesis using ksorted_insert [OF assms False, of ?h] False by (auto simp: res has_key_def)
  qed
  then show so: "ksorted fst ?res" by blast
  show "socket_states ?res = (socket_states hnds)(fd \<mapsto> sock_state r w)"
  proof
    fix q
    have "kmap fst ?res q = (if q = fd then Some ?h else kmap fst hnds q)"
    proof (cases "q = fd")
      case True
      then show ?thesis using both kmap_Some_iff [OF so, of q ?h] by simp
    next
      case False
      then have "kmap fst ?res q = Some x \<longleftrightarrow> kmap fst hnds q = Some x" for x
        using both kmap_Some_iff [OF so] kmap_Some_iff [OF assms] by auto
      with False show ?thesis by (metis option.exhaust)
    qed
    then show "socket_states ?res q = ((socket_states hnds)(fd \<mapsto> sock_state r w)) q" by (simp add: socket_states_def)
  qed
qed

lemma socket_cbs_spec:
  assumes "ksorted fst hnds"
  shows "ksorted fst (fold ares_socket_cb cbs hnds)
    \<and> socket_states (fold ares_socket_cb cbs hnds) = fold (\<lambda>(fd, r, w) m. m(fd \<mapsto> sock_state r w)) cbs (socket_states hnds)"
  using assms
proof (induction cbs arbitrary: hnds)
  case Nil
  then show ?case by simp
next
  case (Cons c cbs)
  obtain fd r w where c: "c = (fd, r, w)" by (cases c)
  show ?case
    unfolding c using Cons.IH [OF ares_socket_cb_spec(1) [OF Cons.prems, of fd r w]] ares_socket_cb_spec(2) [OF Cons.prems, of fd r w]
    by simp
qed

section \<open>Following the socket table\<close>

text \<open>What a socket asks to be polled for.\<close>

definition poll_bits :: "u16 \<Rightarrow> u32" where
  "poll_bits ev = (if ev AND READABLE \<noteq> 0 then POLLIN else 0) OR (if ev AND WRITABLE \<noteq> 0 then POLLOUT else 0)"

lemma sync_interest_quiet:
  "sync_interest fd ev 0 t = (if poll_bits ev \<noteq> 0 then tset fd (poll_bits ev) t else t)"
  by (simp add: sync_interest_def poll_bits_def)

lemma handle_sockets_quiet:
  assumes "\<forall>e \<in> set events. pfd_fd e \<notin> fst ` set hs" and "now \<le> rs_time r + rs_interval r"
    and "drop i (rs_handles r) = drop i hs" and "take j (rs_handles r) = filter (\<lambda>h. snd h \<noteq> 0) (take i hs)" and "j \<le> i" and "i \<le> length hs"
    and "length (rs_handles r) = length hs"
  shows "\<exists>t'. handle_sockets pr tm now i j (handled, events, t, r)
      = Some (handled, events, t', r\<lparr>rs_handles := filter (\<lambda>h. snd h \<noteq> 0) hs\<rparr>)
    \<and> t' = fold (\<lambda>(fd, ev) t. if ev = 0 then tclear_all fd t else sync_interest fd ev 0 t) (drop i hs) t"
  using assms
proof (induction "length hs - i" arbitrary: i j t r)
  case 0
  then have "i = length hs" by simp
  then show ?case using 0 by (subst handle_sockets.simps) simp
next
  case (Suc n)
  then have i: "i < length hs" by simp
  obtain fd ev where h: "hs ! i = (fd, ev)" by fastforce
  have hi: "rs_handles r ! i = (fd, ev)"
    using Suc.prems(3,7) i h by (metis hd_drop_conv_nth)
  have d: "drop i hs = (fd, ev) # drop (Suc i) hs" using i h by (metis Cons_nth_drop_Suc)
  have k: "length (takeWhile (\<lambda>e. pfd_fd e \<noteq> fd) events) = length events"
  proof -
    have "fd \<in> fst ` set hs" using i h by (metis fst_conv image_eqI nth_mem)
    then have "\<forall>e \<in> set events. pfd_fd e \<noteq> fd" using Suc.prems(1) by auto
    then show ?thesis using takeWhile_eq_all_conv [of "\<lambda>e. pfd_fd e \<noteq> fd" events] by (metis (no_types, lifting))
  qed
  have due: "\<not> rs_time r + rs_interval r < now" using Suc.prems(2) by simp
  have dr: "drop (Suc i) (rs_handles r) = drop (Suc i) hs" using arg_cong [OF Suc.prems(3), of tl] by (simp add: drop_Suc tl_drop)
  show ?case
  proof (cases "ev = 0")
    case True
    have tk: "take j (rs_handles r) = filter (\<lambda>h. snd h \<noteq> 0) (take (Suc i) hs)"
      using Suc.prems(4) i h True by (simp add: take_Suc_conv_app_nth)
    have e: "handle_sockets pr tm now i j (handled, events, t, r) = handle_sockets pr tm now (Suc i) j (handled, events, tclear_all fd t, r)"
      using i Suc.prems(7) hi True by (subst handle_sockets.simps) simp
    have "\<exists>t'. handle_sockets pr tm now (Suc i) j (handled, events, tclear_all fd t, r)
        = Some (handled, events, t', r\<lparr>rs_handles := filter (\<lambda>h. snd h \<noteq> 0) hs\<rparr>)
      \<and> t' = fold (\<lambda>(fd, ev) t. if ev = 0 then tclear_all fd t else sync_interest fd ev 0 t) (drop (Suc i) hs) (tclear_all fd t)"
      by (rule Suc.hyps(1)) (use Suc.hyps(2) Suc.prems i dr tk in simp_all)
    then show ?thesis unfolding e d using True by simp
  next
    case False
    let ?r = "r\<lparr>rs_handles := (rs_handles r)[j := (fd, ev)]\<rparr>" and ?t = "sync_interest fd ev 0 t"
    have j: "j < length (rs_handles r)" using Suc.prems(5,7) i by simp
    have tk: "take (Suc j) (rs_handles ?r) = filter (\<lambda>h. snd h \<noteq> 0) (take (Suc i) hs)"
      using Suc.prems(4) i h False j by (simp add: take_Suc_conv_app_nth)
    have e: "handle_sockets pr tm now i j (handled, events, t, r) = handle_sockets pr tm now (Suc i) (Suc j) (handled, events, ?t, ?r)"
      using i Suc.prems(7) hi False k due by (subst handle_sockets.simps) simp
    have "\<exists>t'. handle_sockets pr tm now (Suc i) (Suc j) (handled, events, ?t, ?r)
        = Some (handled, events, t', ?r\<lparr>rs_handles := filter (\<lambda>h. snd h \<noteq> 0) hs\<rparr>)
      \<and> t' = fold (\<lambda>(fd, ev) t. if ev = 0 then tclear_all fd t else sync_interest fd ev 0 t) (drop (Suc i) hs) ?t"
      by (rule Suc.hyps(1)) (use Suc.hyps(2) Suc.prems i dr tk in simp_all)
    then show ?thesis unfolding e d using False by simp
  qed
qed

text \<open>The interest list after such a pass, descriptor by descriptor.\<close>

lemma quiet_interest:
  assumes "tr_inv t" and "distinct (map fst hs)"
    and "t' = fold (\<lambda>(fd, ev) t. if ev = 0 then tclear_all fd t else sync_interest fd ev 0 t) hs t"
  shows "tr_inv t' \<and> (\<forall>(fd, ev) \<in> set hs. if ev = 0 then interest t' fd = None
      else poll_bits ev \<noteq> 0 \<longrightarrow> (\<exists>m. interest t' fd = Some m \<and> m AND poll_bits ev = poll_bits ev))
    \<and> (\<forall>fd. fd \<notin> fst ` set hs \<longrightarrow> interest t' fd = interest t fd)"
  using assms
proof (induction hs arbitrary: t)
  case Nil
  then show ?case by simp
next
  case (Cons h hs)
  obtain fd ev where h: "h = (fd, ev)" by fastforce
  let ?t1 = "if ev = 0 then tclear_all fd t else sync_interest fd ev 0 t"
  have t': "t' = fold (\<lambda>(fd, ev) t. if ev = 0 then tclear_all fd t else sync_interest fd ev 0 t) hs ?t1"
    using Cons.prems(3) h by simp
  have inv: "tr_inv ?t1" using Cons.prems(1) trig.set_inv trig.clear_inv by (simp add: sync_interest_quiet)
  have here: "if ev = 0 then interest ?t1 fd = None
      else poll_bits ev \<noteq> 0 \<longrightarrow> (\<exists>m. interest ?t1 fd = Some m \<and> m AND poll_bits ev = poll_bits ev)"
    using trig.clear_all [OF Cons.prems(1)] trig.set_watched [OF Cons.prems(1)] by (simp add: sync_interest_quiet)
  have other: "fd' \<noteq> fd \<Longrightarrow> interest ?t1 fd' = interest t fd'" for fd'
    using trig.clear_other [OF Cons.prems(1)] trig.set_other [OF Cons.prems(1)] by (simp add: sync_interest_quiet)
  have fd: "fd \<notin> fst ` set hs" "distinct (map fst hs)" using Cons.prems(2) h by simp_all
  note ih = Cons.IH [OF inv fd(2) t']
  have "interest t' fd = interest ?t1 fd" using ih fd(1) by blast
  then show ?case using ih here other h by auto
qed

section \<open>Patterns and numbers\<close>

text \<open>
  What the pattern library documents of \<^verbatim>\<open>pcre2_substitute\<close> with the overflow option: a buffer that is too small is
  answered with the size that is needed, any other one with the result.
\<close>

definition reports_needed :: "(nat \<Rightarrow> int \<times> nat \<times> string) \<Rightarrow> int \<Rightarrow> nat \<Rightarrow> string \<Rightarrow> bool" where
  "reports_needed sub rc n text \<longleftrightarrow> rc \<noteq> PCRE2_ERROR_NOMEMORY
     \<and> (\<exists>need. \<forall>len. if len < need then \<exists>out. sub len = (PCRE2_ERROR_NOMEMORY, need, out) else sub len = (rc, n, text))"

lemma subst_loop_returns:
  assumes "reports_needed sub rc n text"
  shows "subst_loop sub len = Some (rc, n, text)"
proof -
  obtain need where need: "\<forall>len. if len < need then \<exists>out. sub len = (PCRE2_ERROR_NOMEMORY, need, out) else sub len = (rc, n, text)"
    and rc: "rc \<noteq> PCRE2_ERROR_NOMEMORY"
    using assms by (auto simp: reports_needed_def)
  have big: "subst_loop sub len = Some (rc, n, text)" if "need \<le> len" for len
    using need [rule_format, of len] rc that by (subst subst_loop.simps) simp
  show ?thesis
  proof (cases "len < need")
    case True
    then obtain out where "sub len = (PCRE2_ERROR_NOMEMORY, need, out)" using need [rule_format, of len] by auto
    then show ?thesis using big [of need] by (subst subst_loop.simps) simp
  next
    case False
    then show ?thesis using big by simp
  qed
qed

text \<open>
  The lookup a record leads to, as a specification: the flag must be none or s, exactly one of pattern and
  replacement must be given, and a pattern must match; \<open>spec\<close> is what the pattern library computes.
\<close>

definition naptr_goal :: "(string \<Rightarrow> string \<Rightarrow> string \<Rightarrow> int \<times> nat \<times> string) \<Rightarrow> string \<Rightarrow> naptr_reply \<Rightarrow> string option" where
  "naptr_goal spec subject cur =
     (if (np_regexp cur = []) = (np_replacement cur = []) then None
      else if np_regexp cur = [] then Some (np_replacement cur)
      else case pcre_parts (np_regexp cur) subject of (m, r, u) \<Rightarrow>
        (case spec m r u of (rc, n, text) \<Rightarrow> if 0 < rc \<and> n \<noteq> 0 then Some text else None))"

definition naptr_next :: "(string \<Rightarrow> string \<Rightarrow> string \<Rightarrow> int \<times> nat \<times> string) \<Rightarrow> string \<Rightarrow> naptr_reply \<Rightarrow> query option" where
  "naptr_next spec subject cur =
     (case np_flags cur of
        [] \<Rightarrow> map_option (\<lambda>goal. Naptr goal subject) (naptr_goal spec subject cur)
      | c # _ \<Rightarrow> if to_lower c = CHR ''s'' then map_option Srv (naptr_goal spec subject cur) else None)"

fun first_some :: "('a \<Rightarrow> 'b option) \<Rightarrow> 'a list \<Rightarrow> 'b option" where
  "first_some f [] = None"
| "first_some f (x # xs) = (case f x of Some y \<Rightarrow> Some y | None \<Rightarrow> first_some f xs)"

lemma naptr_loop_first:
  assumes "\<And>m r u. (case spec m r u of (rc, n, text) \<Rightarrow> reports_needed (sub m r u) rc n text)"
    and "\<And>m. compile m = None"
  shows "naptr_loop compile sub subject result naptr = Inr (first_some (naptr_next spec subject) naptr)"
proof (induction naptr arbitrary: result)
  case Nil
  then show ?case by simp
next
  case (Cons cur cs)
  obtain m r u where p: "pcre_parts (np_regexp cur) subject = (m, r, u)" by (cases "pcre_parts (np_regexp cur) subject") auto
  obtain rc n out where sp: "spec m r u = (rc, n, out)" by (cases "spec m r u") auto
  have sub: "pcre_substitute compile sub (np_regexp cur) subject result 256 = Some (rc, n, Some out)" for result
    using assms(1) [of m r u] sp subst_loop_returns [of "sub m r u" rc n out 256] assms(2) p by (simp add: pcre_substitute_def)
  show ?case
    using Cons.IH sp p by (auto simp: sub ares_match_naptr_flag_def naptr_next_def naptr_goal_def naptr_resolve_sub_def split: list.splits)
qed

text \<open>The text of a port number reads back as the number and has at most five characters.\<close>

definition read_chars :: "string \<Rightarrow> nat" where
  "read_chars s = foldl (\<lambda>n c. 10 * n + (of_char c - 48)) 0 s"

lemma to_chars_reads: "read_chars (to_chars n) = n \<and> list_all isdigit (to_chars n)"
proof (induction n rule: to_chars.induct)
  case (1 n)
  have c: "of_char (char_of (48 + k) :: char) = 48 + k" if "k < 10" for k :: nat
    using that by simp
  show ?case
  proof (cases "n < 10")
    case True
    then show ?thesis by (subst (1 2) to_chars.simps) (simp add: read_chars_def isdigit_def)
  next
    case False
    note 1 [OF False]
    moreover have "read_chars (s @ [x]) = 10 * read_chars s + (of_char x - 48)" for s x by (simp add: read_chars_def)
    moreover have "of_char (char_of (48 + n mod 10) :: char) = 48 + n mod 10" by (rule c) simp
    moreover have "n mod 10 \<le> 9" using mod_less_divisor [of 10 n] by linarith
    ultimately show ?thesis using False unfolding to_chars.simps [of n] by (simp add: isdigit_def [of "char_of _"])
  qed
qed

lemma to_chars_length: "n < 10 ^ Suc k \<Longrightarrow> length (to_chars n) \<le> Suc k"
proof (induction k arbitrary: n)
  case 0
  then show ?case by (simp add: to_chars.simps)
next
  case (Suc k)
  then have "n div 10 < 10 ^ Suc k" by simp
  from Suc.IH [OF this] show ?case by (subst to_chars.simps) simp
qed

lemma extract_protocol_service:
  assumes "CHR ''.'' \<notin> set service" and "list_all isalpha proto" and "proto \<noteq> []"
  shows "extract_protocol (service @ ''._'' @ proto @ CHR ''.'' # domain) = Some (map toupper proto)"
proof -
  have dot: "\<not> isalpha (CHR ''.'')" by (simp add: isalpha_def)
  then have np: "\<forall>c \<in> set proto. c \<noteq> CHR ''.''" using assms(2) by (auto simp: list_all_iff)
  have d: "dropWhile (\<lambda>c. c \<noteq> CHR ''.'') (service @ ''._'' @ proto @ CHR ''.'' # domain) = ''._'' @ proto @ CHR ''.'' # domain"
    using assms(1) by (simp add: dropWhile_append)
  have l: "takeWhile (\<lambda>c. c \<noteq> CHR ''.'') (''_'' @ proto @ CHR ''.'' # domain) = ''_'' @ proto"
    using np by (simp add: takeWhile_append2)
  have st: "dropWhile (\<lambda>c. \<not> isalpha c) (proto @ CHR ''.'' # domain) = proto @ CHR ''.'' # domain"
    using assms(2,3) by (cases proto) simp_all
  show ?thesis
    unfolding extract_protocol_def d using l st assms(2,3) by (cases proto) (simp_all add: Let_def)
qed

section \<open>Properties\<close>

text \<open>C30: the socket table implements a map from descriptors to socket states: after any sequence of reports of
  the resolver library it is ordered, and the state of every descriptor is the one reported last.\<close>

theorem socket_table_refines_map:
  assumes "ksorted fst hnds"
  shows "ksorted fst (fold ares_socket_cb cbs hnds)
    \<and> socket_states (fold ares_socket_cb cbs hnds) = fold (\<lambda>(fd, r, w) m. m(fd \<mapsto> sock_state r w)) cbs (socket_states hnds)"
  by (rule socket_cbs_spec [OF assms])

theorem socket_table_refines_map_witness:
  "socket_states (fold ares_socket_cb [(7, True, False), (5, True, True), (7, False, False)] []) 5 = Some (READABLE OR WRITABLE)
   \<and> socket_states (fold ares_socket_cb [(7, True, False), (5, True, True), (7, False, False)] []) 7 = Some 0"
  using socket_table_refines_map [of "[]" "[(7, True, False), (5, True, True), (7, False, False)]"]
  by (simp add: ksorted_def sock_state_def)

text \<open>C31: the interest list follows the socket table. A pass in which no socket of the resolver is due drops the
  closed sockets from the table and from the interest list, polls every other one for what the library wants, and
  leaves all other descriptors alone.\<close>

theorem idle_sockets_polled:
  assumes "tr_inv t" and "ksorted fst (rs_handles r)" and "\<forall>e \<in> set events. pfd_fd e \<notin> fst ` set (rs_handles r)"
    and "now \<le> rs_time r + rs_interval r"
  shows "\<exists>t'. resolver_handle pr tm now events t r = Some (0, events, t', r\<lparr>rs_handles := filter (\<lambda>h. snd h \<noteq> 0) (rs_handles r)\<rparr>)
    \<and> tr_inv t'
    \<and> (\<forall>(fd, ev) \<in> set (rs_handles r). if ev = 0 then interest t' fd = None
        else poll_bits ev \<noteq> 0 \<longrightarrow> (\<exists>m. interest t' fd = Some m \<and> m AND poll_bits ev = poll_bits ev))
    \<and> (\<forall>fd. fd \<notin> fst ` set (rs_handles r) \<longrightarrow> interest t' fd = interest t fd)"
proof -
  obtain t' where t': "resolver_handle pr tm now events t r = Some (0, events, t', r\<lparr>rs_handles := filter (\<lambda>h. snd h \<noteq> 0) (rs_handles r)\<rparr>)"
    "t' = fold (\<lambda>(fd, ev) t. if ev = 0 then tclear_all fd t else sync_interest fd ev 0 t) (rs_handles r) t"
    unfolding resolver_handle_def using handle_sockets_quiet [OF assms(3,4), of 0 0 pr tm 0 t] by auto
  with quiet_interest [OF assms(1) ksorted_distinct [OF assms(2)] t'(2)] show ?thesis by blast
qed

definition sample_resolver :: "(fd \<times> u16) list \<Rightarrow> unit resolver" where
  "sample_resolver hs = \<lparr>rs_handles = hs, rs_time = 100, rs_interval = 500, rs_chan = ()\<rparr>"

theorem idle_sockets_polled_witness:
  "\<exists>t' r'. resolver_handle (\<lambda>_ _ x. ([], x)) (\<lambda>_. None) 200 [] (tset 5 POLLIN trigger_init) (sample_resolver [(5, 0), (7, WRITABLE)])
       = Some (0, [], t', r') \<and> rs_handles r' = [(7, WRITABLE)] \<and> interest t' 5 = None"
proof -
  have "tr_inv (tset 5 POLLIN trigger_init)" by (rule trig.set_inv [OF trigger_init_inv])
  from idle_sockets_polled [OF this, of "sample_resolver [(5, 0), (7, WRITABLE)]" "[]" 200 "\<lambda>_ _ x. ([], x)" "\<lambda>_. None"]
  show ?thesis by (auto simp: sample_resolver_def ksorted_def WRITABLE_def)
qed

text \<open>a socket that the library closes when a lookup times out stays in the interest list for good: the
  handler drops it from the table in the same pass without clearing it, because it clears only what a poll
  entry shows and there is no entry for a socket that is not ready.\<close>

theorem timed_out_socket_left_polled:
  assumes "rs_handles r = [(fd, READABLE)]" and "rs_time r + rs_interval r < now" and "\<forall>e \<in> set events. pfd_fd e \<noteq> fd"
    and "fst (pr BAD_SOCKET BAD_SOCKET (rs_chan r)) = [(fd, False, False)]"
  shows "\<exists>r'. resolver_handle pr tm now events t r = Some (1, events, t, r') \<and> rs_handles r' = []"
proof -
  have k: "length (takeWhile (\<lambda>e. pfd_fd e \<noteq> fd) events) = length events"
    using assms(3) takeWhile_eq_all_conv [of "\<lambda>e. pfd_fd e \<noteq> fd" events] by (metis (no_types, lifting))
  obtain x where x: "pr BAD_SOCKET BAD_SOCKET (rs_chan r) = ([(fd, False, False)], x)" using assms(4) by (metis prod.collapse)
  have cb: "ares_socket_cb (fd, False, False) [(fd, READABLE)] = [(fd, 0)]"
    by (simp add: ares_socket_cb_def sock_state_def lower_bound_def lb_loop.simps key_hit_def Let_def)
  have p: "rs_handles (process_event pr tm now (fd, READABLE) r) = [(fd, 0)]"
    using assms(1,2) x cb by (simp add: process_event_def set_timeout_def Let_def split: option.split)
  have r: "(READABLE :: u16) \<noteq> 0" by (simp add: READABLE_def)
  have sy: "sync_interest fd 0 0 t = t" by (simp add: sync_interest_quiet poll_bits_def)
  have e: "resolver_handle pr tm now events t r = handle_sockets pr tm now (Suc 0) 0 (1, events, t, process_event pr tm now (fd, READABLE) r)"
    unfolding resolver_handle_def using assms(1,2) k p r sy by (subst handle_sockets.simps) simp
  show ?thesis unfolding e using p by (subst handle_sockets.simps) simp
qed

theorem timed_out_socket_left_polled_witness:
  "\<exists>t' r'. resolver_handle (\<lambda>_ _ x. ([(5, False, False)], x)) (\<lambda>_. None) 700 [] (tset 5 POLLIN trigger_init) (sample_resolver [(5, READABLE)])
       = Some (1, [], t', r') \<and> rs_handles r' = [] \<and> interest t' 5 = Some POLLIN"
proof -
  have i: "interest (tset 5 POLLIN trigger_init) 5 = Some POLLIN"
    using trig.mask_set [OF trigger_init_inv, of 5 POLLIN] by (simp add: interest_def trigger_init_def kmap_def)
  from timed_out_socket_left_polled [of "sample_resolver [(5, READABLE)]" 5 700 "[]" "\<lambda>_ _ x. ([(5, False, False)], x)"
      "\<lambda>_. None" "tset 5 POLLIN trigger_init"] i
  show ?thesis by (auto simp: sample_resolver_def)
qed



text \<open>a pattern the library refuses brings the program down. The error number of the compilation is positive and is
  taken for a number of substitutions; the result buffer was never allocated, and the null pointer is made a string.\<close>

theorem refused_pattern_null_string:
  assumes "ares_match_naptr_flag cur = Some flag" and "np_regexp cur \<noteq> []" and "np_replacement cur = []"
    and "compile (fst (pcre_parts (np_regexp cur) subject)) = Some rc" and "0 < rc"
  shows "ares_getnaptr_cb live run compile sub t now subject (Some (Some (cur # cs))) f s = Inl NullString"
proof -
  obtain m r u where p: "pcre_parts (np_regexp cur) subject = (m, r, u)" by (cases "pcre_parts (np_regexp cur) subject") auto
  have "compile m = Some rc" using assms(4) p by simp
  then show ?thesis using assms(1-3,5) p by (simp add: ares_getnaptr_cb_def ares_getnaptr_success_def pcre_substitute_def)
qed

theorem refused_pattern_null_string_witness:
  "ares_getnaptr_cb (\<lambda>_ _. True) (\<lambda>_ _ _ _ _ f s. (f, s)) (\<lambda>m. if m = ''('' then Some 114 else None) (\<lambda>_ _ _ _. (0, 0, []))
     0 0 ''urn:x'' (Some (Some [\<lparr>np_flags = [], np_regexp = ''!(!x!'', np_replacement = []\<rparr>])) (iface_make [] [] ''urn:x'' :: unit iface) ()
   = Inl NullString"
  by (rule refused_pattern_null_string [where flag = "[]" and rc = 114])
    (simp_all add: ares_match_naptr_flag_def pcre_parts_def extract_part_def)



text \<open>when the addresses of an interface have run out, an interface named by a service, a pointer or a uniform resource name is
  looked up the same way again. One named by a scheme of its own is not: it keeps the protocol of its first
  answer, so the next lookup is for the host and port of its name, which are empty unless the name ends in a number.\<close>

theorem lookup_repeated:
  assumes "filter (\<lambda>a. \<not> expired t a) (if_addresses f) = []" and "if_protocol f = ''TCP''"
  shows "resolve (snd (expire_addresses t f)) =
     (if uri_scheme (if_uri f) \<in> {''srv'', ''naptr'', ''urn''} then resolve (f\<lparr>if_protocol := []\<rparr>)
      else Inr (AddrInfo (uri_host (if_uri f)) (uri_port (if_uri f)) True (1, 0, SIZE_MAX)))"
  using assms by (auto simp: expire_addresses_def reweigh_def find_weights_def resolve_def getaddrinfo_def Let_def)

theorem lookup_repeated_witness:
  "resolve (iface_make [] [] ''http://a.example.com'' :: unit iface) = Inr (Naptr ''http.uri'' ''http://a.example.com'')
   \<and> resolve (snd (expire_addresses 0 (iface_make [] ''TCP'' ''http://a.example.com'' :: unit iface))) = Inr (AddrInfo [] [] True (1, 0, SIZE_MAX))"
  using lookup_repeated [of 0 "iface_make [] ''TCP'' ''http://a.example.com'' :: unit iface"]
  by (simp add: iface_make_def resolve_def uri_scheme_def uri_host_def uri_port_def is_digit_def to_lower_def Let_def)

end
