(* ===== verification/Node.thy ===== *)
theory Node
  imports Connector
begin

unbundle bit_operations_syntax

text \<open>
  A node (\<^verbatim>\<open>src/node/node.cpp\<close>, \<^verbatim>\<open>node.hpp\<close>): the event loop of one service around its connector, and the notices by which
  the manager stops it. The loop is a step function on a program counter, since it need not end; what the
  operating system answers to \<^verbatim>\<open>poll\<close> and \<^verbatim>\<open>read\<close> and the signals that have arrived are the input of a step, and the
  connector's event handler is an argument.
  Shown: events found while others wait to be handled are merged without loss, the handler is called at most
  sixteen times between two polls, and a node that is told to stop drains: it returns exactly when
  no connection is left, and until then polls at least every fifty milliseconds.
\<close>

section \<open>Notices\<close>

datatype read_answer = Got nat | ReadEintr | ReadFailed | ReadEof

text \<open>
  \<^verbatim>\<open>read_notice\<close>: \<open>off\<close> bytes are in \<open>buf\<close> so far, \<open>pipe\<close> is what is in the pipe. The read loop ends when the integer is complete or
  at the end of the file; an error is \<open>None\<close>. When the answers run out everything asked for arrives at once.
\<close>

primrec read_loop :: "read_answer list \<Rightarrow> byte list \<Rightarrow> byte list \<Rightarrow> (byte list \<times> byte list) option" where
  "read_loop [] buf pipe = (let n = 4 - length buf in Some (buf @ take n pipe, drop n pipe))"
| "read_loop (a # as) buf pipe =
     (case a of
        ReadEintr \<Rightarrow> read_loop as buf pipe
      | ReadFailed \<Rightarrow> None
      | ReadEof \<Rightarrow> Some (buf, pipe)
      | Got n \<Rightarrow>
          (let m = min (min n (4 - length buf)) (length pipe) in
           if m = 0 then Some (buf, pipe)
           else if length buf + m = 4 then Some (buf @ take m pipe, drop m pipe)
           else read_loop as (buf @ take m pipe) (drop m pipe)))"

definition int_of_bytes :: "byte list \<Rightarrow> int" where
  "int_of_bytes bs = sint (rd32 (bs @ replicate (4 - length bs) 0))"

definition read_notice :: "read_answer list \<Rightarrow> byte list \<Rightarrow> (int \<times> byte list) option" where
  "read_notice as pipe = map_option (\<lambda>(bs, rest). (int_of_bytes bs, rest)) (read_loop as [] pipe)"

definition SIGHUP :: int where "SIGHUP = 1"
definition SIGINT :: int where "SIGINT = 2"
definition SIGUSR1 :: int where "SIGUSR1 = 10"
definition SIGTERM :: int where "SIGTERM = 15"

text \<open>The flags the signal handler sets: the number of the signal, or 0.\<close>

record sigflags =
  sf_hup :: int
  sf_int :: int
  sf_term :: int

definition sighandler :: "int \<Rightarrow> sigflags \<Rightarrow> sigflags" where
  "sighandler sig fl =
     (if sig = SIGTERM then fl\<lparr>sf_term := sig\<rparr>
      else if sig = SIGINT then fl\<lparr>sf_int := sig\<rparr>
      else if sig = SIGHUP then fl\<lparr>sf_hup := sig\<rparr>
      else fl)"

text \<open>
  \<^verbatim>\<open>check_for_signal\<close>: the result is a failure or the events, notice and flags. \<open>npipe\<close> is 0 for a node that runs alone and
  takes the signals itself. A pipe entry with an error makes the node return.
\<close>

definition check_for_signal ::
  "fd \<Rightarrow> read_answer list \<times> byte list \<Rightarrow> pollfd list \<Rightarrow> int \<Rightarrow> sigflags \<Rightarrow> (pollfd list \<times> int \<times> sigflags) option" where
  "check_for_signal npipe rd events notice fl =
     (if notice \<noteq> 0 then Some (events, notice, fl)
      else if npipe = 0 then
        (if sf_hup fl \<noteq> 0 then Some (events, sf_hup fl, fl\<lparr>sf_hup := 0\<rparr>)
         else if sf_int fl \<noteq> 0 then Some (events, sf_int fl, fl\<lparr>sf_int := 0\<rparr>)
         else if sf_term fl \<noteq> 0 then Some (events, sf_term fl, fl\<lparr>sf_term := 0\<rparr>)
         else Some (events, 0, fl))
      else
        (let k = length (takeWhile (\<lambda>e. pfd_fd e \<noteq> npipe) events) in
         if k < length events then
           (let revents = pfd_revents (events ! k) in
            if revents AND (POLLERR OR POLLNVAL) \<noteq> 0 then None
            else if revents \<noteq> 0
            then map_option (\<lambda>(n, _). (erase_at k events, n, fl)) (read_notice (fst rd) (snd rd))
            else Some (erase_at k events, notice, fl))
         else Some (events, notice, fl)))"

section \<open>Events and signals\<close>

text \<open>
  Merging a poll into the events still to be handled: \<open>i\<close> counts the entries of the poll that have something. The code
  counts down with the variable that also counts calls of the handler.
\<close>

definition merge_event :: "pollfd \<Rightarrow> pollfd list \<Rightarrow> pollfd list" where
  "merge_event e events =
     (let lb = lower_bound (\<lambda>x. pfd_fd x < pfd_fd e) events in
      if \<not> key_hit pfd_fd (pfd_fd e) events lb then insert_at lb e events
      else events[lb := (events ! lb)\<lparr>pfd_revents := pfd_revents (events ! lb) OR pfd_revents e\<rparr>])"

fun merge_events :: "nat \<Rightarrow> pollfd list \<Rightarrow> pollfd list \<Rightarrow> nat \<times> pollfd list" where
  "merge_events i [] events = (i, events)"
| "merge_events i (e # es) events =
     (let (i1, events1) = (if pfd_revents e \<noteq> 0 \<and> i \<noteq> 0 then (i - 1, merge_event e events) else (i, events))
      in if i1 = 0 then (0, events1) else merge_events i1 es events1)"

record ('n, 's) node =
  nd_conn :: "('n, 's) connector"
  nd_timeout :: int

definition default_timeout :: int where "default_timeout = 15000"

text \<open>
  \<^verbatim>\<open>basic_node::_handle\<close>: \<open>resolver_timeout\<close> is the time the resolver last set its timeout and the interval in
  milliseconds, -1 for none; \<open>now\<close> is the clock. The difference is truncated to milliseconds, the unit of the model.
\<close>

definition node_handle ::
  "(pollfd list \<Rightarrow> ('n, 's) connector \<Rightarrow> nat \<times> pollfd list \<times> ('n, 's) connector) \<Rightarrow>
   (('n, 's) connector \<Rightarrow> int \<times> int) \<Rightarrow> int \<Rightarrow> pollfd list \<Rightarrow> ('n, 's) node \<Rightarrow> nat \<times> pollfd list \<times> ('n, 's) node" where
  "node_handle handle resolver_timeout now events nd =
     (case handle events (nd_conn nd) of (handled, events', c) \<Rightarrow>
        (case resolver_timeout c of (time, interval) \<Rightarrow>
           (handled, events', \<lparr>nd_conn = c, nd_timeout =
              (if - 1 < interval then (if time + interval - now < 0 then 0 else time + interval - now) else default_timeout)\<rparr>)))"

definition stop_signal :: "int \<Rightarrow> bool" where
  "stop_signal sig \<longleftrightarrow> sig = SIGTERM \<or> sig = SIGINT \<or> sig = SIGHUP"

definition signal_handler :: "int \<Rightarrow> ('n, 's) node \<Rightarrow> int \<times> ('n, 's) node" where
  "signal_handler sig nd =
     (if stop_signal sig then
        (if c_conns (nd_conn nd) = [] then (0, nd)
         else (sig, \<lparr>nd_conn = (nd_conn nd)\<lparr>c_drain := True\<rparr>,
                nd_timeout = (if nd_timeout nd < 0 then 50 else min 50 (nd_timeout nd))\<rparr>))
      else (sig, nd))"

section \<open>The loop\<close>

definition FAIRNESS :: nat where "FAIRNESS = 16"

text \<open>
  Where \<^verbatim>\<open>_run\<close> is: about to wait; handling, with the count of calls since the last poll and the events; about to poll
  in between; looking at a notice; returned after draining, or returned for another reason.
\<close>

datatype run_pc = Waiting | Handling nat "pollfd list" | Repolling "pollfd list" | Noticing "pollfd list"
  | Drained int | Broken int

record ('n, 's) run =
  rn_pc :: run_pc
  rn_node :: "('n, 's) node"
  rn_notice :: int
  rn_flags :: sigflags

text \<open>The input of a step: the answer of \<^verbatim>\<open>poll\<close> (\<open>None\<close> for a failure, \<open>Some []\<close> when the time is up), the state of the notice pipe,
  the signals that arrive, and the clock.\<close>

record run_input =
  in_poll :: "pollfd list option"
  in_read :: "read_answer list \<times> byte list"
  in_signals :: "int list"
  in_now :: int

definition ready :: "pollfd list \<Rightarrow> nat" where
  "ready evs = length (filter (\<lambda>e. pfd_revents e \<noteq> 0) evs)"

text \<open>\<open>handler\<close> returns \<open>None\<close> for \<^verbatim>\<open>npos\<close>.\<close>

definition run_step ::
  "fd \<Rightarrow> (int \<Rightarrow> pollfd list \<Rightarrow> ('n, 's) node \<Rightarrow> nat option \<times> pollfd list \<times> ('n, 's) node) \<Rightarrow> run_input \<Rightarrow> ('n, 's) run \<Rightarrow> ('n, 's) run" where
  "run_step npipe handler inp r =
     (let fl = fold sighandler (in_signals inp) (rn_flags r) in
      case rn_pc r of
        Waiting \<Rightarrow>
          (case in_poll inp of
             None \<Rightarrow> r\<lparr>rn_pc := Broken (rn_notice r), rn_flags := fl\<rparr>
           | Some evs \<Rightarrow>
               (case check_for_signal npipe (in_read inp) (if ready evs = 0 then [] else evs) (rn_notice r) fl of
                  None \<Rightarrow> r\<lparr>rn_pc := Broken (rn_notice r), rn_flags := fl\<rparr>
                | Some (events, notice, fl') \<Rightarrow> r\<lparr>rn_pc := Handling 0 events, rn_notice := notice, rn_flags := fl'\<rparr>))
      | Handling i events \<Rightarrow>
          (case handler (in_now inp) events (rn_node r) of (handled, events', nd) \<Rightarrow>
             (let r' = r\<lparr>rn_node := nd, rn_flags := fl\<rparr> in
              case handled of
                None \<Rightarrow> r'\<lparr>rn_pc := Broken (rn_notice r)\<rparr>
              | Some 0 \<Rightarrow> r'\<lparr>rn_pc := Noticing events'\<rparr>
              | Some (Suc _) \<Rightarrow> r'\<lparr>rn_pc := (if i + 1 = FAIRNESS then Repolling events' else Handling (i + 1) events')\<rparr>))
      | Repolling events \<Rightarrow>
          (case in_poll inp of
             None \<Rightarrow> r\<lparr>rn_pc := Broken (rn_notice r), rn_flags := fl\<rparr>
           | Some evs \<Rightarrow>
               (case merge_events (ready evs) evs events of (i, events1) \<Rightarrow>
                  (case check_for_signal npipe (in_read inp) events1 (rn_notice r) fl of
                     None \<Rightarrow> r\<lparr>rn_pc := Broken (rn_notice r), rn_flags := fl\<rparr>
                   | Some (events2, notice, fl') \<Rightarrow> r\<lparr>rn_pc := Handling i events2, rn_notice := notice, rn_flags := fl'\<rparr>)))
      | Noticing events \<Rightarrow>
          (if rn_notice r = 0 then r\<lparr>rn_pc := Waiting, rn_flags := fl\<rparr>
           else
             (case signal_handler (rn_notice r) (rn_node r) of (notice, nd) \<Rightarrow>
                (let r' = r\<lparr>rn_node := nd, rn_notice := notice, rn_flags := fl\<rparr> in
                 if notice \<noteq> 0 then r'\<lparr>rn_pc := Waiting\<rparr>
                 else if stop_signal (rn_notice r) then r'\<lparr>rn_pc := Drained (rn_notice r)\<rparr>
                 else (case check_for_signal npipe (in_read inp) events 0 fl of
                     None \<Rightarrow> r'\<lparr>rn_pc := Broken 0\<rparr>
                   | Some (events', n, fl') \<Rightarrow> r'\<lparr>rn_pc := Noticing events', rn_notice := n, rn_flags := fl'\<rparr>))))
      | Drained sig \<Rightarrow> r
      | Broken n \<Rightarrow> r)"

section \<open>Merging events\<close>

definition revents_of :: "pollfd list \<Rightarrow> fd \<Rightarrow> u16" where
  "revents_of events fd = (case kmap pfd_fd events fd of Some e \<Rightarrow> pfd_revents e | None \<Rightarrow> 0)"

lemma revents_of_in: "ksorted pfd_fd events \<Longrightarrow> e \<in> set events \<Longrightarrow> revents_of events (pfd_fd e) = pfd_revents e"
  using kmap_Some_iff [of pfd_fd events "pfd_fd e" e] by (simp add: revents_of_def)

lemma revents_of_out: "fd \<notin> pfd_fd ` set events \<Longrightarrow> revents_of events fd = 0"
  using kmap_None_iff [of pfd_fd events fd] by (simp add: revents_of_def has_key_def)

lemma merge_event_set:
  assumes "ksorted pfd_fd events"
  shows "ksorted pfd_fd (merge_event e events)
    \<and> (\<exists>e'. pfd_fd e' = pfd_fd e \<and> pfd_revents e' = (revents_of events (pfd_fd e) OR pfd_revents e)
       \<and> set (merge_event e events) = insert e' {x \<in> set events. pfd_fd x \<noteq> pfd_fd e})"
proof -
  let ?k = "length (upto_key pfd_fd (pfd_fd e) events)"
  have lb: "lower_bound (\<lambda>x. pfd_fd x < pfd_fd e) events = ?k" by (rule lower_bound_upto [OF assms])
  show ?thesis
  proof (cases "has_key pfd_fd (pfd_fd e) events")
    case True
    then have hit: "key_hit pfd_fd (pfd_fd e) events ?k" using key_hit_iff [OF assms] by blast
    then have i: "?k < length events" "pfd_fd (events ! ?k) = pfd_fd e" by (simp_all add: key_hit_def)
    define e' where "e' = (events ! ?k)\<lparr>pfd_revents := pfd_revents (events ! ?k) OR pfd_revents e\<rparr>"
    have m: "merge_event e events = events[?k := e']" using hit by (simp add: merge_event_def lb Let_def e'_def)
    have "distinct events" using ksorted_distinct [OF assms] by (simp add: distinct_map)
    then have "set (events[?k := e']) = insert e' (set events - {events ! ?k})" by (rule set_update_distinct [OF _ i(1)])
    moreover have "set events - {events ! ?k} = {x \<in> set events. pfd_fd x \<noteq> pfd_fd e}"
      using ksorted_inj [OF assms _ nth_mem [OF i(1)]] i by auto
    moreover have "revents_of events (pfd_fd e) = pfd_revents (events ! ?k)"
      using revents_of_in [OF assms nth_mem [OF i(1)]] i(2) by simp
    moreover have "pfd_fd e' = pfd_fd e" "pfd_revents e' = pfd_revents (events ! ?k) OR pfd_revents e" using i(2) by (simp_all add: e'_def)
    ultimately show ?thesis using ksorted_update [OF assms i(1), of e'] i(2) unfolding m by (intro conjI exI [of _ e']) simp_all
  next
    case False
    then have "merge_event e events = insert_at ?k e events"
      using key_hit_iff [OF assms] by (simp add: merge_event_def lb Let_def)
    moreover have "{x \<in> set events. pfd_fd x \<noteq> pfd_fd e} = set events" using False unfolding has_key_def by (auto intro: image_eqI [OF sym])
    ultimately show ?thesis
      using ksorted_insert [OF assms False refl] False revents_of_out [of "pfd_fd e" events]
      by (intro conjI exI [of _ e]) (simp_all add: has_key_def)
  qed
qed

lemma merge_event_revents:
  assumes "ksorted pfd_fd events"
  shows "revents_of (merge_event e events) fd = (if fd = pfd_fd e then revents_of events fd OR pfd_revents e else revents_of events fd)"
proof -
  obtain e' where so: "ksorted pfd_fd (merge_event e events)" and e': "pfd_fd e' = pfd_fd e"
      "pfd_revents e' = (revents_of events (pfd_fd e) OR pfd_revents e)"
      "set (merge_event e events) = insert e' {x \<in> set events. pfd_fd x \<noteq> pfd_fd e}"
    using merge_event_set [OF assms] by blast
  show ?thesis
  proof (cases "fd = pfd_fd e")
    case True
    then show ?thesis using revents_of_in [OF so, of e'] e' by simp
  next
    case False
    show ?thesis
    proof (cases "fd \<in> pfd_fd ` set events")
      case True
      then obtain x where "x \<in> set events" "pfd_fd x = fd" by blast
      then show ?thesis using False revents_of_in [OF so, of x] revents_of_in [OF assms, of x] e'(3) by auto
    next
      case out: False
      then have "fd \<notin> pfd_fd ` set (merge_event e events)" using False e'(1,3) by auto
      then show ?thesis using False out revents_of_out by simp
    qed
  qed
qed

lemma ready_Cons: "ready (e # es) = (if pfd_revents e \<noteq> 0 then Suc (ready es) else ready es)"
  by (simp add: ready_def)

lemma ready_zero: "ready es = 0 \<longleftrightarrow> (\<forall>e \<in> set es. pfd_revents e = 0)"
  by (auto simp: ready_def filter_empty_conv)

lemma merge_events_all:
  assumes "ksorted pfd_fd events" and "ksorted pfd_fd es"
  shows "\<exists>events'. merge_events (ready es) es events = (0, events') \<and> ksorted pfd_fd events'
    \<and> (\<forall>fd. revents_of events' fd = revents_of events fd OR revents_of es fd)"
  using assms
proof (induction es arbitrary: events)
  case Nil
  then show ?case by (simp add: ready_def revents_of_def kmap_def)
next
  case (Cons e es)
  have so: "ksorted pfd_fd es" and gt: "\<forall>x \<in> set es. pfd_fd e < pfd_fd x" using Cons.prems(2) by (simp_all add: ksorted_Cons)
  have re: "revents_of (e # es) fd = (if fd = pfd_fd e then pfd_revents e else revents_of es fd)" for fd
    by (simp add: revents_of_def kmap_def)
  have no: "revents_of es (pfd_fd e) = 0" using gt by (intro revents_of_out) auto
  define ev1 where "ev1 = (if pfd_revents e \<noteq> 0 then merge_event e events else events)"
  have s1: "ksorted pfd_fd ev1" using Cons.prems(1) merge_event_set [OF Cons.prems(1)] by (simp add: ev1_def)
  have r1: "revents_of ev1 fd = (if fd = pfd_fd e then revents_of events fd OR pfd_revents e else revents_of events fd)" for fd
    using merge_event_revents [OF Cons.prems(1)] by (simp add: ev1_def)
  have m: "merge_events (ready (e # es)) (e # es) events = (if ready es = 0 then (0, ev1) else merge_events (ready es) es ev1)"
    by (simp add: ready_Cons ev1_def)
  show ?case
  proof (cases "ready es = 0")
    case True
    then have z: "revents_of es fd = 0" for fd
      using so ready_zero revents_of_in [OF so] revents_of_out [of fd es] by (metis imageE)
    show ?thesis unfolding m using True s1 r1 re z by auto
  next
    case False
    obtain events' where "merge_events (ready es) es ev1 = (0, events')" "ksorted pfd_fd events'"
        "\<forall>fd. revents_of events' fd = revents_of ev1 fd OR revents_of es fd"
      using Cons.IH [OF s1 so] by blast
    then show ?thesis unfolding m using False r1 re no by auto
  qed
qed

section \<open>Reachable states\<close>

inductive node_reach ::
  "fd \<Rightarrow> (int \<Rightarrow> pollfd list \<Rightarrow> ('n, 's) node \<Rightarrow> nat option \<times> pollfd list \<times> ('n, 's) node) \<Rightarrow> ('n, 's) run \<Rightarrow> bool"
  for npipe handler where
  start: "rn_pc r = Waiting \<Longrightarrow> rn_notice r = 0 \<Longrightarrow> node_reach npipe handler r"
| step: "node_reach npipe handler r \<Longrightarrow> node_reach npipe handler (run_step npipe handler inp r)"

definition run_inv :: "('n, 's) run \<Rightarrow> bool" where
  "run_inv r \<longleftrightarrow> (case rn_pc r of
       Handling i _ \<Rightarrow> i < FAIRNESS
     | Drained sig \<Rightarrow> stop_signal sig \<and> c_conns (nd_conn (rn_node r)) = []
     | Waiting \<Rightarrow> stop_signal (rn_notice r) \<longrightarrow> c_drain (nd_conn (rn_node r)) \<and> nd_timeout (rn_node r) \<le> 50
     | _ \<Rightarrow> True)"

lemma merge_events_count: "fst (merge_events i es events) \<le> i"
proof (induction es arbitrary: i events)
  case (Cons e es)
  show ?case using Cons.IH [of i events] Cons.IH [of "i - 1" "merge_event e events"] by (auto split: prod.split)
qed simp

lemma merge_events_ready: "fst (merge_events (ready es) es events) = 0"
proof (induction es arbitrary: events)
  case (Cons e es)
  then show ?case by (simp add: ready_Cons)
qed (simp add: ready_def)

lemma run_step_inv:
  assumes "run_inv r"
  shows "run_inv (run_step npipe handler inp r)"
proof (cases "rn_pc r")
  case (Repolling events)
  then show ?thesis
    using merge_events_ready [of "the (in_poll inp)" events]
    by (auto simp: run_step_def run_inv_def FAIRNESS_def Let_def split: option.splits prod.splits)
next
  case (Handling i events)
  then show ?thesis using assms
    by (auto simp: run_step_def run_inv_def FAIRNESS_def Let_def split: option.splits prod.splits nat.splits)
qed (use assms in \<open>auto simp: run_step_def run_inv_def FAIRNESS_def Let_def signal_handler_def stop_signal_def SIGTERM_def SIGINT_def SIGHUP_def
    split: option.splits prod.splits if_splits\<close>)

lemma node_reach_inv: "node_reach npipe handler r \<Longrightarrow> run_inv r"
  by (induction rule: node_reach.induct)
    (auto simp: run_inv_def stop_signal_def SIGTERM_def SIGINT_def SIGHUP_def intro: run_step_inv [unfolded run_inv_def])

lemma check_keeps_notice: "notice \<noteq> 0 \<Longrightarrow> check_for_signal npipe rd events notice fl = Some (events, notice, fl)"
  by (simp add: check_for_signal_def)

lemma stop_nonzero: "stop_signal sig \<Longrightarrow> sig \<noteq> 0"
  by (auto simp: stop_signal_def SIGTERM_def SIGINT_def SIGHUP_def)

lemma stop_pending:
  assumes "stop_signal (rn_notice r)" and "r' = run_step npipe handler inp r"
  shows "rn_notice r' = rn_notice r \<or> rn_pc r' = Drained (rn_notice r)"
proof -
  have nz: "rn_notice r \<noteq> 0" by (rule stop_nonzero [OF assms(1)])
  note [simp] = check_keeps_notice [OF nz]
  show ?thesis unfolding assms(2) using assms(1) nz
    by (cases "rn_pc r") (auto simp: run_step_def Let_def signal_handler_def split: option.splits prod.splits nat.splits)
qed

lemma stop_returns:
  assumes "rn_pc r = Noticing events" and "stop_signal (rn_notice r)" and "r' = run_step npipe handler inp r"
  shows "rn_pc r' = Drained (rn_notice r) \<longleftrightarrow> c_conns (nd_conn (rn_node r)) = []"
  using assms(1,2) stop_nonzero [OF assms(2)] unfolding assms(3) by (simp add: run_step_def Let_def signal_handler_def)

section \<open>Properties\<close>

text \<open>events found by the poll in between are merged into those still to be handled without loss: the list stays
  ordered by descriptor, and what each descriptor reports is what either list reports.\<close>

theorem events_merged:
  assumes "ksorted pfd_fd events" and "ksorted pfd_fd es"
  shows "\<exists>events'. merge_events (ready es) es events = (0, events') \<and> ksorted pfd_fd events'
    \<and> (\<forall>fd. revents_of events' fd = revents_of events fd OR revents_of es fd)"
  by (rule merge_events_all [OF assms])

theorem events_merged_witness:
  "\<exists>events'. merge_events 2 [\<lparr>pfd_fd = 4, pfd_events = 1, pfd_revents = 1\<rparr>, \<lparr>pfd_fd = 6, pfd_events = 5, pfd_revents = 4\<rparr>]
       [\<lparr>pfd_fd = 6, pfd_events = 5, pfd_revents = 1\<rparr>] = (0, events') \<and> revents_of events' 6 = 5 \<and> revents_of events' 4 = 1"
  using events_merged [of "[\<lparr>pfd_fd = 6, pfd_events = 5, pfd_revents = 1\<rparr>]"
      "[\<lparr>pfd_fd = 4, pfd_events = 1, pfd_revents = 1\<rparr>, \<lparr>pfd_fd = 6, pfd_events = 5, pfd_revents = 4\<rparr>]"]
  by (auto simp: ksorted_def ready_def revents_of_def kmap_def)

text \<open>A node that is told to stop drains. In every reachable state of its loop the handler has been called fewer than
  sixteen times since the last poll; a stop notice stays until the node returns for it; the node returns for it
  exactly when it looks at the notice with no connection left; and while it waits with a stop notice it refuses new clients
  and polls at least every fifty milliseconds.\<close>

theorem node_stops_by_draining:
  assumes "node_reach npipe handler r" and "r' = run_step npipe handler inp r"
  shows "(\<forall>i events. rn_pc r = Handling i events \<longrightarrow> i < FAIRNESS)
    \<and> (stop_signal (rn_notice r) \<longrightarrow> rn_notice r' = rn_notice r \<or> rn_pc r' = Drained (rn_notice r))
    \<and> (\<forall>events. rn_pc r = Noticing events \<and> stop_signal (rn_notice r) \<longrightarrow>
         (rn_pc r' = Drained (rn_notice r) \<longleftrightarrow> c_conns (nd_conn (rn_node r)) = []))
    \<and> (\<forall>sig. rn_pc r = Drained sig \<longrightarrow> stop_signal sig \<and> c_conns (nd_conn (rn_node r)) = [])
    \<and> (rn_pc r = Waiting \<and> stop_signal (rn_notice r) \<longrightarrow> c_drain (nd_conn (rn_node r)) \<and> nd_timeout (rn_node r) \<le> 50)"
proof -
  have inv: "run_inv r" by (rule node_reach_inv [OF assms(1)])
  show ?thesis using inv stop_pending [OF _ assms(2)] stop_returns [OF _ _ assms(2)] by (auto simp: run_inv_def)
qed

definition sample_run :: "(unit, unit) run" where
  "sample_run = \<lparr>rn_pc = Waiting, rn_node = \<lparr>nd_conn = \<lparr>c_heap = Map.empty, c_north = [], c_south = [], c_conns = [], c_timeouts = [],
     c_full_duplex = False, c_drain = False, c_triggers = trigger_init, c_mar = \<lparr>mar_north = [], mar_south = []\<rparr>,
     c_metrics = [], c_arrivals = 0, c_env = sample_env\<rparr>, nd_timeout = default_timeout\<rparr>, rn_notice = 0,
     rn_flags = \<lparr>sf_hup = 0, sf_int = 0, sf_term = 0\<rparr>\<rparr>"

definition sample_input :: run_input where
  "sample_input = \<lparr>in_poll = Some [], in_read = ([], []), in_signals = [SIGTERM], in_now = 0\<rparr>"

text \<open>A node without connections that gets a signal returns in three steps.\<close>

theorem node_stops_by_draining_witness:
  "rn_pc (run_step 0 (\<lambda>_ es nd. (Some 0, es, nd)) sample_input (run_step 0 (\<lambda>_ es nd. (Some 0, es, nd)) sample_input
     (run_step 0 (\<lambda>_ es nd. (Some 0, es, nd)) sample_input sample_run))) = Drained SIGTERM"
proof -
  let ?h = "\<lambda>_ es nd. (Some 0, es, nd) :: nat option \<times> pollfd list \<times> (unit, unit) node" and ?i = sample_input
  let ?r1 = "run_step 0 ?h ?i sample_run" let ?r2 = "run_step 0 ?h ?i ?r1"
  have "node_reach 0 ?h sample_run" by (rule node_reach.start) (simp_all add: sample_run_def)
  then have re: "node_reach 0 ?h ?r2" by (intro node_reach.step)
  have r2: "rn_pc ?r2 = Noticing []" "rn_notice ?r2 = SIGTERM" "c_conns (nd_conn (rn_node ?r2)) = []"
    by (simp_all add: run_step_def sample_run_def sample_input_def ready_def check_for_signal_def sighandler_def Let_def
        SIGTERM_def SIGINT_def SIGHUP_def)
  have "stop_signal SIGTERM" by (simp add: stop_signal_def)
  with node_stops_by_draining [OF re refl, of ?i] r2 show ?thesis by simp
qed

end
