(* ===== verification/Manager.thy ===== *)
theory Manager
  imports Config Node
begin

text \<open>
  The manager (\<^verbatim>\<open>src/manager/manager.hpp\<close>, \<^verbatim>\<open>manager.cpp\<close>): it keeps one node and one thread per section of the
  configuration, follows changes of the file and stops everything on a signal. Maps are association lists
  ordered by key. A node is its configuration section; whether its constructor throws is the argument
  \<open>construct\<close>. The answers of \<^verbatim>\<open>pipe\<close> and \<^verbatim>\<open>write\<close> are lists in the state, exceptions are values of \<open>manager_error\<close>, and
  \<open>mg_log\<close> records the threads started and stopped. Joining a thread waits for its node to return, which is
  the subject of \<open>Node\<close>.
  Shown: a merge leaves exactly the nodes of the new configuration, restarting those that changed and leaving
  the others alone; a stop notice is read as it was written, however the bytes are split; and
  a signal stops every thread before the manager returns.
\<close>

section \<open>Notices\<close>

datatype write_answer = Wrote nat | WriteEintr | WriteFailed

text \<open>\<^verbatim>\<open>notify_thread\<close>: \<open>buf\<close> is what is left to write. When the answers run out everything is taken.\<close>

primrec notify_loop :: "write_answer list \<Rightarrow> byte list \<Rightarrow> byte list \<Rightarrow> bool \<times> byte list" where
  "notify_loop [] buf pipe = (True, pipe @ buf)"
| "notify_loop (a # as) buf pipe =
     (case a of
        WriteEintr \<Rightarrow> notify_loop as buf pipe
      | WriteFailed \<Rightarrow> (False, pipe)
      | Wrote n \<Rightarrow>
          (let m = min n (length buf) in
           if m = 0 then (True, pipe)
           else if m = length buf then (True, pipe @ buf)
           else notify_loop as (drop m buf) (pipe @ take m buf)))"

definition notify_thread :: "write_answer list \<Rightarrow> int \<Rightarrow> byte list \<Rightarrow> bool \<times> byte list" where
  "notify_thread as sig pipe = notify_loop as (le32 (word_of_int sig)) pipe"

section \<open>Threads and services\<close>

datatype manager_error = PipeFailed | NotifyFailed | ThreadTerminated | NodeFailed | NoConfigFile | ConfigOverrun

datatype action = Started string config_section | Stopped string

record manager =
  mg_services :: sections
  mg_threads :: "(string \<times> fd \<times> fd) list"
  mg_pipes :: "(fd \<times> fd) option list"
  mg_writes :: "write_answer list list"
  mg_log :: "action list"
  mg_mtime :: int
  mg_file :: "string option"

definition emplace :: "string \<Rightarrow> 'v \<Rightarrow> (string \<times> 'v) list \<Rightarrow> (string \<times> 'v) list" where
  "emplace k v xs =
     (let lb = lower_bound (\<lambda>x. fst x < k) xs in
      if key_hit fst k xs lb then xs else insert_at lb (k, v) xs)"

definition erase_key :: "string \<Rightarrow> (string \<times> 'v) list \<Rightarrow> (string \<times> 'v) list" where
  "erase_key k xs =
     (let lb = lower_bound (\<lambda>x. fst x < k) xs in
      if key_hit fst k xs lb then erase_at lb xs else xs)"

text \<open>
  \<^verbatim>\<open>start\<close>. A second thread of the same name would be destroyed while it runs, which terminates the program.
\<close>

definition start :: "string \<Rightarrow> config_section \<Rightarrow> manager \<Rightarrow> manager_error + manager" where
  "start name conf m =
     (case mg_pipes m of
        Some p # ps \<Rightarrow>
          (if has_key fst name (mg_threads m) then Inl ThreadTerminated
           else Inr (m\<lparr>mg_pipes := ps, mg_threads := emplace name p (mg_threads m), mg_log := mg_log m @ [Started name conf]\<rparr>))
      | _ \<Rightarrow> Inl PipeFailed)"

definition stop :: "string \<Rightarrow> manager \<Rightarrow> manager_error + manager" where
  "stop name m =
     (if \<not> has_key fst name (mg_threads m) then Inr m
      else
        (case notify_thread (case mg_writes m of [] \<Rightarrow> [] | as # _ \<Rightarrow> as) SIGTERM [] of (written, _) \<Rightarrow>
           (if \<not> written then Inl NotifyFailed
            else Inr (m\<lparr>mg_writes := tl (mg_writes m), mg_threads := erase_key name (mg_threads m), mg_log := mg_log m @ [Stopped name]\<rparr>))))"

section \<open>Merging a configuration\<close>

text \<open>The first loop: services without a section are stopped and erased.\<close>

primrec merge_removed :: "sections \<Rightarrow> sections \<Rightarrow> manager \<Rightarrow> manager_error + manager" where
  "merge_removed config [] m = Inr m"
| "merge_removed config (s # ss) m =
     (if has_key fst (fst s) config then merge_removed config ss m
      else case stop (fst s) m of
          Inl e \<Rightarrow> Inl e
        | Inr m' \<Rightarrow> merge_removed config ss (m'\<lparr>mg_services := erase_key (fst s) (mg_services m')\<rparr>))"

definition reserved :: "string \<Rightarrow> bool" where
  "reserved heading \<longleftrightarrow> map to_lower heading = ''cloudbus''"

definition emplace_service :: "(config_section \<Rightarrow> bool) \<Rightarrow> string \<Rightarrow> config_section \<Rightarrow> manager \<Rightarrow> manager_error + manager" where
  "emplace_service construct heading conf m =
     (if construct conf then start heading conf (m\<lparr>mg_services := emplace heading conf (mg_services m)\<rparr>) else Inl NodeFailed)"

text \<open>The body of the second loop; its inner loop runs at most once more, since the key is free after the erase.\<close>

definition merge_section :: "(config_section \<Rightarrow> bool) \<Rightarrow> string \<times> config_section \<Rightarrow> manager \<Rightarrow> manager_error + manager" where
  "merge_section construct hs m =
     (case hs of (heading, conf) \<Rightarrow>
       (if reserved heading then Inr m
        else (case map_of (mg_services m) heading of
            None \<Rightarrow> emplace_service construct heading conf m
          | Some conf' \<Rightarrow>
              (if conf' = conf then Inr m
               else (case stop heading m of
                   Inl e \<Rightarrow> Inl e
                 | Inr m' \<Rightarrow> emplace_service construct heading conf (m'\<lparr>mg_services := erase_key heading (mg_services m')\<rparr>))))))"

primrec merge_sections :: "(config_section \<Rightarrow> bool) \<Rightarrow> sections \<Rightarrow> manager \<Rightarrow> manager_error + manager" where
  "merge_sections construct [] m = Inr m"
| "merge_sections construct (hs # ss) m =
     (case merge_section construct hs m of Inl e \<Rightarrow> Inl e | Inr m' \<Rightarrow> merge_sections construct ss m')"

definition merge_config :: "(config_section \<Rightarrow> bool) \<Rightarrow> sections \<Rightarrow> manager \<Rightarrow> manager_error + manager" where
  "merge_config construct config m =
     (case merge_removed config (mg_services m) m of Inl e \<Rightarrow> Inl e | Inr m' \<Rightarrow> merge_sections construct config m')"

section \<open>Signals\<close>

primrec stop_all :: "string list \<Rightarrow> manager \<Rightarrow> manager_error + manager" where
  "stop_all [] m = Inr m"
| "stop_all (name # names) m = (case stop name m of Inl e \<Rightarrow> Inl e | Inr m' \<Rightarrow> stop_all names m')"

definition base_handle_signal :: "int \<Rightarrow> manager \<Rightarrow> manager_error + int \<times> manager" where
  "base_handle_signal sig m =
     (if stop_signal sig then
        (case stop_all (map fst (mg_threads m)) m of Inl e \<Rightarrow> Inl e | Inr m' \<Rightarrow> Inr (0, m'))
      else Inr (sig, m))"

definition handle_signal :: "(config_section \<Rightarrow> bool) \<Rightarrow> int \<Rightarrow> manager \<Rightarrow> manager_error + int \<times> manager" where
  "handle_signal construct sig m =
     (if sig = SIGUSR1 then
        (case mg_file m of
           None \<Rightarrow> Inl NoConfigFile
         | Some content \<Rightarrow> (case read_config content of
             None \<Rightarrow> Inl ConfigOverrun
           | Some config \<Rightarrow> (case merge_config construct config m of Inl e \<Rightarrow> Inl e | Inr m' \<Rightarrow> Inr (0, m'))))
      else base_handle_signal sig m)"

record mflags = sigflags +
  sf_usr1 :: int

definition manager_sighandler :: "int \<Rightarrow> mflags \<Rightarrow> mflags" where
  "manager_sighandler sig fl =
     (if sig = SIGTERM then fl\<lparr>sf_term := sig\<rparr>
      else if sig = SIGINT then fl\<lparr>sf_int := sig\<rparr>
      else if sig = SIGHUP then fl\<lparr>sf_hup := sig\<rparr>
      else if sig = SIGUSR1 then fl\<lparr>sf_usr1 := sig\<rparr>
      else fl)"

text \<open>One pass of the loop of \<^verbatim>\<open>_run\<close>: the signal it returns for (\<open>None\<close> to go on), the manager, the flags.\<close>

definition manager_pass :: "(config_section \<Rightarrow> bool) \<Rightarrow> mflags \<Rightarrow> manager \<Rightarrow> manager_error + int option \<times> manager \<times> mflags" where
  "manager_pass construct fl m =
     (if sf_hup fl \<noteq> 0 then
        (case handle_signal construct (sf_hup fl) m of Inl e \<Rightarrow> Inl e | Inr (r, m') \<Rightarrow> Inr (Some SIGHUP, m', fl\<lparr>sf_hup := r\<rparr>))
      else if sf_int fl \<noteq> 0 then
        (case handle_signal construct (sf_int fl) m of Inl e \<Rightarrow> Inl e | Inr (r, m') \<Rightarrow> Inr (Some SIGINT, m', fl\<lparr>sf_int := r\<rparr>))
      else
        (case (if sf_usr1 fl \<noteq> 0 then handle_signal construct (sf_usr1 fl) m else Inr (0, m)) of
           Inl e \<Rightarrow> Inl e
         | Inr (u, m1) \<Rightarrow>
             (let fl1 = fl\<lparr>sf_usr1 := u\<rparr> in
              if sf_term fl1 \<noteq> 0 then
                (case handle_signal construct (sf_term fl1) m1 of
                   Inl e \<Rightarrow> Inl e
                 | Inr (r, m') \<Rightarrow> Inr (Some SIGTERM, m', fl1\<lparr>sf_term := r\<rparr>))
              else Inr (None, m1, fl1))))"

text \<open>
  The sleep between two passes: it ends after thirty seconds (with the modification time and the content the file has then, \<open>None\<close>
  when there is no file), is interrupted by signals, or fails with another error. After a full sleep the logger is flushed and the
  manager runs again, which begins by comparing the modification time; without a file this throws.
\<close>

datatype nap = Slept "int option" "string option" | Interrupted "int list" | NapFailed int

datatype run_result = Returned int manager | Threw manager_error | Running manager mflags

definition wake_up :: "int option \<Rightarrow> string option \<Rightarrow> manager \<Rightarrow> mflags \<Rightarrow> manager_error + manager \<times> mflags" where
  "wake_up last_write_time content m fl =
     (case last_write_time of
        None \<Rightarrow> Inl NoConfigFile
      | Some mtime \<Rightarrow>
          (let m1 = m\<lparr>mg_file := content\<rparr> in
           Inr (if mtime \<noteq> mg_mtime m then (m1\<lparr>mg_mtime := mtime\<rparr>, manager_sighandler SIGUSR1 fl) else (m1, fl))))"

primrec manager_run :: "(config_section \<Rightarrow> bool) \<Rightarrow> nap list \<Rightarrow> mflags \<Rightarrow> manager \<Rightarrow> run_result" where
  "manager_run construct [] fl m =
     (case manager_pass construct fl m of
        Inl e \<Rightarrow> Threw e
      | Inr (Some sig, m', _) \<Rightarrow> Returned sig m'
      | Inr (None, m', fl') \<Rightarrow> Running m' fl')"
| "manager_run construct (nap # naps) fl m =
     (case manager_pass construct fl m of
        Inl e \<Rightarrow> Threw e
      | Inr (Some sig, m', _) \<Rightarrow> Returned sig m'
      | Inr (None, m', fl') \<Rightarrow>
          (case nap of
             NapFailed errno \<Rightarrow> Returned errno m'
           | Interrupted sigs \<Rightarrow> manager_run construct naps (fold manager_sighandler sigs fl') m'
           | Slept mtime content \<Rightarrow>
               (case wake_up mtime content m' fl' of Inl e \<Rightarrow> Threw e | Inr (m2, fl2) \<Rightarrow> manager_run construct naps fl2 m2)))"

text \<open>\<^verbatim>\<open>run\<close> as \<^verbatim>\<open>main\<close> calls it.\<close>

definition manager_enter :: "(config_section \<Rightarrow> bool) \<Rightarrow> int option \<Rightarrow> string option \<Rightarrow> nap list \<Rightarrow> mflags \<Rightarrow> manager \<Rightarrow> run_result" where
  "manager_enter construct mtime content naps fl m =
     (case wake_up mtime content m fl of Inl e \<Rightarrow> Threw e | Inr (m1, fl1) \<Rightarrow> manager_run construct naps fl1 m1)"

section \<open>Ordered maps\<close>

lemma emplace_spec:
  assumes "ksorted fst xs" and "\<not> has_key fst k xs"
  shows "ksorted fst (emplace k v xs)" and "set (emplace k v xs) = insert (k, v) (set xs)"
    and "map_of (emplace k v xs) = (map_of xs)(k \<mapsto> v)"
proof -
  let ?k = "length (upto_key fst k xs)"
  have e: "emplace k v xs = insert_at ?k (k, v) xs"
    using assms key_hit_iff [OF assms(1), of k] by (simp add: emplace_def Let_def lower_bound_upto)
  show so: "ksorted fst (emplace k v xs)" and st: "set (emplace k v xs) = insert (k, v) (set xs)"
    unfolding e using ksorted_insert [OF assms, of "(k, v)"] by simp_all
  have "map_of (emplace k v xs) q = Some y \<longleftrightarrow> ((map_of xs)(k \<mapsto> v)) q = Some y" for q y
    using assms(2) st map_of_eq_Some_iff [OF ksorted_distinct [OF so]] map_of_eq_Some_iff [OF ksorted_distinct [OF assms(1)]]
    by (auto simp: has_key_def image_iff)
  then show "map_of (emplace k v xs) = (map_of xs)(k \<mapsto> v)" by (intro ext) (metis option.exhaust)
qed

lemma erase_key_spec: "ksorted fst xs \<Longrightarrow> erase_key k xs = filter (\<lambda>x. fst x \<noteq> k) xs"
proof -
  assume so: "ksorted fst xs"
  show ?thesis
  proof (cases "has_key fst k xs")
    case True
    then have "key_hit fst k xs (length (upto_key fst k xs))" using key_hit_iff [OF so] by blast
    then show ?thesis using erase_hit_filter [OF so] by (simp add: erase_key_def Let_def lower_bound_upto [OF so])
  next
    case False
    then have "\<not> key_hit fst k xs (length (upto_key fst k xs))" using key_hit_iff [OF so] by blast
    moreover have "filter (\<lambda>x. fst x \<noteq> k) xs = xs" using False by (auto simp: has_key_def filter_id_conv)
    ultimately show ?thesis by (simp add: erase_key_def Let_def lower_bound_upto [OF so])
  qed
qed

lemma map_of_erased: "map_of (filter (\<lambda>x. fst x \<noteq> k) xs) = (map_of xs)(k := None)"
  by (induction xs) (auto simp: fun_eq_iff)

lemma has_key_map_of: "has_key fst k xs \<longleftrightarrow> map_of xs k \<noteq> None"
  by (simp add: has_key_def map_of_eq_None_iff)

section \<open>What a merge does\<close>

text \<open>A manager between two operations: every service has its thread, and no service has the reserved name.\<close>

definition mg_inv :: "manager \<Rightarrow> bool" where
  "mg_inv m \<longleftrightarrow> ksorted fst (mg_services m) \<and> ksorted fst (mg_threads m)
     \<and> fst ` set (mg_threads m) = fst ` set (mg_services m) \<and> (\<forall>h \<in> fst ` set (mg_services m). \<not> reserved h)"

text \<open>The operating system gives \<open>n\<close> more pipes and takes what is written to them.\<close>

definition resources :: "nat \<Rightarrow> manager \<Rightarrow> bool" where
  "resources n m \<longleftrightarrow> n \<le> length (mg_pipes m) \<and> None \<notin> set (mg_pipes m) \<and> (\<forall>as \<in> set (mg_writes m). WriteFailed \<notin> set as)"

lemma notify_loop_written: "WriteFailed \<notin> set as \<Longrightarrow> fst (notify_loop as buf pipe)"
  by (induction as arbitrary: buf pipe) (auto simp: Let_def split: write_answer.split)

lemma stop_runs:
  assumes "ksorted fst (mg_threads m)" and "has_key fst h (mg_threads m)" and "resources n m"
  shows "\<exists>m'. stop h m = Inr m' \<and> resources n m' \<and> mg_services m' = mg_services m
    \<and> mg_threads m' = filter (\<lambda>x. fst x \<noteq> h) (mg_threads m) \<and> mg_log m' = mg_log m @ [Stopped h]"
proof -
  let ?as = "case mg_writes m of [] \<Rightarrow> [] | as # _ \<Rightarrow> as"
  have "WriteFailed \<notin> set ?as" using assms(3) by (cases "mg_writes m") (simp_all add: resources_def)
  then have w: "fst (notify_thread ?as SIGTERM [])" unfolding notify_thread_def by (rule notify_loop_written)
  obtain p where p: "notify_thread ?as SIGTERM [] = (True, p)" using w by (cases "notify_thread ?as SIGTERM []") auto
  have "\<forall>as \<in> set (tl (mg_writes m)). WriteFailed \<notin> set as" using assms(3) by (cases "mg_writes m") (auto simp: resources_def)
  then show ?thesis
    using assms(2,3) unfolding stop_def p by (simp add: resources_def erase_key_spec [OF assms(1)])
qed

lemma map_of_filter_keys:
  "map_of (filter (\<lambda>x. has_key fst (fst x) config) xs) h = (if has_key fst h config then map_of xs h else None)"
  by (induction xs) auto

lemma keys_filter: "fst ` {x \<in> set xs. P (fst x)} = {k \<in> fst ` set xs. P k}"
  by auto

lemma filter_kept:
  "\<not> has_key fst k config \<Longrightarrow> filter (\<lambda>x. has_key fst (fst x) config \<or> fst x \<notin> K) (filter (\<lambda>y. fst y \<noteq> k) zs)
    = filter (\<lambda>y. has_key fst (fst y) config \<or> fst y \<notin> insert k K) zs"
  by (auto simp: filter_filter intro!: filter_cong)

lemma filter_kept_skip:
  "has_key fst k config \<Longrightarrow> filter (\<lambda>x. has_key fst (fst x) config \<or> fst x \<notin> K) zs
    = filter (\<lambda>y. has_key fst (fst y) config \<or> fst y \<notin> insert k K) zs"
  by (auto intro!: filter_cong)

lemma merge_removed_runs:
  assumes "ksorted fst (mg_services m)" and "ksorted fst (mg_threads m)" and "fst ` set ss \<subseteq> fst ` set (mg_threads m)"
    and "distinct (map fst ss)" and "resources n m"
  shows "\<exists>m'. merge_removed config ss m = Inr m' \<and> resources n m'
    \<and> mg_services m' = filter (\<lambda>x. has_key fst (fst x) config \<or> fst x \<notin> fst ` set ss) (mg_services m)
    \<and> mg_threads m' = filter (\<lambda>x. has_key fst (fst x) config \<or> fst x \<notin> fst ` set ss) (mg_threads m)
    \<and> mg_log m' = mg_log m @ map (\<lambda>x. Stopped (fst x)) (filter (\<lambda>x. \<not> has_key fst (fst x) config) ss)"
  using assms
proof (induction ss arbitrary: m)
  case Nil
  then show ?case by simp
next
  case (Cons x ss)
  show ?case
  proof (cases "has_key fst (fst x) config")
    case True
    then show ?thesis using Cons.IH [of m] Cons.prems by (simp add: filter_kept_skip [OF True])
  next
    case False
    obtain m1 where m1: "stop (fst x) m = Inr m1" "resources n m1" "mg_services m1 = mg_services m"
        "mg_threads m1 = filter (\<lambda>y. fst y \<noteq> fst x) (mg_threads m)" "mg_log m1 = mg_log m @ [Stopped (fst x)]"
      using stop_runs [OF Cons.prems(2) _ Cons.prems(5), of "fst x"] Cons.prems(3) by (auto simp: has_key_def)
    let ?m2 = "m1\<lparr>mg_services := erase_key (fst x) (mg_services m1)\<rparr>"
    have s2: "mg_services ?m2 = filter (\<lambda>y. fst y \<noteq> fst x) (mg_services m)" "mg_threads ?m2 = filter (\<lambda>y. fst y \<noteq> fst x) (mg_threads m)"
      using m1(3,4) erase_key_spec [OF Cons.prems(1)] by simp_all
    have "fst ` set ss \<subseteq> fst ` set (mg_threads ?m2)"
    proof
      fix k
      assume k: "k \<in> fst ` set ss"
      have "k \<noteq> fst x" using k Cons.prems(4) by (metis distinct.simps(2) list.simps(9) list.set_map)
      moreover have "k \<in> fst ` set (mg_threads m)" using k Cons.prems(3) by (meson image_mono set_subset_Cons subsetD)
      ultimately show "k \<in> fst ` set (mg_threads ?m2)" unfolding s2 by auto
    qed
    moreover have "ksorted fst (mg_services ?m2)" "ksorted fst (mg_threads ?m2)"
      unfolding s2 by (simp_all add: ksorted_filter Cons.prems)
    moreover have "resources n ?m2" using m1(2) by (simp add: resources_def)
    ultimately obtain m' where m': "merge_removed config ss ?m2 = Inr m'" "resources n m'"
        "mg_services m' = filter (\<lambda>x. has_key fst (fst x) config \<or> fst x \<notin> fst ` set ss) (mg_services ?m2)"
        "mg_threads m' = filter (\<lambda>x. has_key fst (fst x) config \<or> fst x \<notin> fst ` set ss) (mg_threads ?m2)"
        "mg_log m' = mg_log ?m2 @ map (\<lambda>x. Stopped (fst x)) (filter (\<lambda>x. \<not> has_key fst (fst x) config) ss)"
      using Cons.IH [of ?m2] Cons.prems(4) by auto
    show ?thesis using False m1(1,5) m' unfolding s2 filter_kept [OF False] by simp
  qed
qed

text \<open>What the second loop does for one section, given the services there were.\<close>

definition plan :: "(string \<rightharpoonup> config_section) \<Rightarrow> string \<times> config_section \<Rightarrow> action list" where
  "plan old hs =
     (if reserved (fst hs) then []
      else case old (fst hs) of
          None \<Rightarrow> [Started (fst hs) (snd hs)]
        | Some conf \<Rightarrow> if conf = snd hs then [] else [Stopped (fst hs), Started (fst hs) (snd hs)])"

lemma emplace_service_runs:
  assumes "ksorted fst (mg_services m)" and "ksorted fst (mg_threads m)" and "\<not> has_key fst h (mg_services m)" and "\<not> has_key fst h (mg_threads m)"
    and "resources (Suc n) m" and "construct conf"
  shows "\<exists>m'. emplace_service construct h conf m = Inr m' \<and> resources n m'
    \<and> mg_services m' = emplace h conf (mg_services m) \<and> (\<exists>p. mg_threads m' = emplace h p (mg_threads m))
    \<and> mg_log m' = mg_log m @ [Started h conf]"
proof -
  have "mg_pipes m \<noteq> []" "None \<notin> set (mg_pipes m)" using assms(5) by (auto simp: resources_def)
  then obtain p ps where p: "mg_pipes m = Some p # ps" by (metis list.exhaust list.set_intros(1) option.exhaust)
  obtain a b where "p = (a, b)" by fastforce
  then show ?thesis using p assms by (auto simp: emplace_service_def start_def resources_def)
qed

lemma merge_section_runs:
  assumes "mg_inv m" and "resources (Suc n) m" and "construct (snd hs)"
  shows "\<exists>m'. merge_section construct hs m = Inr m' \<and> mg_inv m' \<and> resources n m'
    \<and> map_of (mg_services m') = (if reserved (fst hs) then map_of (mg_services m) else (map_of (mg_services m))(fst hs \<mapsto> snd hs))
    \<and> mg_log m' = mg_log m @ plan (map_of (mg_services m)) hs"
proof -
  obtain h conf where hs: "hs = (h, conf)" by fastforce
  have so: "ksorted fst (mg_services m)" "ksorted fst (mg_threads m)" and dom: "fst ` set (mg_threads m) = fst ` set (mg_services m)"
    and res: "\<forall>h \<in> fst ` set (mg_services m). \<not> reserved h" using assms(1) by (auto simp: mg_inv_def)
  have r0: "resources n m" using assms(2) by (simp add: resources_def)
  have fresh: "\<exists>m'. emplace_service construct h conf m0 = Inr m' \<and> mg_inv m' \<and> resources n m'
      \<and> map_of (mg_services m') = (map_of (mg_services m0))(h \<mapsto> conf) \<and> mg_log m' = mg_log m0 @ [Started h conf]"
    if m0: "mg_inv m0" "resources (Suc n) m0" "\<not> has_key fst h (mg_services m0)" "\<not> reserved h" for m0
  proof -
    have so0: "ksorted fst (mg_services m0)" "ksorted fst (mg_threads m0)" "\<not> has_key fst h (mg_threads m0)"
      using m0 by (auto simp: mg_inv_def has_key_def)
    obtain m' p where m': "emplace_service construct h conf m0 = Inr m'" "resources n m'"
        "mg_services m' = emplace h conf (mg_services m0)" "mg_threads m' = emplace h p (mg_threads m0)" "mg_log m' = mg_log m0 @ [Started h conf]"
      using emplace_service_runs [OF so0(1,2) m0(3) so0(3) m0(2), of construct conf] assms(3) hs by auto
    note e1 = emplace_spec [OF so0(1) m0(3), of conf] and e2 = emplace_spec [OF so0(2,3), of p]
    have "mg_inv m'" using m0(1,4) m' e1(1,2) e2(1,2) by (auto simp: mg_inv_def)
    then show ?thesis using m' e1(3) by simp
  qed
  consider (skip) "reserved h" | (new) "\<not> reserved h" "map_of (mg_services m) h = None"
    | (same) "\<not> reserved h" "map_of (mg_services m) h = Some conf"
    | (changed) c where "\<not> reserved h" "map_of (mg_services m) h = Some c" "c \<noteq> conf" by fastforce
  then show ?thesis
  proof cases
    case skip
    then show ?thesis using assms(1) r0 hs by (simp add: merge_section_def plan_def)
  next
    case new
    then show ?thesis using fresh [OF assms(1,2)] hs by (simp add: merge_section_def plan_def has_key_map_of)
  next
    case same
    then show ?thesis using assms(1) r0 hs by (simp add: merge_section_def plan_def fun_upd_idem)
  next
    case changed
    then have k: "has_key fst h (mg_services m)" "has_key fst h (mg_threads m)" using dom unfolding has_key_def by (auto simp: map_of_eq_None_iff [symmetric] simp del: not_None_eq dest: map_of_SomeD intro: rev_image_eqI)
    obtain m1 where m1: "stop h m = Inr m1" "resources (Suc n) m1" "mg_services m1 = mg_services m"
        "mg_threads m1 = filter (\<lambda>x. fst x \<noteq> h) (mg_threads m)" "mg_log m1 = mg_log m @ [Stopped h]"
      using stop_runs [OF so(2) k(2) assms(2)] by blast
    let ?m2 = "m1\<lparr>mg_services := erase_key h (mg_services m1)\<rparr>"
    have s2: "mg_services ?m2 = filter (\<lambda>x. fst x \<noteq> h) (mg_services m)" using m1(3) erase_key_spec [OF so(1)] by simp
    have "mg_inv ?m2" using so dom res m1(4) s2 by (auto simp: mg_inv_def ksorted_filter image_iff)
    moreover have "resources (Suc n) ?m2" using m1(2) by (simp add: resources_def)
    moreover have "\<not> has_key fst h (mg_services ?m2)" unfolding s2 by (auto simp: has_key_def)
    ultimately obtain m' where "emplace_service construct h conf ?m2 = Inr m'" "mg_inv m'" "resources n m'"
        "map_of (mg_services m') = (map_of (mg_services ?m2))(h \<mapsto> conf)" "mg_log m' = mg_log ?m2 @ [Started h conf]"
      using fresh changed(1) by blast
    then show ?thesis using changed m1 hs s2 by (simp add: merge_section_def plan_def map_of_erased)
  qed
qed

lemma merge_sections_runs:
  assumes "mg_inv m" and "resources (length config) m" and "\<forall>hs \<in> set config. construct (snd hs)" and "distinct (map fst config)"
  shows "\<exists>m'. merge_sections construct config m = Inr m' \<and> mg_inv m'
    \<and> map_of (mg_services m') = map_of (mg_services m) ++ map_of (filter (\<lambda>hs. \<not> reserved (fst hs)) config)
    \<and> mg_log m' = mg_log m @ concat (map (plan (map_of (mg_services m))) config)"
  using assms
proof (induction config arbitrary: m)
  case Nil
  then show ?case by simp
next
  case (Cons hs config)
  let ?old = "map_of (mg_services m)"
  obtain m1 where m1: "merge_section construct hs m = Inr m1" "mg_inv m1" "resources (length config) m1"
      "map_of (mg_services m1) = (if reserved (fst hs) then ?old else ?old(fst hs \<mapsto> snd hs))" "mg_log m1 = mg_log m @ plan ?old hs"
    using merge_section_runs [OF Cons.prems(1), of "length config" construct hs] Cons.prems(2,3) by auto
  obtain m' where m': "merge_sections construct config m1 = Inr m'" "mg_inv m'"
      "map_of (mg_services m') = map_of (mg_services m1) ++ map_of (filter (\<lambda>hs. \<not> reserved (fst hs)) config)"
      "mg_log m' = mg_log m1 @ concat (map (plan (map_of (mg_services m1))) config)"
    using Cons.IH [OF m1(2,3)] Cons.prems(3,4) by auto
  have fresh: "fst x \<noteq> fst hs" if "x \<in> set config" for x using Cons.prems(4) that by (metis distinct.simps(2) image_eqI list.simps(9) list.set_map)
  have "map (plan (map_of (mg_services m1))) config = map (plan ?old) config"
    using fresh m1(4) by (intro map_cong) (simp_all add: plan_def)
  moreover have "?old(fst hs \<mapsto> snd hs) ++ map_of (filter (\<lambda>hs. \<not> reserved (fst hs)) config)
      = ?old ++ (map_of (filter (\<lambda>hs. \<not> reserved (fst hs)) config))(fst hs \<mapsto> snd hs)"
  proof -
    have "fst hs \<notin> dom (map_of (filter (\<lambda>hs. \<not> reserved (fst hs)) config))"
      by (auto simp: dom_map_of_conv_image_fst dest: fresh)
    then show ?thesis by (simp add: map_add_upd_left)
  qed
  moreover have "mg_log m' = mg_log m @ concat (map (plan ?old) (hs # config))"
    using m'(4) m1(5) calculation(1) by simp
  ultimately show ?case using m1(1,4) m'(1-3) by (cases hs) simp
qed

section \<open>Properties\<close>

text \<open>C24: merging a configuration leaves exactly the services of its sections (the reserved one apart), each with its
  thread. Services without a section are stopped, those whose section is new are started, those whose section
  changed are stopped and then started again, and the threads of all others are left alone.\<close>

theorem merge_applies_config:
  assumes "mg_inv m" and "ksorted fst config" and "resources (length config) m" and "\<forall>hs \<in> set config. construct (snd hs)"
  shows "\<exists>m'. merge_config construct config m = Inr m' \<and> mg_inv m'
    \<and> map_of (mg_services m') = map_of (filter (\<lambda>hs. \<not> reserved (fst hs)) config)
    \<and> mg_log m' = mg_log m @ map (\<lambda>x. Stopped (fst x)) (filter (\<lambda>x. \<not> has_key fst (fst x) config) (mg_services m))
        @ concat (map (plan (map_of (mg_services m))) config)"
proof -
  let ?keep = "\<lambda>x. has_key fst (fst x) config"
  have so: "ksorted fst (mg_services m)" "ksorted fst (mg_threads m)" and dom: "fst ` set (mg_threads m) = fst ` set (mg_services m)"
    and res: "\<forall>h \<in> fst ` set (mg_services m). \<not> reserved h" using assms(1) by (auto simp: mg_inv_def)
  obtain m1 where m1: "merge_removed config (mg_services m) m = Inr m1" "resources (length config) m1"
      "mg_services m1 = filter (\<lambda>x. has_key fst (fst x) config \<or> fst x \<notin> fst ` set (mg_services m)) (mg_services m)"
      "mg_threads m1 = filter (\<lambda>x. has_key fst (fst x) config \<or> fst x \<notin> fst ` set (mg_services m)) (mg_threads m)"
      "mg_log m1 = mg_log m @ map (\<lambda>x. Stopped (fst x)) (filter (\<lambda>x. \<not> has_key fst (fst x) config) (mg_services m))"
    using merge_removed_runs [OF so equalityD2 [OF dom] ksorted_distinct [OF so(1)] assms(3), of config] by (elim exE conjE)
  have s1: "mg_services m1 = filter ?keep (mg_services m)" unfolding m1(3) by (intro filter_cong) auto
  have t1: "mg_threads m1 = filter ?keep (mg_threads m)"
    unfolding m1(4) dom [symmetric] by (intro filter_cong) auto
  have inv1: "mg_inv m1" using so dom res unfolding mg_inv_def s1 t1 by (auto simp: ksorted_filter keys_filter [where P = "\<lambda>k. has_key fst k config"])
  obtain m' where m': "merge_sections construct config m1 = Inr m'" "mg_inv m'"
      "map_of (mg_services m') = map_of (mg_services m1) ++ map_of (filter (\<lambda>hs. \<not> reserved (fst hs)) config)"
      "mg_log m' = mg_log m1 @ concat (map (plan (map_of (mg_services m1))) config)"
    using merge_sections_runs [OF inv1 m1(2) assms(4) ksorted_distinct [OF assms(2)]] by (elim exE conjE)
  have old: "map_of (mg_services m1) h = (if has_key fst h config then map_of (mg_services m) h else None)" for h
    unfolding s1 by (rule map_of_filter_keys)
  have "map (plan (map_of (mg_services m1))) config = map (plan (map_of (mg_services m))) config"
    using old by (intro map_cong) (auto simp: plan_def has_key_def)
  note log = m'(4) [unfolded this]
  have "map_of (mg_services m1) ++ map_of (filter (\<lambda>hs. \<not> reserved (fst hs)) config) = map_of (filter (\<lambda>hs. \<not> reserved (fst hs)) config)"
  proof -
    have "dom (map_of (mg_services m1)) \<subseteq> dom (map_of (filter (\<lambda>hs. \<not> reserved (fst hs)) config))"
    proof
      fix h
      assume h: "h \<in> dom (map_of (mg_services m1))"
      then have "has_key fst h config" "h \<in> fst ` set (mg_services m)" using s1 by (auto simp: dom_map_of_conv_image_fst)
      then show "h \<in> dom (map_of (filter (\<lambda>hs. \<not> reserved (fst hs)) config))"
        using res by (auto simp: dom_map_of_conv_image_fst has_key_def image_iff)
    qed
    then show ?thesis by (auto simp: map_add_def fun_eq_iff dom_def split: option.split)
  qed
  then show ?thesis using m1(1,5) m'(1-3) log by (simp add: merge_config_def)
qed

text \<open>Three services of which one is kept, one changed, one removed, and a new one.\<close>

definition sample_manager :: manager where
  "sample_manager = \<lparr>mg_services = [(''a'', []), (''b'', []), (''c'', [])], mg_threads = [(''a'', 3, 4), (''b'', 5, 6), (''c'', 7, 8)],
     mg_pipes = replicate 4 (Some (9, 10)), mg_writes = [], mg_log = [], mg_mtime = 0, mg_file = None\<rparr>"

lemma sample_manager_inv: "mg_inv sample_manager" "resources 4 sample_manager"
  by (auto simp: sample_manager_def mg_inv_def resources_def ksorted_def reserved_def)

theorem merge_applies_config_witness:
  "\<exists>m'. merge_config (\<lambda>_. True) [(''Cloudbus'', []), (''a'', []), (''b'', [(''k'', ''v'')]), (''d'', [])] sample_manager = Inr m'
     \<and> mg_log m' = [Stopped ''c'', Stopped ''b'', Started ''b'' [(''k'', ''v'')], Started ''d'' []]"
proof -
  let ?c = "[(''Cloudbus'', []), (''a'', []), (''b'', [(''k'', ''v'')]), (''d'', [])] :: sections"
  have so: "ksorted fst ?c" by (simp add: ksorted_def)
  have r: "reserved ''Cloudbus''" "\<not> reserved ''a''" "\<not> reserved ''b''" "\<not> reserved ''d''" by code_simp+
  have n: "resources (length ?c) sample_manager" using sample_manager_inv(2) by (simp add: resources_def)
  show ?thesis
    using merge_applies_config [OF sample_manager_inv(1) so n, of "\<lambda>_. True"] r
    by (auto simp: sample_manager_def has_key_def plan_def)
qed

text \<open>merging the configuration that is in force changes nothing: no thread is stopped or started.\<close>

theorem merge_same_config_idle:
  assumes "mg_inv m" and "ksorted fst config" and "map_of (mg_services m) = map_of (filter (\<lambda>hs. \<not> reserved (fst hs)) config)"
  shows "merge_config construct config m = Inr m"
proof -
  have key: "has_key fst (fst s) config" if "s \<in> set (mg_services m)" for s
  proof -
    have "fst s \<in> dom (map_of (mg_services m))" using that by (auto simp: dom_map_of_conv_image_fst)
    then show ?thesis unfolding assms(3) by (auto simp: dom_map_of_conv_image_fst has_key_def)
  qed
  have "merge_removed config ss m = Inr m" if "\<forall>s \<in> set ss. has_key fst (fst s) config" for ss
    using that by (induction ss) auto
  moreover have "merge_section construct hs m = Inr m" if hs: "hs \<in> set config" for hs
  proof (cases "reserved (fst hs)")
    case True
    then show ?thesis by (cases hs) (simp add: merge_section_def)
  next
    case False
    have "distinct (map fst (filter (\<lambda>hs. \<not> reserved (fst hs)) config))"
      using ksorted_distinct [OF ksorted_filter [OF assms(2)]] .
    then have "map_of (filter (\<lambda>hs. \<not> reserved (fst hs)) config) (fst hs) = Some (snd hs)"
      using False hs by (intro map_of_is_SomeI) auto
    then show ?thesis using False assms(3) by (cases hs) (simp add: merge_section_def)
  qed
  then have "merge_sections construct ss m = Inr m" if "set ss \<subseteq> set config" for ss
    using that by (induction ss) auto
  ultimately show ?thesis using key by (simp add: merge_config_def)
qed

theorem merge_same_config_idle_witness:
  "merge_config (\<lambda>_. False) [(''a'', []), (''b'', []), (''c'', []), (''cloudbus'', [(''k'', ''v'')])] sample_manager = Inr sample_manager"
proof -
  have r: "reserved ''cloudbus''" "\<not> reserved ''a''" "\<not> reserved ''b''" "\<not> reserved ''c''" by code_simp+
  show ?thesis
    by (rule merge_same_config_idle [OF sample_manager_inv(1)]) (use r in \<open>simp_all add: ksorted_def sample_manager_def\<close>)
qed

section \<open>Notices and signals\<close>

lemma notify_loop_complete:
  assumes "buf \<noteq> []" and "WriteFailed \<notin> set as" and "Wrote 0 \<notin> set as"
  shows "notify_loop as buf pipe = (True, pipe @ buf)"
  using assms
proof (induction as arbitrary: buf pipe)
  case (Cons a as)
  show ?case
  proof (cases a)
    case (Wrote n)
    have "0 < n" using Cons.prems Wrote by (cases n) auto
    moreover have "notify_loop as (drop n buf) (pipe @ take n buf) = (True, pipe @ buf)" if "n < length buf"
      using Cons.IH [of "drop n buf" "pipe @ take n buf"] Cons.prems that by auto
    ultimately show ?thesis using Wrote Cons.prems(1) by (auto simp: Let_def min_def)
  qed (use Cons in auto)
qed simp

lemma read_loop_complete:
  assumes "length buf < 4" and "length buf + length pipe = 4" and "ReadFailed \<notin> set as" and "ReadEof \<notin> set as" and "Got 0 \<notin> set as"
  shows "read_loop as buf pipe = Some (buf @ pipe, [])"
  using assms
proof (induction as arbitrary: buf pipe)
  case (Cons a as)
  show ?case
  proof (cases a)
    case (Got n)
    have "0 < n" using Cons.prems Got by (cases n) auto
    moreover have "read_loop as (buf @ take n pipe) (drop n pipe) = Some (buf @ pipe, [])" if "n < length pipe"
      using Cons.IH [of "buf @ take n pipe" "drop n pipe"] Cons.prems that by auto
    ultimately show ?thesis using Got Cons.prems by (auto simp: Let_def min_def)
  qed (use Cons in auto)
qed simp

text \<open>a notice arrives as it was sent. However the bytes of a signal number are split between calls of \<^verbatim>\<open>write\<close> and of
  \<^verbatim>\<open>read\<close> and whatever calls are interrupted, the node reads the number the manager wrote and the pipe is empty again.\<close>

theorem notice_roundtrip:
  assumes "WriteFailed \<notin> set ws" and "Wrote 0 \<notin> set ws" and "ReadFailed \<notin> set rs" and "ReadEof \<notin> set rs" and "Got 0 \<notin> set rs"
    and "- 2147483648 \<le> sig" and "sig < 2147483648"
  shows "\<exists>pipe. notify_thread ws sig [] = (True, pipe) \<and> read_notice rs pipe = Some (sig, [])"
proof -
  let ?b = "le32 (word_of_int sig)"
  have ne: "?b \<noteq> []" using length_le32 [of "word_of_int sig"] by (metis length_0_conv zero_neq_numeral)
  have w: "notify_thread ws sig [] = (True, ?b)" using notify_loop_complete [OF ne assms(1,2)] by (simp add: notify_thread_def)
  have r: "read_loop rs [] ?b = Some (?b, [])" using read_loop_complete [OF _ _ assms(3-5), of "[]" ?b] by simp
  have "sint (word_of_int sig :: u32) = sig" using assms(6,7) by (simp add: signed_of_int signed_take_bit_int_eq_self)
  then show ?thesis using w r by (simp add: read_notice_def int_of_bytes_def)
qed

theorem notice_roundtrip_witness:
  "\<exists>pipe. notify_thread [Wrote 1, WriteEintr, Wrote 2] SIGTERM [] = (True, pipe) \<and> read_notice [Got 3, ReadEintr] pipe = Some (SIGTERM, [])"
  by (rule notice_roundtrip) (simp_all add: SIGTERM_def)

lemma stop_all_runs:
  assumes "ksorted fst (mg_threads m)" and "resources n m" and "names = map fst (mg_threads m)"
  shows "\<exists>m'. stop_all names m = Inr m' \<and> mg_threads m' = [] \<and> mg_log m' = mg_log m @ map Stopped names"
  using assms
proof (induction names arbitrary: m)
  case Nil
  then show ?case by simp
next
  case (Cons h names)
  then obtain p ts where t: "mg_threads m = (h, p) # ts" "names = map fst ts" by (cases "mg_threads m") auto
  then have k: "has_key fst h (mg_threads m)" and ks: "ksorted fst ts" "\<forall>x \<in> set ts. fst x \<noteq> h"
    using Cons.prems(1) by (auto simp: has_key_def ksorted_Cons)
  obtain m1 where m1: "stop h m = Inr m1" "resources n m1" "mg_threads m1 = filter (\<lambda>x. fst x \<noteq> h) (mg_threads m)" "mg_log m1 = mg_log m @ [Stopped h]"
    using stop_runs [OF Cons.prems(1) k Cons.prems(2)] by blast
  have t1: "mg_threads m1 = ts" using m1(3) t(1) ks(2) by (simp add: filter_id_conv)
  show ?case using Cons.IH [of m1] ks(1) m1 t t1 by auto
qed

text \<open>a signal to stop ends the manager after all of its threads: it stops them one after the other, in the order of
  their names, and returns the signal with no thread left. A pending change of the configuration is not
  applied when the signal is an interrupt or a hang-up.\<close>

theorem stop_signal_stops_all:
  assumes "mg_inv m" and "resources n m" and "sf_hup fl = SIGHUP \<and> sig = SIGHUP \<or> sf_hup fl = 0 \<and> sf_int fl = SIGINT \<and> sig = SIGINT
      \<or> sf_hup fl = 0 \<and> sf_int fl = 0 \<and> sf_usr1 fl = 0 \<and> sf_term fl = SIGTERM \<and> sig = SIGTERM"
  shows "\<exists>m'. manager_run construct naps fl m = Returned sig m' \<and> mg_threads m' = []
    \<and> mg_log m' = mg_log m @ map Stopped (map fst (mg_threads m))"
proof -
  have so: "ksorted fst (mg_threads m)" using assms(1) by (simp add: mg_inv_def)
  obtain m' where m': "stop_all (map fst (mg_threads m)) m = Inr m'" "mg_threads m' = []" "mg_log m' = mg_log m @ map Stopped (map fst (mg_threads m))"
    using stop_all_runs [OF so assms(2) refl] by blast
  have h: "handle_signal construct sig m = Inr (0, m')"
    using assms(3) m'(1) by (auto simp: handle_signal_def base_handle_signal_def stop_signal_def SIGTERM_def SIGINT_def SIGHUP_def SIGUSR1_def)
  have "\<exists>fl'. manager_pass construct fl m = Inr (Some sig, m', fl')"
    using assms(3) h by (auto simp: manager_pass_def SIGTERM_def SIGINT_def SIGHUP_def)
  then show ?thesis using m'(2,3) by (cases naps) auto
qed

theorem stop_signal_stops_all_witness:
  "\<exists>m'. manager_run (\<lambda>_. True) [Slept (Some 5) None] \<lparr>sf_hup = 0, sf_int = 0, sf_term = SIGTERM, sf_usr1 = 0\<rparr> sample_manager = Returned SIGTERM m'
     \<and> mg_log m' = [Stopped ''a'', Stopped ''b'', Stopped ''c'']"
  using stop_signal_stops_all [OF sample_manager_inv(1,2), of "\<lparr>sf_hup = 0, sf_int = 0, sf_term = SIGTERM, sf_usr1 = 0\<rparr>" SIGTERM "\<lambda>_. True" "[Slept (Some 5) None]"]
  by (auto simp: sample_manager_def simp del: manager_run.simps)

end
