(* ===== verification/Logging.thy ===== *)
theory Logging
  imports Config
begin

text \<open>
  The log (\<^verbatim>\<open>src/logging/logging.hpp\<close>, \<^verbatim>\<open>logging.cpp\<close>). The logger is one object for the whole process: its level and the output stream
  it writes to (streams are numbered, 0 is the standard output), with the text written to every stream so far and how
  much of it has been flushed. A line is written under a lock, in one step. What the C library makes of the
  clock's seconds (\<^verbatim>\<open>localtime_r\<close>) is an argument.
  Shown: a line is written exactly when its level is at most the level set, and every line has the same columns, from which
  its level, its time and its message are read back.
\<close>

section \<open>Levels\<close>

datatype level = EMERGENCY | ALERT | CRITICAL | ERROR | WARNING | NOTICE | INFORMATIONAL | DEBUG

fun level_no :: "level \<Rightarrow> nat" where
  "level_no EMERGENCY = 0" | "level_no ALERT = 1" | "level_no CRITICAL = 2" | "level_no ERROR = 3"
| "level_no WARNING = 4" | "level_no NOTICE = 5" | "level_no INFORMATIONAL = 6" | "level_no DEBUG = 7"

instantiation level :: linorder
begin

definition less_eq_level :: "level \<Rightarrow> level \<Rightarrow> bool" where
  "less_eq_level a b \<longleftrightarrow> level_no a \<le> level_no b"

definition less_level :: "level \<Rightarrow> level \<Rightarrow> bool" where
  "less_level a b \<longleftrightarrow> level_no a < level_no b"

instance
proof
  fix a b :: level
  assume "a \<le> b" "b \<le> a"
  then show "a = b" by (cases a; cases b) (simp_all add: less_eq_level_def)
qed (auto simp: less_eq_level_def less_level_def)

end

fun levelToString :: "level \<Rightarrow> string" where
  "levelToString EMERGENCY = ''EMERGENCY''"
| "levelToString ALERT = ''ALERT    ''"
| "levelToString CRITICAL = ''CRITICAL ''"
| "levelToString ERROR = ''ERROR    ''"
| "levelToString WARNING = ''WARNING  ''"
| "levelToString NOTICE = ''NOTICE   ''"
| "levelToString INFORMATIONAL = ''INFO     ''"
| "levelToString DEBUG = ''DEBUG    ''"

section \<open>The time of a line\<close>

record tm =
  tm_year :: int
  tm_mon :: nat
  tm_mday :: nat
  tm_hour :: nat
  tm_min :: nat
  tm_sec :: nat

text \<open>A number in decimal, with zeros in front: the fields of \<^verbatim>\<open>std::put_time\<close> and \<^verbatim>\<open>std::setw\<close> with \<^verbatim>\<open>setfill('0')\<close>, for the years 1000 to 9999.\<close>

primrec pad_dec :: "nat \<Rightarrow> nat \<Rightarrow> string" where
  "pad_dec 0 n = []"
| "pad_dec (Suc k) n = pad_dec k (n div 10) @ [char_of (48 + n mod 10)]"

text \<open>The clock counts nanoseconds since 1970.\<close>

definition to_milliseconds :: "nat \<Rightarrow> nat" where
  "to_milliseconds duration = duration div 1000000"

definition getCurrentTimestamp :: "(nat \<Rightarrow> tm) \<Rightarrow> nat \<Rightarrow> string" where
  "getCurrentTimestamp localtime now =
     (let tm_buf = localtime (now div 1000000000); ms = to_milliseconds now mod 1000 in
      pad_dec 4 (nat (tm_year tm_buf + 1900)) @ ''-'' @ pad_dec 2 (tm_mon tm_buf + 1) @ ''-'' @ pad_dec 2 (tm_mday tm_buf) @ '' '' @
      pad_dec 2 (tm_hour tm_buf) @ '':'' @ pad_dec 2 (tm_min tm_buf) @ '':'' @ pad_dec 2 (tm_sec tm_buf) @ ''.'' @ pad_dec 3 ms)"

section \<open>The logger\<close>

record logger =
  lg_level :: level
  lg_target :: nat
  lg_text :: "nat \<Rightarrow> string"
  lg_synced :: "nat \<Rightarrow> nat"

definition logger_make :: logger where
  "logger_make = \<lparr>lg_level = WARNING, lg_target = 0, lg_text = (\<lambda>_. []), lg_synced = (\<lambda>_. 0)\<rparr>"

definition setOutputStream :: "nat \<Rightarrow> 'a logger_scheme \<Rightarrow> 'a logger_scheme" where
  "setOutputStream stream g = g\<lparr>lg_target := stream\<rparr>"

definition resetOutputStream :: "'a logger_scheme \<Rightarrow> 'a logger_scheme" where
  "resetOutputStream g = g\<lparr>lg_target := 0\<rparr>"

definition getLevel :: "'a logger_scheme \<Rightarrow> level" where
  "getLevel g = lg_level g"

definition log_line :: "string \<Rightarrow> level \<Rightarrow> string \<Rightarrow> string" where
  "log_line timestamp level message =
     ''<'' @ [char_of (48 + level_no level)] @ ''> '' @ ''<'' @ levelToString level @ ''> '' @ ''<'' @ timestamp @ ''> '' @ message @ [NL]"

text \<open>\<^verbatim>\<open>log\<close>; \<open>timestamp\<close> is what \<^verbatim>\<open>getCurrentTimestamp\<close> returns when it is called.\<close>

definition log_message :: "string \<Rightarrow> level \<Rightarrow> string \<Rightarrow> 'a logger_scheme \<Rightarrow> 'a logger_scheme" where
  "log_message timestamp level message g =
     (if level \<le> getLevel g
      then g\<lparr>lg_text := (lg_text g)(lg_target g := lg_text g (lg_target g) @ log_line timestamp level message)\<rparr>
      else g)"

definition log_flush :: "'a logger_scheme \<Rightarrow> 'a logger_scheme" where
  "log_flush g = g\<lparr>lg_synced := (lg_synced g)(lg_target g := length (lg_text g (lg_target g)))\<rparr>"

definition log_emergency :: "string \<Rightarrow> string \<Rightarrow> 'a logger_scheme \<Rightarrow> 'a logger_scheme" where
  "log_emergency timestamp message = log_message timestamp EMERGENCY message"

definition log_alert :: "string \<Rightarrow> string \<Rightarrow> 'a logger_scheme \<Rightarrow> 'a logger_scheme" where
  "log_alert timestamp message = log_message timestamp ALERT message"

definition log_critical :: "string \<Rightarrow> string \<Rightarrow> 'a logger_scheme \<Rightarrow> 'a logger_scheme" where
  "log_critical timestamp message = log_message timestamp CRITICAL message"

definition log_error :: "string \<Rightarrow> string \<Rightarrow> 'a logger_scheme \<Rightarrow> 'a logger_scheme" where
  "log_error timestamp message = log_message timestamp ERROR message"

definition log_warn :: "string \<Rightarrow> string \<Rightarrow> 'a logger_scheme \<Rightarrow> 'a logger_scheme" where
  "log_warn timestamp message = log_message timestamp WARNING message"

definition log_notice :: "string \<Rightarrow> string \<Rightarrow> 'a logger_scheme \<Rightarrow> 'a logger_scheme" where
  "log_notice timestamp message = log_message timestamp NOTICE message"

definition log_info :: "string \<Rightarrow> string \<Rightarrow> 'a logger_scheme \<Rightarrow> 'a logger_scheme" where
  "log_info timestamp message = log_message timestamp INFORMATIONAL message"

definition log_debug :: "string \<Rightarrow> string \<Rightarrow> 'a logger_scheme \<Rightarrow> 'a logger_scheme" where
  "log_debug timestamp message = log_message timestamp DEBUG message"

definition setLevel :: "string \<Rightarrow> level \<Rightarrow> 'a logger_scheme \<Rightarrow> 'a logger_scheme" where
  "setLevel timestamp level g = log_info timestamp (''Log level set to '' @ levelToString level) (g\<lparr>lg_level := level\<rparr>)"

section \<open>Columns\<close>

lemma pad_dec_length [simp]: "length (pad_dec k n) = k"
  by (induction k arbitrary: n) simp_all

text \<open>What a number of decimals reads as.\<close>

definition read_dec :: "string \<Rightarrow> nat" where
  "read_dec cs = foldl (\<lambda>n c. 10 * n + (of_char c - 48)) 0 cs"

lemma read_pad_dec: "read_dec (pad_dec k n) = n mod 10 ^ k"
proof (induction k arbitrary: n)
  case (Suc k)
  have "of_char (char_of (48 + n mod 10) :: char) = (48 + n mod 10 :: nat)" by simp
  then show ?case using Suc [of "n div 10"] by (simp add: read_dec_def mod_mult2_eq)
qed (simp add: read_dec_def)

lemma level_width: "length (levelToString l) = 9"
  by (cases l) simp_all

lemma timestamp_width: "length (getCurrentTimestamp localtime now) = 23"
  by (simp add: getCurrentTimestamp_def Let_def)

lemma level_no_inj: "level_no a = level_no b \<Longrightarrow> a = b"
  by (cases a; cases b) simp_all

text \<open>The columns of a line.\<close>

lemma log_line_columns:
  assumes "length timestamp = 23"
  shows "read_dec (take 1 (drop 1 (log_line timestamp level message))) = level_no level
    \<and> take 9 (drop 5 (log_line timestamp level message)) = levelToString level
    \<and> take 23 (drop 17 (log_line timestamp level message)) = timestamp
    \<and> drop 42 (log_line timestamp level message) = message @ [NL]"
proof -
  have "level_no level < 10" by (cases level) simp_all
  then show ?thesis using assms level_width [of level] by (simp add: log_line_def read_dec_def)
qed

text \<open>The fields of a time stamp.\<close>

lemma timestamp_fields:
  assumes "localtime (now div 1000000000) = t" and "- 900 \<le> tm_year t" and "tm_year t < 8100" and "tm_mon t < 12" and "tm_mday t \<le> 31"
    and "tm_hour t < 24" and "tm_min t < 60" and "tm_sec t \<le> 60"
  defines "text \<equiv> getCurrentTimestamp localtime now"
  shows "int (read_dec (take 4 text)) = tm_year t + 1900 \<and> read_dec (take 2 (drop 5 text)) = tm_mon t + 1
    \<and> read_dec (take 2 (drop 8 text)) = tm_mday t \<and> read_dec (take 2 (drop 11 text)) = tm_hour t
    \<and> read_dec (take 2 (drop 14 text)) = tm_min t \<and> read_dec (take 2 (drop 17 text)) = tm_sec t
    \<and> read_dec (drop 20 text) = to_milliseconds now mod 1000"
  using assms(1-8) unfolding text_def getCurrentTimestamp_def Let_def by (simp add: read_pad_dec)

section \<open>Properties\<close>

text \<open>a message is written exactly when its level is at most the level set, as one line at the end of the text of the current
  stream; level, time and message are read back from fixed columns of the line.\<close>

theorem log_line_readable:
  assumes "localtime (now div 1000000000) = t" and "- 900 \<le> tm_year t" and "tm_year t < 8100" and "tm_mon t < 12" and "tm_mday t \<le> 31"
    and "tm_hour t < 24" and "tm_min t < 60" and "tm_sec t \<le> 60"
  shows "level \<le> lg_level g \<Longrightarrow>
      \<exists>line. lg_text (log_message (getCurrentTimestamp localtime now) level message g) = (lg_text g)(lg_target g := lg_text g (lg_target g) @ line)
        \<and> read_dec (take 1 (drop 1 line)) = level_no level \<and> int (read_dec (take 4 (drop 17 line))) = tm_year t + 1900
        \<and> read_dec (take 3 (drop 37 line)) = to_milliseconds now mod 1000 \<and> drop 42 line = message @ [NL]"
    and "lg_level g < level \<Longrightarrow> log_message (getCurrentTimestamp localtime now) level message g = g"
proof -
  let ?t = "getCurrentTimestamp localtime now" and ?l = "log_line (getCurrentTimestamp localtime now) level message"
  note c = log_line_columns [OF timestamp_width [of localtime now], of level message] and f = timestamp_fields [of localtime now t]
  have "take 4 (drop 17 ?l) = take 4 (take 23 (drop 17 ?l))" "take 3 (drop 37 ?l) = drop 20 (take 23 (drop 17 ?l))"
    by (simp_all add: drop_take)
  then have "take 4 (drop 17 ?l) = take 4 ?t" "take 3 (drop 37 ?l) = drop 20 ?t" using c by simp_all
  then show "level \<le> lg_level g \<Longrightarrow> \<exists>line. lg_text (log_message ?t level message g) = (lg_text g)(lg_target g := lg_text g (lg_target g) @ line)
        \<and> read_dec (take 1 (drop 1 line)) = level_no level \<and> int (read_dec (take 4 (drop 17 line))) = tm_year t + 1900
        \<and> read_dec (take 3 (drop 37 line)) = to_milliseconds now mod 1000 \<and> drop 42 line = message @ [NL]"
    using c f assms by (intro exI [of _ ?l]) (simp add: log_message_def getLevel_def)
  show "lg_level g < level \<Longrightarrow> log_message ?t level message g = g" by (auto simp: log_message_def getLevel_def)
qed

theorem log_line_readable_witness:
  "\<exists>line. lg_text (log_message (getCurrentTimestamp (\<lambda>_. \<lparr>tm_year = 125, tm_mon = 0, tm_mday = 1, tm_hour = 0, tm_min = 0, tm_sec = 3\<rparr>) 5000000)
      ERROR ''down'' logger_make) = (lg_text logger_make)(0 := line) \<and> read_dec (take 4 (drop 17 line)) = 2025 \<and> drop 42 line = ''down'' @ [NL]"
  using log_line_readable(1) [of "\<lambda>_. \<lparr>tm_year = 125, tm_mon = 0, tm_mday = 1, tm_hour = 0, tm_min = 0, tm_sec = 3\<rparr>" 5000000 _ ERROR logger_make "''down''"]
  by (fastforce simp: logger_make_def less_eq_level_def)

text \<open>What has been flushed is part of what was written.\<close>

lemma log_synced:
  assumes "\<forall>k. lg_synced g k \<le> length (lg_text g k)"
  shows "\<forall>k. lg_synced (log_message timestamp level message g) k \<le> length (lg_text (log_message timestamp level message g) k)"
    and "\<forall>k. lg_synced (log_flush g) k \<le> length (lg_text (log_flush g) k)"
  using assms by (auto simp: log_message_def log_flush_def intro: le_trans)

end
