(* ===== verification/Startup.thy ===== *)
theory Startup
  imports Manager Logging
begin

text \<open>
  Starting the program (\<^verbatim>\<open>src/main.cpp\<close>, \<^verbatim>\<open>src/options/options.cpp\<close>). The state is the
  logger (\<open>Logging\<close>), the environment variable \<^verbatim>\<open>CONFIG_PATH\<close> and the text printed; the time stamp of a log line is an
  argument, and setting a variable of the environment is taken to succeed.
  Shown: a list of options with values has the effect of its options in order, and whatever follows a request for
  help or an invalid option is ignored.
\<close>

section \<open>The process\<close>

record process = logger +
  pr_config :: "string option"
  pr_out :: "string list"

section \<open>Options\<close>

definition level_of :: "string \<Rightarrow> level option" where
  "level_of text =
     (let level = map to_lower text in
      if level = ''emergency'' \<or> level = ''emerg'' \<or> level = ''0'' then Some EMERGENCY
      else if level = ''alert'' \<or> level = ''1'' then Some ALERT
      else if level = ''critical'' \<or> level = ''crit'' \<or> level = ''2'' then Some CRITICAL
      else if level = ''error'' \<or> level = ''err'' \<or> level = ''3'' then Some ERROR
      else if level = ''warning'' \<or> level = ''warn'' \<or> level = ''4'' then Some WARNING
      else if level = ''notice'' \<or> level = ''5'' then Some NOTICE
      else if level = ''informational'' \<or> level = ''info'' \<or> level = ''6'' then Some INFORMATIONAL
      else if level = ''debug'' \<or> level = ''7'' then Some DEBUG
      else None)"

definition set_log_level :: "string \<Rightarrow> string \<Rightarrow> process \<Rightarrow> process" where
  "set_log_level timestamp opt p =
     (if opt = [] then p
      else (case level_of opt of
          Some level \<Rightarrow> setLevel timestamp level p
        | None \<Rightarrow> log_error timestamp (''Unrecognized log-level: '' @ opt @ ''. Using default log-level: WARN.'') p))"

definition set_config_file :: "string \<Rightarrow> process \<Rightarrow> process" where
  "set_config_file opt p = (if opt = [] then p else p\<lparr>pr_config := Some opt\<rparr>)"

definition show_help :: "string \<Rightarrow> process \<Rightarrow> int \<times> process" where
  "show_help component p = (- 1, p\<lparr>pr_out := pr_out p @
     [''Usage: '' @ component @ '' [OPTION]...'' @ [NL] @ ''Run '' @ component @ ''.'' @ [NL, NL] @
      ''  -f, --file         path to configuration file.'' @ [NL] @
      ''  -l, --log-level    set the log level.'' @ [NL] @
      ''      --help         display this help and exit.'' @ [NL]]\<rparr>)"

definition invalid :: "string \<Rightarrow> string \<Rightarrow> process \<Rightarrow> int \<times> process" where
  "invalid component opt p = (- 1, p\<lparr>pr_out := pr_out p @
     [component @ '': invalid option -- '' @ [CHR 0x27] @ dropWhile (\<lambda>c. c = CHR ''-'') opt @ [CHR 0x27, NL] @
      ''Try '' @ [CHR 0x27] @ component @ '' --help'' @ [CHR 0x27] @ '' for more information.'' @ [NL]]\<rparr>)"

fun parse :: "string \<Rightarrow> string \<Rightarrow> string list \<Rightarrow> process \<Rightarrow> int \<times> process" where
  "parse timestamp component [] p = (0, p)"
| "parse timestamp component [a] p =
     (if a = ''-f'' \<or> a = ''--file'' \<or> a = ''-l'' \<or> a = ''--log-level'' then (0, p)
      else if a = ''--help'' then show_help component p
      else invalid component a p)"
| "parse timestamp component (a # v # as) p =
     (if a = ''-f'' \<or> a = ''--file'' then parse timestamp component as (set_config_file v p)
      else if a = ''-l'' \<or> a = ''--log-level'' then parse timestamp component as (set_log_level timestamp v p)
      else if a = ''--help'' then show_help component p
      else invalid component a p)"

section \<open>The main function\<close>

datatype outcome = ExitOk process | NoFile string | BadConfig | Managed process manager | Failed manager_error

text \<open>
  \<^verbatim>\<open>main\<close> up to the event loop of the manager: \<open>default\<close> is the path compiled in, \<open>file\<close> the content of a path. The manager's
  constructor merges the configuration into an empty table.
\<close>

definition manager_make :: "(config_section \<Rightarrow> bool) \<Rightarrow> (fd \<times> fd) option list \<Rightarrow> int \<Rightarrow> sections \<Rightarrow> manager_error + manager" where
  "manager_make construct pipes mtime config =
     map_sum id (\<lambda>m. m\<lparr>mg_mtime := mtime\<rparr>)
       (merge_config construct config
          \<lparr>mg_services = [], mg_threads = [], mg_pipes = pipes, mg_writes = [], mg_log = [], mg_mtime = 0, mg_file = None\<rparr>)"

definition main_program ::
  "string \<Rightarrow> string \<Rightarrow> (string \<Rightarrow> string option) \<Rightarrow> (config_section \<Rightarrow> bool) \<Rightarrow> (fd \<times> fd) option list \<Rightarrow> int \<Rightarrow> string list \<Rightarrow> process \<Rightarrow> outcome" where
  "main_program timestamp default_path file construct pipes mtime argv p =
     (case parse timestamp (hd argv) (tl argv) p of (rc, p1) \<Rightarrow>
        if rc \<noteq> 0 then ExitOk p1
        else
          (let path = (case pr_config p1 of Some c \<Rightarrow> c | None \<Rightarrow> default_path); p2 = p1\<lparr>pr_config := Some path\<rparr> in
           case file path of
             None \<Rightarrow> NoFile path
           | Some content \<Rightarrow>
               (case read_config content of
                  None \<Rightarrow> BadConfig
                | Some config \<Rightarrow>
                    (case manager_make construct pipes mtime config of
                       Inl e \<Rightarrow> Failed e
                     | Inr m \<Rightarrow> Managed p2 (m\<lparr>mg_file := Some content\<rparr>)))))"

section \<open>Options in order\<close>

datatype opt = FileOpt bool string | LevelOpt bool string

fun opt_words :: "opt \<Rightarrow> string list" where
  "opt_words (FileOpt long v) = [if long then ''--file'' else ''-f'', v]"
| "opt_words (LevelOpt long v) = [if long then ''--log-level'' else ''-l'', v]"

fun opt_effect :: "string \<Rightarrow> opt \<Rightarrow> process \<Rightarrow> process" where
  "opt_effect timestamp (FileOpt _ v) p = set_config_file v p"
| "opt_effect timestamp (LevelOpt _ v) p = set_log_level timestamp v p"

lemma parse_words:
  "parse timestamp component (concat (map opt_words opts) @ rest) p
   = parse timestamp component rest (fold (opt_effect timestamp) opts p)"
proof (induction opts arbitrary: p)
  case (Cons x opts)
  then show ?case by (cases x) simp_all
qed simp

lemma log_keeps: "pr_config (log_message timestamp l msg p) = pr_config p" "lg_level (log_message timestamp l msg p) = lg_level p"
  "pr_out (log_message timestamp l msg p) = pr_out p"
  by (simp_all add: log_message_def getLevel_def)

lemma set_log_level_keeps: "pr_config (set_log_level timestamp v p) = pr_config p"
  by (simp add: set_log_level_def setLevel_def log_info_def log_error_def log_keeps split: option.split)

lemma options_level:
  "lg_level (fold (opt_effect timestamp) opts p)
   = fold (\<lambda>x l. case x of LevelOpt _ v \<Rightarrow> (case level_of v of Some l' \<Rightarrow> if v = [] then l else l' | None \<Rightarrow> l) | _ \<Rightarrow> l) opts (lg_level p)"
proof (induction opts arbitrary: p)
  case (Cons x opts)
  have "lg_level (opt_effect timestamp x p)
      = (case x of LevelOpt _ v \<Rightarrow> (case level_of v of Some l' \<Rightarrow> if v = [] then lg_level p else l' | None \<Rightarrow> lg_level p) | _ \<Rightarrow> lg_level p)"
    by (cases x) (auto simp: set_config_file_def set_log_level_def setLevel_def log_info_def log_error_def log_keeps split: option.split)
  then show ?case using Cons.IH [of "opt_effect timestamp x p"] by simp
qed simp

section \<open>Properties\<close>

text \<open>the command line means what it says: a list of options with values is accepted and has the effect of the options
  in order, in particular the last level that is recognised is the level of the log; a request for help or an invalid option ends
  the parsing with its text printed, and what follows is ignored.\<close>

theorem options_applied_in_order:
  "parse timestamp component (concat (map opt_words opts)) p = (0, fold (opt_effect timestamp) opts p)
   \<and> parse timestamp component (concat (map opt_words opts) @ ''--help'' # rest) p = show_help component (fold (opt_effect timestamp) opts p)
   \<and> (a \<notin> {''-f'', ''--file'', ''-l'', ''--log-level'', ''--help''} \<longrightarrow>
       parse timestamp component (concat (map opt_words opts) @ a # rest) p = invalid component a (fold (opt_effect timestamp) opts p))
   \<and> lg_level (fold (opt_effect timestamp) opts p)
     = fold (\<lambda>x l. case x of LevelOpt _ v \<Rightarrow> (case level_of v of Some l' \<Rightarrow> if v = [] then l else l' | None \<Rightarrow> l) | _ \<Rightarrow> l) opts (lg_level p)"
proof (intro conjI impI)
  show "parse timestamp component (concat (map opt_words opts)) p = (0, fold (opt_effect timestamp) opts p)"
    using parse_words [of timestamp component opts "[]" p] by simp
  show "parse timestamp component (concat (map opt_words opts) @ ''--help'' # rest) p = show_help component (fold (opt_effect timestamp) opts p)"
    unfolding parse_words by (cases rest) simp_all
  show "parse timestamp component (concat (map opt_words opts) @ a # rest) p = invalid component a (fold (opt_effect timestamp) opts p)"
    if "a \<notin> {''-f'', ''--file'', ''-l'', ''--log-level'', ''--help''}"
    unfolding parse_words using that by (cases rest) simp_all
qed (rule options_level)

theorem options_applied_in_order_witness:
  "fst (parse ''now'' ''controller'' [''-f'', ''a.ini'', ''-x'', ''--help'']
     \<lparr>lg_level = WARNING, lg_target = 0, lg_text = (\<lambda>_. []), lg_synced = (\<lambda>_. 0), pr_config = None, pr_out = []\<rparr>) = - 1"
proof -
  have "parse ''now'' ''controller'' (concat (map opt_words [FileOpt False ''a.ini'']) @ ''-x'' # [''--help'']) p
      = invalid ''controller'' ''-x'' (fold (opt_effect ''now'') [FileOpt False ''a.ini''] p)" for p
    using options_applied_in_order [of "''now''" "''controller''" "[FileOpt False ''a.ini'']" p "[''--help'']" "''-x''"] by simp
  then show ?thesis by (simp add: invalid_def)
qed

end
