(* ===== verification/Streams.thy ===== *)
theory Streams
  imports Connector
begin

unbundle bit_operations_syntax

text \<open>
  What the connectors do to one stream object. Every stream has exactly one send message, whose address is set
  when the stream gets its descriptor and not before (\<open>stream_ok\<close>); \<open>kin\<close> relates a stream to what reading, writing,
  flushing and setting state bits make of it: the descriptor stays and so does \<open>stream_ok\<close>. \<open>polled\<close> says that
  a descriptor is watched for room for output.
\<close>

section \<open>Streams\<close>

definition stream_ok :: "sockstream \<Rightarrow> bool" where
  "stream_ok x \<longleftrightarrow> sk_out_inv (rdbuf x)
     \<and> (\<exists>m. sk_send (rdbuf x) = [m] \<and> (native_handle x = BAD_SOCKET \<longrightarrow> sm_family m = 0))"

definition kin :: "sockstream \<Rightarrow> sockstream \<Rightarrow> bool" where
  "kin x y \<longleftrightarrow> native_handle y = native_handle x \<and> (stream_ok x \<longrightarrow> stream_ok y)"

abbreviation unsent :: "sockstream \<Rightarrow> bool" where
  "unsent x \<equiv> sk_pending (rdbuf x) \<noteq> []"

named_theorems kin_intros \<open>operations on a stream\<close>

lemma kin_refl [simp, kin_intros]: "kin x x"
  by (simp add: kin_def)

lemma kin_trans: "kin x y \<Longrightarrow> kin y z \<Longrightarrow> kin x z"
  by (auto simp: kin_def)

lemma kin_native: "kin x y \<Longrightarrow> native_handle y = native_handle x"
  by (simp add: kin_def)

lemma kin_cong: "sk_send (rdbuf y) = sk_send (rdbuf x) \<Longrightarrow> native_handle y = native_handle x \<Longrightarrow> kin x y"
  by (simp add: kin_def stream_ok_def sk_out_inv_def)

lemma kin_frame:
  assumes "out_frame (rdbuf x) (rdbuf y)" and "sk_out_inv (rdbuf x) \<Longrightarrow> sk_out_inv (rdbuf y)"
  shows "kin x y"
proof -
  have "\<exists>n. sk_send (rdbuf y) = [n] \<and> sm_family n = sm_family m" if "sk_send (rdbuf x) = [m]" for m
    using assms(1) that by (auto simp: out_frame_def)
  with assms show ?thesis by (fastforce simp: kin_def stream_ok_def out_frame_def)
qed

lemma kin_write [kin_intros]: "kin x (sock_write bs x)"
  by (rule kin_frame [OF sock_write_frame sock_write_inv])

lemma kin_flush [kin_intros]: "kin x (sock_flush x)"
  using sock_flush_stream by (intro kin_frame [OF sock_flush_frame]) blast

lemma kin_bits [kin_intros]:
  "kin x (x\<lparr>badbit := b\<rparr>)" "kin x (x\<lparr>failbit := b\<rparr>)" "kin x (x\<lparr>eofbit := b\<rparr>)"
  "kin x (x\<lparr>rdbuf := (rdbuf x)\<lparr>sk_errno := e\<rparr>\<rparr>)" "kin x (x\<lparr>rdbuf := (rdbuf x)\<lparr>sk_kernel := k\<rparr>\<rparr>)"
  by (rule kin_cong; simp)+

lemma unsent_flush: "stream_ok x \<Longrightarrow> unsent (sock_flush x) \<Longrightarrow> unsent x"
  using sock_flush_pending [of x] by (auto simp: stream_ok_def)

lemma stream_ok_tellp:
  assumes "stream_ok x" and "\<not> fail_of x"
  shows "sock_tellp x = 0 \<longleftrightarrow> \<not> unsent x"
  using assms sk_tellp_simp [of "rdbuf x"] by (auto simp: stream_ok_def tellp_def sk_putlen_def sk_pending_def)

text \<open>A new stream object, and one that gets its descriptor.\<close>

lemma stream_ok_new [simp]: "stream_ok (ios_init (sockbuf_make fd c w_in w_out k))" "\<not> unsent (ios_init (sockbuf_make fd c w_in w_out k))"
  "sk_socket (sockbuf_make fd c w_in w_out k) = fd"
  by (auto simp: stream_ok_def sockbuf_make_def init_buf_ptrs_def sk_out_inv_def empty_message_def sk_pending_def)

lemma connectto_frame:
  assumes "stream_ok x" and "native_handle x = BAD_SOCKET" and "fd \<noteq> BAD_SOCKET"
    and "y = x\<lparr>rdbuf := snd (connectto addr len ((rdbuf x)\<lparr>sk_socket := fd\<rparr>))\<rparr>"
  shows "stream_ok y" and "native_handle y = fd"
  using assms by (auto simp: stream_ok_def connectto_def sk_out_inv_def on_last_def Let_def split: prod.split)

section \<open>Loops\<close>

lemma kin_copy: "kin os (fst (copy_upto rd sock_write n os is))"
proof (induction rd "sock_write" n os "is" rule: copy_upto.induct)
  case (1 rd n os "is")
  obtain bs is' where r: "rd (min n 256) is = (bs, is')" by fastforce
  show ?case
  proof (cases "bs = [] \<or> badbit (sock_write bs os) \<or> n \<le> length bs")
    case True
    then show ?thesis by (subst copy_upto.simps) (auto simp: r Let_def intro: kin_intros)
  next
    case False
    then have "kin (sock_write bs os) (fst (copy_upto rd sock_write (n - length bs) (sock_write bs os) is'))"
      by (intro "1.hyps" [OF r [symmetric] _ refl]) auto
    then show ?thesis using False by (subst copy_upto.simps) (simp add: r kin_trans [OF kin_write])
  qed
qed

lemma kin_write_n: "stream_write_n rd sock_write n os is = (os', is') \<Longrightarrow> kin os os'"
  using kin_copy [of os rd "nat n" "is"] by (auto simp: stream_write_n_def split: if_splits)

lemma kin_write_xmsg: "stream_write_xmsg sock_write os is = (os', is') \<Longrightarrow> kin os os'"
proof (induction "sock_write" os "is" arbitrary: os' is' rule: stream_write_xmsg.induct)
  case (1 os "is")
  obtain bs i1 where r: "xmsg_readsome 256 is = (bs, i1)" by fastforce
  have "(os', is') = (if bs = [] then (os, i1) else if badbit (sock_write bs os) then (sock_write bs os, i1)
      else stream_write_xmsg sock_write (sock_write bs os) i1)"
    using "1.prems" unfolding stream_write_xmsg.simps [of _ os "is"] r prod.case Let_def by (rule sym)
  then have "os' = os \<or> os' = sock_write bs os \<or> kin (sock_write bs os) os'"
    using "1.hyps" [OF r [symmetric] _ refl, of os' is'] by (auto split: if_splits)
  then show ?case using kin_write [of os bs] kin_trans kin_refl by blast
qed

lemma kin_header [kin_intros]: "kin x (write_header h x)"
  by (simp add: write_header_def kin_write)

lemma kin_envelope: "send_envelope h p buf x = (x', buf') \<Longrightarrow> kin x x'"
  using kin_trans [OF kin_header kin_write_n] by (auto simp: send_envelope_def)

lemma kin_guarded: "guarded_write chk buf x = (len, buf', x') \<Longrightarrow> kin x x'"
  by (auto simp: guarded_write_def Let_def split: prod.splits if_splits
      intro: kin_intros kin_write_xmsg kin_trans [OF kin_flush kin_write_xmsg])

text \<open>Reading touches the receive side only.\<close>

definition reads :: "sockstream \<Rightarrow> sockstream \<Rightarrow> bool" where
  "reads x y \<longleftrightarrow> sk_send (rdbuf y) = sk_send (rdbuf x) \<and> native_handle y = native_handle x"

lemma reads_refl: "reads x x"
  by (simp add: reads_def)

lemma reads_trans: "reads x y \<Longrightarrow> reads y z \<Longrightarrow> reads x z"
  by (simp add: reads_def)

lemma reads_kin: "reads x y \<Longrightarrow> kin x y" "reads x y \<Longrightarrow> unsent y \<Longrightarrow> unsent x"
  by (simp_all add: reads_def kin_cong sk_pending_def)

lemma sk_do_recv_send: "sk_do_recv b = (r, b') \<Longrightarrow> sk_send b' = sk_send b \<and> sk_socket b' = sk_socket b"
  by (auto simp: sk_do_recv_def memmoverbuf_def Let_def split: if_splits prod.splits)

lemma reads_readsome: "sock_readsome n x = (bs, y) \<Longrightarrow> reads x y"
  by (auto simp: readsome_def sk_in_avail_def sk_showmanyc_def sk_sgetn_def reads_def Let_def
      split: if_splits prod.splits dest!: sk_do_recv_send)

lemma reads_head: "xmsg_head_loop p buf is = (full, q, buf', is') \<Longrightarrow> reads is is'"
proof (induction p buf "is" rule: xmsg_head_loop.induct)
  case (1 p buf "is")
  obtain bs i1 where r: "sock_readsome (nat (24 - p)) is = (bs, i1)" by fastforce
  have "is' = is \<or> is' = i1 \<or> reads i1 is'"
    using "1.prems" "1.IH" [OF _ r [symmetric] _ refl] unfolding xmsg_head_loop.simps [of p buf "is"] r prod.case Let_def
    by (auto split: if_splits)
  then show ?case using reads_readsome [OF r] reads_trans reads_refl by blast
qed

lemma reads_body: "xmsg_body_loop n buf is = (buf', is') \<Longrightarrow> reads is is'"
proof (induction n buf "is" rule: xmsg_body_loop.induct)
  case (1 n buf "is")
  obtain bs i1 where r: "sock_readsome (nat (min n 256)) is = (bs, i1)" by fastforce
  have "is' = is \<or> is' = i1 \<or> reads i1 is'"
    using "1.prems" "1.IH" [OF _ r [symmetric] _ refl] unfolding xmsg_body_loop.simps [of n buf "is"] r prod.case Let_def
    by (auto split: if_splits)
  then show ?case using reads_readsome [OF r] reads_trans reads_refl by blast
qed

lemma reads_xmsg: "xmsg_read buf is = (buf', is') \<Longrightarrow> reads is is'"
  by (auto simp: xmsg_read_def split: prod.splits if_splits dest!: reads_head reads_body intro: reads_trans)

lemma reads_ctl_copy: "ctl_copy_loop n os is = (os', is') \<Longrightarrow> reads is is'"
proof (induction n os "is" rule: ctl_copy_loop.induct)
  case (1 n os "is")
  obtain bs i1 where r: "sock_readsome (min n 256) is = (bs, i1)" by fastforce
  have "is' = i1 \<or> reads i1 is'"
    using "1.prems" "1.IH" [OF r [symmetric]] unfolding ctl_copy_loop.simps [of n os "is"] r prod.case
    by (auto split: if_splits)
  then show ?case using reads_readsome [OF r] reads_trans by blast
qed

lemma reads_copy: "copy_upto sock_readsome wr n os is = (os', is') \<Longrightarrow> reads is is'"
proof (induction "sock_readsome" wr n os "is" rule: copy_upto.induct)
  case (1 wr n os "is")
  obtain bs i1 where r: "sock_readsome (min n 256) is = (bs, i1)" by fastforce
  have "is' = i1 \<or> reads i1 is'"
    using "1.prems" "1.hyps" [OF r [symmetric] _ refl] unfolding copy_upto.simps [of _ wr n os "is"] r prod.case Let_def
    by (auto split: if_splits)
  then show ?case using reads_readsome [OF r] reads_trans by blast
qed

lemma reads_refill:
  "refill ctl_stream_copy buf is = (buf', is') \<Longrightarrow> reads is is'" "refill seg_stream_copy buf is = (buf', is') \<Longrightarrow> reads is is'"
  by (auto simp: refill_def ctl_stream_copy_def seg_stream_copy_def reads_refl split: prod.splits if_splits dest: reads_ctl_copy reads_copy)

lemma reads_marshallers:
  "ctl_unmarshal live p x cm = (i, cm', x') \<Longrightarrow> reads x x'" "ctl_marshal live p x cm = (i, cm', x') \<Longrightarrow> reads x x'"
  "seg_unmarshal live p x sm = (i, sm', x') \<Longrightarrow> reads x x'" "seg_marshal live p x sm = (i, sm', x') \<Longrightarrow> reads x x'"
  by (auto simp: ctl_unmarshal_def ctl_marshal_def seg_unmarshal_def seg_marshal_def split: prod.splits
      dest: reads_refill reads_xmsg)

section \<open>Polling\<close>

definition polled :: "trigger \<Rightarrow> fd \<Rightarrow> bool" where
  "polled t fd \<longleftrightarrow> (\<exists>m. interest t fd = Some m \<and> m AND POLLOUT \<noteq> 0)"

lemma POLLOUT_bits: "m AND POLLOUT \<noteq> 0 \<longleftrightarrow> bit m 2" for m :: u32
proof -
  have "(POLLOUT :: u32) = 2 ^ 2" by (simp add: POLLOUT_def)
  then show ?thesis using and_exp_eq_0_iff_not_bit [of m 2] by simp
qed

lemma polled_iff: "polled t fd \<longleftrightarrow> (\<exists>m. interest t fd = Some m \<and> bit m 2)"
  by (simp add: polled_def POLLOUT_bits)

lemma polled_set:
  assumes "tr_inv t"
  shows "polled (tset fd m t) q \<longleftrightarrow> polled t q \<or> (q = fd \<and> bit m 2)"
  by (auto simp: polled_iff trig.mask_set [OF assms] bit_simps split: option.split)

lemma polled_clear:
  assumes "tr_inv t"
  shows "polled (tclear fd m t) q \<longleftrightarrow> polled t q \<and> (q = fd \<longrightarrow> \<not> bit m 2)"
proof -
  have "bit m 2" if "x AND NOT m = 0" "bit x 2" for x
    using that by (metis bit_and_iff bit_not_iff bit_imp_le_length bit_0_eq bot_apply bot_bool_def possible_bit_word)
  then show ?thesis by (auto simp: polled_iff trig.mask_clear [OF assms] bit_simps split: option.split)
qed

end
