(* ===== verification/Ownership.thy ===== *)
theory Ownership
  imports Streams Resolver
begin

unbundle bit_operations_syntax

text \<open>
  Well-formed connector states. The interfaces hold the only strong references to streams
  (\<^verbatim>\<open>shared_ptr\<close> in \<^verbatim>\<open>src/interfaces/interfaces.hpp\<close>), everything else holds weak ones: a
  state is well formed when every live stream is in exactly one stream table and every table entry is alive, all
  vectors searched with \<^verbatim>\<open>lower_bound\<close> are strictly ordered, the poller mirrors the interest list, the
  address lists are such that selection returns, every pending connect refers to an existing north interface, every
  stream has one send message, and a descriptor in use belongs to one stream, whose object and handle agree on it.
  Addresses of new stream objects are taken from a supply that does not hand out an address twice; the descriptors
  the system will hand out during a step are pairwise different and not in use at its beginning.

  \<open>steady\<close> is the relation of a state to one in which nothing but stream contents, connections, measurements,
  buffers and polling changed, and no output was left waiting unwatched; \<open>sound\<close> is what survives when streams come and go. \<open>lacking\<close> are the streams
  that should be watched for room for output and are not.
\<close>

section \<open>Stream tables and the heap\<close>

abbreviation owns :: "owner \<Rightarrow> 'cb iface \<Rightarrow> bool" where
  "owns p f \<equiv> has_key fst p (if_streams f)"

definition held :: "owner \<Rightarrow> 'cb iface list \<Rightarrow> nat" where
  "held p fs = sum_list (map (\<lambda>f. of_bool (owns p f)) fs)"

definition owned :: "(owner \<rightharpoonup> 'x) \<Rightarrow> 'cb iface list \<Rightarrow> bool" where
  "owned h fs \<longleftrightarrow> (\<forall>f \<in> set fs. ksorted fst (if_streams f)) \<and> (\<forall>p. held p fs = of_bool (p \<in> dom h))"

lemma held_update:
  assumes "i < length fs"
  shows "held p (fs[i := g]) + of_bool (owns p (fs ! i)) = held p fs + of_bool (owns p g)"
proof -
  let ?xs = "map (\<lambda>f. of_bool (owns p f)) fs :: nat list"
  have "?xs ! i \<le> sum_list ?xs" using assms by (intro elem_le_sum_list) simp
  moreover have "sum_list (?xs[i := of_bool (owns p g)]) = sum_list ?xs + of_bool (owns p g) - ?xs ! i"
    using assms by (intro sum_list_update) simp
  ultimately show ?thesis using assms by (simp add: held_def map_update)
qed

lemma held_zero: "held p fs = 0 \<longleftrightarrow> (\<forall>f \<in> set fs. \<not> owns p f)"
  by (auto simp: held_def sum_list_eq_0_iff)

lemma owned_alive: "owned h fs \<Longrightarrow> f \<in> set fs \<Longrightarrow> owns p f \<Longrightarrow> p \<in> dom h"
  using held_zero [of p fs] by (force simp: owned_def)

lemma owned_found: "owned h fs \<Longrightarrow> p \<in> dom h \<Longrightarrow> \<exists>f \<in> set fs. owns p f"
  using held_zero [of p fs] by (auto simp: owned_def)

lemma owned_unique:
  assumes "owned h fs" and "i < length fs" and "j < length fs" and "owns p (fs ! i)" and "owns p (fs ! j)"
  shows "i = j"
proof (rule ccontr)
  assume ne: "i \<noteq> j"
  let ?g = "(fs ! i)\<lparr>if_streams := []\<rparr>"
  have "held p fs = 1" using assms(1) owned_alive [OF assms(1) nth_mem [OF assms(2)] assms(4)] by (simp add: owned_def)
  then have "held p (fs[i := ?g]) = 0" using held_update [OF assms(2), of p ?g] assms(4) by (simp add: has_key_def)
  moreover have "fs ! j \<in> set (fs[i := ?g])"
    using assms(3) ne by (metis length_list_update nth_list_update_neq nth_mem)
  ultimately show False using assms(5) by (simp add: held_zero)
qed

lemma owned_update:
  assumes "owned h fs" and "i < length fs" and "ksorted fst (if_streams g)"
    and "\<And>p. of_bool (p \<in> dom h) + of_bool (owns p g) = (of_bool (p \<in> dom h') + of_bool (owns p (fs ! i)) :: nat)"
  shows "owned h' (fs[i := g])"
proof -
  have "held p (fs[i := g]) = of_bool (p \<in> dom h')" for p
    using held_update [OF assms(2), of p g] assms(4) [of p] assms(1) by (simp add: owned_def)
  then show ?thesis using assms(1,3) set_update_subset_insert [of fs i g] by (auto simp: owned_def)
qed

lemma owned_same:
  "owned h fs \<Longrightarrow> i < length fs \<Longrightarrow> ksorted fst (if_streams g) \<Longrightarrow> (\<And>p. owns p g = owns p (fs ! i)) \<Longrightarrow> owned h (fs[i := g])"
  by (rule owned_update) auto

lemma owned_erase:
  assumes "owned h fs" and "i < length fs" and "if_streams g = filter (\<lambda>x. fst x \<noteq> p) (if_streams (fs ! i))"
    and "p \<in> dom h \<Longrightarrow> owns p (fs ! i)"
  shows "owned (h(p := None)) (fs[i := g])"
proof (rule owned_update [OF assms(1,2)])
  show "ksorted fst (if_streams g)" using assms(1,2,3) nth_mem by (auto simp: owned_def intro!: ksorted_filter)
  have o: "owns q g \<longleftrightarrow> q \<noteq> p \<and> owns q (fs ! i)" for q by (auto simp: assms(3) has_key_def)
  have "owns p (fs ! i) \<Longrightarrow> p \<in> dom h" by (rule owned_alive [OF assms(1) nth_mem [OF assms(2)]])
  then show "of_bool (q \<in> dom h) + of_bool (owns q g) = (of_bool (q \<in> dom (h(p := None))) + of_bool (owns q (fs ! i)) :: nat)" for q
    using assms(4) by (auto simp: o)
qed

lemma owned_insert:
  assumes "owned h fs" and "i < length fs" and "iface_insert (p, fd) (fs ! i) = (k, g)" and "p \<notin> dom h"
  shows "owned (h(p \<mapsto> x)) (fs[i := g])" and "k < length (if_streams g)" and "if_streams g ! k = (p, fd)"
proof -
  have so: "ksorted fst (if_streams (fs ! i))" using assms(1,2) nth_mem by (auto simp: owned_def)
  have no: "\<not> owns p (fs ! i)" using assms owned_alive [OF assms(1) nth_mem [OF assms(2)]] by blast
  note sp = iface_insert_spec [OF so no assms(3)]
  show "k < length (if_streams g)" "if_streams g ! k = (p, fd)" by (rule sp)+
  have o: "owns q g \<longleftrightarrow> q = p \<or> owns q (fs ! i)" for q by (auto simp: has_key_def sp(2))
  show "owned (h(p \<mapsto> x)) (fs[i := g])"
    by (rule owned_update [OF assms(1,2) sp(1)]) (use no assms(4) in \<open>auto simp: o\<close>)
qed

section \<open>Descriptors\<close>

text \<open>The descriptors the operating system will hand out.\<close>

definition offered :: "env \<Rightarrow> fd list" where
  "offered e = concat (map (\<lambda>a. case a of Accepted fd \<Rightarrow> [fd] | AcceptErr _ \<Rightarrow> []) (v_accept e))
     @ concat (map (\<lambda>a. case fst a of Some fd \<Rightarrow> [fd] | None \<Rightarrow> []) (v_socket e))"

lemma offered_cong [simp]:
  "offered (e\<lparr>v_shutdown := xs\<rparr>) = offered e" "offered (e\<lparr>v_resolves := js\<rparr>) = offered e"
  "offered (e\<lparr>v_urandom := rs\<rparr>) = offered e" "offered (e\<lparr>v_nalloc := n\<rparr>) = offered e" "offered (e\<lparr>v_alloc := f\<rparr>) = offered e"
  by (simp_all add: offered_def)

text \<open>The handles in the stream tables.\<close>

definition handles :: "'cb iface list \<Rightarrow> handle set" where
  "handles fs = (\<Union>f \<in> set fs. set (if_streams f))"

lemma handles_append [simp]: "handles (fs @ gs) = handles fs \<union> handles gs"
  by (simp add: handles_def)

lemma handles_Nil [simp]: "handles [] = {}"
  by (simp add: handles_def)

lemma handles_nth: "i < length fs \<Longrightarrow> h \<in> set (if_streams (fs ! i)) \<Longrightarrow> h \<in> handles fs"
  by (auto simp: handles_def)

lemma handles_update: "handles (fs[i := g]) \<subseteq> handles fs \<union> set (if_streams g)"
  using set_update_subset_insert [of fs i g] by (auto simp: handles_def)

text \<open>A descriptor in use belongs to one stream, which knows no other; the system does not hand it out again, and nobody else in the process has it.\<close>

definition apart :: "handle set \<Rightarrow> bool" where
  "apart H \<longleftrightarrow> (\<forall>a \<in> H. \<forall>b \<in> H. snd a = snd b \<longrightarrow> snd a \<noteq> BAD_SOCKET \<longrightarrow> fst a = fst b)"

definition bound :: "(owner \<rightharpoonup> sockstream) \<Rightarrow> handle set \<Rightarrow> bool" where
  "bound h H \<longleftrightarrow> (\<forall>a \<in> H. \<forall>x. h (fst a) = Some x \<longrightarrow> native_handle x = snd a \<or> native_handle x = BAD_SOCKET)"

definition fresh :: "env \<Rightarrow> handle set \<Rightarrow> bool" where
  "fresh e H \<longleftrightarrow> distinct (offered e) \<and> BAD_SOCKET \<notin> set (offered e) \<and> (\<forall>a \<in> H. snd a \<notin> set (offered e))
     \<and> (\<forall>q \<in> set (v_others e). q \<noteq> BAD_SOCKET \<and> q \<notin> set (offered e) \<and> q \<notin> snd ` H)"

definition fds_ok :: "env \<Rightarrow> (owner \<rightharpoonup> sockstream) \<Rightarrow> handle set \<Rightarrow> bool" where
  "fds_ok e h H \<longleftrightarrow> fresh e H \<and> apart H \<and> bound h H"

lemma apartD: "apart H \<Longrightarrow> (p, fd) \<in> H \<Longrightarrow> (q, fd) \<in> H \<Longrightarrow> fd \<noteq> BAD_SOCKET \<Longrightarrow> p = q"
  unfolding apart_def by (metis fst_conv snd_conv)

lemma boundD: "bound h H \<Longrightarrow> (p, fd) \<in> H \<Longrightarrow> h p = Some x \<Longrightarrow> native_handle x = fd \<or> native_handle x = BAD_SOCKET"
  unfolding bound_def by (metis fst_conv snd_conv)

section \<open>Well-formed states\<close>

definition allocated :: "('n, 's, 'z) connector_scheme \<Rightarrow> owner set" where
  "allocated s = v_alloc (c_env s) ` {..<v_nalloc (c_env s)}"

fun cb_ok :: "nat \<Rightarrow> connect_cb \<Rightarrow> bool" where
  "cb_ok n (ConnectCb ni nsp) \<longleftrightarrow> ni < n"

definition iface_ok :: "nat \<Rightarrow> connect_cb iface \<Rightarrow> bool" where
  "iface_ok n f \<longleftrightarrow> addrs_ok (if_addresses f) \<and> (\<forall>x \<in> set (if_pending f). cb_ok n (snd x))"

definition tables_ok :: "('n, 's) connector \<Rightarrow> bool" where
  "tables_ok s \<longleftrightarrow> tr_inv (c_triggers s) \<and> ksorted mt_wp (c_metrics s)
     \<and> ksorted buf_ptr (mar_north (c_mar s)) \<and> ksorted buf_ptr (mar_south (c_mar s))"

abbreviation streams_ok :: "('n, 's) connector \<Rightarrow> bool" where
  "streams_ok s \<equiv> \<forall>p x. c_heap s p = Some x \<longrightarrow> stream_ok x"

abbreviation c_handles :: "('n, 's) connector \<Rightarrow> handle set" where
  "c_handles s \<equiv> handles (c_north s) \<union> handles (c_south s)"

definition formed :: "('n, 's) connector \<Rightarrow> bool" where
  "formed s \<longleftrightarrow> owned (c_heap s) (c_north s @ c_south s) \<and> inj (v_alloc (c_env s)) \<and> dom (c_heap s) \<subseteq> allocated s
     \<and> tables_ok s \<and> streams_ok s \<and> fds_ok (c_env s) (c_heap s) (c_handles s)
     \<and> (\<forall>f \<in> set (c_south s). iface_ok (length (c_north s)) f)"

definition well_formed :: "('n, 's) connector \<Rightarrow> bool" where
  "well_formed s \<longleftrightarrow> formed s \<and> c_south s \<noteq> []"

text \<open>Streams that existed before stay in the tables they were in, until they are erased; a descriptor that was not in
  use before was handed out by the system.\<close>

definition evolves :: "('n, 's) connector \<Rightarrow> ('n, 's) connector \<Rightarrow> bool" where
  "evolves s s' \<longleftrightarrow> length (c_north s') = length (c_north s) \<and> length (c_south s') = length (c_south s)
     \<and> v_alloc (c_env s') = v_alloc (c_env s) \<and> v_nalloc (c_env s) \<le> v_nalloc (c_env s')
     \<and> (\<forall>i < length (c_north s). \<forall>h \<in> set (if_streams (c_north s' ! i)). fst h \<in> allocated s \<longrightarrow> h \<in> set (if_streams (c_north s ! i)))
     \<and> (\<forall>j < length (c_south s). \<forall>p \<in> allocated s. owns p (c_south s' ! j) \<longrightarrow> owns p (c_south s ! j))
     \<and> set (offered (c_env s')) \<subseteq> set (offered (c_env s)) \<and> v_others (c_env s') = v_others (c_env s)
     \<and> (\<forall>h \<in> c_handles s'. h \<in> c_handles s \<or> snd h = BAD_SOCKET \<or> snd h \<in> set (offered (c_env s)))"

section \<open>Streams that wait for room\<close>

text \<open>
  The streams with a descriptor that is not watched for output although bytes are pending, or, when \<open>w_strict\<close>
  holds, whether or not. Exempt are the streams in \<open>w_but\<close> and, unless \<open>w_south\<close> holds, those of the south side.
\<close>

record watch =
  w_strict :: bool
  w_south :: bool
  w_but :: "owner set"
  w_others :: "fd set"

definition lacking :: "watch \<Rightarrow> ('n, 's) connector \<Rightarrow> owner set" where
  "lacking w s = {p. \<exists>x. c_heap s p = Some x \<and> native_handle x \<noteq> BAD_SOCKET \<and> (w_strict w \<or> unsent x)
     \<and> \<not> polled (c_triggers s) (native_handle x) \<and> p \<notin> w_but w
     \<and> (w_south w \<or> (\<forall>f \<in> set (c_south s). \<not> owns p f))}"

text \<open>Descriptors of others in the process, those in \<open>w_others\<close>, stay polled for input.\<close>

definition watched :: "trigger \<Rightarrow> fd \<Rightarrow> bool" where
  "watched t q \<longleftrightarrow> (\<exists>m. interest t q = Some m \<and> bit m 0)"

definition spares :: "fd set \<Rightarrow> ('n, 's) connector \<Rightarrow> ('n, 's) connector \<Rightarrow> bool" where
  "spares Q s s' \<longleftrightarrow> (\<forall>q \<in> Q. q \<in> set (v_others (c_env s)) \<longrightarrow> watched (c_triggers s) q \<longrightarrow> watched (c_triggers s') q)"

definition sound :: "watch \<Rightarrow> ('n, 's) connector \<Rightarrow> ('n, 's) connector \<Rightarrow> bool" where
  "sound w s s' \<longleftrightarrow> (well_formed s \<longrightarrow> well_formed s' \<and> evolves s s' \<and> lacking w s' \<subseteq> lacking w s \<and> spares (w_others w) s s')"

lemma lackingI:
  "c_heap s p = Some x \<Longrightarrow> native_handle x \<noteq> BAD_SOCKET \<Longrightarrow> w_strict w \<or> unsent x \<Longrightarrow> \<not> polled (c_triggers s) (native_handle x) \<Longrightarrow>
   p \<notin> w_but w \<Longrightarrow> w_south w \<or> (\<forall>f \<in> set (c_south s). \<not> owns p f) \<Longrightarrow> p \<in> lacking w s"
  by (auto simp: lacking_def)

lemma lackingE:
  assumes "p \<in> lacking w s"
  obtains x where "c_heap s p = Some x" and "native_handle x \<noteq> BAD_SOCKET" and "w_strict w \<or> unsent x"
    and "\<not> polled (c_triggers s) (native_handle x)" and "p \<notin> w_but w" and "w_south w \<or> (\<forall>f \<in> set (c_south s). \<not> owns p f)"
  using assms by (auto simp: lacking_def)

lemma spares_same: "c_triggers s' = c_triggers s \<Longrightarrow> spares Q s s'"
  by (simp add: spares_def)

lemma spares_trans: "spares Q s t \<Longrightarrow> v_others (c_env t) = v_others (c_env s) \<Longrightarrow> spares Q t u \<Longrightarrow> spares Q s u"
  by (simp add: spares_def)

lemma watched_set: "tr_inv t \<Longrightarrow> watched t q \<Longrightarrow> watched (tset fd m t) q"
  by (auto simp: watched_def trig.mask_set bit_simps)

lemma watched_clear: "tr_inv t \<Longrightarrow> watched t q \<Longrightarrow> q \<noteq> fd \<Longrightarrow> watched (tclear fd m t) q"
  by (simp add: watched_def trig.clear_other)

lemma evolves_refl: "evolves s s"
  by (simp add: evolves_def)

lemma evolves_others: "evolves s s' \<Longrightarrow> v_others (c_env s') = v_others (c_env s)"
  by (simp add: evolves_def)

lemma evolves_allocated: "evolves s s' \<Longrightarrow> allocated s \<subseteq> allocated s'"
  by (auto simp: evolves_def allocated_def)

lemma evolves_trans:
  assumes "evolves s t" and "evolves t u"
  shows "evolves s u"
proof -
  note a = evolves_allocated [OF assms(1)]
  have 1: "h \<in> set (if_streams (c_north s ! i))"
    if "i < length (c_north s)" "h \<in> set (if_streams (c_north u ! i))" "fst h \<in> allocated s" for i h
    using that a assms by (auto simp: evolves_def)
  have 2: "owns p (c_south s ! j)" if "j < length (c_south s)" "p \<in> allocated s" "owns p (c_south u ! j)" for j p
    using that a assms by (auto simp: evolves_def)
  have 3: "h \<in> c_handles s \<or> snd h = BAD_SOCKET \<or> snd h \<in> set (offered (c_env s))" if "h \<in> c_handles u" for h
    using that assms unfolding evolves_def by blast
  show ?thesis unfolding evolves_def
    using 1 2 3 assms by (intro conjI allI impI ballI) (auto simp: evolves_def)
qed

lemma sound_refl [simp]: "sound w s s"
  by (simp add: sound_def evolves_refl spares_same)

lemma soundI: "(well_formed s \<Longrightarrow> sound w s t) \<Longrightarrow> sound w s t"
  by (auto simp: sound_def)

lemma sound_others: "sound w s t \<Longrightarrow> well_formed s \<Longrightarrow> v_others (c_env t) = v_others (c_env s)"
  by (simp add: sound_def evolves_others)

lemma sound_trans: "sound w s t \<Longrightarrow> sound w t u \<Longrightarrow> sound w s u"
  unfolding sound_def using evolves_trans [of s t u] spares_trans [of "w_others w" s t u] evolves_others [of s t] by blast

lemma sound_then:
  "sound w s t \<Longrightarrow> (length (c_north t) = length (c_north s) \<Longrightarrow> length (c_south t) = length (c_south s) \<Longrightarrow> sound w t u) \<Longrightarrow> sound w s u"
  using sound_trans [of w s t u] by (cases "well_formed s") (auto simp: sound_def evolves_def)

text \<open>A stream that is gone at the end need not have been watched on the way.\<close>

lemma sound_gone:
  assumes "sound (w\<lparr>w_but := insert p (w_but w)\<rparr>) s t" and "c_heap t p = None"
  shows "sound w s t"
proof -
  have "lacking w t \<subseteq> lacking (w\<lparr>w_but := insert p (w_but w)\<rparr>) t" using assms(2) by (auto simp: lacking_def)
  moreover have "lacking (w\<lparr>w_but := insert p (w_but w)\<rparr>) s \<subseteq> lacking w s" by (auto simp: lacking_def)
  ultimately show ?thesis using assms(1) by (auto simp: sound_def)
qed

section \<open>Steady operations\<close>

text \<open>
  An operation is steady when it leaves the stream tables alone, treats every stream as \<open>kin\<close> says, and leaves no
  stream unwatched that was watched, and none unwatched with pending output that was not so before.
\<close>

named_theorems steady_intros \<open>operations that leave the stream tables alone\<close>

abbreviation unpolled :: "('n, 's) connector \<Rightarrow> owner set" where
  "unpolled \<equiv> lacking \<lparr>w_strict = True, w_south = True, w_but = {}, w_others = {}\<rparr>"

abbreviation stranded :: "('n, 's) connector \<Rightarrow> owner set" where
  "stranded \<equiv> lacking \<lparr>w_strict = False, w_south = True, w_but = {}, w_others = {}\<rparr>"

definition steady :: "('n, 's) connector \<Rightarrow> ('n, 's) connector \<Rightarrow> bool" where
  "steady s s' \<longleftrightarrow> c_north s' = c_north s \<and> c_south s' = c_south s \<and> (\<forall>p. rel_option kin (c_heap s p) (c_heap s' p))
     \<and> v_alloc (c_env s') = v_alloc (c_env s) \<and> v_nalloc (c_env s') = v_nalloc (c_env s) \<and> offered (c_env s') = offered (c_env s)
     \<and> v_others (c_env s') = v_others (c_env s) \<and> (tables_ok s \<longrightarrow> spares UNIV s s') \<and> (tables_ok s \<longrightarrow> tables_ok s')
     \<and> (tables_ok s \<and> streams_ok s \<longrightarrow> unpolled s' \<subseteq> unpolled s \<and> stranded s' \<subseteq> stranded s)"

lemma steady_refl [simp]: "steady s s"
  by (simp add: steady_def option.rel_refl spares_same)

lemma steady_others: "steady s t \<Longrightarrow> v_others (c_env t) = v_others (c_env s)"
  by (simp add: steady_def)

lemma steady_heap_rel: "steady s t \<Longrightarrow> rel_option kin (c_heap s p) (c_heap t p)"
  by (simp add: steady_def)

lemma steady_live: "steady s t \<Longrightarrow> c_heap t p = None \<longleftrightarrow> c_heap s p = None"
  using steady_heap_rel [of s t p] by (cases "c_heap s p"; cases "c_heap t p") simp_all

lemma steady_dom: "steady s t \<Longrightarrow> dom (c_heap t) = dom (c_heap s)"
  using steady_live [of s t] by (simp add: dom_def)

lemma steady_streams_ok: "steady s t \<Longrightarrow> streams_ok s \<Longrightarrow> streams_ok t"
  unfolding steady_def by (metis kin_def option_rel_Some2)

lemma steady_trans:
  assumes "steady s t" and "steady t u"
  shows "steady s u"
proof -
  have "rel_option kin (c_heap s p) (c_heap u p)" for p
    using steady_heap_rel [OF assms(1), of p] steady_heap_rel [OF assms(2), of p] kin_trans
    by (cases "c_heap s p"; cases "c_heap t p"; cases "c_heap u p") auto
  moreover have "unpolled u \<subseteq> unpolled s \<and> stranded u \<subseteq> stranded s" if "tables_ok s \<and> streams_ok s"
    using assms steady_streams_ok [OF assms(1)] that unfolding steady_def by blast
  moreover have "spares UNIV s u" if "tables_ok s" using assms that spares_trans [of UNIV s t u] by (simp add: steady_def)
  ultimately show ?thesis using assms by (simp add: steady_def)
qed

lemma owned_cong: "dom h = dom h' \<Longrightarrow> owned h fs = owned h' fs"
  by (simp add: owned_def)

lemma bound_kin:
  assumes "bound h H" and "\<And>p. rel_option kin (h p) (h' p)"
  shows "bound h' H"
  unfolding bound_def
proof (intro ballI allI impI)
  fix a y assume a: "a \<in> H" and y: "h' (fst a) = Some y"
  obtain x where x: "h (fst a) = Some x" "kin x y" using assms(2) [of "fst a"] y by (auto simp: option_rel_Some2)
  then have "native_handle x = snd a \<or> native_handle x = BAD_SOCKET" using assms(1) a unfolding bound_def by blast
  then show "native_handle y = snd a \<or> native_handle y = BAD_SOCKET" using kin_native [OF x(2)] by simp
qed

lemma steady_formed:
  assumes "steady s t" and "formed s"
  shows "formed t"
proof -
  have "fds_ok (c_env t) (c_heap t) (c_handles t)"
    using bound_kin [of "c_heap s" "c_handles s" "c_heap t"] assms by (simp add: steady_def formed_def fds_ok_def fresh_def)
  moreover have "streams_ok t" using steady_streams_ok [OF assms(1)] assms(2) by (simp add: formed_def)
  moreover have "allocated t = allocated s" using assms(1) by (simp add: steady_def allocated_def)
  ultimately show ?thesis
    using assms steady_dom [OF assms(1)] by (simp add: formed_def steady_def owned_cong [OF steady_dom [OF assms(1)]])
qed

lemma steady_lacking:
  assumes "steady s t" and "tables_ok s" and "streams_ok s"
  shows "lacking w t \<subseteq> lacking w s"
proof
  fix p assume p: "p \<in> lacking w t"
  then have "p \<in> (if w_strict w then unpolled t else stranded t)" by (auto simp: lacking_def)
  then have "p \<in> (if w_strict w then unpolled s else stranded s)" using assms unfolding steady_def by (auto split: if_splits)
  with p assms(1) show "p \<in> lacking w s" by (auto simp: lacking_def steady_def split: if_splits)
qed

lemma steady_sound:
  assumes "steady s t"
  shows "sound w s t"
proof -
  have "evolves s t" using assms by (auto simp: steady_def evolves_def)
  moreover have "c_south t = c_south s" using assms by (simp add: steady_def)
  ultimately show ?thesis
    using steady_formed [OF assms] steady_lacking [OF assms, of w] assms by (auto simp: sound_def well_formed_def formed_def steady_def spares_def)
qed

text \<open>
  A stream may be replaced by one of its \<open>kin\<close> when that does not make its output wait unwatched.
\<close>

lemma steady_stream [steady_intros]:
  assumes "steady s t" and "h = c_heap t" and "h p = Some x" and "kin x y"
    and "tr_inv (c_triggers t) \<Longrightarrow> stream_ok x \<Longrightarrow> unsent y \<Longrightarrow> native_handle x = BAD_SOCKET \<or> unsent x \<or> polled (c_triggers t) (native_handle x)"
  shows "steady s (t\<lparr>c_heap := h(p \<mapsto> y)\<rparr>)"
proof (rule steady_trans [OF assms(1)])
  let ?u = "t\<lparr>c_heap := h(p \<mapsto> y)\<rparr>"
  have n: "native_handle y = native_handle x" by (rule kin_native [OF assms(4)])
  have "unpolled ?u \<subseteq> unpolled t" using assms(2,3) n by (auto simp: lacking_def split: if_splits)
  moreover have "stranded ?u \<subseteq> stranded t" if "tables_ok t" "streams_ok t"
    using assms(2,3,5) that n by (auto simp: lacking_def tables_ok_def split: if_splits)
  ultimately show "steady t ?u" using assms(2,3,4) by (auto simp: steady_def tables_ok_def option.rel_refl spares_same)
qed

lemma steady_upd_stream [steady_intros]:
  assumes "steady s t" and "\<And>x. kin x (f x)" and "\<And>x. stream_ok x \<Longrightarrow> unsent (f x) \<Longrightarrow> unsent x"
  shows "steady s (upd_stream p f t)"
  using assms by (auto simp: upd_stream_def intro!: steady_stream split: option.split)

lemma steady_trig_set [steady_intros]: "steady s t \<Longrightarrow> steady s (trig_set fd m t)"
proof (erule steady_trans)
  have "lacking w (trig_set fd m t) \<subseteq> lacking w t" if "tables_ok t" for w
    using that by (auto simp: lacking_def trig_set_def tables_ok_def polled_set)
  moreover have "tables_ok t \<Longrightarrow> tables_ok (trig_set fd m t)" by (simp add: tables_ok_def trig_set_def trig.set_inv)
  moreover have "tables_ok t \<Longrightarrow> spares UNIV t (trig_set fd m t)" by (simp add: spares_def tables_ok_def trig_set_def watched_set)
  ultimately show "steady t (trig_set fd m t)" by (auto simp: steady_def option.rel_refl)
qed

lemma steady_trig_clear [steady_intros]: "steady s t \<Longrightarrow> \<not> bit m 2 \<Longrightarrow> fd \<notin> set (v_others (c_env s)) \<Longrightarrow> steady s (trig_clear fd m t)"
proof (frule steady_others, erule steady_trans)
  assume "\<not> bit m 2" and fd: "fd \<notin> set (v_others (c_env s))" and o: "v_others (c_env t) = v_others (c_env s)"
  then have "lacking w (trig_clear fd m t) \<subseteq> lacking w t" if "tables_ok t" for w
    using that by (auto simp: lacking_def trig_clear_def tables_ok_def polled_clear)
  moreover have "tables_ok t \<Longrightarrow> tables_ok (trig_clear fd m t)" by (simp add: tables_ok_def trig_clear_def trig.clear_inv)
  moreover have "tables_ok t \<Longrightarrow> spares UNIV t (trig_clear fd m t)"
    using fd o by (auto simp: spares_def tables_ok_def trig_clear_def intro!: watched_clear)
  ultimately show "steady t (trig_clear fd m t)" by (auto simp: steady_def option.rel_refl)
qed

lemma lacking_cong: "c_heap t = c_heap s \<Longrightarrow> c_triggers t = c_triggers s \<Longrightarrow> c_south t = c_south s \<Longrightarrow> lacking w t = lacking w s"
  by (simp add: lacking_def)

lemma steady_cong:
  assumes "steady s t" and "c_heap u = c_heap t" and "c_triggers u = c_triggers t" and "c_north u = c_north t" and "c_south u = c_south t"
    and "v_alloc (c_env u) = v_alloc (c_env t)" and "v_nalloc (c_env u) = v_nalloc (c_env t)" and "offered (c_env u) = offered (c_env t)"
    and "v_others (c_env u) = v_others (c_env t)" and "tables_ok t \<Longrightarrow> tables_ok u"
  shows "steady s u"
proof (rule steady_trans [OF assms(1)])
  show "steady t u" using assms(2-10) lacking_cong [of u t] by (simp add: steady_def option.rel_refl spares_same)
qed

lemma steady_fields [steady_intros]:
  "steady s t \<Longrightarrow> steady s (t\<lparr>c_conns := cs\<rparr>)" "steady s t \<Longrightarrow> steady s (t\<lparr>c_timeouts := q\<rparr>)"
  "steady s t \<Longrightarrow> steady s (t\<lparr>c_arrivals := n\<rparr>)"
  by (erule steady_cong; simp add: tables_ok_def)+

lemma steady_env [steady_intros]:
  "steady s t \<Longrightarrow> v_alloc e = v_alloc (c_env t) \<Longrightarrow> v_nalloc e = v_nalloc (c_env t) \<Longrightarrow> offered e = offered (c_env t) \<Longrightarrow>
    v_others e = v_others (c_env t) \<Longrightarrow> steady s (t\<lparr>c_env := e\<rparr>)"
  by (erule steady_cong; simp add: tables_ok_def)

lemma steady_metrics [steady_intros]:
  "steady s t \<Longrightarrow> steady s (t\<lparr>c_metrics := snd (add_arrival live p n (c_metrics t))\<rparr>)"
  "steady s t \<Longrightarrow> steady s (t\<lparr>c_metrics := snd (add_completion live p n (c_metrics t))\<rparr>)"
  by (erule steady_cong; simp add: tables_ok_def arr.record_sorted compl.record_sorted)+

lemma set_fmt_ksorted: "ksorted buf_ptr tbl \<Longrightarrow> ksorted buf_ptr (set_fmt i f tbl)"
  by (cases "i < length tbl") (simp_all add: set_fmt_sorted list_update_beyond)

lemma steady_mar [steady_intros]:
  assumes "steady s t" and "ksorted buf_ptr (mar_north (c_mar t)) \<Longrightarrow> ksorted buf_ptr (mar_north m)"
    and "ksorted buf_ptr (mar_south (c_mar t)) \<Longrightarrow> ksorted buf_ptr (mar_south m)"
  shows "steady s (t\<lparr>c_mar := m\<rparr>)"
  using assms(2,3) by (intro steady_cong [OF assms(1)]) (simp_all add: tables_ok_def)

lemma steady_if [steady_intros]: "(b \<Longrightarrow> steady s t) \<Longrightarrow> (\<not> b \<Longrightarrow> steady s u) \<Longrightarrow> steady s (if b then t else u)"
  by simp

text \<open>Polling for output may be asked for before or after the write.\<close>

lemma trig_set_heap [simp]: "trig_set fd m (t\<lparr>c_heap := h\<rparr>) = (trig_set fd m t)\<lparr>c_heap := h\<rparr>"
  by (simp add: trig_set_def)

lemma POLL_bits [simp]: "bit (POLLOUT :: 'a :: len word) 2 \<longleftrightarrow> 2 < LENGTH('a)" "bit (POLLIN OR POLLOUT :: u32) 2"
  "\<not> bit (POLLIN :: u32) 2" "\<not> bit (POLLIN OR POLLHUP :: u16) 2" "\<not> bit (ucast (POLLIN OR POLLHUP :: u16) :: u32) 2"
  by (simp_all add: POLLOUT_def POLLIN_def POLLHUP_def bit_simps)

lemma polled_trig_set [simp]:
  "tr_inv (c_triggers (trig_set fd m t)) \<Longrightarrow> tr_inv (c_triggers t) \<Longrightarrow> polled (c_triggers (trig_set fd m t)) q \<longleftrightarrow> polled (c_triggers t) q \<or> q = fd \<and> bit m 2"
  by (simp add: trig_set_def polled_set)

lemma steady_clear_triggers [steady_intros]:
  "steady s t \<Longrightarrow> \<not> bit m 2 \<Longrightarrow> fd \<notin> set (v_others (c_env s)) \<Longrightarrow> steady s (snd (clear_triggers fd m r t))"
  by (auto simp: clear_triggers_def bit_simps intro!: steady_trig_clear)

lemma steady_conn_loop:
  assumes "conn_loop f cs s = (cs', t)" and "\<And>c t. steady t (snd (f c t))"
  shows "steady s t"
  using conn_loop_invariant [of "steady s" s cs f] assms steady_trans by fastforce

lemma steady_remove_if:
  assumes "remove_if_st f s cs = (cs', t)" and "\<And>c t. steady t (snd (snd (f t c)))"
  shows "steady s t"
  using remove_if_st_invariant [of "steady s" s cs f] assms steady_trans by fastforce

lemma steady_fold: "(\<And>c t. steady t (f c t)) \<Longrightarrow> steady s (fold f cs s)"
  using fold_invariant [of cs "\<lambda>_. True" "steady s" s f] steady_trans steady_refl by blast

section \<open>Handles\<close>

text \<open>Nobody else has the descriptor of the handle, or will get it.\<close>

definition reserved :: "handle \<Rightarrow> ('n, 's) connector \<Rightarrow> bool" where
  "reserved hnd s \<longleftrightarrow> snd hnd \<notin> set (v_others (c_env s)) \<and> (snd hnd = BAD_SOCKET
     \<or> snd hnd \<notin> set (offered (c_env s)) \<and> (\<forall>h \<in> c_handles s. snd h = snd hnd \<longrightarrow> fst h = fst hnd))"

text \<open>
  What a handler may rely on when it is called for the stream of interface \<open>i\<close> with the handle \<open>hnd\<close>: the stream is in that table, or
  gone, and its descriptor is no other stream's.
\<close>

definition at_north :: "nat \<Rightarrow> handle \<Rightarrow> ('n, 's) connector \<Rightarrow> bool" where
  "at_north i hnd s \<longleftrightarrow> i < length (c_north s) \<and> fst hnd \<in> allocated s
     \<and> (fst hnd \<in> dom (c_heap s) \<longrightarrow> hnd \<in> set (if_streams (c_north s ! i))) \<and> reserved hnd s"

definition at_south :: "nat \<Rightarrow> handle \<Rightarrow> ('n, 's) connector \<Rightarrow> bool" where
  "at_south j hnd s \<longleftrightarrow> j < length (c_south s) \<and> fst hnd \<in> allocated s
     \<and> (fst hnd \<in> dom (c_heap s) \<longrightarrow> owns (fst hnd) (c_south s ! j)) \<and> reserved hnd s"

lemma well_formed_owned: "well_formed s \<Longrightarrow> owned (c_heap s) (c_north s @ c_south s)"
  by (simp add: well_formed_def formed_def)

lemma well_formed_fds: "well_formed s \<Longrightarrow> fds_ok (c_env s) (c_heap s) (c_handles s)"
  by (simp add: well_formed_def formed_def)

lemma well_formed_sorted:
  assumes "well_formed s"
  shows "i < length (c_north s) \<Longrightarrow> ksorted fst (if_streams (c_north s ! i))"
    and "j < length (c_south s) \<Longrightarrow> ksorted fst (if_streams (c_south s ! j))"
  using well_formed_owned [OF assms] by (auto simp: owned_def)

lemma well_formed_iface: "well_formed s \<Longrightarrow> j < length (c_south s) \<Longrightarrow> iface_ok (length (c_north s)) (c_south s ! j)"
  by (simp add: well_formed_def formed_def)

lemma well_formed_tables: "well_formed s \<Longrightarrow> tables_ok s \<and> tr_inv (c_triggers s)" "well_formed s \<Longrightarrow> c_heap s p = Some x \<Longrightarrow> stream_ok x"
  by (auto simp: well_formed_def formed_def tables_ok_def)

lemma owns_handle: "h \<in> set (if_streams f) \<Longrightarrow> owns (fst h) f"
  by (auto simp: has_key_def)

lemma handles_iff: "a \<in> handles fs \<longleftrightarrow> (\<exists>i < length fs. a \<in> set (if_streams (fs ! i)))"
  unfolding handles_def by (simp add: set_conv_nth [of fs]) blast

lemma owned_handle:
  assumes "owned h fs" and "a \<in> handles fs" and "b \<in> handles fs" and "fst a = fst b"
  shows "a = b"
proof -
  obtain i j where i: "i < length fs" "a \<in> set (if_streams (fs ! i))" and j: "j < length fs" "b \<in> set (if_streams (fs ! j))"
    using assms(2,3) by (auto simp: handles_iff)
  have "i = j" using owned_unique [OF assms(1) i(1) j(1), of "fst a"] owns_handle [OF i(2)] owns_handle [OF j(2)] assms(4) by simp
  moreover have "distinct (map fst (if_streams (fs ! i)))" using assms(1) i(1) by (auto simp: owned_def intro: ksorted_distinct)
  ultimately show ?thesis using i(2) j(2) assms(4) by (metis eq_key_imp_eq_value prod.collapse)
qed

lemma owned_live_handle:
  assumes "owned h fs" and "p \<in> dom h"
  obtains fd where "(p, fd) \<in> handles fs"
  using owned_found [OF assms] that unfolding has_key_def handles_def by fastforce

lemma well_formed_handle: "well_formed s \<Longrightarrow> a \<in> c_handles s \<Longrightarrow> b \<in> c_handles s \<Longrightarrow> fst a = fst b \<Longrightarrow> a = b"
  using owned_handle [OF well_formed_owned, of s a b] by simp

text \<open>A stream with a descriptor has it in its handle.\<close>

lemma native_in_handle:
  assumes "well_formed s" and "c_heap s p = Some x" and "native_handle x \<noteq> BAD_SOCKET"
  shows "(p, native_handle x) \<in> c_handles s"
proof -
  obtain fd where "(p, fd) \<in> c_handles s" using owned_live_handle [OF well_formed_owned [OF assms(1)], of p] assms(2) by (metis domI handles_append)
  moreover have "bound (c_heap s) (c_handles s)" using well_formed_fds [OF assms(1)] by (simp add: fds_ok_def)
  ultimately show ?thesis using boundD assms(2,3) by metis
qed

lemma handle_reserved:
  assumes "well_formed s" and "h \<in> c_handles s"
  shows "reserved h s"
proof -
  have f: "fresh (c_env s) (c_handles s)" and a: "apart (c_handles s)" using well_formed_fds [OF assms(1)] by (simp_all add: fds_ok_def)
  have 1: "snd h \<notin> set (offered (c_env s))" using f assms(2) by (simp only: fresh_def) blast
  have 2: "fst k = fst h" if "k \<in> c_handles s" "snd k = snd h" "snd h \<noteq> BAD_SOCKET" for k
    using apartD [OF a, of "fst k" "snd h" "fst h"] assms(2) that by (metis prod.collapse)
  have 3: "snd h \<notin> set (v_others (c_env s))" using f assms(2) by (simp only: fresh_def) blast
  show ?thesis
  proof (cases "snd h = BAD_SOCKET")
    case False
    then show ?thesis unfolding reserved_def using 1 3 2 [OF _ _ False] by (intro disjI2 conjI ballI impI)
  qed (use 3 in \<open>simp add: reserved_def\<close>)
qed

lemma reserved_kept:
  assumes "reserved hnd s" and "evolves s t"
  shows "reserved hnd t"
proof (cases "snd hnd = BAD_SOCKET")
  case False
  then have s: "snd hnd \<notin> set (offered (c_env s))" "\<And>h. h \<in> c_handles s \<Longrightarrow> snd h = snd hnd \<Longrightarrow> fst h = fst hnd"
    using assms(1) unfolding reserved_def by blast+
  have o: "snd hnd \<notin> set (v_others (c_env t))" using assms unfolding reserved_def evolves_def by simp
  have e: "set (offered (c_env t)) \<subseteq> set (offered (c_env s))"
    "\<And>h. h \<in> c_handles t \<Longrightarrow> h \<in> c_handles s \<or> snd h = BAD_SOCKET \<or> snd h \<in> set (offered (c_env s))"
    using assms(2) unfolding evolves_def by blast+
  have "fst h = fst hnd" if "h \<in> c_handles t" "snd h = snd hnd" for h using e(2) [OF that(1)] s False that(2) by auto
  then show ?thesis unfolding reserved_def using s(1) e(1) o by blast
qed (use assms in \<open>simp add: reserved_def evolves_def\<close>)

lemma alive_somewhere:
  assumes "well_formed s" and "p \<in> dom (c_heap s)"
  shows "(\<exists>i < length (c_north s). owns p (c_north s ! i)) \<or> (\<exists>j < length (c_south s). owns p (c_south s ! j))"
  using owned_found [OF well_formed_owned [OF assms(1)] assms(2)] by (auto simp: in_set_conv_nth)

lemma alive_once:
  assumes "well_formed s" and "i < length (c_north s)" and "owns p (c_north s ! i)"
  shows "p \<in> dom (c_heap s)" and "i' < length (c_north s) \<Longrightarrow> owns p (c_north s ! i') \<Longrightarrow> i' = i"
    and "j < length (c_south s) \<Longrightarrow> \<not> owns p (c_south s ! j)"
proof -
  note o = well_formed_owned [OF assms(1)]
  show "p \<in> dom (c_heap s)" using owned_alive [OF o, of "c_north s ! i"] assms(2,3) by simp
  show "i' = i" if "i' < length (c_north s)" "owns p (c_north s ! i')"
    using owned_unique [OF o, of i' i p] that assms(2,3) by (simp add: nth_append)
  show "\<not> owns p (c_south s ! j)" if "j < length (c_south s)"
    using owned_unique [OF o, of i "length (c_north s) + j" p] that assms(2,3) by (auto simp: nth_append)
qed

lemma alive_once_south:
  assumes "well_formed s" and "j < length (c_south s)" and "owns p (c_south s ! j)"
  shows "p \<in> dom (c_heap s)" and "j' < length (c_south s) \<Longrightarrow> owns p (c_south s ! j') \<Longrightarrow> j' = j"
proof -
  note o = well_formed_owned [OF assms(1)]
  show "p \<in> dom (c_heap s)" using owned_alive [OF o, of "c_south s ! j"] assms(2,3) by simp
  show "j' = j" if "j' < length (c_south s)" "owns p (c_south s ! j')"
    using owned_unique [OF o, of "length (c_north s) + j'" "length (c_north s) + j" p] that assms(2,3) by (simp add: nth_append)
qed

lemma evolves_north: "evolves s t \<Longrightarrow> k < length (c_north t) \<Longrightarrow> h \<in> set (if_streams (c_north t ! k)) \<Longrightarrow> fst h \<in> allocated s \<Longrightarrow>
    k < length (c_north s) \<and> h \<in> set (if_streams (c_north s ! k))"
  by (simp add: evolves_def)

lemma evolves_south: "evolves s t \<Longrightarrow> k < length (c_south t) \<Longrightarrow> owns p (c_south t ! k) \<Longrightarrow> p \<in> allocated s \<Longrightarrow>
    k < length (c_south s) \<and> owns p (c_south s ! k)"
  by (simp add: evolves_def)

lemma at_north_kept:
  assumes "at_north i hnd s" and "well_formed s" and "well_formed t" and "evolves s t"
  shows "at_north i hnd t"
proof -
  have a: "i < length (c_north s)" "fst hnd \<in> allocated s" "fst hnd \<in> dom (c_heap s) \<Longrightarrow> hnd \<in> set (if_streams (c_north s ! i))" "reserved hnd s"
    using assms(1) by (auto simp: at_north_def)
  have "hnd \<in> set (if_streams (c_north t ! i))" if "fst hnd \<in> dom (c_heap t)"
    using alive_somewhere [OF assms(3) that]
  proof
    assume "\<exists>k < length (c_north t). owns (fst hnd) (c_north t ! k)"
    then obtain k h where k': "k < length (c_north t)" "h \<in> set (if_streams (c_north t ! k))" and e: "fst h = fst hnd"
      by (auto simp: has_key_def)
    then have k: "k < length (c_north s)" "h \<in> set (if_streams (c_north s ! k))" using evolves_north [OF assms(4) k'] a(2) by simp_all
    have o: "owns (fst hnd) (c_north s ! k)" using owns_handle [OF k(2)] e by simp
    have hn: "hnd \<in> set (if_streams (c_north s ! i))" using alive_once(1) [OF assms(2) k(1) o] a(3) by blast
    have "k = i" using alive_once(2) [OF assms(2) a(1) owns_handle [OF hn] k(1) o] .
    moreover have "h = hnd" using well_formed_handle [OF assms(2), of h hnd] handles_nth [OF k] handles_nth [OF a(1) hn] e by simp
    ultimately show ?thesis using k'(2) by simp
  next
    assume "\<exists>j < length (c_south t). owns (fst hnd) (c_south t ! j)"
    then obtain j where "j < length (c_south t)" "owns (fst hnd) (c_south t ! j)" by blast
    then have j: "j < length (c_south s)" "owns (fst hnd) (c_south s ! j)" using evolves_south [OF assms(4)] a(2) by simp_all
    have "hnd \<in> set (if_streams (c_north s ! i))" using alive_once_south(1) [OF assms(2) j] a(3) by blast
    then show ?thesis using alive_once(3) [OF assms(2) a(1) owns_handle j(1)] j(2) by blast
  qed
  then show ?thesis
    using a assms(4) evolves_allocated [OF assms(4)] reserved_kept [OF a(4) assms(4)] by (auto simp: at_north_def evolves_def)
qed

lemma at_south_kept:
  assumes "at_south j hnd s" and "well_formed s" and "well_formed t" and "evolves s t"
  shows "at_south j hnd t"
proof -
  have a: "j < length (c_south s)" "fst hnd \<in> allocated s" "fst hnd \<in> dom (c_heap s) \<Longrightarrow> owns (fst hnd) (c_south s ! j)" "reserved hnd s"
    using assms(1) by (auto simp: at_south_def)
  have "owns (fst hnd) (c_south t ! j)" if "fst hnd \<in> dom (c_heap t)"
    using alive_somewhere [OF assms(3) that]
  proof
    assume "\<exists>k < length (c_south t). owns (fst hnd) (c_south t ! k)"
    then obtain k where k': "k < length (c_south t)" "owns (fst hnd) (c_south t ! k)" by blast
    then have k: "k < length (c_south s)" "owns (fst hnd) (c_south s ! k)" using evolves_south [OF assms(4) k'] a(2) by simp_all
    have "k = j" using alive_once_south [OF assms(2) k] a by blast
    with k' show ?thesis by simp
  next
    assume "\<exists>i < length (c_north t). owns (fst hnd) (c_north t ! i)"
    then obtain i h where i': "i < length (c_north t)" "h \<in> set (if_streams (c_north t ! i))" and e: "fst h = fst hnd"
      by (auto simp: has_key_def)
    then have i: "i < length (c_north s)" "owns (fst hnd) (c_north s ! i)"
      using evolves_north [OF assms(4) i'] a(2) owns_handle [of h] by auto
    have "owns (fst hnd) (c_south s ! j)" using alive_once(1) [OF assms(2) i] a(3) by blast
    then show ?thesis using alive_once(3) [OF assms(2) i a(1)] by blast
  qed
  then show ?thesis
    using a assms(4) evolves_allocated [OF assms(4)] reserved_kept [OF a(4) assms(4)] by (auto simp: at_south_def evolves_def)
qed

lemma sound_north: "sound w s t \<Longrightarrow> at_north i hnd s \<Longrightarrow> (at_north i hnd t \<Longrightarrow> sound w t u) \<Longrightarrow> sound w s u"
  using at_north_kept [of i hnd s t] sound_trans [of w s t u] by (cases "well_formed s") (auto simp: sound_def)

lemma sound_south: "sound w s t \<Longrightarrow> at_south j hnd s \<Longrightarrow> (at_south j hnd t \<Longrightarrow> sound w t u) \<Longrightarrow> sound w s u"
  using at_south_kept [of j hnd s t] sound_trans [of w s t u] by (cases "well_formed s") (auto simp: sound_def)

text \<open>Ending the watch on a descriptor concerns its own stream only.\<close>

lemma clear_sound:
  assumes "reserved (p, fd) s" and "well_formed s \<Longrightarrow> p \<notin> lacking w (trig_clear fd m s)"
  shows "sound w s (trig_clear fd m s)"
  unfolding sound_def
proof (intro impI conjI)
  let ?t = "trig_clear fd m s"
  assume wf: "well_formed s"
  note ti = well_formed_tables(1) [OF wf]
  have "tables_ok ?t" using ti by (simp add: tables_ok_def trig_clear_def trig.clear_inv)
  then show "well_formed ?t" using wf by (simp add: well_formed_def formed_def allocated_def)
  show "evolves s ?t" by (auto simp: evolves_def)
  show "lacking w ?t \<subseteq> lacking w s"
  proof
    fix q assume q: "q \<in> lacking w ?t"
    then obtain x where x: "c_heap s q = Some x" "native_handle x \<noteq> BAD_SOCKET" "w_strict w \<or> unsent x"
      "\<not> polled (c_triggers ?t) (native_handle x)" "q \<notin> w_but w" "w_south w \<or> (\<forall>f \<in> set (c_south s). \<not> owns q f)"
      by (elim lackingE) simp
    have "q \<noteq> p" using q assms(2) [OF wf] by blast
    then have "native_handle x \<noteq> fd"
      using native_in_handle [OF wf x(1,2)] assms(1) x(2) unfolding reserved_def by (metis fst_conv snd_conv)
    then have "\<not> polled (c_triggers s) (native_handle x)" using x(4) ti by (simp add: trig_clear_def polled_clear)
    then show "q \<in> lacking w s" using x by (intro lackingI) auto
  qed
  show "spares (w_others w) s ?t" using ti assms(1) unfolding reserved_def
    by (auto simp: spares_def trig_clear_def intro!: watched_clear)
qed

lemma clear_gone_sound: "reserved (p, fd) s \<Longrightarrow> sound (w\<lparr>w_but := insert p (w_but w)\<rparr>) s (trig_clear fd m s)"
  by (rule clear_sound) (auto simp: lacking_def)

end
