(* ===== verification/Callbacks.thy ===== *)
theory Callbacks
  imports Ownership Setup
begin

unbundle bit_operations_syntax

text \<open>
  The operations both connectors share keep states well formed (\<open>Ownership\<close>): streams that are made and erased, descriptors that
  are handed out, the selection of addresses, the callbacks of pending connects (the locale \<open>sound_callbacks\<close>),
  flushing, accepting and the dispatch of events.
\<close>

section \<open>Streams that come and go\<close>

lemma south_update: "(xs @ ys)[length xs + j := y] = xs @ ys[j := y]"
  by (simp add: list_update_append)

lemma tables_ok_frame [simp]:
  "tables_ok (s\<lparr>c_north := fs\<rparr>) = tables_ok s" "tables_ok (s\<lparr>c_south := fs\<rparr>) = tables_ok s"
  "tables_ok (s\<lparr>c_heap := h\<rparr>) = tables_ok s" "tables_ok (s\<lparr>c_env := e\<rparr>) = tables_ok s"
  "tables_ok (s\<lparr>c_conns := cs\<rparr>) = tables_ok s"
  by (simp_all add: tables_ok_def)

lemma fds_ok_mono: "fds_ok e h H \<Longrightarrow> H' \<subseteq> H \<Longrightarrow> fds_ok e (h(p := None)) H'"
proof -
  assume a: "fds_ok e h H" and s: "H' \<subseteq> H"
  have "fresh e H'" using a s unfolding fds_ok_def fresh_def by blast
  moreover have "apart H'" using a s unfolding fds_ok_def apart_def by blast
  moreover have "bound (h(p := None)) H'" using a s unfolding fds_ok_def bound_def by (auto split: if_splits)
  ultimately show ?thesis by (simp add: fds_ok_def)
qed

lemma owns_update:
  assumes "f \<in> set fs" and "owns q f" and "owns q (fs ! j) \<Longrightarrow> owns q g"
  shows "\<exists>f \<in> set (fs[j := g]). owns q f"
proof -
  obtain k where k: "k < length fs" "f = fs ! k" using assms(1) unfolding in_set_conv_nth by blast
  have "owns q (fs[j := g] ! k)" using assms(2,3) k by (cases "k = j") auto
  then show ?thesis using k(1) by (metis length_list_update nth_mem)
qed

lemma handles_shrink:
  assumes "if_streams g = filter (\<lambda>x. fst x \<noteq> p) (if_streams (fs ! i))" and "i < length fs"
  shows "handles (fs[i := g]) \<subseteq> handles fs"
  using handles_update [of fs i g] handles_nth [OF assms(2)] assms(1) by auto

lemma erase_north_sound:
  assumes "at_north i hnd s" and "fst hnd = p"
    and "well_formed s \<Longrightarrow> if_streams g = filter (\<lambda>x. fst x \<noteq> p) (if_streams (c_north s ! i))"
  shows "sound w s (s\<lparr>c_north := (c_north s)[i := g], c_heap := (c_heap s)(p := None)\<rparr>)"
  unfolding sound_def
proof (intro impI conjI)
  assume w: "well_formed s"
  let ?t = "s\<lparr>c_north := (c_north s)[i := g], c_heap := (c_heap s)(p := None)\<rparr>"
  have i: "i < length (c_north s)" using assms(1) by (simp add: at_north_def)
  have g: "if_streams g = filter (\<lambda>x. fst x \<noteq> p) (if_streams ((c_north s @ c_south s) ! i))"
    using assms(3) [OF w] i by (simp add: nth_append)
  have sub: "handles ((c_north s)[i := g]) \<subseteq> handles (c_north s)" by (rule handles_shrink [OF assms(3) [OF w] i])
  have "owned ((c_heap s)(p := None)) ((c_north s @ c_south s)[i := g])"
    using i assms(1,2) owns_handle [of hnd] by (intro owned_erase [OF well_formed_owned [OF w] _ g]) (auto simp: nth_append at_north_def)
  moreover have "fds_ok (c_env s) ((c_heap s)(p := None)) (handles ((c_north s)[i := g]) \<union> handles (c_south s))"
    using sub by (intro fds_ok_mono [OF well_formed_fds [OF w]]) blast
  ultimately show "well_formed ?t" using w i by (auto simp: well_formed_def formed_def allocated_def list_update_append split: if_splits)
  show "evolves s ?t" using assms(3) [OF w] i sub by (auto simp: evolves_def nth_list_update)
  show "lacking w ?t \<subseteq> lacking w s" by (auto simp: lacking_def split: if_splits)
  show "spares (w_others w) s ?t" by (rule spares_same) simp
qed

lemma erase_south_sound:
  assumes "at_south j hnd s" and "fst hnd = p"
    and "well_formed s \<Longrightarrow> if_streams g = filter (\<lambda>x. fst x \<noteq> p) (if_streams (c_south s ! j))"
    and "if_addresses g = if_addresses (c_south s ! j)" and "if_pending g = if_pending (c_south s ! j)"
  shows "sound w s (s\<lparr>c_south := (c_south s)[j := g], c_heap := (c_heap s)(p := None)\<rparr>)"
  unfolding sound_def
proof (intro impI conjI)
  assume w: "well_formed s"
  let ?t = "s\<lparr>c_south := (c_south s)[j := g], c_heap := (c_heap s)(p := None)\<rparr>"
  have j: "j < length (c_south s)" using assms(1) by (simp add: at_south_def)
  have g: "if_streams g = filter (\<lambda>x. fst x \<noteq> p) (if_streams ((c_north s @ c_south s) ! (length (c_north s) + j)))"
    using assms(3) [OF w] by simp
  have sub: "handles ((c_south s)[j := g]) \<subseteq> handles (c_south s)" by (rule handles_shrink [OF assms(3) [OF w] j])
  have "owned ((c_heap s)(p := None)) ((c_north s @ c_south s)[length (c_north s) + j := g])"
    using j assms(1,2) by (intro owned_erase [OF well_formed_owned [OF w] _ g]) (auto simp: at_south_def)
  moreover have "iface_ok (length (c_north s)) g" using well_formed_iface [OF w j] assms(4,5) by (simp add: iface_ok_def)
  moreover have "fds_ok (c_env s) ((c_heap s)(p := None)) (handles (c_north s) \<union> handles ((c_south s)[j := g]))"
    using sub by (intro fds_ok_mono [OF well_formed_fds [OF w]]) blast
  ultimately show "well_formed ?t" using w set_update_subset_insert [of "c_south s" j g]
    by (auto simp: well_formed_def formed_def allocated_def south_update split: if_splits)
  show "evolves s ?t" using assms(3) [OF w] j sub by (auto simp: evolves_def nth_list_update has_key_def)
  have "\<exists>f \<in> set ((c_south s)[j := g]). owns q f" if "f \<in> set (c_south s)" "owns q f" "q \<noteq> p" for q f
    using that assms(3) [OF w] by (intro owns_update) (auto simp: has_key_def)
  then show "lacking w ?t \<subseteq> lacking w s" by (fastforce simp: lacking_def split: if_splits)
  show "spares (w_others w) s ?t" by (rule spares_same) simp
qed

lemma north_erase_sound: "at_north i hnd s \<Longrightarrow> sound w s (north_erase i hnd s)"
  unfolding north_erase_def
  by (cases hnd, rule erase_north_sound) (auto simp: at_north_def iface_erase_spec well_formed_sorted)

lemma iface_erase_pending [simp]: "if_pending (iface_erase h f) = if_pending f" "if_pending (iface_erase_at i f) = if_pending f"
  by (simp_all add: iface_erase_def iface_erase_at_def Let_def)

lemma south_erase_sound: "at_south j hnd s \<Longrightarrow> sound w s (south_erase j hnd s)"
  unfolding south_erase_def
  by (cases hnd, rule erase_south_sound) (auto simp: at_south_def iface_erase_spec well_formed_sorted)

text \<open>The two steps of an error handler: the watch ends, then the stream.\<close>

lemma north_close_sound:
  assumes "at_north i hnd s"
  shows "sound w s (north_erase i hnd (trig_clear (snd hnd) m s))"
proof (rule sound_gone [where p = "fst hnd"])
  have "reserved (fst hnd, snd hnd) s" using assms by (simp add: at_north_def)
  from sound_north [OF clear_gone_sound [OF this] assms north_erase_sound]
  show "sound (w\<lparr>w_but := insert (fst hnd) (w_but w)\<rparr>) s (north_erase i hnd (trig_clear (snd hnd) m s))" by simp
qed (simp add: north_erase_def)

text \<open>The address of a new stream is not in use.\<close>

lemma next_owner_fresh:
  assumes "formed s"
  shows "v_alloc (c_env s) (v_nalloc (c_env s)) \<notin> allocated s"
  using assms by (auto simp: formed_def allocated_def dest: injD)

lemma iface_insert_streams: "iface_insert h f = (k, g) \<Longrightarrow> set (if_streams g) = insert h (set (if_streams f))"
  by (auto simp: iface_insert_def insert_at_def Let_def dest: in_set_takeD in_set_dropD) (metis Un_iff append_take_drop_id set_append)

lemma handles_insert:
  assumes "iface_insert h (fs ! i) = (k, g)" and "i < length fs"
  shows "handles (fs[i := g]) = insert h (handles fs)"
proof -
  note s = iface_insert_streams [OF assms(1)]
  have "a \<in> handles (fs[i := g]) \<longleftrightarrow> a = h \<or> a \<in> handles fs" for a
    unfolding handles_iff using assms(2) s by (auto simp: nth_list_update split: if_splits)
  then show ?thesis by blast
qed

text \<open>What the environment may be after a descriptor was taken from it, and a stream object made.\<close>

definition taken :: "fd \<Rightarrow> env \<Rightarrow> env \<Rightarrow> bool" where
  "taken fd e e' \<longleftrightarrow> v_alloc e' = v_alloc e \<and> v_others e' = v_others e \<and> v_nalloc e' = Suc (v_nalloc e) \<and> distinct (offered e')
     \<and> insert fd (set (offered e')) \<subseteq> set (offered e) \<and> fd \<notin> set (offered e')"

lemma fds_ok_new:
  assumes "fds_ok e h H" and "p \<notin> dom h" and "\<forall>a \<in> H. fst a \<in> dom h" and "native_handle x = fd"
    and "taken fd e e' \<or> fd = BAD_SOCKET \<and> offered e' = offered e \<and> v_others e' = v_others e"
  shows "fds_ok e' (h(p \<mapsto> x)) (insert (p, fd) H)"
proof -
  have f: "distinct (offered e)" "BAD_SOCKET \<notin> set (offered e)" "\<And>a. a \<in> H \<Longrightarrow> snd a \<notin> set (offered e)" and ap: "apart H" and b: "bound h H"
    and q: "\<And>q. q \<in> set (v_others e) \<Longrightarrow> q \<noteq> BAD_SOCKET \<and> q \<notin> set (offered e) \<and> q \<notin> snd ` H"
    using assms(1) by (simp_all add: fds_ok_def fresh_def)
  have "\<forall>q \<in> set (v_others e'). q \<noteq> BAD_SOCKET \<and> q \<notin> set (offered e') \<and> q \<notin> snd ` insert (p, fd) H"
  proof
    fix r assume "r \<in> set (v_others e')"
    then have "r \<in> set (v_others e)" using assms(5) by (auto simp: taken_def)
    from q [OF this] show "r \<noteq> BAD_SOCKET \<and> r \<notin> set (offered e') \<and> r \<notin> snd ` insert (p, fd) H" using assms(5) by (auto simp: taken_def)
  qed
  then have "fresh e' (insert (p, fd) H)" using assms(5) f by (auto simp: fresh_def taken_def)
  moreover have "apart (insert (p, fd) H)"
    using ap assms(5) f(3) unfolding apart_def taken_def by (metis insertE insertI1 fst_conv snd_conv subsetD)
  moreover have "bound (h(p \<mapsto> x)) (insert (p, fd) H)"
    using b assms(2,3,4) unfolding bound_def by auto
  ultimately show ?thesis by (simp add: fds_ok_def)
qed

lemma owned_handles_live: "owned h fs \<Longrightarrow> \<forall>a \<in> handles fs. fst a \<in> dom h"
  using owned_alive [of h fs] owns_handle by (fastforce simp: handles_def)

lemma add_north_formed:
  assumes "formed s" and "i < length (c_north s)" and "p = v_alloc (c_env s) (v_nalloc (c_env s))" and "taken fd (c_env s) e'"
    and "iface_insert (p, fd) (c_north s ! i) = (k, g)" and "stream_ok x" and "native_handle x = fd"
  shows "formed (s\<lparr>c_heap := (c_heap s)(p \<mapsto> x), c_env := e', c_north := (c_north s)[i := g]\<rparr>)"
proof -
  have o: "owned (c_heap s) (c_north s @ c_south s)" using assms(1) by (simp add: formed_def)
  have p: "p \<notin> dom (c_heap s)" using next_owner_fresh [OF assms(1)] assms(1,3) by (auto simp: formed_def)
  then have "owned ((c_heap s)(p \<mapsto> x)) ((c_north s @ c_south s)[i := g])"
    using assms(2,5) by (intro owned_insert [OF o]) (auto simp: nth_append)
  moreover have "fds_ok e' ((c_heap s)(p \<mapsto> x)) (insert (p, fd) (c_handles s))"
    using assms(1,4,7) owned_handles_live [OF o] p by (intro fds_ok_new) (auto simp: formed_def)
  then have "fds_ok e' ((c_heap s)(p \<mapsto> x)) (handles ((c_north s)[i := g]) \<union> handles (c_south s))"
    by (simp add: handles_insert [OF assms(5,2)])
  ultimately show ?thesis
    using assms(1-4,6) by (auto simp: formed_def allocated_def less_Suc_eq list_update_append taken_def split: if_splits)
qed

lemma add_north_sound:
  assumes "i < length (c_north s)" and "p = v_alloc (c_env s) (v_nalloc (c_env s))" and "taken fd (c_env s) e'"
    and "iface_insert (p, fd) (c_north s ! i) = (k, g)" and "stream_ok x" and "native_handle x = fd" and "\<not> unsent x" and "\<not> w_strict w"
  shows "sound w s (s\<lparr>c_heap := (c_heap s)(p \<mapsto> x), c_env := e', c_north := (c_north s)[i := g]\<rparr>)"
  unfolding sound_def
proof (intro impI conjI)
  assume wf: "well_formed s"
  let ?t = "s\<lparr>c_heap := (c_heap s)(p \<mapsto> x), c_env := e', c_north := (c_north s)[i := g]\<rparr>"
  show "well_formed ?t" using add_north_formed [OF _ assms(1-6)] wf by (simp add: well_formed_def)
  have "p \<notin> allocated s" using next_owner_fresh [of s] wf assms(2) by (simp add: well_formed_def)
  then show "evolves s ?t" using assms(1,3) iface_insert_streams [OF assms(4)] handles_insert [OF assms(4,1)]
    by (auto simp: evolves_def nth_list_update taken_def)
  show "lacking w ?t \<subseteq> lacking w s" using assms(7,8) by (auto simp: lacking_def split: if_splits)
  show "spares (w_others w) s ?t" by (rule spares_same) simp
qed

lemma add_south_sound:
  assumes "j < length (c_south s)" and "e = c_env s" and "p = v_alloc e (v_nalloc e)"
    and "iface_insert (p, BAD_SOCKET) (c_south s ! j) = (k, g)" and "stream_ok x" and "native_handle x = BAD_SOCKET"
  shows "sound w s (s\<lparr>c_heap := (c_heap s)(p \<mapsto> x), c_env := e\<lparr>v_nalloc := Suc (v_nalloc e)\<rparr>, c_south := (c_south s)[j := g]\<rparr>)"
  unfolding sound_def
proof (intro impI conjI)
  assume w: "well_formed s"
  let ?e = "e\<lparr>v_nalloc := Suc (v_nalloc e)\<rparr>"
  let ?t = "s\<lparr>c_heap := (c_heap s)(p \<mapsto> x), c_env := ?e, c_south := (c_south s)[j := g]\<rparr>"
  note o = well_formed_owned [OF w]
  have p: "p \<notin> allocated s" using next_owner_fresh [of s] w assms(2,3) by (simp add: well_formed_def)
  then have d: "p \<notin> dom (c_heap s)" using w by (auto simp: well_formed_def formed_def)
  have "owned ((c_heap s)(p \<mapsto> x)) ((c_north s @ c_south s)[length (c_north s) + j := g])"
    using assms(1,4) d by (intro owned_insert [OF o]) auto
  moreover have "iface_ok (length (c_north s)) g"
    using well_formed_iface [OF w assms(1)] assms(4) by (auto simp: iface_ok_def iface_insert_def Let_def)
  moreover have "fds_ok ?e ((c_heap s)(p \<mapsto> x)) (insert (p, BAD_SOCKET) (c_handles s))"
    using well_formed_fds [OF w] assms(2,6) owned_handles_live [OF o] d by (intro fds_ok_new) auto
  then have "fds_ok ?e ((c_heap s)(p \<mapsto> x)) (handles (c_north s) \<union> handles ((c_south s)[j := g]))"
    by (simp add: handles_insert [OF assms(4,1)])
  ultimately show "well_formed ?t" using w assms(1-3,5) set_update_subset_insert [of "c_south s" j g]
    by (auto simp: well_formed_def formed_def allocated_def less_Suc_eq south_update split: if_splits)
  note ins = iface_insert_streams [OF assms(4)]
  have "owns q g \<longleftrightarrow> q = p \<or> owns q (c_south s ! j)" for q using ins by (auto simp: has_key_def)
  then show "evolves s ?t" using assms(1,2) p handles_insert [OF assms(4,1)] by (auto simp: evolves_def nth_list_update)
  have "\<exists>f \<in> set ((c_south s)[j := g]). owns q f" if "f \<in> set (c_south s)" "owns q f" for q f
    using that ins by (intro owns_update) (auto simp: has_key_def)
  then show "lacking w ?t \<subseteq> lacking w s" using assms(6) by (fastforce simp: lacking_def split: if_splits)
  show "spares (w_others w) s ?t" by (rule spares_same) simp
qed

lemma south_make_sound: "j < length (c_south s) \<Longrightarrow> sound w s (snd (south_make j s))"
  by (auto simp: south_make_def new_stream_def Let_def split: prod.split intro!: add_south_sound)

section \<open>Addresses\<close>

lemma addrs_ok_filter: "addrs_ok addrs \<Longrightarrow> addrs_ok (filter P addrs)"
  by (simp add: addrs_ok_def)

lemma addrs_ok_weigh:
  assumes "addrs_ok addrs" and "\<forall>i \<in> set its. i < length addrs \<longrightarrow> ad_count (addrs ! i) \<le> 1"
  shows "addrs_ok (fold (\<lambda>i as. as[i := (as ! i)\<lparr>ad_max := 1\<rparr>]) its addrs)"
  using assms
proof (induction its arbitrary: addrs)
  case Nil
  then show ?case by simp
next
  case (Cons i its)
  let ?as = "addrs[i := (addrs ! i)\<lparr>ad_max := 1\<rparr>]"
  have "addrs_ok ?as"
    using Cons.prems set_update_subset_insert [of addrs i "(addrs ! i)\<lparr>ad_max := 1\<rparr>"]
    by (cases "i < length addrs") (auto simp: addrs_ok_def list_update_beyond dest!: subsetD simp del: One_nat_def)
  moreover have "ad_count (?as ! k) = ad_count (addrs ! k)" if "k < length addrs" for k
    using that by (cases "k = i") simp_all
  then have "\<forall>k \<in> set its. k < length ?as \<longrightarrow> ad_count (?as ! k) \<le> 1"
    using Cons.prems(2) by (simp del: One_nat_def)
  ultimately show ?case using Cons.IH by (simp del: One_nat_def)
qed

lemma reweigh_ok: "addrs_ok (if_addresses f) \<Longrightarrow> addrs_ok (if_addresses (reweigh f))"
proof -
  assume ok: "addrs_ok (if_addresses f)"
  have "\<forall>i \<in> set (top_its (if_addresses f)). i < length (if_addresses f) \<longrightarrow> ad_count (if_addresses f ! i) \<le> 1"
    if z: "sum_list (map (\<lambda>i. ad_max (if_addresses f ! i)) (top_its (if_addresses f))) = 0"
  proof (intro ballI impI)
    fix i assume i: "i \<in> set (top_its (if_addresses f))" "i < length (if_addresses f)"
    have "ad_max (if_addresses f ! i) = 0" using z i(1) by (simp add: sum_list_eq_0_iff)
    moreover have "ad_count (if_addresses f ! i) \<le> ad_max (if_addresses f ! i)" using ok i(2) by (simp add: addrs_ok_def)
    ultimately show "ad_count (if_addresses f ! i) \<le> 1" by linarith
  qed
  with ok addrs_ok_weigh [OF ok] show ?thesis
    by (simp add: reweigh_def find_weights_def weights_loop_spec weights_spec_def)
qed

lemma reweigh_frame [simp]: "if_streams (reweigh f) = if_streams f" "if_pending (reweigh f) = if_pending f"
  by (simp_all add: reweigh_def split: prod.split)

lemma expire_ok:
  assumes "expire_addresses t f = (n, g)"
  shows "if_streams g = if_streams f" and "if_pending g = if_pending f"
    and "addrs_ok (if_addresses f) \<Longrightarrow> addrs_ok (if_addresses g)"
  using assms reweigh_ok [of "f\<lparr>if_addresses := filter (\<lambda>a. \<not> expired t a) (if_addresses f)\<rparr>"]
  by (auto simp: expire_addresses_def Let_def addrs_ok_filter split: if_splits)

lemma next_addr_ok:
  assumes "sel_inv f" and "addrs_ok (if_addresses f)"
  obtains a g where "next_addr f = Some (a, g)" and "sel_inv g" and "if_streams g = if_streams f" and "if_pending g = if_pending f"
    and "addrs_ok (if_addresses g)"
proof -
  obtain a g where g: "next_addr f = Some (a, g)" "sel_inv g" "map addr_key (if_addresses g) = map addr_key (if_addresses f)"
    and fr: "if_streams g = if_streams f" "if_pending g = if_pending f"
    by (rule next_addr_frame [OF assms(1)])
  have "map (snd \<circ> snd \<circ> addr_key) (if_addresses g) = map (snd \<circ> snd \<circ> addr_key) (if_addresses f)"
    using g(3) by (metis map_map)
  then have "map ad_prio (if_addresses g) = map ad_prio (if_addresses f)" by (simp add: addr_key_def comp_def)
  then have pr: "ad_prio ` set (if_addresses g) = ad_prio ` set (if_addresses f)" by (metis list.set_map)
  have le: "\<forall>n \<in> ad_prio ` set (if_addresses f). n \<le> SIZE_MAX" using assms(2) by (simp add: addrs_ok_def)
  have "\<forall>b \<in> set (if_addresses g). ad_prio b \<le> SIZE_MAX" using le [folded pr] by blast
  moreover have "\<forall>b \<in> set (if_addresses g). ad_count b \<le> ad_max b"
    using g(2) unfolding sel_inv_def by (metis in_set_conv_nth)
  ultimately have "addrs_ok (if_addresses g)" unfolding addrs_ok_def by blast
  with that g(1,2) fr show thesis by blast
qed

section \<open>Callbacks\<close>

text \<open>While an interface resolves its pending connects it is updated apart from the state it belongs to.\<close>

definition put :: "nat \<Rightarrow> connect_cb iface \<Rightarrow> ('n, 's) connector \<Rightarrow> ('n, 's) connector" where
  "put j f s = s\<lparr>c_south := (c_south s)[j := f]\<rparr>"

lemma put_frame [simp]:
  "c_north (put j f s) = c_north s" "c_south (put j f s) = (c_south s)[j := f]" "c_heap (put j f s) = c_heap s"
  "c_env (put j f s) = c_env s" "c_conns (put j f s) = c_conns s" "c_triggers (put j f s) = c_triggers s"
  "allocated (put j f s) = allocated s" "tables_ok (put j f s) = tables_ok s"
  by (simp_all add: put_def allocated_def)

lemma put_same: "put j (c_south s ! j) s = s"
  by (simp add: put_def)

lemma put_put [simp]: "put j g (put j f s) = put j g s"
  by (simp add: put_def)

lemma owns_cong: "map fst (if_streams g) = map fst (if_streams f) \<Longrightarrow> owns p g = owns p f"
  unfolding has_key_def by (metis list.set_map)

lemma handles_cong: "map if_streams gs = map if_streams fs \<Longrightarrow> handles gs = handles fs"
  unfolding handles_def by (metis list.set_map image_image)

text \<open>The interface may be replaced by one with the same streams in the same order.\<close>

lemma put_owned:
  assumes "well_formed (put j f s)" and "j < length (c_south s)" and "map fst (if_streams g) = map fst (if_streams f)"
  shows "owned (c_heap s) (c_north s @ (c_south s)[j := g])"
proof -
  let ?k = "length (c_north s) + j"
  have "ksorted fst (if_streams g)" using well_formed_sorted(2) [OF assms(1), of j] assms(2,3) by (simp add: ksorted_def)
  then have "owned (c_heap s) ((c_north s @ (c_south s)[j := f])[?k := g])"
    using well_formed_owned [OF assms(1)] assms(2) owns_cong [OF assms(3)] by (intro owned_same) simp_all
  then show ?thesis by (simp add: south_update)
qed

lemma put_lacking:
  assumes "map fst (if_streams g) = map fst (if_streams f)"
  shows "lacking w (put j g s) = lacking w (put j f s)"
proof (cases "j < length (c_south s)")
  case True
  have "(\<exists>h \<in> set ((c_south s)[j := g]). owns q h) \<longleftrightarrow> (\<exists>h \<in> set ((c_south s)[j := f]). owns q h)" for q
    using owns_update [of _ "(c_south s)[j := g]" q j f] owns_update [of _ "(c_south s)[j := f]" q j g] owns_cong [OF assms, of q] True by auto
  then show ?thesis by (auto simp: lacking_def)
qed (simp add: put_def list_update_beyond)

lemma put_sound:
  assumes "if_streams g = if_streams f"
    and "iface_ok (length (c_north s)) f \<Longrightarrow> iface_ok (length (c_north s)) g"
  shows "sound w (put j f s) (put j g s)"
proof (cases "j < length (c_south s)")
  case True
  have m: "map fst (if_streams g) = map fst (if_streams f)" using assms(1) by simp
  have h: "handles ((c_south s)[j := g]) = handles ((c_south s)[j := f])" using assms(1) by (intro handles_cong) (simp add: map_update)
  show ?thesis unfolding sound_def
  proof (intro impI conjI)
    assume wf: "well_formed (put j f s)"
    have "iface_ok (length (c_north s)) g" using well_formed_iface [OF wf, of j] assms(2) True by simp
    then show "well_formed (put j g s)" using wf put_owned [OF wf True m] set_update_subset_insert [of "(c_south s)[j := f]" j g] h
      by (auto simp: well_formed_def formed_def)
    show "evolves (put j f s) (put j g s)" using owns_cong [OF m] True h by (auto simp: evolves_def nth_list_update)
    show "lacking w (put j g s) \<subseteq> lacking w (put j f s)" by (simp add: put_lacking [OF m])
    show "spares (w_others w) (put j f s) (put j g s)" by (rule spares_same) simp
  qed
qed (simp add: put_def list_update_beyond)

lemma steady_put: "steady s t \<Longrightarrow> steady (put j f s) (put j f t)"
  by (simp add: steady_def lacking_def spares_def)

text \<open>A stream without a descriptor gets one: first its handle, then the stream itself.\<close>

lemma handles_set:
  assumes "i < length (if_streams f)" and "if_streams f ! i = (p, d)" and "j < length fs"
  shows "handles (fs[j := f\<lparr>if_streams := (if_streams f)[i := (p, fd)]\<rparr>]) \<subseteq> insert (p, fd) (handles (fs[j := f]))"
proof -
  have "set (if_streams f) \<subseteq> handles (fs[j := f])" using assms(3) by (auto simp: handles_def intro: set_update_memI)
  then show ?thesis
    using handles_update [of "fs[j := f]" j "f\<lparr>if_streams := (if_streams f)[i := (p, fd)]\<rparr>"]
      set_update_subset_insert [of "if_streams f" i "(p, fd)"] by auto
qed

lemma claim_fds:
  assumes "fds_ok e h H" and "(p, BAD_SOCKET) \<in> H" and "H' \<subseteq> insert (p, fd) H" and "fd \<in> set (offered e)"
    and "distinct (offered e')" and "set (offered e') \<subseteq> set (offered e) - {fd}" and "v_others e' = v_others e"
  shows "fds_ok e' h H'"
proof -
  have f: "distinct (offered e)" "BAD_SOCKET \<notin> set (offered e)" "\<And>a. a \<in> H \<Longrightarrow> snd a \<notin> set (offered e)" and ap: "apart H" and b: "bound h H"
    and q: "\<And>q. q \<in> set (v_others e) \<Longrightarrow> q \<noteq> BAD_SOCKET \<and> q \<notin> set (offered e) \<and> q \<notin> snd ` H"
    using assms(1) by (simp_all add: fds_ok_def fresh_def)
  have "\<forall>q \<in> set (v_others e'). q \<noteq> BAD_SOCKET \<and> q \<notin> set (offered e') \<and> q \<notin> snd ` H'"
  proof
    fix r assume "r \<in> set (v_others e')"
    then have r: "r \<noteq> BAD_SOCKET" "r \<notin> set (offered e)" "r \<notin> snd ` H" using q [of r] assms(7) by simp_all
    have "snd ` H' \<subseteq> insert fd (snd ` H)" using assms(3) by auto
    then show "r \<noteq> BAD_SOCKET \<and> r \<notin> set (offered e') \<and> r \<notin> snd ` H'" using r assms(4,6) by blast
  qed
  moreover have "distinct (offered e') \<and> BAD_SOCKET \<notin> set (offered e') \<and> (\<forall>a \<in> H'. snd a \<notin> set (offered e'))" using f assms(3,5,6) by fastforce
  ultimately have "fresh e' H'" by (simp add: fresh_def)
  moreover have "apart H'"
    unfolding apart_def
  proof (intro ballI impI)
    fix a b assume a: "a \<in> H'" and b: "b \<in> H'" and e: "snd a = snd b" "snd a \<noteq> BAD_SOCKET"
    have "a = (p, fd) \<or> a \<in> H" "b = (p, fd) \<or> b \<in> H" using a b assms(3) by auto
    then show "fst a = fst b" using e f(3) assms(4) ap unfolding apart_def by (metis fst_conv snd_conv)
  qed
  moreover have "bound h H'"
    unfolding bound_def
  proof (intro ballI allI impI)
    fix a x assume a: "a \<in> H'" and x: "h (fst a) = Some x"
    have "a = (p, fd) \<or> a \<in> H" using a assms(3) by auto
    then show "native_handle x = snd a \<or> native_handle x = BAD_SOCKET"
      using boundD [OF b assms(2), of x] b x unfolding bound_def by (metis fst_conv)
  qed
  ultimately show ?thesis by (simp add: fds_ok_def)
qed

lemma take_socket_some:
  assumes "take_socket s = ((Some fd, nd), t)"
  obtains as where "v_socket (c_env s) = (Some fd, nd) # as" and "t = s\<lparr>c_env := (c_env s)\<lparr>v_socket := as\<rparr>\<rparr>"
  using assms that by (auto simp: take_socket_def split: list.splits)

lemma offered_socket:
  assumes "v_socket e = (Some fd, nd) # as"
  obtains xs ys where "offered e = xs @ fd # ys" and "offered (e\<lparr>v_socket := as\<rparr>) = xs @ ys"
  using assms that by (simp add: offered_def)

lemma claim_sound:
  assumes "take_socket s = ((Some fd, nd), t)" and "i < length (if_streams f)" and "if_streams f ! i = (p, BAD_SOCKET)" and "j < length (c_south s)"
  shows "sound w (put j f s) (put j (f\<lparr>if_streams := (if_streams f)[i := (p, fd)]\<rparr>) t)"
  unfolding sound_def
proof (intro impI conjI)
  let ?g = "f\<lparr>if_streams := (if_streams f)[i := (p, fd)]\<rparr>" and ?s = "put j f s"
  assume wf: "well_formed ?s"
  obtain as where as: "v_socket (c_env s) = (Some fd, nd) # as" "t = s\<lparr>c_env := (c_env s)\<lparr>v_socket := as\<rparr>\<rparr>" by (rule take_socket_some [OF assms(1)])
  obtain xs ys where o: "offered (c_env s) = xs @ fd # ys" "offered (c_env t) = xs @ ys" by (rule offered_socket [OF as(1)]) (simp add: as(2))
  have d: "distinct (xs @ fd # ys)" using well_formed_fds [OF wf] o(1) by (simp add: fds_ok_def fresh_def)
  have t: "c_heap t = c_heap s" "c_north t = c_north s" "c_south t = c_south s" "c_triggers t = c_triggers s" "tables_ok t = tables_ok s"
    "allocated t = allocated s" "v_alloc (c_env t) = v_alloc (c_env s)" "v_nalloc (c_env t) = v_nalloc (c_env s)"
    "v_others (c_env t) = v_others (c_env s)" by (simp_all add: as(2) allocated_def)
  have m: "map fst (if_streams ?g) = map fst (if_streams f)" using assms(2,3) by (simp add: map_update list_update_same_conv)
  have H: "handles ((c_south s)[j := ?g]) \<subseteq> insert (p, fd) (handles ((c_south s)[j := f]))" by (rule handles_set [OF assms(2,3,4)])
  have "(p, BAD_SOCKET) \<in> set (if_streams f)" using assms(2,3) nth_mem by metis
  then have P: "(p, BAD_SOCKET) \<in> c_handles ?s" using handles_nth [of j "(c_south s)[j := f]"] assms(4) by simp
  have "handles (c_north s) \<union> handles ((c_south s)[j := ?g]) \<subseteq> insert (p, fd) (c_handles ?s)" using H by auto
  from claim_fds [OF well_formed_fds [OF wf] P this] d
  have "fds_ok (c_env t) (c_heap s) (handles (c_north s) \<union> handles ((c_south s)[j := ?g]))" by (simp add: o t)
  moreover have "iface_ok (length (c_north s)) ?g" using well_formed_iface [OF wf, of j] assms(4) by (simp add: iface_ok_def)
  ultimately show "well_formed (put j ?g t)"
    using wf put_owned [OF wf assms(4) m] t set_update_subset_insert [of "(c_south s)[j := f]" j ?g]
    by (auto simp: well_formed_def formed_def)
  show "evolves ?s (put j ?g t)" using owns_cong [OF m] assms(4) t H o
    by (auto simp: evolves_def nth_list_update)
  show "lacking w (put j ?g t) \<subseteq> lacking w ?s" using put_lacking [OF m, of w j s] t by (simp add: lacking_def)
  show "spares (w_others w) ?s (put j ?g t)" using t by (intro spares_same) simp
qed

lemma open_sound:
  assumes "(p, fd) \<in> c_handles s" and "fd \<noteq> BAD_SOCKET" and "\<And>x. c_heap s p = Some x \<Longrightarrow> native_handle x = BAD_SOCKET"
    and "bit m 2"
  shows "sound w s (trig_set fd m (upd_stream p (\<lambda>x. x\<lparr>rdbuf := snd (connectto a len ((rdbuf x)\<lparr>sk_socket := fd\<rparr>))\<rparr>) s))"
    (is "sound w s (trig_set fd m (upd_stream p ?F s))")
proof (cases "c_heap s p")
  case None
  then show ?thesis by (auto simp: upd_stream_def intro!: steady_sound steady_intros)
next
  case (Some x)
  have n: "native_handle x = BAD_SOCKET" using assms(3) Some by simp
  define t where "t = trig_set fd m (upd_stream p ?F s)"
  have t: "t = (trig_set fd m s)\<lparr>c_heap := (c_heap s)(p \<mapsto> ?F x)\<rparr>" by (simp add: t_def upd_stream_def Some)
  show ?thesis unfolding t_def [symmetric] sound_def
  proof (intro impI conjI)
    assume wf: "well_formed s"
    have y: "stream_ok (?F x)" "native_handle (?F x) = fd"
      using connectto_frame [OF well_formed_tables(2) [OF wf Some] n assms(2) refl] by simp_all
    have tr: "tables_ok t" using well_formed_tables(1) [OF wf] by (simp add: t tables_ok_def trig_set_def trig.set_inv)
    have "bound ((c_heap s)(p \<mapsto> ?F x)) (c_handles s)"
      unfolding bound_def
    proof (intro ballI allI impI)
      fix b z assume b: "b \<in> c_handles s" and z: "((c_heap s)(p \<mapsto> ?F x)) (fst b) = Some z"
      show "native_handle z = snd b \<or> native_handle z = BAD_SOCKET"
      proof (cases "fst b = p")
        case True
        then have "b = (p, fd)" using well_formed_handle [OF wf b assms(1)] by simp
        then show ?thesis using z y(2) by simp
      next
        case False
        then show ?thesis using well_formed_fds [OF wf] b z unfolding fds_ok_def bound_def by simp
      qed
    qed
    then have "fds_ok (c_env s) ((c_heap s)(p \<mapsto> ?F x)) (c_handles s)" using well_formed_fds [OF wf] by (simp add: fds_ok_def)
    moreover have "dom ((c_heap s)(p \<mapsto> ?F x)) = dom (c_heap s)" using Some by auto
    ultimately show "well_formed t"
      using wf y(1) tr owned_cong [of "(c_heap s)(p \<mapsto> ?F x)" "c_heap s"] by (auto simp: t well_formed_def formed_def allocated_def split: if_splits)
    show "evolves s t" by (auto simp: t evolves_def)
    show "lacking w t \<subseteq> lacking w s"
      using well_formed_tables(1) [OF wf] y(2) assms(4) by (auto simp: t lacking_def trig_set_def polled_set split: if_splits)
    show "spares (w_others w) s t" using well_formed_tables(1) [OF wf] by (simp add: t spares_def trig_set_def watched_set)
  qed
qed

locale sound_callbacks = connect_callbacks c_live run
  for run :: "connect_cb \<Rightarrow> nat \<Rightarrow> byte list option \<Rightarrow> nat \<Rightarrow> string \<Rightarrow> connect_cb iface \<Rightarrow> ('n, 's) connector \<Rightarrow>
      connect_cb iface \<times> ('n, 's) connector" +
  assumes run_sound: "run cb i addr len proto f s = (g, s') \<Longrightarrow> cb_ok (length (c_north s)) cb \<Longrightarrow>
      j < length (c_south s) \<Longrightarrow> i < length (if_streams f) \<Longrightarrow> sound w (put j f s) (put j g s')"
    and run_frame: "run cb i addr len proto f s = (g, s') \<Longrightarrow>
      length (c_north s') = length (c_north s) \<and> length (c_south s') = length (c_south s) \<and> if_pending g = if_pending f"
begin

lemma run_pending_sound:
  assumes "sel_inv f" and "addrs_ok (if_addresses f)" and "\<forall>x \<in> set ps. cb_ok (length (c_north s)) (snd x)"
    and "\<forall>x \<in> set (if_pending f). cb_ok (length (c_north s)) (snd x)"
    and "j < length (c_south s)" and "run_pending c_live run ps f s = Some (g, s')"
  shows "sound w (put j f s) (put j g s') \<and> addrs_ok (if_addresses g) \<and> if_pending g = if_pending f \<and> length (c_north s') = length (c_north s)"
  using assms
proof (induction ps arbitrary: f s)
  case Nil
  then show ?case by simp
next
  case (Cons x ps)
  obtain wp cb where x: "x = (wp, cb)" by fastforce
  obtain a h where h: "next_addr f = Some (a, h)" "sel_inv h" "if_streams h = if_streams f" "if_pending h = if_pending f"
    "addrs_ok (if_addresses h)" by (rule next_addr_ok [OF Cons.prems(1,2)])
  have fh: "sound w (put j f s) (put j h s)"
    using h Cons.prems(4) by (intro put_sound) (simp_all add: iface_ok_def)
  let ?i = "length (takeWhile (\<lambda>h. fst h \<noteq> wp) (if_streams h))"
  consider (dead) "\<not> c_live s wp" "run_pending c_live run ps f s = Some (g, s')"
    | (gone) "run_pending c_live run ps h s = Some (g, s')"
    | (run) f2 s2 addrp where "run cb ?i addrp (ad_len a) (if_protocol h) h s = (f2, s2)"
        "?i < length (if_streams h)" "run_pending c_live run ps f2 s2 = Some (g, s')"
    using Cons.prems(6) x h(1) by (auto simp: Let_def split: if_splits prod.splits)
  then show ?case
  proof cases
    case dead
    then show ?thesis using Cons.IH [OF Cons.prems(1,2) _ Cons.prems(4,5)] Cons.prems(3) by simp
  next
    case gone
    then have "sound w (put j h s) (put j g s') \<and> addrs_ok (if_addresses g) \<and> if_pending g = if_pending h \<and> length (c_north s') = length (c_north s)"
      using Cons.prems h by (intro Cons.IH) simp_all
    then show ?thesis using fh sound_trans h(4) by metis
  next
    case run
    have hf: "sound w (put j h s) (put j f2 s2)" using run_sound [OF run(1)] run(2) Cons.prems(3,5) x by simp
    note l = run_frame [OF run(1)] and sel = run_selection [OF run(1)]
    have "sound w (put j f2 s2) (put j g s') \<and> addrs_ok (if_addresses g) \<and> if_pending g = if_pending f2 \<and> length (c_north s') = length (c_north s2)"
      using Cons.prems l sel h run(3) run_sel_inv [OF run(1) h(2)] by (intro Cons.IH) simp_all
    then show ?thesis using fh hf sound_trans l h(4) by metis
  qed
qed

lemma resolve_sound:
  assumes "iface_ok (length (c_north s)) f" and "j < length (c_south s)"
    and "resolve_callbacks c_live run now f s = Some (g, s')"
  shows "sound w (put j f s) (put j g s')"
proof -
  obtain n f1 where e: "expire_addresses (now - HYST_WND) f = (n, f1)" by fastforce
  have ok: "addrs_ok (if_addresses f)" "\<forall>x \<in> set (if_pending f). cb_ok (length (c_north s)) (snd x)"
    using assms(1) by (simp_all add: iface_ok_def)
  note fr = expire_ok(1,2) [OF e] expire_ok(3) [OF e ok(1)]
  show ?thesis
  proof (cases "n = 0")
    case True
    then have "g = f1 \<and> s' = s" using assms(3) e by (simp add: resolve_callbacks_def)
    then show ?thesis using fr ok by (auto intro!: put_sound simp: iface_ok_def)
  next
    case False
    let ?f = "f1\<lparr>if_pending := []\<rparr>"
    have sel: "sel_inv ?f" using expire_sel_inv [OF ok(1) e False] sel_inv_cong [of ?f f1] by simp
    obtain f2 where r: "run_pending c_live run (if_pending f1) ?f s = Some (f2, s')" "g = snd (expire_addresses now f2)"
      using assms(3) e False by (auto simp: resolve_callbacks_def bind_eq_Some_conv)
    obtain m where m: "expire_addresses now f2 = (m, g)" using r(2) by (metis prod.collapse)
    have p1: "sound w (put j f s) (put j ?f s)" using fr by (intro put_sound) (simp_all add: iface_ok_def)
    have p2: "sound w (put j ?f s) (put j f2 s')" "addrs_ok (if_addresses f2)" "if_pending f2 = []"
      using run_pending_sound [OF sel _ _ _ assms(2) r(1)] fr ok by simp_all
    have "sound w (put j f2 s') (put j g s')"
      using expire_ok [OF m] p2 by (intro put_sound) (simp_all add: iface_ok_def)
    with p1 p2(1) show ?thesis using sound_trans by blast
  qed
qed

text \<open>Registering a connect, and new addresses for an interface.\<close>

lemma register_sound:
  assumes "cb_ok (length (c_north s)) cb" and "j < length (c_south s)"
    and "register_connect c_live run now p cb (c_south s ! j) s = Some (g, s')"
  shows "sound w s (put j g s')"
proof -
  let ?f = "(c_south s ! j)\<lparr>if_pending := if_pending (c_south s ! j) @ [(p, cb)]\<rparr>"
  show ?thesis
  proof (cases "well_formed s")
    case True
    have ok: "iface_ok (length (c_north s)) ?f" using well_formed_iface [OF True assms(2)] assms(1) by (auto simp: iface_ok_def)
    have "sound w (put j (c_south s ! j) s) (put j ?f s)" using ok by (intro put_sound) simp_all
    moreover have "sound w (put j ?f s) (put j g s')"
      using resolve_sound [OF ok assms(2)] assms(3) by (simp add: register_connect_def)
    ultimately show ?thesis using sound_trans by (metis put_same)
  qed (simp add: sound_def)
qed

lemma set_addresses_sound:
  assumes "addrs_ok addrs" and "j < length (c_south s)" and "set_addresses c_live run now addrs (c_south s ! j) s = Some (g, s')"
  shows "sound w s (put j g s')"
proof -
  let ?f = "reweigh ((c_south s ! j)\<lparr>if_addresses := addrs\<rparr>)"
  show ?thesis
  proof (cases "well_formed s")
    case True
    have ok: "iface_ok (length (c_north s)) ?f"
      using well_formed_iface [OF True assms(2)] assms(1) by (simp add: iface_ok_def reweigh_ok)
    have "sound w (put j (c_south s ! j) s) (put j ?f s)" using ok by (intro put_sound) simp_all
    moreover have "sound w (put j ?f s) (put j g s')"
      using resolve_sound [OF ok assms(2)] assms(3) by (simp add: set_addresses_def)
    ultimately show ?thesis using sound_trans by (metis put_same)
  qed (simp add: sound_def)
qed

text \<open>In a well-formed state neither of them loops forever.\<close>

lemma register_returns:
  assumes "well_formed s" and "j < length (c_south s)"
  shows "\<exists>r. register_connect c_live run now p cb (c_south s ! j) s = Some r"
  using resolve_returns [of "(c_south s ! j)\<lparr>if_pending := if_pending (c_south s ! j) @ [(p, cb)]\<rparr>" now s] well_formed_iface [OF assms]
  by (simp add: register_connect_def iface_ok_def)

end

section \<open>Operations both connectors share\<close>

lemma take_socket_none: "take_socket s = ((None, nd), t) \<Longrightarrow> steady s t"
  by (auto simp: take_socket_def offered_def intro!: steady_intros split: list.splits)

lemma connect_run_sound:
  assumes erase: "\<And>hnd f s g s'. erase hnd f s = (g, s') \<Longrightarrow> length (c_north s) = n \<Longrightarrow> j < length (c_south s) \<Longrightarrow>
      owns (fst hnd) f \<Longrightarrow> sound w (put j f s) (put j g s')"
    and run: "connect_run erase i addr len proto f s = (g, s')" and s: "length (c_north s) = n" "j < length (c_south s)"
    and i: "i < length (if_streams f)"
  shows "sound w (put j f s) (put j g s')"
proof -
  obtain p sockfd where h: "if_streams f ! i = (p, sockfd)" by fastforce
  then have o: "owns p f" using i unfolding has_key_def by (metis fst_conv image_eqI nth_mem)
  have gone: "sound w (put j f s) (put j g s')" if "erase (p, fd) f s = (g, s')" for fd
    using erase [OF that s] o by simp
  have opened: "sound w (put j f s) (put j g s')" if tk: "take_socket s = ((so, nodelay), t)" and a: "addr = Some a"
    and b: "sockfd = - 1" "proto = ''TCP'' \<or> proto = ''UNIX''" for so nodelay a t
  proof (cases so)
    case None
    have st: "steady s t" using take_socket_none tk None by blast
    then have l: "length (c_north t) = n" "j < length (c_south t)" using s by (simp_all add: steady_def)
    have "erase (p, - 1) f t = (g, s')" using run h tk a b None by (auto simp: connect_run_def)
    from sound_trans [OF steady_sound [OF steady_put [OF st]] erase [OF this l]] o show ?thesis by simp
  next
    case (Some fd)
    let ?f = "f\<lparr>if_streams := (if_streams f)[i := (p, fd)]\<rparr>"
    note tk' = tk [unfolded Some]
    obtain as where as: "v_socket (c_env s) = (Some fd, nodelay) # as" "t = s\<lparr>c_env := (c_env s)\<lparr>v_socket := as\<rparr>\<rparr>" by (rule take_socket_some [OF tk'])
    have l: "length (c_north t) = n" "j < length (c_south t)" "c_heap t = c_heap s" using s by (simp_all add: as(2))
    have c: "sound w (put j f s) (put j ?f t)" using claim_sound [OF tk' i _ s(2)] h b(1) by simp
    show ?thesis
    proof (cases "proto = ''TCP'' \<and> \<not> nodelay")
      case True
      then have "erase (p, fd) ?f t = (g, s')" using run h tk a b Some by (auto simp: connect_run_def)
      moreover have "owns p ?f" using owns_handle [of "(p, fd)" ?f] set_update_memI [OF i, of "(p, fd)"] by simp
      ultimately show ?thesis using sound_trans [OF c erase [OF _ l(1,2)]] by simp
    next
      case False
      define F where "F = (\<lambda>x :: sockstream. x\<lparr>rdbuf := snd (connectto a len ((rdbuf x)\<lparr>sk_socket := fd\<rparr>))\<rparr>)"
      have gs: "g = ?f" "s' = trig_set fd (POLLIN OR POLLOUT) (upd_stream p F t)"
        using run h tk a b Some False by (auto simp: connect_run_def F_def)
      then have pu: "put j g s' = trig_set fd (POLLIN OR POLLOUT) (upd_stream p F (put j ?f t))"
        by (simp add: put_def trig_set_def upd_stream_def split: option.split)
      show ?thesis
      proof (rule soundI)
        assume wf: "well_formed (put j f s)"
        have bd: "bound (c_heap s) (c_handles (put j f s))" and fr: "fresh (c_env s) (c_handles (put j f s))"
          using well_formed_fds [OF wf] by (simp_all add: fds_ok_def)
        have "(p, - 1) \<in> set (if_streams f)" using h b(1) i nth_mem by metis
        then have "(p, - 1) \<in> handles ((c_south s)[j := f])" using s(2) by (auto simp: handles_def intro: set_update_memI)
        then have "native_handle x = - 1" if "c_heap s p = Some x" for x using boundD [OF bd _ that, of "- 1"] by simp
        moreover have "fd \<noteq> - 1" using fr by (rule_tac offered_socket [OF as(1)]) (auto simp: fresh_def)
        moreover have "(p, fd) \<in> handles ((c_south t)[j := ?f])" using l(2) i by (auto simp: handles_def intro!: bexI set_update_memI)
        ultimately have "sound w (put j ?f t) (put j g s')"
          unfolding pu F_def by (intro open_sound) (auto simp: l(3))
        then show "sound w (put j f s) (put j g s')" by (rule sound_trans [OF c])
      qed
    qed
  qed
  show ?thesis
  proof (cases addr)
    case None
    then show ?thesis using gone run h by (simp add: connect_run_def)
  next
    case (Some b)
    consider (connected) "sockfd \<noteq> - 1" | (other) "sockfd = - 1" "\<not> (proto = ''TCP'' \<or> proto = ''UNIX'')"
      | (new) "sockfd = - 1" "proto = ''TCP'' \<or> proto = ''UNIX''" by blast
    then show ?thesis
    proof cases
      case connected
      then have "g = f" "s' = trig_set sockfd (POLLIN OR POLLOUT) s" using run h Some by (auto simp: connect_run_def)
      then show ?thesis by (auto intro!: steady_sound steady_put steady_intros)
    next
      case other
      then show ?thesis using gone run h Some by (simp add: connect_run_def)
    next
      case new
      obtain so nd t where "take_socket s = ((so, nd), t)" by (cases "take_socket s") auto
      with new Some show ?thesis using opened by blast
    qed
  qed
qed

text \<open>Flushing keeps what is pending watched.\<close>

lemma pollout_sound:
  assumes "pollout_handler hnd revents s = (st, r, s')" and "reserved hnd s" and "\<not> w_strict w"
  shows "sound w s s'"
proof (cases "c_heap s (fst hnd)")
  case None
  then show ?thesis using assms(1) by (cases hnd) (simp add: pollout_handler_def)
next
  case (Some x)
  obtain sp sfd where h: "hnd = (sp, sfd)" by fastforce
  define x1 where "x1 = (if revents AND POLLERR \<noteq> 0 \<and> v_sockerr (c_env s) sfd \<noteq> 0 then x\<lparr>rdbuf := (rdbuf x)\<lparr>sk_errno := v_sockerr (c_env s) sfd\<rparr>\<rparr> else x)"
  define x2 where "x2 = (if revents AND (POLLERR OR POLLNVAL) \<noteq> 0 then x1\<lparr>badbit := True\<rparr> else x1)"
  let ?x = "sock_flush x2"
  let ?t = "s\<lparr>c_heap := (c_heap s)(sp \<mapsto> ?x)\<rparr>"
  have k: "kin x x2" "unsent x2 \<longleftrightarrow> unsent x"
    by (auto simp: x1_def x2_def sk_pending_def intro!: kin_cong)
  have st: "steady s ?t"
  proof (rule steady_stream [OF steady_refl refl])
    show "c_heap s sp = Some x" using Some h by simp
    show "kin x ?x" by (rule kin_trans [OF k(1) kin_flush])
    show "native_handle x = BAD_SOCKET \<or> unsent x \<or> polled (c_triggers s) (native_handle x)" if "stream_ok x" "unsent ?x"
      using unsent_flush [of x2] k that by (auto simp: kin_def)
  qed
  have s': "s' = ?t \<or> (s' = trig_clear sfd POLLOUT ?t \<and> \<not> fail_of ?x \<and> sock_tellp ?x = 0)"
  proof -
    have hs: "c_heap s sp = Some x" using Some h by simp
    have "pollout_handler hnd revents s = (if fail_of ?x then (- 1, revents, ?t)
        else (0, revents AND NOT (POLLOUT OR POLLERR OR POLLNVAL), if sock_tellp ?x = 0 then trig_clear sfd POLLOUT ?t else ?t))"
      unfolding pollout_handler_def h prod.case hs option.case Let_def x2_def x1_def by (rule refl)
    then show ?thesis using assms(1) by (auto split: if_splits)
  qed
  have "sound w ?t (trig_clear sfd POLLOUT ?t)" if "\<not> fail_of ?x" "sock_tellp ?x = 0"
  proof (rule clear_sound [where p = sp])
    show "reserved (sp, sfd) ?t" using assms(2) h by (simp add: reserved_def)
    assume "well_formed ?t"
    then have "stream_ok ?x" using well_formed_tables(2) [of ?t sp ?x] by simp
    then have "\<not> unsent ?x" using stream_ok_tellp that by blast
    then show "sp \<notin> lacking w (trig_clear sfd POLLOUT ?t)" using assms(3) by (auto simp: lacking_def)
  qed
  then show ?thesis using s' steady_sound [OF st] sound_trans [OF steady_sound [OF st]] by blast
qed

lemma wake_steady: "steady s (wake this other p s)"
  unfolding wake_def by (rule steady_fold) (auto intro!: steady_intros split: option.split)

text \<open>The accept loop hands over its answers one by one.\<close>

abbreviation with_answers :: "accept_result list \<Rightarrow> ('n, 's) connector \<Rightarrow> ('n, 's) connector" where
  "with_answers as s \<equiv> s\<lparr>c_env := (c_env s)\<lparr>v_accept := as\<rparr>\<rparr>"

lemma accept_loop_answers: "accept_loop i as (with_answers bs s) = accept_loop i as s"
proof (induction i as s rule: accept_loop.induct)
  case (2 i fd as s)
  have "trig_set fd POLLIN (snd (north_make i fd True (with_answers bs s))) = with_answers bs (trig_set fd POLLIN (snd (north_make i fd True s)))"
    by (simp add: north_make_def new_stream_def trig_set_def Let_def split: prod.split)
  then show ?case using 2 by simp
qed simp_all

lemma offered_accept: "offered (e\<lparr>v_accept := Accepted fd # as\<rparr>) = fd # offered (e\<lparr>v_accept := as\<rparr>)"
  "offered (e\<lparr>v_accept := AcceptErr k # as\<rparr>) = offered (e\<lparr>v_accept := as\<rparr>)"
  by (simp_all add: offered_def)

lemma accepted_sound:
  assumes "i < length (c_north s)" and "\<not> w_strict w"
  shows "sound w (with_answers (Accepted fd # as) s) (with_answers as (snd (north_make i fd True s)))"
proof (rule soundI)
  let ?s = "with_answers (Accepted fd # as) s"
  let ?e = "(c_env s)\<lparr>v_accept := as\<rparr>"
  assume wf: "well_formed ?s"
  obtain k g where g: "iface_insert (v_alloc (c_env s) (v_nalloc (c_env s)), fd) (c_north s ! i) = (k, g)" by fastforce
  have d: "distinct (fd # offered ?e)" using well_formed_fds [OF wf] by (simp add: fds_ok_def fresh_def offered_accept)
  have "taken fd (c_env ?s) (?e\<lparr>v_nalloc := Suc (v_nalloc (c_env s))\<rparr>)" using d by (auto simp: taken_def offered_accept)
  note add = add_north_sound [OF _ refl this, of i k g "ios_init (sockbuf_make fd True True True (v_kernels (c_env s) (v_nalloc (c_env s))))" w]
  have "with_answers as (snd (north_make i fd True s)) = ?s\<lparr>c_heap := (c_heap ?s)(v_alloc (c_env ?s) (v_nalloc (c_env ?s)) \<mapsto>
      ios_init (sockbuf_make fd True True True (v_kernels (c_env s) (v_nalloc (c_env s))))),
      c_env := ?e\<lparr>v_nalloc := Suc (v_nalloc (c_env s))\<rparr>, c_north := (c_north ?s)[i := g]\<rparr>"
    using g by (simp add: north_make_def new_stream_def Let_def)
  then show "sound w ?s (with_answers as (snd (north_make i fd True s)))" using add assms g stream_ok_new by simp
qed

lemma accept_loop_sound:
  "i < length (c_north s) \<Longrightarrow> \<not> w_strict w \<Longrightarrow> accept_loop i as s = (r, s') \<Longrightarrow> sound w (with_answers as s) s'"
proof (induction i as s rule: accept_loop.induct)
  case (1 i s)
  then show ?case by simp
next
  case (2 i fd as s)
  let ?t = "trig_set fd POLLIN (snd (north_make i fd True s))"
  have l: "length (c_north ?t) = length (c_north s)" by (simp add: north_make_def new_stream_def Let_def split: prod.split)
  have "sound w (with_answers (Accepted fd # as) s) (with_answers as ?t)"
  proof -
    have "with_answers as ?t = trig_set fd POLLIN (with_answers as (snd (north_make i fd True s)))" by (simp add: trig_set_def)
    then show ?thesis using sound_trans [OF accepted_sound [OF 2(2,3)] steady_sound [OF steady_trig_set [OF steady_refl]]] by metis
  qed
  moreover have "sound w (with_answers as ?t) s'" using 2 l by simp
  ultimately show ?case by (rule sound_trans)
next
  case (3 i e as s)
  have "steady (with_answers (AcceptErr e # as) s) (with_answers as s)"
    by (rule steady_cong [OF steady_refl]) (simp_all add: offered_accept)
  then have "sound w (with_answers (AcceptErr e # as) s) (with_answers as s)" by (rule steady_sound)
  then show ?case using 3 sound_trans by (auto split: if_splits)
qed

lemma accept_sound:
  "i < length (c_north s) \<Longrightarrow> \<not> w_strict w \<Longrightarrow> accept_handler i revents s = (st, r, s') \<Longrightarrow> sound w s s'"
  using accept_loop_sound [of i s w "v_accept (c_env s)"]
  by (auto simp: accept_handler_def split: if_splits prod.splits)

lemma find_stream_sound:
  assumes "find_stream fd k fs = Some (j, h)"
  shows "k \<le> j \<and> j < k + length fs \<and> h \<in> set (if_streams (fs ! (j - k)))"
  using assms
proof (induction fs arbitrary: k)
  case (Cons f fs)
  show ?case
  proof (cases "find (\<lambda>h. snd h = fd) (if_streams f)")
    case None
    then have "Suc k \<le> j \<and> j < Suc k + length fs \<and> h \<in> set (if_streams (fs ! (j - Suc k)))" using Cons.IH [of "Suc k"] Cons.prems by simp
    then show ?thesis using Suc_diff_Suc [of k j] by (auto simp flip: Suc_diff_Suc)
  next
    case (Some h')
    then have "h' \<in> set (if_streams f)" by (auto simp: find_Some_iff)
    with Some show ?thesis using Cons.prems by auto
  qed
qed simp

section \<open>Events\<close>

lemma handle_at_north:
  assumes "well_formed s" and "i < length (c_north s)" and "h \<in> set (if_streams (c_north s ! i))"
  shows "at_north i h s"
proof -
  have "fst h \<in> dom (c_heap s)" by (rule alive_once(1) [OF assms(1,2) owns_handle [OF assms(3)]])
  then have "fst h \<in> allocated s" using assms(1) by (auto simp: well_formed_def formed_def)
  then show ?thesis using assms handle_reserved [OF assms(1)] handles_nth [OF assms(2,3)] by (simp add: at_north_def)
qed

lemma handle_at_south:
  assumes "well_formed s" and "j < length (c_south s)" and "h \<in> set (if_streams (c_south s ! j))"
  shows "at_south j h s"
proof -
  have "fst h \<in> dom (c_heap s)" by (rule alive_once_south(1) [OF assms(1,2) owns_handle [OF assms(3)]])
  then have "fst h \<in> allocated s" using assms(1) by (auto simp: well_formed_def formed_def)
  then show ?thesis using assms handle_reserved [OF assms(1)] handles_nth [OF assms(2,3)] owns_handle [OF assms(3)] by (simp add: at_south_def)
qed

lemma north_side_sound:
  assumes handler: "\<And>i h r s n r' s'. at_north i h s \<Longrightarrow> handler i h r s = (n, r', s') \<Longrightarrow> sound w s s'"
    and ev: "handle_side c_north this other handler ev s = Some (n, r, s')"
  shows "sound w s s'"
proof (cases "well_formed s")
  case True
  obtain j h where f: "find_stream (pfd_fd ev) 0 (c_north s) = Some (j, h)"
    using ev by (auto simp: handle_side_def split: option.splits)
  let ?t = "if pfd_revents ev AND (POLLOUT OR POLLERR) \<noteq> 0 then wake this other (fst h) s else s"
  have h: "handler j h (pfd_revents ev) ?t = (n, r, s')" using ev f by (simp add: handle_side_def)
  have at: "at_north j h s" using find_stream_sound [OF f] by (intro handle_at_north [OF True]) simp_all
  have "steady s ?t" by (simp add: wake_steady)
  from sound_north [OF steady_sound [OF this] at] h handler show ?thesis by blast
qed (simp add: sound_def)

lemma south_side_sound:
  assumes handler: "\<And>j h r s n r' s'. at_south j h s \<Longrightarrow> handler j h r s = (n, r', s') \<Longrightarrow> sound w s s'"
    and ev: "handle_side c_south this other handler ev s = Some (n, r, s')"
  shows "sound w s s'"
proof (cases "well_formed s")
  case True
  obtain j h where f: "find_stream (pfd_fd ev) 0 (c_south s) = Some (j, h)"
    using ev by (auto simp: handle_side_def split: option.splits)
  let ?t = "if pfd_revents ev AND (POLLOUT OR POLLERR) \<noteq> 0 then wake this other (fst h) s else s"
  have h: "handler j h (pfd_revents ev) ?t = (n, r, s')" using ev f by (simp add: handle_side_def)
  have at: "at_south j h s" using find_stream_sound [OF f] by (intro handle_at_south [OF True]) simp_all
  have "steady s ?t" by (simp add: wake_steady)
  from sound_south [OF steady_sound [OF this] at] h handler show ?thesis by blast
qed (simp add: sound_def)

lemma handle_event_sound:
  assumes "\<And>ev s n r s'. side1 ev s = Some (n, r, s') \<Longrightarrow> sound w s s'"
    and "\<And>ev s n r s'. side2 ev s = Some (n, r, s') \<Longrightarrow> sound w s s'"
  shows "sound w (snd st) (snd (snd (snd (handle_event side1 side2 st ev))))"
  using assms [of ev "snd st"] by (cases st) (auto simp: handle_event_def split: option.split)

lemma handle_events_sound:
  assumes "\<And>ev s n r s'. side1 ev s = Some (n, r, s') \<Longrightarrow> sound w s s'"
    and "\<And>ev s n r s'. side2 ev s = Some (n, r, s') \<Longrightarrow> sound w s s'"
    and "\<And>cb s. sound w s (timer cb s)" and "\<And>evs s1 n evs' s'. evolves s s1 \<Longrightarrow> resolver evs s1 = (n, evs', s') \<Longrightarrow> sound w s1 s'"
    and "handle_events resolver timer side1 side2 events s = (n, events', s')"
  shows "sound w s s'"
proof -
  obtain events1 h s1 where r: "remove_if_st (handle_event side1 side2) (0, s) events = (events1, h, s1)"
    by (cases "remove_if_st (handle_event side1 side2) (0, s) events") auto
  have he: "sound w (snd st) (snd (snd (snd (handle_event side1 side2 st ev))))" for st ev
    by (rule handle_event_sound) (use assms(1,2) in blast)+
  have "sound w s (snd (snd (remove_if_st (handle_event side1 side2) (0, s) events)))"
  proof (rule remove_if_st_invariant [where I = "\<lambda>st. sound w s (snd st)"])
    show "sound w s (snd (0 :: nat, s))" by simp
    show "sound w s (snd (snd (snd (handle_event side1 side2 st ev))))" if "sound w s (snd st)" for st ev
      by (rule sound_trans [OF that he])
  qed
  then have 1: "sound w s s1" using r by simp
  obtain m events2 s2 where v: "resolver events1 s1 = (m, events2, s2)" by (cases "resolver events1 s1") auto
  obtain k cbs q where p: "process_events (v_now (c_env s2)) (c_timeouts s2) = (k, cbs, q)"
    by (cases "process_events (v_now (c_env s2)) (c_timeouts s2)") auto
  have s': "s' = fold timer cbs (s2\<lparr>c_timeouts := q\<rparr>)" using assms(5) r v p by (simp add: handle_events_def)
  have 3: "sound w s2 (s2\<lparr>c_timeouts := q\<rparr>)" by (auto intro!: steady_sound steady_intros)
  have "sound w (s2\<lparr>c_timeouts := q\<rparr>) s'" unfolding s'
    using assms(3) sound_trans sound_refl by (intro fold_invariant [where Q = "\<lambda>_. True" and P = "sound w (s2\<lparr>c_timeouts := q\<rparr>)"]) blast+
  then show ?thesis using 1 3 assms(4) [OF _ v] sound_trans by (metis sound_def)
qed

end
