(* ===== verification/Answers.thy ===== *)
theory Answers
  imports Callbacks
begin

unbundle bit_operations_syntax

text \<open>
  What the lookup library does to a connector. While the resolver handles its sockets it changes the interest list, and the library runs the
  callbacks of the lookups that are answered, which change the interfaces and start connects. Shown: as the descriptors of the
  library are not those of the connector's streams, all of it keeps states well formed and streams watched; and the modelled
  resolver, \<open>resolver_handle\<close> of \<open>Resolver\<close>, changes the interest in the library's descriptors only.
\<close>

type_synonym ('n, 's) event_handler = "pollfd list \<Rightarrow> ('n, 's) connector \<Rightarrow> nat \<times> pollfd list \<times> ('n, 's) connector"

section \<open>Answers\<close>

text \<open>One answer, for one of the south interfaces; \<open>run\<close> is the connect callback of the connector.\<close>

inductive answered ::
  "(connect_cb \<Rightarrow> nat \<Rightarrow> byte list option \<Rightarrow> nat \<Rightarrow> string \<Rightarrow> connect_cb iface \<Rightarrow> ('n, 's) connector \<Rightarrow> connect_cb iface \<times> ('n, 's) connector) \<Rightarrow>
   ('n, 's) connector \<Rightarrow> ('n, 's) connector \<Rightarrow> bool"
  for run s where
  addresses: "j < length (c_south s) \<Longrightarrow> prio \<le> SIZE_MAX \<Longrightarrow>
    ares_addrinfo_cb c_live run t now (wt, 0, prio) answer (c_south s ! j) s = Inr (qs, f, s') \<Longrightarrow> answered run s (put j f s')"
| services: "j < length (c_south s) \<Longrightarrow>
    ares_getsrv_cb c_live run t now name srv (c_south s ! j) s = Inr (qs, f, s') \<Longrightarrow> answered run s (put j f s')"
| pointers: "j < length (c_south s) \<Longrightarrow>
    ares_getnaptr_cb c_live run compile sub t now subject naptr (c_south s ! j) s = Inr (qs, f, s') \<Longrightarrow> answered run s (put j f s')"

lemma put_protocol_sound: "sound w s (put j ((c_south s ! j)\<lparr>if_protocol := x\<rparr>) s)"
  using put_sound [of "(c_south s ! j)\<lparr>if_protocol := x\<rparr>" "c_south s ! j" s w j] by (simp add: put_same iface_ok_def)

context sound_callbacks
begin

lemma settle_sound:
  assumes "settle c_live run now addrs (c_south s ! j) s = Inr (qs, f, s')" and "addrs_ok addrs" and "j < length (c_south s)"
  shows "sound w s (put j f s')"
  using assms set_addresses_sound [OF assms(2,3)] by (auto simp: settle_def split: option.splits)

lemma error_sound:
  assumes "ares_handle_error c_live run t now (c_south s ! j) s = Inr (qs, f, s')" and "j < length (c_south s)"
  shows "sound w s (put j f s')"
proof (rule settle_sound [OF _ _ assms(2)])
  show "settle c_live run now [error_address t] (c_south s ! j) s = Inr (qs, f, s')" using assms(1) by (simp add: ares_handle_error_def)
qed (simp add: addrs_ok_def error_address_def)

lemma addrinfo_sound:
  assumes "ares_addrinfo_cb c_live run t now (wt, 0, prio) answer (c_south s ! j) s = Inr (qs, f, s')"
    and "j < length (c_south s)" and "prio \<le> SIZE_MAX"
  shows "sound w s (put j f s')"
proof (cases answer)
  case None
  then show ?thesis using assms error_sound by (simp add: ares_addrinfo_cb_def)
next
  case (Some nodes)
  have "addrs_ok (map (answer_address t (wt, 0, prio)) nodes)"
    using assms(3) by (simp add: addrs_ok_def answer_address_def make_address_def)
  then show ?thesis using assms(1,2) Some settle_sound by (simp add: ares_addrinfo_cb_def ares_addrinfo_success_def)
qed

lemma srv_sound:
  assumes "ares_getsrv_cb c_live run t now name srv (c_south s ! j) s = Inr (qs, f, s')" and "j < length (c_south s)"
  shows "sound w s (put j f s')"
  using assms error_sound put_protocol_sound
  by (auto simp: ares_getsrv_cb_def ares_getsrv_success_def ares_parse_srv_success_def Let_def split: option.splits)

lemma naptr_sound:
  assumes "ares_getnaptr_cb c_live run compile sub t now subject naptr (c_south s ! j) s = Inr (qs, f, s')" and "j < length (c_south s)"
  shows "sound w s (put j f s')"
  using assms error_sound
  by (auto simp: ares_getnaptr_cb_def ares_getnaptr_success_def put_same split: option.splits sum.splits)

lemma answered_sound: "answered run s s' \<Longrightarrow> sound w s s'"
  by (erule answered.cases) (auto intro: addrinfo_sound srv_sound naptr_sound)

end

section \<open>The descriptors of the library\<close>

text \<open>The library has the descriptors \<open>F\<close>, which are some of those that others in the process have.\<close>

definition foreign :: "fd set \<Rightarrow> ('n, 's) connector \<Rightarrow> bool" where
  "foreign F s \<longleftrightarrow> F \<subseteq> set (v_others (c_env s))"

lemma foreign_evolves: "foreign F s \<Longrightarrow> evolves s t \<Longrightarrow> foreign F t"
  by (simp add: foreign_def evolves_others)

lemma foreign_native:
  assumes "well_formed s" and "foreign F s" and "c_heap s p = Some x" and "native_handle x \<noteq> BAD_SOCKET"
  shows "native_handle x \<notin> F"
proof
  assume "native_handle x \<in> F"
  then have "native_handle x \<in> set (v_others (c_env s))" using assms(2) by (auto simp: foreign_def)
  then have "native_handle x \<notin> snd ` c_handles s" using well_formed_fds [OF assms(1)] by (simp only: fds_ok_def fresh_def) blast
  then show False using native_in_handle [OF assms(1,3,4)] by force
qed

text \<open>An interest list that differs in the descriptors \<open>F\<close> only.\<close>

definition differs_in :: "fd set \<Rightarrow> trigger \<Rightarrow> trigger \<Rightarrow> bool" where
  "differs_in F t t' \<longleftrightarrow> (tr_inv t \<longrightarrow> tr_inv t' \<and> (\<forall>fd. fd \<notin> F \<longrightarrow> interest t' fd = interest t fd))"

lemma differs_refl [simp]: "differs_in F t t"
  by (simp add: differs_in_def)

lemma differs_trans: "differs_in F t u \<Longrightarrow> differs_in F u v \<Longrightarrow> differs_in F t v"
  by (simp add: differs_in_def)

text \<open>A step of the library: the interest in its own descriptors changes, or a lookup is answered.\<close>

inductive lib_step for run F where
  interest: "differs_in F (c_triggers s) t \<Longrightarrow> lib_step run F s (s\<lparr>c_triggers := t\<rparr>)"
| answer: "answered run s s' \<Longrightarrow> lib_step run F s s'"

text \<open>What the connectors rely on: whatever its events and the state, the resolver's handler is such steps, one after the other.\<close>

definition drives ::
  "(connect_cb \<Rightarrow> nat \<Rightarrow> byte list option \<Rightarrow> nat \<Rightarrow> string \<Rightarrow> connect_cb iface \<Rightarrow> ('n, 's) connector \<Rightarrow> connect_cb iface \<times> ('n, 's) connector) \<Rightarrow>
   fd set \<Rightarrow> ('n, 's) event_handler \<Rightarrow> bool" where
  "drives run F resolver \<longleftrightarrow> (\<forall>events s. (lib_step run F)\<^sup>*\<^sup>* s (snd (snd (resolver events s))))"

lemma interest_sound:
  assumes "foreign F s" and "differs_in F (c_triggers s) t" and "F \<inter> w_others w = {}"
  shows "sound w s (s\<lparr>c_triggers := t\<rparr>)"
  unfolding sound_def
proof (intro impI conjI)
  assume wf: "well_formed s"
  then have d: "tr_inv t" "\<And>fd. fd \<notin> F \<Longrightarrow> interest t fd = interest (c_triggers s) fd"
    using assms(2) well_formed_tables(1) [OF wf] by (auto simp: differs_in_def)
  show "well_formed (s\<lparr>c_triggers := t\<rparr>)" using wf d(1) by (simp add: well_formed_def formed_def allocated_def tables_ok_def)
  show "evolves s (s\<lparr>c_triggers := t\<rparr>)" by (auto simp: evolves_def)
  show "lacking w (s\<lparr>c_triggers := t\<rparr>) \<subseteq> lacking w s" using d(2) foreign_native [OF wf assms(1)] by (auto simp: lacking_def polled_def)
  have "q \<notin> F" if "q \<in> w_others w" for q using assms(3) that by blast
  then show "spares (w_others w) s (s\<lparr>c_triggers := t\<rparr>)" using d(2) by (simp add: spares_def watched_def)
qed

context sound_callbacks
begin

lemma lib_steps_sound:
  assumes "(lib_step run F)\<^sup>*\<^sup>* s t" and "foreign F s" and "F \<inter> w_others w = {}"
  shows "sound w s t"
proof (cases "well_formed s")
  case True
  from assms(1) show ?thesis
  proof induction
    case (step t u)
    have f: "foreign F t" using foreign_evolves [OF assms(2)] step.IH True by (simp add: sound_def)
    have "sound w t u" using step.hyps(2) by cases (auto intro: interest_sound [OF f _ assms(3)] answered_sound)
    then show ?case by (rule sound_trans [OF step.IH])
  qed simp
qed (simp add: sound_def)

lemma drives_sound:
  assumes "drives run F resolver" and "foreign F s" and "F \<inter> w_others w = {}" and "resolver events s = (n, events', s')"
  shows "sound w s s'"
  using assms lib_steps_sound [of F s s' w] unfolding drives_def by (metis snd_conv)

end

section \<open>The resolver\<close>

text \<open>The pass of the modelled resolver over a connector's events, with the library's work \<open>pr\<close> and its time out \<open>tm\<close>. Where the program's behaviour is undefined
  (\<open>resolver_handle\<close> is \<open>None\<close>) nothing is said: the pass leaves the state alone.\<close>

definition resolver_pass ::
  "(fd \<Rightarrow> fd \<Rightarrow> 'x \<Rightarrow> (fd \<times> bool \<times> bool) list \<times> 'x) \<Rightarrow> ('x \<Rightarrow> int option) \<Rightarrow> 'x resolver \<Rightarrow> ('n, 's) event_handler" where
  "resolver_pass pr tm r events s =
     (case resolver_handle pr tm (v_now (c_env s)) events (c_triggers s) r of
        Some (n, events', t, r') \<Rightarrow> (n, events', s\<lparr>c_triggers := t\<rparr>)
      | None \<Rightarrow> (0, events, s))"

text \<open>A library that has and reports the descriptors \<open>F\<close> only.\<close>

definition within :: "fd set \<Rightarrow> (fd \<Rightarrow> fd \<Rightarrow> 'x \<Rightarrow> (fd \<times> bool \<times> bool) list \<times> 'x) \<Rightarrow> 'x resolver \<Rightarrow> bool" where
  "within F pr r \<longleftrightarrow> (\<forall>readfd writefd x. fst ` set (fst (pr readfd writefd x)) \<subseteq> F) \<and> fst ` set (rs_handles r) \<subseteq> F"

lemma set_differs: "fd \<in> F \<Longrightarrow> differs_in F t (tset fd m t)"
  unfolding differs_in_def using trig.set_inv trig.set_other by metis

lemma clear_differs: "fd \<in> F \<Longrightarrow> differs_in F t (tclear fd m t)"
  unfolding differs_in_def using trig.clear_inv trig.clear_other by metis

lemma sync_differs: "fd \<in> F \<Longrightarrow> differs_in F t (sync_interest fd ev cur t)"
  unfolding sync_interest_def Let_def using set_differs clear_differs differs_trans differs_refl by (smt (verit, best))

lemma fst_update: "fst ` set (hs[i := h]) \<subseteq> insert (fst h) (fst ` set hs)"
  using set_update_subset_insert [of hs i h] by fastforce

lemma fst_insert_at: "fst ` set (insert_at i h hs) \<subseteq> insert (fst h) (fst ` set hs)"
  unfolding insert_at_def using set_take_subset [of i hs] set_drop_subset [of i hs] by auto

lemma socket_cb_within: "fst ` set (ares_socket_cb cb hs) \<subseteq> insert (fst cb) (fst ` set hs)"
proof -
  obtain fd rd wr where cb: "cb = (fd, rd, wr)" by (cases cb)
  have "ares_socket_cb cb hs = insert_at (lower_bound (\<lambda>x. fst x < fd) hs) (fd, sock_state rd wr) hs
      \<or> ares_socket_cb cb hs = hs[lower_bound (\<lambda>x. fst x < fd) hs := (fd, sock_state rd wr)]"
    unfolding cb by (simp add: ares_socket_cb_def Let_def)
  then show ?thesis using fst_update fst_insert_at unfolding cb by (metis fst_conv)
qed

lemma socket_cbs_within: "fst ` set cbs \<subseteq> F \<Longrightarrow> fst ` set hs \<subseteq> F \<Longrightarrow> fst ` set (fold ares_socket_cb cbs hs) \<subseteq> F"
proof (induction cbs arbitrary: hs)
  case (Cons cb cbs)
  then have "fst ` set (ares_socket_cb cb hs) \<subseteq> F" using subset_trans [OF socket_cb_within [of cb hs], of F] by simp
  with Cons show ?case by simp
qed simp

lemma process_event_within:
  assumes "within F pr r"
  shows "within F pr (process_event pr tm now h r)"
proof -
  obtain rd wr where p: "process_event pr tm now h r
      = set_timeout tm now (r\<lparr>rs_handles := fold ares_socket_cb (fst (pr rd wr (rs_chan r))) (rs_handles r), rs_chan := snd (pr rd wr (rs_chan r))\<rparr>)"
    unfolding process_event_def Let_def split_beta by blast
  have "rs_handles (set_timeout tm now q) = rs_handles q" for q by (simp add: set_timeout_def split: option.split)
  then have "rs_handles (process_event pr tm now h r) = fold ares_socket_cb (fst (pr rd wr (rs_chan r))) (rs_handles r)" unfolding p by simp
  then show ?thesis using assms socket_cbs_within unfolding within_def by metis
qed

text \<open>A pass changes the interest in the library's descriptors only.\<close>

lemma handle_sockets_differs:
  assumes "handle_sockets pr tm now i j (n, events, t, r) = Some (n', events', t', r')" and "within F pr r"
  shows "differs_in F t t'"
  using assms
proof (induction "length (rs_handles r) - i" arbitrary: i j n events t r rule: less_induct)
  case less
  show ?case
  proof (cases "length (rs_handles r) \<le> i")
    case True
    then show ?thesis using less.prems(1) by (subst (asm) handle_sockets.simps) simp
  next
    case False
    obtain fd ev where h: "rs_handles r ! i = (fd, ev)" by fastforce
    have fd: "fd \<in> F" using less.prems(2) nth_mem [of i "rs_handles r"] False h unfolding within_def by force
    have rest: "differs_in F u t'"
      if "handle_sockets pr tm now (Suc i) k (m, evs, u, q) = Some (n', events', t', r')" "within F pr q" "length (rs_handles q) = length (rs_handles r)" for k m evs u q
      using less.hyps [OF _ that(1,2)] that(3) False by simp
    show ?thesis
    proof (cases "ev = 0")
      case True
      then have "handle_sockets pr tm now (Suc i) j (n, events, tclear_all fd t, r) = Some (n', events', t', r')"
        using less.prems(1) False h by (subst (asm) handle_sockets.simps) simp
      from rest [OF this less.prems(2) refl] show ?thesis by (rule differs_trans [OF clear_differs [OF fd]])
    next
      case nz: False
      let ?k = "length (takeWhile (\<lambda>e. pfd_fd e \<noteq> fd) events)"
      define cur where "cur = (if ?k < length events then pfd_events (events ! ?k) else 0)"
      define due where "due = (if ?k < length events then pfd_revents (events ! ?k) \<noteq> 0 else rs_time r + rs_interval r < now)"
      define r1 where "r1 = (if due then process_event pr tm now (fd, ev) r else r)"
      have w1: "within F pr r1" using less.prems(2) process_event_within unfolding r1_def by auto
      let ?ev1 = "snd (rs_handles r1 ! i)"
      let ?evs = "if ?k < length events then erase_at ?k events else events"
      let ?n = "if due then n + 1 else n"
      have len: "length (rs_handles r1) = length (rs_handles r)"
        and eq: "(if ?ev1 = 0 then handle_sockets pr tm now (Suc i) j (?n, ?evs, sync_interest fd ?ev1 cur t, r1)
            else handle_sockets pr tm now (Suc i) (Suc j) (?n, ?evs, sync_interest fd ?ev1 cur t, r1\<lparr>rs_handles := (rs_handles r1)[j := rs_handles r1 ! i]\<rparr>))
          = Some (n', events', t', r')"
        using less.prems(1) False h nz unfolding cur_def due_def r1_def
        by (subst (asm) handle_sockets.simps, simp add: Let_def split: if_splits)+
      have "fst (rs_handles r1 ! i) \<in> fst ` set (rs_handles r1)" using False len by simp
      then have "fst (rs_handles r1 ! i) \<in> F" using w1 unfolding within_def by blast
      then have "fst ` set ((rs_handles r1)[j := rs_handles r1 ! i]) \<subseteq> F"
        using w1 subset_trans [OF fst_update [of "rs_handles r1" j "rs_handles r1 ! i"], of F] unfolding within_def by simp
      then have "within F pr (r1\<lparr>rs_handles := (rs_handles r1)[j := rs_handles r1 ! i]\<rparr>)" using w1 by (simp add: within_def)
      then have "differs_in F (sync_interest fd ?ev1 cur t) t'"
        using eq rest [OF _ w1 len] rest [of "Suc j" _ _ _ "r1\<lparr>rs_handles := (rs_handles r1)[j := rs_handles r1 ! i]\<rparr>"] len by (simp split: if_splits)
      then show ?thesis by (rule differs_trans [OF sync_differs [OF fd]])
    qed
  qed
qed

lemma resolver_pass_drives: "within F pr r \<Longrightarrow> drives run F (resolver_pass pr tm r)"
  unfolding drives_def resolver_pass_def resolver_handle_def
  using handle_sockets_differs by (auto split: option.split intro!: r_into_rtranclp lib_step.interest)

lemma resolver_pass_triggers: "\<exists>t. snd (snd (resolver_pass pr tm r events s)) = s\<lparr>c_triggers := t\<rparr> \<and> (within F pr r \<longrightarrow> differs_in F (c_triggers s) t)"
proof (cases "resolver_handle pr tm (v_now (c_env s)) events (c_triggers s) r")
  case None
  then show ?thesis by (intro exI [of _ "c_triggers s"]) (simp add: resolver_pass_def)
next
  case (Some a)
  obtain n ev t r' where a: "a = (n, ev, t, r')" by (cases a)
  show ?thesis using handle_sockets_differs [OF Some [unfolded resolver_handle_def a]] Some
    by (intro exI [of _ t]) (simp add: resolver_pass_def a)
qed

section \<open>Sockets the library closes\<close>

text \<open>A quiet pass: no events for the library's sockets, and the time out not reached.\<close>

lemma quiet_pass_clears:
  assumes "rs_handles r = hs" and "distinct (map fst hs)" and "(a, 0) \<in> set hs" and "\<forall>e \<in> set events. pfd_fd e \<notin> fst ` set hs"
    and "v_now (c_env s) \<le> rs_time r + rs_interval r" and "tr_inv (c_triggers s)"
  shows "interest (c_triggers (snd (snd (resolver_pass pr tm r events s)))) a = None"
proof -
  obtain t where t: "resolver_handle pr tm (v_now (c_env s)) events (c_triggers s) r
      = Some (0, events, t, r\<lparr>rs_handles := filter (\<lambda>h. snd h \<noteq> 0) hs\<rparr>)"
    "t = fold (\<lambda>(fd, ev) t. if ev = 0 then tclear_all fd t else sync_interest fd ev 0 t) (drop 0 hs) (c_triggers s)"
    using handle_sockets_quiet [OF assms(4,5), of 0 0] assms(1) unfolding resolver_handle_def by auto
  have "interest t a = None" using quiet_interest [OF assms(6,2), of t] t(2) assms(3) by fastforce
  then show ?thesis by (simp add: resolver_pass_def t(1))
qed

lemma erase_single: "erase_at 0 [x] = []"
  by (simp add: erase_range_def)

lemma trigger_init_empty: "interest trigger_init fd = None"
  by (simp add: interest_def trigger_init_def kmap_def)

text \<open>A pass during which the library, at work on one socket, closes another one with a smaller descriptor.\<close>

lemma closing_pass:
  assumes "a < b" and "rs_handles r = [(a, READABLE), (b, READABLE)]" and "now < rs_time r + rs_interval r"
    and "pr b BAD_SOCKET (rs_chan r) = ([(a, False, False)], x)" and "tm x = Some i"
  shows "\<exists>t'. resolver_handle pr tm now [\<lparr>pfd_fd = b, pfd_events = POLLIN, pfd_revents = POLLIN\<rparr>] t r
    = Some (1, [], t', \<lparr>rs_handles = [(a, 0), (b, READABLE)], rs_time = now, rs_interval = i, rs_chan = x\<rparr>)"
proof -
  have e: "ares_socket_cb (a, False, False) [(a, READABLE), (b, READABLE)] = [(a, 0), (b, READABLE)]"
    using assms(1) by (simp add: ares_socket_cb_def sock_state_def lower_bound_def lb_loop.simps key_hit_def Let_def)
  have c: "READABLE \<noteq> 0" "READABLE AND READABLE \<noteq> 0" "READABLE AND WRITABLE = 0" "(POLLIN :: u16) \<noteq> 0" by (simp_all add: READABLE_def WRITABLE_def POLLIN_def)
  have p: "process_event pr tm now (b, READABLE) (r\<lparr>rs_handles := [(a, READABLE), (b, READABLE)]\<rparr>) = \<lparr>rs_handles = [(a, 0), (b, READABLE)], rs_time = now, rs_interval = i, rs_chan = x\<rparr>"
    using assms(2-5) e c by (simp add: process_event_def set_timeout_def)
  have n: "b \<noteq> a" "a \<noteq> b" using assms(1) by simp_all
  show ?thesis using assms(2,3) c p n unfolding resolver_handle_def
    by (simp add: handle_sockets.simps Let_def erase_single)
qed



end
