(* ===== verification/ControllerSound.thy ===== *)
theory ControllerSound
  imports Callbacks Controller
begin

unbundle bit_operations_syntax

text \<open>
  Every handler of the controller keeps connector states well formed (\<open>well_formed\<close> of \<open>Ownership\<close>) and leaves no stream of a
  client with pending output unwatched. The callback of a pending connect is interpreted in the locale \<open>sound_callbacks\<close>. The
  first lemmas of each section do not depend on the connector and serve the segment as well.
\<close>

section \<open>Giving up a connect\<close>

lemma erase_first:
  assumes "distinct (map fst xs)" and "i = length (takeWhile (\<lambda>h. fst h \<noteq> p) xs)" and "i < length xs"
  shows "erase_at i xs = filter (\<lambda>h. fst h \<noteq> p) xs"
  using assms
proof (induction xs arbitrary: i)
  case (Cons x xs)
  show ?case
  proof (cases "fst x = p")
    case True
    then have "\<forall>h \<in> set xs. fst h \<noteq> p" using Cons.prems(1) by (auto simp: image_iff)
    then have "filter (\<lambda>h. fst h \<noteq> p) xs = xs" by simp
    then show ?thesis using True Cons.prems(2) by (simp add: erase_range_def)
  next
    case False
    then show ?thesis using Cons.IH [OF _ refl] Cons.prems by (simp add: erase_range_def)
  qed
qed simp

lemma ctl_erase_connect_sound:
  assumes "ni < length (c_north s)"
  shows "sound w s (ctl_erase_connect ni nsp hnd s)"
proof -
  obtain ssp sfd where h: "hnd = (ssp, sfd)" by fastforce
  define s2 where "s2 = (if sfd \<noteq> - 1 \<and> (\<exists>c \<in> set (c_conns s). cn_south c = ssp) then trig_set sfd POLLOUT s else s)
    \<lparr>c_conns := filter (\<lambda>c. cn_south c \<noteq> ssp) (c_conns s)\<rparr>"
  let ?f = "c_north s2 ! ni"
  let ?i = "length (takeWhile (\<lambda>h. fst h \<noteq> nsp) (if_streams ?f))"
  let ?h = "if_streams ?f ! ?i"
  have st: "steady s s2" by (auto simp: s2_def intro!: steady_intros)
  have eq: "ctl_erase_connect ni nsp hnd s = (if ?i < length (if_streams ?f)
      then (trig_clear (snd ?h) (- 1) s2)\<lparr>c_north := (c_north s2)[ni := iface_erase_at ?i ?f], c_heap := (c_heap s2)(nsp := None)\<rparr>
      else s2)" (is "_ = (if _ then ?r else s2)")
    by (simp add: ctl_erase_connect_def h s2_def Let_def)
  have "sound w s2 ?r" if i: "?i < length (if_streams ?f)"
  proof (rule soundI, rule sound_gone [where p = nsp])
    assume wf: "well_formed s2"
    have ni: "ni < length (c_north s2)" using assms st by (simp add: steady_def)
    have hn: "fst ?h = nsp" using nth_length_takeWhile [OF i] by simp
    have at: "at_north ni ?h s2" by (rule handle_at_north [OF wf ni nth_mem [OF i]])
    have d: "distinct (map fst (if_streams ?f))" using well_formed_sorted(1) [OF wf ni] ksorted_distinct by auto
    have "reserved (nsp, snd ?h) s2" using at hn by (metis at_north_def prod.collapse)
    from sound_north [OF clear_gone_sound [OF this] at erase_north_sound [OF _ hn, where g = "iface_erase_at ?i ?f"]]
    show "sound (w\<lparr>w_but := insert nsp (w_but w)\<rparr>) s2 ?r" using erase_first [OF d refl i] by (simp add: iface_erase_at_def)
  qed simp
  then show ?thesis unfolding eq using steady_sound [OF st] sound_trans [OF steady_sound [OF st]] by auto
qed

lemma ctl_erase_connect_put: "put j f (ctl_erase_connect ni nsp hnd s) = ctl_erase_connect ni nsp hnd (put j f s)"
  by (cases hnd) (simp add: ctl_erase_connect_def put_def Let_def trig_set_def trig_clear_def)

lemma ctl_erase_connect_lengths:
  "length (c_north (ctl_erase_connect ni nsp hnd s)) = length (c_north s)" "c_south (ctl_erase_connect ni nsp hnd s) = c_south s"
  by (cases hnd, simp add: ctl_erase_connect_def Let_def)+

lemma connect_run_frame:
  assumes "\<And>hnd f s g s'. erase hnd f s = (g, s') \<Longrightarrow>
      length (c_north s') = length (c_north s) \<and> length (c_south s') = length (c_south s) \<and> if_pending g = if_pending f"
    and "connect_run erase i addr len proto f s = (g, s')"
  shows "length (c_north s') = length (c_north s) \<and> length (c_south s') = length (c_south s) \<and> if_pending g = if_pending f"
  using assms(2)
  by (auto simp: connect_run_def Let_def take_socket_def split: prod.splits option.splits if_splits list.splits dest!: assms(1))

interpretation ctl_callbacks: sound_callbacks ctl_connect_run
proof
  fix cb i addr len proto j and w :: watch and f g :: "connect_cb iface" and s s' :: ctl
  assume r: "ctl_connect_run cb i addr len proto f s = (g, s')"
  obtain ni nsp where cb: "cb = ConnectCb ni nsp" by (cases cb)
  let ?e = "\<lambda>hnd f (s :: ctl). (f, ctl_erase_connect ni nsp hnd s)"
  show "length (c_north s') = length (c_north s) \<and> length (c_south s') = length (c_south s) \<and> if_pending g = if_pending f"
    by (rule connect_run_frame [of ?e]) (use r cb in \<open>auto simp: ctl_erase_connect_lengths\<close>)
  show "sound w (put j f s) (put j g s')"
    if "cb_ok (length (c_north s)) cb" "j < length (c_south s)" "i < length (if_streams f)"
    by (rule connect_run_sound [of ?e, OF _ _ refl])
      (use r cb that in \<open>auto simp: ctl_erase_connect_put intro!: ctl_erase_connect_sound\<close>)
qed

section \<open>The controller's steady operations\<close>

lemma ctl_state_update_steady [steady_intros]: "steady s t \<Longrightarrow> steady s (snd (ctl_state_update type time c t))"
  by (simp add: ctl_state_update_def Let_def steady_intros)

lemma write_prepare_steady: "write_prepare cs np tp s = (b, s') \<Longrightarrow> steady s s'"
proof (induction cs arbitrary: s)
  case (Cons c cs)
  let ?pos = "MAX_BUFSIZE - (tp + 24)"
  show ?case
  proof (cases "cn_north c = np \<and> (\<exists>x. c_heap s (cn_south c) = Some x \<and> \<not> fail_of x)")
    case True
    then obtain x where x: "c_heap s (cn_south c) = Some x" "\<not> fail_of x" by blast
    let ?t = "s\<lparr>c_heap := (c_heap s)(cn_south c \<mapsto> if ?pos \<le> sock_tellp x then sock_flush x else x)\<rparr>"
    have st: "steady s ?t" using x(1) by (auto intro!: steady_intros kin_intros dest: unsent_flush)
    have "s' = ?t \<or> write_prepare cs np tp ?t = (b, s')" using Cons.prems True x by (auto simp: Let_def split: if_splits)
    then show ?thesis using st Cons.IH steady_trans by blast
  next
    case False
    then show ?thesis using Cons by (auto simp: Let_def split: option.splits if_splits)
  qed
qed simp

text \<open>Streams that are watched, or have no descriptor yet, may be written to.\<close>

lemma unpolled_iff: "p \<notin> unpolled s \<longleftrightarrow> (\<forall>x. c_heap s p = Some x \<longrightarrow> native_handle x = BAD_SOCKET \<or> polled (c_triggers s) (native_handle x))"
  by (auto simp: lacking_def)

lemma unpolled_heap: "c_heap s p = Some x \<Longrightarrow> kin x y \<Longrightarrow> unpolled (s\<lparr>c_heap := (c_heap s)(p \<mapsto> y)\<rparr>) = unpolled s"
  by (auto simp: lacking_def kin_def split: if_splits)

lemma steady_ready: "c_heap s p = Some x \<Longrightarrow> kin x y \<Longrightarrow> (tables_ok s \<Longrightarrow> p \<notin> unpolled s) \<Longrightarrow> steady s (s\<lparr>c_heap := (c_heap s)(p \<mapsto> y)\<rparr>)"
proof (cases "tables_ok s")
  case True
  assume "c_heap s p = Some x" "kin x y" "tables_ok s \<Longrightarrow> p \<notin> unpolled s"
  with True show ?thesis by (intro steady_stream [OF steady_refl refl]) (auto simp: unpolled_iff)
next
  case False
  assume "c_heap s p = Some x" "kin x y"
  with False show ?thesis by (auto simp: steady_def option.rel_refl)
qed

lemma send_initial_steady:
  "send_initial p type cs buf s = (b, s') \<Longrightarrow> \<forall>c \<in> set cs. cn_south c \<notin> unpolled s \<Longrightarrow> steady s s'"
proof (induction cs arbitrary: buf s)
  case (Cons c cs)
  show ?case
  proof (cases "c_heap s (cn_south c)")
    case None
    then show ?thesis using Cons by simp
  next
    case (Some x)
    obtain x' buf' where e: "send_envelope (make_head (cn_uuid c) (p + 24) type) p buf x = (x', buf')" by fastforce
    let ?t = "s\<lparr>c_heap := (c_heap s)(cn_south c \<mapsto> x')\<rparr>"
    note k = kin_envelope [OF e]
    have "steady ?t s'" using Cons.prems Some e unpolled_heap [OF Some k] by (intro Cons.IH [of buf']) simp_all
    moreover have "steady s ?t" using Cons.prems(2) by (intro steady_ready [OF Some k]) simp
    ultimately show ?thesis using steady_trans by blast
  qed
qed simp

lemma steady_sent:
  "c_heap s p = Some x \<Longrightarrow> kin x y \<Longrightarrow> steady s ((trig_set (native_handle x) POLLOUT s)\<lparr>c_heap := (c_heap s)(p \<mapsto> y)\<rparr>)"
proof (cases "tables_ok s")
  case True
  assume x: "c_heap s p = Some x" "kin x y"
  have "steady s (trig_set (native_handle x) POLLOUT s)" by (intro steady_intros steady_refl)
  from steady_stream [OF this, of "c_heap s" p x y] x True show ?thesis by (simp add: trig_set_def polled_set tables_ok_def)
next
  case False
  assume "c_heap s p = Some x" "kin x y"
  with False show ?thesis by (auto simp: steady_def option.rel_refl trig_set_def tables_ok_def)
qed

lemma steady_reply: "c_heap s p = Some x \<Longrightarrow> steady s (trig_set (native_handle x) POLLOUT (upd_stream p (write_header h) s))"
  using steady_sent [of s p x "write_header h x"] by (simp add: upd_stream_def kin_header)

lemma route_step_steady: "steady (snd (snd st)) (snd (snd (snd (route_step nsp type p time c st))))"
proof -
  obtain k buf s where st: "st = (k, buf, s)" by (cases st) auto
  show ?thesis
  proof (cases "cn_north c = nsp \<and> cn_state c \<noteq> CLOSED \<and> (\<exists>x. c_heap s (cn_south c) = Some x)")
    case True
    then obtain x where x: "c_heap s (cn_south c) = Some x" by blast
    obtain x' buf' where e: "send_envelope (make_head (cn_uuid c) (p + 24) type) p buf x = (x', buf')" by fastforce
    note k = kin_envelope [OF e]
    let ?t = "if native_handle x' \<noteq> - 1 then trig_set (native_handle x') POLLOUT (s\<lparr>c_heap := (c_heap s)(cn_south c \<mapsto> x')\<rparr>)
        else s\<lparr>c_heap := (c_heap s)(cn_south c \<mapsto> x')\<rparr>"
    have "steady s ?t"
      using steady_sent [OF x k] steady_ready [OF x k] kin_native [OF k] x by (auto simp: unpolled_iff)
    then show ?thesis using True x e by (cases "native_handle x' = - 1") (simp_all add: route_step_def st split_beta Let_def ctl_state_update_steady)
  next
    case False
    then show ?thesis by (auto simp: route_step_def st split: option.split)
  qed
qed

lemma latch_step_steady: "steady s (snd (latch_step eid ssp time c s))"
  by (auto simp: latch_step_def intro!: ctl_state_update_steady steady_sent kin_intros split: option.split)

section \<open>The controller opens sessions\<close>

lemma ctl_register_sound:
  assumes "cb_ok (length (c_north s)) cb" and "j < length (c_south s)"
  shows "sound w s (ctl_register j p cb s)"
  using ctl_callbacks.register_sound [OF assms] by (auto simp: ctl_register_def put_def split: option.split prod.split)

lemma select_stream_sound: "j < length (c_south s) \<Longrightarrow> sound w s (snd (select_stream j s))"
  using south_make_sound [of j s] by (auto simp: select_stream_def Let_def split: sum.split prod.split)

lemma select_stream_lengths: "select_stream j s = (k, t) \<Longrightarrow> length (c_north t) = length (c_north s) \<and> length (c_south t) = length (c_south s)"
  by (auto simp: select_stream_def south_make_def new_stream_def Let_def split: sum.splits prod.splits if_splits)

lemma select_loop_bounds:
  "select_loop ms hs i loaded mn lru = Inl k \<Longrightarrow> k < i + length hs"
  "select_loop ms hs i loaded mn lru = Inr (l, k) \<Longrightarrow> k = lru \<or> k < i + length hs"
proof (induction ms hs i loaded mn lru rule: select_loop.induct)
  case (2 ms sp fd hs i loaded mn lru)
  {
    case 1
    then show ?case using "2.IH" by (fastforce simp: Let_def split: if_splits)
  next
    case 2
    then show ?case using "2.IH" by (fastforce simp: Let_def split: if_splits)
  }
qed simp_all

text \<open>A new south stream has no descriptor; the selected one is in the table.\<close>

lemma south_made:
  assumes "south_make j s = (k, t)" and "well_formed s" and "j < length (c_south s)"
  shows "k < length (if_streams (c_south t ! j))" and "fst (if_streams (c_south t ! j) ! k) \<notin> unpolled t"
proof -
  let ?p = "v_alloc (c_env s) (v_nalloc (c_env s))"
  obtain g where g: "iface_insert (?p, BAD_SOCKET) (c_south s ! j) = (k, g)" and t: "c_south t = (c_south s)[j := g]"
    and h: "c_heap t = (c_heap s)(?p \<mapsto> ios_init (sockbuf_make BAD_SOCKET False True True (v_kernels (c_env s) (v_nalloc (c_env s)))))"
    using assms(1) by (auto simp: south_make_def new_stream_def Let_def split: prod.splits)
  have "?p \<notin> allocated s" using next_owner_fresh [of s] assms(2) by (simp add: well_formed_def)
  then have "?p \<notin> dom (c_heap s)" using assms(2) by (auto simp: well_formed_def formed_def)
  then have "\<not> owns ?p (c_south s ! j)" using alive_once_south(1) [OF assms(2,3)] by blast
  note sp = iface_insert_spec [OF well_formed_sorted(2) [OF assms(2,3)] this g]
  then show "k < length (if_streams (c_south t ! j))" and "fst (if_streams (c_south t ! j) ! k) \<notin> unpolled t"
    using t assms(3) h by (simp_all add: unpolled_iff)
qed

lemma select_stream_in:
  assumes "select_stream j s = (k, t)" and "well_formed s" and "j < length (c_south s)"
  shows "k < length (if_streams (c_south t ! j))"
  using assms south_made(1) [OF _ assms(2,3)] select_loop_bounds(1) [of "c_metrics s" "if_streams (c_south s ! j)" 0 0 0 0]
    select_loop_bounds(2) [of "c_metrics s" "if_streams (c_south s ! j)" 0 0 0 0]
  by (fastforce simp: select_stream_def Let_def split: sum.splits if_splits prod.splits)

lemma sound_unpolled:
  assumes "\<And>w. sound w s t" and "well_formed s" and "p \<notin> unpolled s"
  shows "p \<notin> unpolled t"
  using assms(1) [of "\<lparr>w_strict = True, w_south = True, w_but = {}, w_others = {}\<rparr>"] assms(2,3) by (auto simp: sound_def)

lemma native_cases:
  assumes "well_formed s" and "(p, fd) \<in> c_handles s" and "c_heap s p = Some x"
  shows "native_handle x = fd \<or> native_handle x = BAD_SOCKET"
  using well_formed_fds [OF assms(1)] assms(2,3) boundD unfolding fds_ok_def by blast

lemma connect_south_sound:
  assumes "ni < length (c_north s)" and "j < length (c_south s)" and "connect_south ni nsp n j (eid, conns, s) = (eid', conns', s')"
  shows "sound w s s'" and "well_formed s \<Longrightarrow> \<forall>c \<in> set conns. cn_south c \<notin> unpolled s \<Longrightarrow> \<forall>c \<in> set conns'. cn_south c \<notin> unpolled s'"
proof -
  obtain i s1 where s1: "select_stream j s = (i, s1)" by fastforce
  obtain p fd where h: "if_streams (c_south s1 ! j) ! i = (p, fd)" by fastforce
  define s2 where "s2 = s1\<lparr>c_metrics := snd (add_arrival (c_live s1) p (v_now (c_env s1)) (c_metrics s1))\<rparr>"
  define s3 where "s3 = ctl_register j p (ConnectCb ni nsp) s2"
  have 1: "sound w s s1" for w using select_stream_sound [OF assms(2)] s1 by (metis snd_conv)
  have st: "steady s1 s2" by (auto simp: s2_def intro!: steady_intros)
  have 2: "sound w s s2" for w using sound_trans [OF 1 steady_sound [OF st]] .
  have s': "s' = snd (snd (connect_south ni nsp n j (eid, conns, s)))" and c': "conns' = fst (snd (connect_south ni nsp n j (eid, conns, s)))"
    by (simp_all add: assms(3))
  obtain c where cs: "conns' = conns @ [c]" "cn_south c = p"
    unfolding c' connect_south_def using s1 h by (simp add: Let_def connection_make_def)
  have 3: "sound w s2 s' \<and> (well_formed s \<longrightarrow> p \<notin> unpolled s')" for w
  proof (cases "fd = - 1")
    case True
    then have r: "s' = (if if_addresses (c_south s3 ! j) = [] \<and> length (if_pending (c_south s3 ! j)) = 1
        then s3\<lparr>c_env := (c_env s3)\<lparr>v_resolves := v_resolves (c_env s3) @ [j]\<rparr>\<rparr> else s3)"
      using s' s1 h by (simp add: connect_south_def s2_def s3_def Let_def)
    have "steady s3 s'" unfolding r by (auto intro!: steady_intros)
    then have s3': "sound w s3 s'" for w by (rule steady_sound)
    have s2': "sound w s2 s'" if "length (c_north s2) = length (c_north s)" "length (c_south s2) = length (c_south s)" for w
      by (rule sound_trans [OF _ s3'], unfold s3_def, rule ctl_register_sound) (use that assms(1,2) in simp_all)
    have "length (c_north s2) = length (c_north s)" "length (c_south s2) = length (c_south s)"
      using st select_stream_lengths [OF s1] by (simp_all add: steady_def)
    note s2'' = s2' [OF this]
    have "p \<notin> unpolled s'" if wf: "well_formed s"
    proof (rule sound_unpolled [OF s2''])
      have wf1: "well_formed s1" and wf2: "well_formed s2" using wf 1 2 by (auto simp: sound_def)
      have "(p, - 1) \<in> set (if_streams (c_south s1 ! j))" using h True select_stream_in [OF s1 wf assms(2)] by (metis nth_mem)
      then have "(p, - 1) \<in> c_handles s2" using handles_nth [of j "c_south s1"] select_stream_lengths [OF s1] assms(2) st by (simp add: steady_def)
      then show "p \<notin> unpolled s2" using native_cases [OF wf2] by (auto simp: unpolled_iff)
      show "well_formed s2" by (rule wf2)
    qed
    with s2'' show ?thesis by blast
  next
    case False
    then have r: "s' = upd_stream p (\<lambda>x. x\<lparr>failbit := False\<rparr>) (trig_set fd (POLLIN OR POLLOUT) s2)"
      using s' s1 h by (simp add: connect_south_def s2_def Let_def)
    have "steady s2 s'" unfolding r by (auto intro!: steady_intros kin_intros)
    moreover have "p \<notin> unpolled s'" if wf: "well_formed s"
    proof -
      have wf2: "well_formed s2" using wf 2 by (auto simp: sound_def)
      have "(p, fd) \<in> set (if_streams (c_south s1 ! j))" using h select_stream_in [OF s1 wf assms(2)] by (metis nth_mem)
      then have "(p, fd) \<in> c_handles s2" using handles_nth [of j "c_south s1"] select_stream_lengths [OF s1] assms(2) st by (simp add: steady_def)
      then show ?thesis using native_cases [OF wf2] well_formed_tables(1) [OF wf2]
        by (auto simp: unpolled_iff r upd_stream_def trig_set_def polled_set split: option.splits if_splits)
    qed
    ultimately show ?thesis using steady_sound by blast
  qed
  show "sound w s s'" using sound_trans [OF 2] 3 by blast
  show "\<forall>c \<in> set conns'. cn_south c \<notin> unpolled s'" if wf: "well_formed s" and c: "\<forall>c \<in> set conns. cn_south c \<notin> unpolled s"
    using cs 3 wf c sound_unpolled [OF sound_trans [OF 2], of s'] by auto
qed

lemma connect_souths_sound:
  assumes "\<forall>j \<in> set js. j < length (c_south s)" and "ni < length (c_north s)"
    and "fold (connect_south ni nsp n) js (eid, conns, s) = (eid', conns', s')"
  shows "sound w s s' \<and> (well_formed s \<longrightarrow> (\<forall>c \<in> set conns. cn_south c \<notin> unpolled s) \<longrightarrow> (\<forall>c \<in> set conns'. cn_south c \<notin> unpolled s'))"
  using assms
proof (induction js arbitrary: eid conns s)
  case (Cons j js)
  obtain e1 c1 t where t: "connect_south ni nsp n j (eid, conns, s) = (e1, c1, t)"
    by (cases "connect_south ni nsp n j (eid, conns, s)") auto
  have j: "j < length (c_south s)" using Cons.prems(1) by simp
  note st = connect_south_sound [OF Cons.prems(2) j t]
  have ih: "sound w t s' \<and> (well_formed t \<longrightarrow> (\<forall>c \<in> set c1. cn_south c \<notin> unpolled t) \<longrightarrow> (\<forall>c \<in> set conns'. cn_south c \<notin> unpolled s'))"
    if "well_formed s"
  proof -
    have "evolves s t" using st(1) that by (auto simp: sound_def)
    then show ?thesis using Cons.prems t by (intro Cons.IH [of t e1 c1]) (simp_all add: evolves_def)
  qed
  show ?case
  proof (cases "well_formed s")
    case True
    then have "well_formed t" using st(1) [of w] by (simp add: sound_def)
    then show ?thesis using ih [OF True] st(2) [OF True] sound_trans [OF st(1)] by blast
  qed (simp add: sound_def)
qed simp

lemma ctl_north_connect_sound:
  assumes "ctl_north_connect ni nsp buf s = (st, buf', s')" and "ni < length (c_north s)"
  shows "sound w s s'"
proof (rule soundI)
  assume wf: "well_formed s"
  obtain urnd s0 where s0: "take_urandom s = (urnd, s0)" by fastforce
  have t0: "steady s s0" using s0 by (auto simp: take_urandom_def intro!: steady_intros split: list.splits)
  show "sound w s s'"
  proof (cases "uuid_eq (make_uuid_v7 urnd (v_ms (c_env s0))) zero_uuid")
    case True
    then show ?thesis using assms(1) s0 steady_sound [OF t0] by (simp add: ctl_north_connect_def)
  next
    case False
    let ?s1 = "s0\<lparr>c_arrivals := c_arrivals s0 + 1\<rparr>"
    obtain e cs s2 where f: "fold (connect_south ni nsp (v_now (c_env s0))) [0..<length (c_south ?s1)]
        (make_uuid_v7 urnd (v_ms (c_env s0)), [], ?s1) = (e, cs, s2)"
      by (cases "fold (connect_south ni nsp (v_now (c_env s0))) [0..<length (c_south ?s1)]
        (make_uuid_v7 urnd (v_ms (c_env s0)), [], ?s1)") auto
    have 1: "steady s ?s1" using t0 by (intro steady_intros)
    have w1: "well_formed ?s1" using steady_sound [OF 1] wf by (auto simp: sound_def)
    have ni: "ni < length (c_north ?s1)" using assms(2) t0 by (simp add: steady_def)
    note c = connect_souths_sound [OF _ ni f]
    have 2: "sound w s s2" for w using c [of w] sound_trans [OF steady_sound [OF 1]] by simp
    have ready: "\<forall>c \<in> set cs. cn_south c \<notin> unpolled s2" using c w1 by simp
    have w2: "well_formed s2" using 2 wf by (auto simp: sound_def)
    obtain p buf1 where p: "sstream_tellp buf = (p, buf1)" by fastforce
    obtain blocked s3 where wp: "write_prepare cs nsp p s2 = (blocked, s3)" by fastforce
    note 3 = write_prepare_steady [OF wp]
    have "unpolled s3 \<subseteq> unpolled s2" using 3 w2 unfolding steady_def well_formed_def formed_def by blast
    then have ready3: "\<forall>c \<in> set cs. cn_south c \<notin> unpolled s3" using ready by blast
    have "steady s3 s'"
      using assms(1) s0 False f p wp ready3
      by (auto simp: ctl_north_connect_def Let_def split: prod.splits if_splits
          intro!: steady_fields(1) dest!: send_initial_steady [OF _ ready3])
    then show ?thesis using sound_trans [OF 2 steady_sound [OF steady_trans [OF 3]]] by blast
  qed
qed

section \<open>The controller routes\<close>

lemma route_loop_steady:
  assumes "conn_loop (route_step nsp type p time) cs (k, buf, s) = (cs', k', buf', s')"
  shows "steady s s'"
proof -
  have "steady s (snd (snd (snd (conn_loop (route_step nsp type p time) cs (k, buf, s)))))"
  proof (rule conn_loop_invariant [where I = "\<lambda>st. steady s (snd (snd st))"])
    show "steady s (snd (snd (k, buf, s)))" by simp
    show "steady s (snd (snd (snd (route_step nsp type p time c st))))" if "steady s (snd (snd st))" for c st
      by (rule steady_trans [OF that route_step_steady])
  qed
  then show ?thesis by (simp add: assms)
qed

lemma route_north_send_sound:
  assumes "route_north_send buf ni (nsp, nfd) eof revents s = (r, buf', revents', s')" and "ni < length (c_north s)"
    and o: "nfd \<notin> set (v_others (c_env s))"
  shows "sound w s s'"
proof (rule soundI)
  assume wf: "well_formed s"
  obtain p buf1 where p: "sstream_tellp buf = (p, buf1)" by fastforce
  obtain blocked s1 where w: "write_prepare (c_conns s) nsp p s = (blocked, s1)" by fastforce
  note st1 = write_prepare_steady [OF w]
  show "sound w s s'"
  proof (cases "(eof \<or> 0 < p) \<and> \<not> blocked")
    case False
    then have "steady s s'" using assms(1) p w st1 o
      by (auto simp: route_north_send_def clear_triggers_def split: if_splits intro!: steady_intros)
    then show ?thesis by (rule steady_sound)
  next
    case True
    obtain cs k buf2 s2 where lp: "conn_loop (route_step nsp \<lparr>msg_op = (if eof then STOP else DATA), msg_flags = 0\<rparr> p (v_now (c_env s1)))
        (c_conns s1) (0, buf1, s1) = (cs, k, buf2, s2)"
      by (cases "conn_loop (route_step nsp \<lparr>msg_op = (if eof then STOP else DATA), msg_flags = 0\<rparr> p (v_now (c_env s1)))
        (c_conns s1) (0, buf1, s1)") auto
    let ?s3 = "s2\<lparr>c_conns := cs\<rparr>"
    have 3: "steady s ?s3" using steady_trans [OF st1 route_loop_steady [OF lp]] by (rule steady_fields)
    obtain status buf3 s4 where c: "ctl_north_connect ni nsp buf2 ?s3 = (status, buf3, s4)"
      by (cases "ctl_north_connect ni nsp buf2 ?s3") auto
    have 4: "sound w s s4" using sound_trans [OF steady_sound [OF 3] ctl_north_connect_sound [OF c]] assms(2) 3 by (simp add: steady_def)
    have "s' = ?s3 \<or> s' = s4 \<or> s' = snd (clear_triggers nfd (POLLIN OR POLLHUP) revents s4)"
      using assms(1) p w lp c True by (auto simp: route_north_send_def Let_def split: if_splits prod.splits)
    moreover have "steady s4 (snd (clear_triggers nfd (POLLIN OR POLLHUP) revents s4))" 
      using o sound_others [OF 4 wf] by (intro steady_clear_triggers [OF steady_refl]) simp_all
    ultimately show ?thesis using 4 steady_sound [OF 3] sound_trans [OF 4 steady_sound] by metis
  qed
qed

lemma route_north_sound:
  assumes "route_north buf ni hnd revents s = (st, buf', revents', s')" and "ni < length (c_north s)" and o: "snd hnd \<notin> set (v_others (c_env s))"
  shows "sound w s s'"
proof (rule soundI)
  assume wf: "well_formed s"
  obtain nsp nfd where h: "hnd = (nsp, nfd)" by fastforce
  obtain r buf1 revents1 s1 where r: "route_north_send buf ni hnd (eof_at s nsp) revents s = (r, buf1, revents1, s1)"
    by (cases "route_north_send buf ni hnd (eof_at s nsp) revents s") auto
  have 1: "sound w s s1" using route_north_send_sound [OF r [unfolded h] assms(2)] o h by simp
  have "steady s1 s'" using assms(1) r h o sound_others [OF 1 wf] by (auto simp: route_north_def split: option.splits intro!: steady_intros)
  then show "sound w s s'" using sound_trans [OF 1 steady_sound] by blast
qed

lemma deliver_south_steady:
  assumes "deliver_south buf hnd revents k n eid type p seekpos ret s = (r, buf', revents', s')"
    and "c_heap s (cn_north (c_conns s ! k)) = Some n" and "snd hnd \<notin> set (v_others (c_env s))"
  shows "steady s s'"
proof -
  let ?c = "c_conns s ! k" and ?time = "v_now (c_env s)"
  obtain len buf1 n' where w: "(if seekpos < p then guarded_write True (xmsg_seekg seekpos buf) n else (1, buf, n)) = (len, buf1, n')"
    by (cases "if seekpos < p then guarded_write True (xmsg_seekg seekpos buf) n else (1, buf, n)") auto
  define s1 where "s1 = (trig_set (native_handle n) POLLOUT s)\<lparr>c_heap := (c_heap s)(cn_north ?c \<mapsto> n')\<rparr>"
  have "kin n n'" using w by (auto split: if_splits dest: kin_guarded)
  then have 1: "steady s s1" unfolding s1_def by (rule steady_sent [OF assms(2)])
  obtain c' s2 where u: "ctl_state_update type ?time ?c s1 = (c', s2)" by fastforce
  have 2: "steady s s2" using ctl_state_update_steady [OF 1, of type ?time ?c] u by simp
  let ?s3 = "s2\<lparr>c_conns := (c_conns s2)[k := c']\<rparr>"
  have 3: "steady s ?s3" using 2 by (rule steady_fields)
  obtain cs s4 where l: "conn_loop (latch_step eid (fst hnd) ?time) (c_conns ?s3) ?s3 = (cs, s4)" by fastforce
  have 4: "steady s s4" by (rule steady_trans [OF 3 steady_conn_loop [OF l latch_step_steady]])
  have "s' = snd (clear_triggers (snd hnd) (POLLIN OR POLLHUP) revents s1) \<or> s' = ?s3 \<or> s' = s4\<lparr>c_conns := cs\<rparr>"
    using assms(1) w u l unfolding deliver_south_def Let_def s1_def [symmetric]
    by (auto simp flip: s1_def split: if_splits prod.splits)
  then show ?thesis using 3 steady_clear_triggers [OF 1, of "POLLIN OR POLLHUP" "snd hnd" revents] steady_fields(1) [OF 4, of cs] assms(3) by auto
qed

lemma route_south_steady:
  assumes "route_south buf hnd revents s = (st, buf', revents', s')" and "snd hnd \<notin> set (v_others (c_env s))"
  shows "steady s s'"
  using assms
  by (cases hnd) (auto simp: route_south_def Let_def split: option.splits prod.splits if_splits
      intro: steady_reply dest: deliver_south_steady)

section \<open>The controller's handlers\<close>

lemma steady_err_loop:
  "remove_if_st (\<lambda>s c. if cn_north c = nsp then (True, c, case c_heap s (cn_south c) of
       None \<Rightarrow> s
     | Some x \<Rightarrow> (let s1 = trig_set (native_handle x) POLLOUT s in
         if cn_state c < CLOSED
         then s1\<lparr>c_heap := (c_heap s1)(cn_south c \<mapsto> write_header (abort_header (cn_uuid c)) x)\<rparr> else s1))
     else (False, c, s)) s cs = (cs', t) \<Longrightarrow> steady s t"
  by (erule steady_remove_if) (auto simp: Let_def intro!: steady_sent kin_intros steady_trig_set split: option.split)

lemma north_err_sound:
  assumes "north_err_handler ni hnd s = (r, s')" and "at_north ni hnd s"
  shows "sound w s s'"
proof -
  obtain nsp nfd where h: "hnd = (nsp, nfd)" by fastforce
  obtain cs t where t: "steady s t" "s' = north_erase ni hnd (trig_clear nfd (- 1) (t\<lparr>c_conns := cs\<rparr>))"
    using assms(1) h by (auto simp: north_err_handler_def split: prod.splits dest: steady_err_loop)
  have "steady s (t\<lparr>c_conns := cs\<rparr>)" using t(1) by (intro steady_intros)
  then show ?thesis using north_close_sound [of ni hnd "t\<lparr>c_conns := cs\<rparr>" w "- 1"] h
    unfolding t(2) by (intro sound_north [OF steady_sound assms(2)]) simp_all
qed

lemma ctl_unmarshal_sorted:
  assumes "ctl_unmarshal live p x m = (i, m', x')"
  shows "ksorted buf_ptr (mar_north m) \<Longrightarrow> ksorted buf_ptr (mar_north m')" and "mar_south m' = mar_south m"
  using assms by (auto simp: ctl_unmarshal_def split: prod.splits intro!: set_fmt_ksorted dest: buffer_slot_sorted)

lemma ctl_marshal_sorted:
  assumes "ctl_marshal live p x m = (i, m', x')"
  shows "ksorted buf_ptr (mar_south m) \<Longrightarrow> ksorted buf_ptr (mar_south m')" and "mar_north m' = mar_north m"
  using assms by (auto simp: ctl_marshal_def split: prod.splits intro!: set_fmt_ksorted dest: buffer_slot_sorted)

lemma steady_read:
  assumes "c_heap s p = Some x" and "reads x y" and "ksorted buf_ptr (mar_north (c_mar s)) \<Longrightarrow> ksorted buf_ptr (mar_north m)"
    and "ksorted buf_ptr (mar_south (c_mar s)) \<Longrightarrow> ksorted buf_ptr (mar_south m)"
  shows "steady s (s\<lparr>c_mar := m, c_heap := (c_heap s)(p \<mapsto> y)\<rparr>)"
  by (rule steady_stream [OF steady_mar [OF steady_refl assms(3,4)]]) (use assms(1) reads_kin [OF assms(2)] in auto)

lemma north_pollin_sound:
  assumes "north_pollin_handler ni hnd revents s = (st, r, s')" and "ni < length (c_north s)" and o: "snd hnd \<notin> set (v_others (c_env s))"
  shows "sound w s s'"
proof (cases "c_heap s (fst hnd)")
  case None
  then show ?thesis using assms(1) by (simp add: north_pollin_handler_def)
next
  case (Some x)
  obtain i m x' where u: "ctl_unmarshal (c_live s) (fst hnd) x (c_mar s) = (i, m, x')"
    by (cases "ctl_unmarshal (c_live s) (fst hnd) x (c_mar s)") auto
  define s1 where "s1 = s\<lparr>c_mar := m, c_heap := (c_heap s)(fst hnd \<mapsto> x')\<rparr>"
  obtain st buf rv s2 where rt: "route_north (buf_fmt (mar_north m ! i)) ni hnd
      (if gcount x' = 0 then revents AND NOT (POLLIN OR POLLHUP) else revents) s1 = (st, buf, rv, s2)"
    by (cases "route_north (buf_fmt (mar_north m ! i)) ni hnd
      (if gcount x' = 0 then revents AND NOT (POLLIN OR POLLHUP) else revents) s1") auto
  have s': "s' = s2\<lparr>c_mar := (c_mar s2)\<lparr>mar_north := set_fmt i buf (mar_north (c_mar s2))\<rparr>\<rparr>"
    using assms(1) Some u rt by (simp add: north_pollin_handler_def s1_def Let_def)
  have 1: "steady s s1" unfolding s1_def
    by (rule steady_read [OF Some reads_marshallers(1) [OF u]]) (use ctl_unmarshal_sorted [OF u] in simp_all)
  have 2: "sound w s1 s2" using route_north_sound [OF rt] assms(2) o 1 by (simp add: steady_def)
  have "steady s2 s'" unfolding s' by (intro steady_mar steady_refl) (simp_all add: set_fmt_ksorted)
  then show ?thesis using sound_trans [OF sound_trans [OF steady_sound [OF 1] 2] steady_sound] by blast
qed

lemma north_state_sound:
  assumes "north_state_handler ni hnd revents s = (r, s')" and "at_north ni hnd s"
  shows "sound w s s'"
  using assms(1) north_err_sound [OF _ assms(2)]
  by (auto simp: north_state_handler_def intro!: steady_sound steady_intros split: conn_state.splits)

text \<open>The two stages of a handler, output then input; \<open>late\<close> is what it does when a stage fails.\<close>

lemma handle_north_sound:
  assumes "handle_north ni hnd revents s = (n, r, s')" and at: "at_north ni hnd s" and nw: "\<not> w_strict w"
  shows "sound w s s'"
proof -
  obtain h1 r1 s1 where p: "(if revents AND (POLLOUT OR POLLERR OR POLLNVAL) \<noteq> 0 then
         (case pollout_handler hnd revents s of (st, r, s') \<Rightarrow>
            (1, if st \<noteq> 0 then north_err_handler ni hnd s' else north_state_handler ni hnd r s'))
       else (0 :: nat, revents, s)) = (h1, r1, s1)" (is "?p = _") by (cases ?p) auto
  obtain st r0 s0 where po: "pollout_handler hnd revents s = (st, r0, s0)" by (cases "pollout_handler hnd revents s") auto
  have "reserved hnd s" using at by (simp add: at_north_def)
  note then_north = sound_north [OF pollout_sound [OF po this nw] at]
  have err: "sound w s u" if "north_err_handler ni hnd s0 = (r, u)" for r u by (rule then_north [OF north_err_sound [OF that]])
  have state: "sound w s u" if "north_state_handler ni hnd r0 s0 = (r, u)" for r u by (rule then_north [OF north_state_sound [OF that]])
  have 1: "sound w s s1" using p po err state by (simp split: if_splits)
  show ?thesis
  proof (rule sound_north [OF 1 at])
    assume at1: "at_north ni hnd s1"
    then have ni: "ni < length (c_north s1)" and o: "snd hnd \<notin> set (v_others (c_env s1))" by (simp_all add: at_north_def reserved_def)
    obtain st r2 s2 where q: "(if if_streams (c_north s1 ! ni) \<noteq> [] \<and> hnd = hd (if_streams (c_north s1 ! ni))
                then accept_handler ni r1 s1 else north_pollin_handler ni hnd r1 s1) = (st, r2, s2)" (is "?q = _") by (cases ?q) auto
    have 2: "sound w s1 s2" using q accept_sound [OF ni nw] north_pollin_sound [OF _ ni o] by (auto split: if_splits)
    have "s' = s1 \<or> s' = s2 \<or> north_err_handler ni hnd s2 = (r, s')"
      using assms(1) unfolding handle_north_def p Let_def prod.case q by (auto split: if_splits)
    then show "sound w s1 s'" using 2 by (auto intro: sound_north [OF 2 at1 north_err_sound])
  qed
qed

lemma expire_address_sound:
  assumes "j < length (c_south s)"
  shows "sound w s (expire_address_of p j s)"
proof (rule soundI)
  assume w: "well_formed s"
  have ok: "addrs_ok (unexpired_of x (c_env s) (if_addresses (c_south s ! j)))" for x
    using well_formed_iface [OF w assms] by (simp add: unexpired_of_def addrs_ok_filter iface_ok_def)
  show "sound w s (expire_address_of p j s)"
    using ctl_callbacks.set_addresses_sound [OF ok assms]
    by (auto simp: expire_address_of_def put_def split: option.split prod.split)
qed

text \<open>The steps of a south error handler: the watch ends, the address may be dropped, and the stream goes.\<close>

lemma south_close_sound:
  assumes "steady s t" and at: "at_south j (p, fd) s"
    and s': "s' = south_erase j (p, fd) (trig_clear fd (- 1) t) \<or> s' = south_erase j (p, fd) (drop_address (trig_clear fd (- 1) t))"
    and drop: "\<And>w s. j < length (c_south s) \<Longrightarrow> sound w s (drop_address s)"
  shows "sound w s s'"
proof (rule sound_south [OF steady_sound [OF assms(1)] at], rule sound_gone [where p = p])
  let ?w = "w\<lparr>w_but := insert p (w_but w)\<rparr>" and ?u = "trig_clear fd (- 1) t"
  assume at1: "at_south j (p, fd) t"
  then have "reserved (p, fd) t" by (simp add: at_south_def)
  note cl = clear_gone_sound [OF this, of w "- 1"]
  show "sound ?w t s'"
  proof (rule sound_south [OF cl at1])
    assume at2: "at_south j (p, fd) ?u"
    then have "sound ?w ?u (drop_address ?u)" by (intro drop) (simp add: at_south_def)
    then show "sound ?w ?u s'" using s' south_erase_sound [OF at2] sound_south [OF _ at2 south_erase_sound] by blast
  qed
  show "c_heap s' p = None" using s' by (auto simp: south_erase_def)
qed

lemma south_err_sound:
  assumes "south_err_handler j hnd s = (r, s')" and at: "at_south j hnd s"
  shows "sound w s s'"
proof -
  obtain ssp sfd where h: "hnd = (ssp, sfd)" by fastforce
  let ?f = "\<lambda>s c. if cn_south c = ssp then
               (case c_heap s (cn_north c) of
                  Some n \<Rightarrow>
                    (case ctl_state_update abort_type (v_now (c_env s)) c s of (c', s1) \<Rightarrow>
                       (False, c', trig_set (native_handle n) POLLOUT s1))
                | None \<Rightarrow> (True, c, s))
             else (False, c, s)"
  obtain cs t where t: "remove_if_st ?f s (c_conns s) = (cs, t)" by fastforce
  have "steady s t"
    by (rule steady_remove_if [OF t]) (simp add: split_beta steady_intros split: option.split)
  then have 2: "steady s (t\<lparr>c_conns := cs\<rparr>)" by (intro steady_intros)
  let ?u = "trig_clear sfd (- 1) (t\<lparr>c_conns := cs\<rparr>)"
  have "s' = south_erase j hnd ?u \<or> s' = south_erase j hnd (expire_address_of ssp j ?u)"
    using assms(1) t h by (auto simp: south_err_handler_def Let_def)
  then show ?thesis by (rule south_close_sound [OF 2 at [unfolded h], folded h, OF _ expire_address_sound])
qed

lemma south_pollin_steady:
  assumes "south_pollin_handler hnd revents s = (st, r, s')" and o: "snd hnd \<notin> set (v_others (c_env s))"
  shows "steady s s'"
proof (cases "c_heap s (fst hnd)")
  case None
  then show ?thesis using assms(1) by (simp add: south_pollin_handler_def)
next
  case (Some x)
  obtain i m x' where u: "ctl_marshal (c_live s) (fst hnd) x (c_mar s) = (i, m, x')"
    by (cases "ctl_marshal (c_live s) (fst hnd) x (c_mar s)") auto
  define s1 where "s1 = s\<lparr>c_mar := m, c_heap := (c_heap s)(fst hnd \<mapsto> x')\<rparr>"
  obtain st buf rv s2 where rt: "route_south (buf_fmt (mar_south m ! i)) hnd
      (if gcount x' = 0 then revents AND NOT (POLLIN OR POLLHUP) else revents) s1 = (st, buf, rv, s2)"
    by (cases "route_south (buf_fmt (mar_south m ! i)) hnd
      (if gcount x' = 0 then revents AND NOT (POLLIN OR POLLHUP) else revents) s1") auto
  have s': "s' = s2\<lparr>c_mar := (c_mar s2)\<lparr>mar_south := set_fmt i buf (mar_south (c_mar s2))\<rparr>\<rparr>"
    using assms(1) Some u rt by (simp add: south_pollin_handler_def s1_def Let_def)
  have 1: "steady s s1" unfolding s1_def
    by (rule steady_read [OF Some reads_marshallers(2) [OF u]]) (use ctl_marshal_sorted [OF u] in simp_all)
  show ?thesis unfolding s'
    using o steady_others [OF 1] by (intro steady_mar steady_trans [OF 1 route_south_steady [OF rt]]) (simp_all add: set_fmt_ksorted)
qed

lemma south_state_sound:
  assumes "at_south j hnd s" and "\<not> w_south w" and "\<not> w_strict w"
  shows "sound w s (south_state_handler hnd s)"
proof -
  have "sound w s (trig_clear (snd hnd) (- 1) s)"
  proof (rule clear_sound [of "fst hnd"])
    show "reserved (fst hnd, snd hnd) s" using assms(1) by (simp add: at_south_def)
    show "fst hnd \<notin> lacking w (trig_clear (snd hnd) (- 1) s)" using assms by (auto simp: lacking_def at_south_def)
  qed
  then show ?thesis
    using sound_trans [OF _ steady_sound [OF steady_fields(2) [OF steady_refl]]] by (auto simp: south_state_handler_def)
qed

lemma handle_south_sound:
  assumes "handle_south j hnd revents s = (n, r, s')" and at: "at_south j hnd s" and nw: "\<not> w_south w" "\<not> w_strict w"
  shows "sound w s s'"
proof -
  obtain h1 r1 s1 where p: "(if revents AND (POLLOUT OR POLLERR OR POLLNVAL) \<noteq> 0 then
         (case pollout_handler hnd revents s of (st, r, s') \<Rightarrow>
            (1, if st \<noteq> 0 then south_err_handler j hnd s' else (r, south_state_handler hnd s')))
       else (0 :: nat, revents, s)) = (h1, r1, s1)" (is "?p = _") by (cases ?p) auto
  obtain st r0 s0 where po: "pollout_handler hnd revents s = (st, r0, s0)" by (cases "pollout_handler hnd revents s") auto
  have "reserved hnd s" using at by (simp add: at_south_def)
  note then_south = sound_south [OF pollout_sound [OF po this nw(2)] at]
  have err: "sound w s u" if "south_err_handler j hnd s0 = (r, u)" for r u by (rule then_south [OF south_err_sound [OF that]])
  have state: "sound w s (south_state_handler hnd s0)" by (rule then_south [OF south_state_sound [OF _ nw]])
  have 1: "sound w s s1" using p po err state by (auto split: if_splits)
  show ?thesis
  proof (rule sound_south [OF 1 at])
    assume at1: "at_south j hnd s1"
    obtain st r2 s2 where q: "south_pollin_handler hnd r1 s1 = (st, r2, s2)" by (cases "south_pollin_handler hnd r1 s1") auto
    have "snd hnd \<notin> set (v_others (c_env s1))" using at1 by (simp add: at_south_def reserved_def)
    then have 2: "sound w s1 s2" by (intro steady_sound south_pollin_steady [OF q])
    have "s' = s1 \<or> s' = s2 \<or> south_err_handler j hnd s2 = (r, s')"
      using assms(1) unfolding handle_south_def south_pollout_handler_def p Let_def prod.case q by (auto split: if_splits)
    then show "sound w s1 s'" using 2 by (auto intro: sound_south [OF 2 at1 south_err_sound])
  qed
qed

lemma run_timer_sound: "sound w s (run_timer cb s)"
  by (cases cb) (auto intro!: steady_sound steady_sent kin_intros split: option.split)

lemma ctl_events_sound:
  assumes "\<And>evs s1 n evs' s'. evolves s s1 \<Longrightarrow> resolver evs s1 = (n, evs', s') \<Longrightarrow> sound w s1 s'" and nw: "\<not> w_south w" "\<not> w_strict w"
    and "ctl_handle_events resolver events s = (n, events', s')"
  shows "sound w s s'"
proof (rule handle_events_sound)
  show "handle_events resolver run_timer (handle_side c_south cn_south cn_north handle_south)
      (handle_side c_north cn_north cn_south handle_north) events s = (n, events', s')"
    using assms(4) by (simp add: ctl_handle_events_def)
qed (auto intro: assms(1) run_timer_sound north_side_sound [OF handle_north_sound [OF _ _ nw(2)]] south_side_sound [OF handle_south_sound [OF _ _ nw]])

end
