(* ===== verification/SegmentSound.thy ===== *)
theory SegmentSound
  imports ControllerSound Segment
begin

unbundle bit_operations_syntax

text \<open>
  Every handler of the segment keeps connector states well formed, and leaves no stream with pending output
  unwatched, on either side.
\<close>

section \<open>The segment's connects\<close>

lemma seg_erase_loop_steady:
  "remove_if_st (\<lambda>s c. if cn_south c = p then
       (True, c, case c_heap s nsp of
          None \<Rightarrow> s
        | Some x \<Rightarrow> trig_set (native_handle x) POLLOUT
            (s\<lparr>c_heap := (c_heap s)(nsp \<mapsto> write_header (abort_header (cn_uuid c)) x)\<rparr>))
     else (False, c, s)) s cs = (cs', t) \<Longrightarrow> steady s t"
  by (erule steady_remove_if) (auto intro!: steady_sent kin_intros split: option.split)

lemma seg_erase_connect_sound:
  assumes "seg_erase_connect nsp hnd f s = (g, s')" and j: "j < length (c_south s)" and o: "owns (fst hnd) f"
  shows "sound w (put j f s) (put j g s')"
proof -
  obtain cs t where t: "steady s t" "g = iface_erase hnd f" "s' = t\<lparr>c_conns := cs, c_heap := (c_heap t)(fst hnd := None)\<rparr>"
    using assms(1) by (auto simp: seg_erase_connect_def split: prod.splits dest: seg_erase_loop_steady)
  let ?u = "put j f (t\<lparr>c_conns := cs\<rparr>)"
  have u: "steady (put j f s) ?u" using t(1) by (intro steady_put steady_intros)
  have jt: "j < length (c_south t)" using t(1) j by (simp add: steady_def)
  have "sound w ?u (put j g s')"
  proof (rule soundI)
    assume wf: "well_formed ?u"
    obtain h where h: "h \<in> set (if_streams f)" "fst h = fst hnd" using o by (auto simp: has_key_def)
    have at: "at_south j h ?u" using h(1) jt by (intro handle_at_south [OF wf]) simp_all
    have so: "ksorted fst (if_streams f)" using well_formed_sorted(2) [OF wf, of j] jt by simp
    have "sound w ?u (?u\<lparr>c_south := (c_south ?u)[j := g], c_heap := (c_heap ?u)(fst hnd := None)\<rparr>)"
      using jt t(2) iface_erase_spec [OF so, of "fst hnd" "snd hnd"] by (intro erase_south_sound [OF at h(2)]) simp_all
    moreover have "?u\<lparr>c_south := (c_south ?u)[j := g], c_heap := (c_heap ?u)(fst hnd := None)\<rparr> = put j g s'"
      by (simp add: put_def t(3))
    ultimately show "sound w ?u (put j g s')" by simp
  qed
  then show ?thesis using sound_trans [OF steady_sound [OF u]] by blast
qed

lemma seg_erase_connect_frame:
  assumes "seg_erase_connect nsp hnd f s = (g, s')"
  shows "length (c_north s') = length (c_north s) \<and> length (c_south s') = length (c_south s) \<and> if_pending g = if_pending f"
  using assms by (auto simp: seg_erase_connect_def steady_def split: prod.splits dest!: seg_erase_loop_steady)

interpretation seg_callbacks: sound_callbacks seg_connect_run
proof
  fix cb i addr len proto j and w :: watch and f g :: "connect_cb iface" and s s' :: seg
  assume r: "seg_connect_run cb i addr len proto f s = (g, s')"
  obtain ni nsp where cb: "cb = ConnectCb ni nsp" by (cases cb)
  note r' = r [unfolded cb seg_connect_run.simps]
  show "length (c_north s') = length (c_north s) \<and> length (c_south s') = length (c_south s) \<and> if_pending g = if_pending f"
    by (rule connect_run_frame [OF seg_erase_connect_frame r'])
  show "sound w (put j f s) (put j g s')" if "j < length (c_south s)" "i < length (if_streams f)"
    by (rule connect_run_sound [OF seg_erase_connect_sound r' refl that])
qed

lemma seg_register_sound:
  assumes "cb_ok (length (c_north s)) cb" and "j < length (c_south s)"
  shows "sound w s (seg_register j p cb s)"
  using seg_callbacks.register_sound [OF assms] by (auto simp: seg_register_def put_def split: option.split prod.split)

lemma seg_north_write_steady:
  assumes "seg_north_write p buf s = (len, buf', s')" and "tables_ok s \<Longrightarrow> p \<notin> unpolled s"
  shows "steady s s'"
  using assms by (auto simp: seg_north_write_def split: option.splits prod.splits intro!: steady_ready dest: kin_guarded)

lemma seg_north_connect_sound:
  assumes "seg_north_connect ni nsp buf s = (st, buf', s')" and "ni < length (c_north s)"
  shows "sound w s s'"
proof (rule soundI)
  assume wf: "well_formed s"
  then have 0: "0 < length (c_south s)" by (simp add: well_formed_def)
  obtain i s1 where s1: "south_make 0 s = (i, s1)" by fastforce
  let ?p = "fst (if_streams (c_south s1 ! 0) ! i)"
  let ?t = "s1\<lparr>c_arrivals := c_arrivals s1 + 1\<rparr>"
  define s2 where "s2 = seg_register 0 ?p (ConnectCb ni nsp) ?t"
  define s3 where "s3 = (if if_addresses (c_south s2 ! 0) = [] \<and> length (if_pending (c_south s2 ! 0)) = 1
                   then s2\<lparr>c_env := (c_env s2)\<lparr>v_resolves := v_resolves (c_env s2) @ [0]\<rparr>\<rparr> else s2)"
  have t: "steady s1 ?t" by (intro steady_intros steady_refl)
  have "sound w s s1" for w using south_make_sound [OF 0, of w] s1 by simp
  then have 1: "sound w s ?t" for w using sound_trans steady_sound [OF t] by blast
  have l: "length (c_north ?t) = length (c_north s)" "length (c_south ?t) = length (c_south s)"
    using s1 by (auto simp: south_make_def new_stream_def Let_def split: prod.splits)
  have 2: "sound w ?t s2" for w unfolding s2_def by (rule seg_register_sound) (use l 0 assms(2) in simp_all)
  have 3: "steady s2 s3" by (auto simp: s3_def intro!: steady_intros)
  have ts3: "sound w ?t s3" for w by (rule sound_trans [OF 2 steady_sound [OF 3]])
  have wt: "well_formed ?t" using 1 wf by (auto simp: sound_def)
  have "?p \<notin> unpolled ?t" using south_made(2) [OF s1 wf 0] lacking_cong [of ?t s1] by simp
  then have "?p \<notin> unpolled s3" by (rule sound_unpolled [OF ts3 wt])
  then have "steady s3 s'"
    using assms(1) s1 lacking_cong [of "s3\<lparr>c_conns := _\<rparr>" s3] unfolding seg_north_connect_def Let_def s1 prod.case s2_def [symmetric] s3_def [symmetric]
    by (auto split: option.splits intro: steady_trans [OF steady_fields(1) [OF steady_refl] seg_north_write_steady])
  then show "sound w s s'" using sound_trans [OF 1 sound_trans [OF ts3 steady_sound]] by blast
qed

section \<open>The segment routes\<close>

lemma seg_north_write_stream:
  assumes "seg_north_write p buf s = (len, buf', s')" and "c_heap s p = Some x"
  obtains x' where "kin x x'" and "s' = s\<lparr>c_heap := (c_heap s)(p \<mapsto> x')\<rparr>"
  using assms that by (auto simp: seg_north_write_def split: prod.splits dest: kin_guarded)

lemma kin_south_write: "seg_south_write c stop buf n = (len, buf', n') \<Longrightarrow> kin n n'"
  by (auto simp: seg_south_write_def Let_def split: prod.splits if_splits
      intro: kin_intros kin_trans [OF kin_header kin_write_n] kin_trans [OF kin_flush kin_header] kin_trans [OF kin_flush kin_trans [OF kin_header kin_write_n]])

lemma seg_deliver_steady:
  assumes "seg_deliver_north buf hnd revents k type p seekpos ret s = (st, buf', revents', s')" and o: "snd hnd \<notin> set (v_others (c_env s))"
  shows "steady s s'"
proof (cases "c_heap s (cn_south (c_conns s ! k))")
  case None
  then show ?thesis using assms(1) by (auto simp: seg_deliver_north_def Let_def intro!: steady_intros)
next
  case (Some x)
  let ?q = "cn_south (c_conns s ! k)"
  define s1 where "s1 = (if native_handle x \<noteq> - 1 then trig_set (native_handle x) POLLOUT s else s)"
  obtain len buf1 s2 where w: "(if seekpos < p then seg_north_write ?q (xmsg_seekg seekpos buf) s1 else (1, buf, s1)) = (len, buf1, s2)"
    by (cases "if seekpos < p then seg_north_write ?q (xmsg_seekg seekpos buf) s1 else (1, buf, s1)") auto
  have h: "c_heap s1 = c_heap s" by (simp add: s1_def)
  have 2: "steady s s2"
  proof (cases "seekpos < p")
    case False
    then show ?thesis using w by (auto simp: s1_def intro!: steady_intros)
  next
    case True
    then obtain x' where "kin x x'" "s2 = s1\<lparr>c_heap := (c_heap s)(?q \<mapsto> x')\<rparr>"
      using w Some h seg_north_write_stream [of ?q "xmsg_seekg seekpos buf" s1 len buf1 s2 x] by auto
    then show ?thesis using steady_sent [OF Some] steady_ready [OF Some] Some by (auto simp: s1_def unpolled_iff)
  qed
  show ?thesis
    using assms(1) o 2 unfolding seg_deliver_north_def Let_def Some option.case s1_def [symmetric] w prod.case
    by (auto simp: clear_triggers_def split: if_splits intro!: steady_intros kin_intros simp: sk_pending_def)
qed

lemma seg_unknown_sound:
  assumes "seg_unknown buf ni hnd revents eid type p s = (st, buf', revents', s')" and at: "at_north ni hnd s"
  shows "sound w s s'"
proof (cases "has_flag type INIT \<and> 24 < p")
  case True
  obtain status buf1 s1 where c: "seg_north_connect ni (fst hnd) (xmsg_seekg 24 buf) s = (status, buf1, s1)"
    by (cases "seg_north_connect ni (fst hnd) (xmsg_seekg 24 buf) s") auto
  have ni: "ni < length (c_north s)" and o: "snd hnd \<notin> set (v_others (c_env s))" using at by (simp_all add: at_north_def reserved_def)
  note 1 = seg_north_connect_sound [OF c ni]
  show ?thesis
  proof (rule soundI)
    assume wf: "well_formed s"
    have "steady s1 s'" using assms(1) c True o sound_others [OF 1 wf]
      by (auto simp: seg_unknown_def clear_triggers_def split: if_splits intro!: steady_intros)
    then show "sound w s s'" using sound_trans [OF 1 steady_sound] by blast
  qed
next
  case False
  then have s': "s' = s \<or> s' = trig_set (snd hnd) POLLOUT (upd_stream (fst hnd) (write_header (abort_header eid)) s)"
    using assms(1) by (auto simp: seg_unknown_def split: if_splits)
  have "sound w s (trig_set (snd hnd) POLLOUT (upd_stream (fst hnd) (write_header (abort_header eid)) s))" (is "sound w s ?t")
  proof (rule soundI)
    assume wf: "well_formed s"
    show "sound w s ?t"
    proof (cases "c_heap s (fst hnd)")
      case None
      then show ?thesis by (auto simp: upd_stream_def intro!: steady_sound steady_intros)
    next
      case (Some x)
      then have "hnd \<in> c_handles s" using at handles_nth [of ni "c_north s" hnd] by (auto simp: at_north_def)
      then have "native_handle x = snd hnd \<or> native_handle x = BAD_SOCKET" using native_cases [OF wf _ Some, of "snd hnd"] by simp
      moreover have "steady s ?t" if "native_handle x = BAD_SOCKET"
        using steady_trig_set [OF steady_ready [OF Some kin_header]] that Some by (simp add: upd_stream_def unpolled_iff)
      ultimately show ?thesis using steady_reply [OF Some] steady_sound by metis
    qed
  qed
  then show ?thesis using s' by auto
qed

lemma seg_route_north_sound:
  assumes "seg_route_north buf ni hnd revents s = (st, buf', revents', s')" and "at_north ni hnd s"
  shows "sound w s s'"
proof -
  have "snd hnd \<notin> set (v_others (c_env s))" using assms(2) by (simp add: at_north_def reserved_def)
  then show ?thesis using assms
    by (auto simp: seg_route_north_def Let_def split: option.splits prod.splits if_splits
        dest: seg_unknown_sound intro: steady_sound [OF seg_deliver_steady])
qed

lemma seg_route_south_steady:
  assumes "seg_route_south buf hnd revents s = (st, buf', revents', s')" and "snd hnd \<notin> set (v_others (c_env s))"
  shows "steady s s'"
proof -
  obtain ssp sfd where h: "hnd = (ssp, sfd)" by fastforce
  have sent: "steady s ((trig_set (native_handle n) POLLOUT s)\<lparr>c_heap := (c_heap s)(q \<mapsto> n')\<rparr>)"
    if "seg_south_write c stop b n = (len, b', n')" "c_heap s q = Some n" for c stop b n len b' n' q
    by (rule steady_sent [OF that(2) kin_south_write [OF that(1)]])
  show ?thesis
    using assms h
    by (auto simp: seg_route_south_def Let_def clear_triggers_def split: option.splits prod.splits if_splits
        intro!: steady_trig_clear steady_fields sent)
qed

section \<open>The segment's handlers\<close>

lemma seg_north_err_sound:
  assumes "seg_north_err_handler ni hnd s = (r, s')" and at: "at_north ni hnd s"
  shows "sound w s s'"
proof -
  obtain nsp nfd where h: "hnd = (nsp, nfd)" by fastforce
  let ?f = "\<lambda>s c. if cn_north c = nsp then
               (case c_heap s (cn_south c) of
                  Some x \<Rightarrow> (False, seg_state_update abort_type (v_now (c_env s)) c, trig_set (native_handle x) POLLOUT s)
                | None \<Rightarrow> (True, c, s))
             else (False, c, s)"
  obtain cs t where t: "remove_if_st ?f s (c_conns s) = (cs, t)" by fastforce
  have "steady s t" by (rule steady_remove_if [OF t]) (simp add: steady_intros split: option.split)
  then have "steady s (t\<lparr>c_conns := cs\<rparr>)" (is "steady s ?u") by (intro steady_intros)
  from sound_north [OF steady_sound [OF this] at north_close_sound [where m = "- 1"]]
  have "sound w s (north_erase ni hnd (trig_clear (snd hnd) (- 1) ?u))" by blast
  then show ?thesis using assms(1) t h by (simp add: seg_north_err_handler_def)
qed

lemma seg_unmarshal_sorted:
  assumes "seg_unmarshal live p x m = (i, m', x')"
  shows "ksorted buf_ptr (mar_north m) \<Longrightarrow> ksorted buf_ptr (mar_north m')" and "mar_south m' = mar_south m"
  using assms by (auto simp: seg_unmarshal_def split: prod.splits intro!: set_fmt_ksorted dest: buffer_slot_sorted)

lemma seg_marshal_sorted:
  assumes "seg_marshal live p x m = (i, m', x')"
  shows "ksorted buf_ptr (mar_south m) \<Longrightarrow> ksorted buf_ptr (mar_south m')" and "mar_north m' = mar_north m"
  using assms by (auto simp: seg_marshal_def split: prod.splits intro!: set_fmt_ksorted dest: buffer_slot_sorted)

lemma seg_north_pollin_sound:
  assumes "seg_north_pollin_handler ni hnd revents s = (st, r, s')" and at: "at_north ni hnd s"
  shows "sound w s s'"
proof (cases "c_heap s (fst hnd)")
  case None
  then show ?thesis using assms(1) by (simp add: seg_north_pollin_handler_def)
next
  case (Some x)
  obtain i m x' where u: "seg_unmarshal (c_live s) (fst hnd) x (c_mar s) = (i, m, x')"
    by (cases "seg_unmarshal (c_live s) (fst hnd) x (c_mar s)") auto
  define s1 where "s1 = s\<lparr>c_mar := m, c_heap := (c_heap s)(fst hnd \<mapsto> x')\<rparr>"
  obtain st buf rv s2 where rt: "seg_route_north (buf_fmt (mar_north m ! i)) ni hnd
      (if gcount x' = 0 then revents AND NOT (POLLIN OR POLLHUP) else revents) s1 = (st, buf, rv, s2)"
    by (cases "seg_route_north (buf_fmt (mar_north m ! i)) ni hnd
      (if gcount x' = 0 then revents AND NOT (POLLIN OR POLLHUP) else revents) s1") auto
  have s': "s' = s2\<lparr>c_mar := (c_mar s2)\<lparr>mar_north := set_fmt i buf (mar_north (c_mar s2))\<rparr>\<rparr>"
    using assms(1) Some u rt by (simp add: seg_north_pollin_handler_def s1_def Let_def)
  have 1: "steady s s1" unfolding s1_def
    by (rule steady_read [OF Some reads_marshallers(3) [OF u]]) (use seg_unmarshal_sorted [OF u] in simp_all)
  have 2: "sound w s s2" by (rule sound_north [OF steady_sound [OF 1] at seg_route_north_sound [OF rt]])
  have "steady s2 s'" unfolding s' by (intro steady_mar steady_refl) (simp_all add: set_fmt_ksorted)
  then show ?thesis using sound_trans [OF 2 steady_sound] by blast
qed

lemma seg_handle_north_sound:
  assumes "seg_handle_north ni hnd revents s = (n, r, s')" and at: "at_north ni hnd s" and nw: "\<not> w_strict w"
  shows "sound w s s'"
proof -
  obtain h1 r1 s1 where p: "(if revents AND (POLLOUT OR POLLERR OR POLLNVAL) \<noteq> 0 then
         (case pollout_handler hnd revents s of (st, r, s') \<Rightarrow>
            (1, if st \<noteq> 0 then seg_north_err_handler ni hnd s' else (r, s')))
       else (0 :: nat, revents, s)) = (h1, r1, s1)" (is "?p = _") by (cases ?p) auto
  obtain st r0 s0 where po: "pollout_handler hnd revents s = (st, r0, s0)" by (cases "pollout_handler hnd revents s") auto
  have "reserved hnd s" using at by (simp add: at_north_def)
  note 0 = pollout_sound [OF po this nw]
  have err: "sound w s u" if "seg_north_err_handler ni hnd s0 = (r, u)" for r u by (rule sound_north [OF 0 at seg_north_err_sound [OF that]])
  have 1: "sound w s s1" using p po err 0 by (auto split: if_splits)
  show ?thesis
  proof (rule sound_north [OF 1 at])
    assume at1: "at_north ni hnd s1"
    then have ni: "ni < length (c_north s1)" by (simp add: at_north_def)
    obtain st r2 s2 where q: "(if if_streams (c_north s1 ! ni) \<noteq> [] \<and> hnd = hd (if_streams (c_north s1 ! ni))
                then accept_handler ni r1 s1 else seg_north_pollin_handler ni hnd r1 s1) = (st, r2, s2)" (is "?q = _") by (cases ?q) auto
    have 2: "sound w s1 s2" using q accept_sound [OF ni nw] seg_north_pollin_sound [OF _ at1] by (auto split: if_splits)
    have "s' = s1 \<or> s' = s2 \<or> seg_north_err_handler ni hnd s2 = (r, s')"
      using assms(1) unfolding seg_handle_north_def seg_shared p Let_def prod.case q by (auto split: if_splits)
    then show "sound w s1 s'" using 2 by (auto intro: sound_north [OF 2 at1 seg_north_err_sound])
  qed
qed

lemma seg_expire_address_sound:
  assumes "j < length (c_south s)"
  shows "sound w s (seg_expire_address_of p j s)"
proof (rule soundI)
  assume wf: "well_formed s"
  have ok: "addrs_ok (unexpired_of x (c_env s) (if_addresses (c_south s ! j)))" for x
    using well_formed_iface [OF wf assms] by (simp add: unexpired_of_def addrs_ok_filter iface_ok_def)
  show "sound w s (seg_expire_address_of p j s)"
    using seg_callbacks.set_addresses_sound [OF ok assms]
    by (auto simp: seg_expire_address_of_def put_def split: option.split prod.split)
qed

lemma seg_south_err_sound:
  assumes "seg_south_err_handler j hnd s = (r, s')" and at: "at_south j hnd s"
  shows "sound w s s'"
proof -
  obtain ssp sfd where h: "hnd = (ssp, sfd)" by fastforce
  let ?f = "\<lambda>s c. if cn_south c = ssp then
               (True, c, case c_heap s (cn_north c) of
                  Some n \<Rightarrow>
                    (if cn_state c < CLOSED
                     then trig_set (native_handle n) POLLOUT
                       (s\<lparr>c_heap := (c_heap s)(cn_north c \<mapsto> write_header (abort_header (cn_uuid c)) n)\<rparr>)
                     else s)
                | None \<Rightarrow> s)
             else (False, c, s)"
  obtain cs t where t: "remove_if_st ?f s (c_conns s) = (cs, t)" by fastforce
  have "steady s t" by (rule steady_remove_if [OF t]) (auto intro!: steady_sent kin_intros split: option.split)
  then have 2: "steady s (t\<lparr>c_conns := cs\<rparr>)" by (intro steady_intros)
  let ?u = "trig_clear sfd (- 1) (t\<lparr>c_conns := cs\<rparr>)"
  have "s' = south_erase j hnd ?u \<or> s' = south_erase j hnd (seg_expire_address_of ssp j ?u)"
    using assms(1) t h by (auto simp: seg_south_err_handler_def Let_def)
  then show ?thesis by (rule south_close_sound [OF 2 at [unfolded h], folded h, OF _ seg_expire_address_sound])
qed

lemma seg_south_pollin_steady:
  assumes "seg_south_pollin_handler hnd revents s = (st, r, s')" and o: "snd hnd \<notin> set (v_others (c_env s))"
  shows "steady s s'"
proof (cases "c_heap s (fst hnd)")
  case None
  then show ?thesis using assms(1) by (simp add: seg_south_pollin_handler_def)
next
  case (Some x)
  obtain i m x' where u: "seg_marshal (c_live s) (fst hnd) x (c_mar s) = (i, m, x')"
    by (cases "seg_marshal (c_live s) (fst hnd) x (c_mar s)") auto
  define s1 where "s1 = s\<lparr>c_mar := m, c_heap := (c_heap s)(fst hnd \<mapsto> x')\<rparr>"
  obtain st buf rv s2 where rt: "seg_route_south (buf_fmt (mar_south m ! i)) hnd
      (if gcount x' = 0 then revents AND NOT (POLLIN OR POLLHUP) else revents) s1 = (st, buf, rv, s2)"
    by (cases "seg_route_south (buf_fmt (mar_south m ! i)) hnd
      (if gcount x' = 0 then revents AND NOT (POLLIN OR POLLHUP) else revents) s1") auto
  have s': "s' = s2\<lparr>c_mar := (c_mar s2)\<lparr>mar_south := set_fmt i buf (mar_south (c_mar s2))\<rparr>\<rparr>"
    using assms(1) Some u rt by (simp add: seg_south_pollin_handler_def s1_def Let_def)
  have 1: "steady s s1" unfolding s1_def
    by (rule steady_read [OF Some reads_marshallers(4) [OF u]]) (use seg_marshal_sorted [OF u] in simp_all)
  show ?thesis unfolding s'
    using o steady_others [OF 1] by (intro steady_mar steady_trans [OF 1 seg_route_south_steady [OF rt]]) (simp_all add: set_fmt_ksorted)
qed

lemma seg_south_state_sound:
  assumes "seg_south_state_handler j hnd revents s = (r, s')" and "at_south j hnd s"
  shows "sound w s s'"
  using assms(1) seg_south_err_sound [OF _ assms(2)]
  by (auto simp: seg_south_state_handler_def intro!: steady_sound steady_intros split: option.splits conn_state.splits)

lemma seg_handle_south_sound:
  assumes "seg_handle_south j hnd revents s = (n, r, s')" and at: "at_south j hnd s" and nw: "\<not> w_strict w"
  shows "sound w s s'"
proof -
  obtain h1 r1 s1 where p: "(if revents AND (POLLOUT OR POLLERR OR POLLNVAL) \<noteq> 0 then
         (case pollout_handler hnd revents s of (st, r, s') \<Rightarrow>
            (1, if st \<noteq> 0 then seg_south_err_handler j hnd s' else seg_south_state_handler j hnd r s'))
       else (0 :: nat, revents, s)) = (h1, r1, s1)" (is "?p = _") by (cases ?p) auto
  obtain st r0 s0 where po: "pollout_handler hnd revents s = (st, r0, s0)" by (cases "pollout_handler hnd revents s") auto
  have "reserved hnd s" using at by (simp add: at_south_def)
  note then_south = sound_south [OF pollout_sound [OF po this nw] at]
  have err: "sound w s u" if "seg_south_err_handler j hnd s0 = (r, u)" for r u by (rule then_south [OF seg_south_err_sound [OF that]])
  have state: "sound w s u" if "seg_south_state_handler j hnd r0 s0 = (r, u)" for r u by (rule then_south [OF seg_south_state_sound [OF that]])
  have 1: "sound w s s1" using p po err state by (simp split: if_splits)
  show ?thesis
  proof (rule sound_south [OF 1 at])
    assume at1: "at_south j hnd s1"
    obtain st r2 s2 where q: "seg_south_pollin_handler hnd r1 s1 = (st, r2, s2)" by (cases "seg_south_pollin_handler hnd r1 s1") auto
    have "snd hnd \<notin> set (v_others (c_env s1))" using at1 by (simp add: at_south_def reserved_def)
    then have 2: "sound w s1 s2" by (intro steady_sound seg_south_pollin_steady [OF q])
    have "s' = s1 \<or> s' = s2 \<or> seg_south_err_handler j hnd s2 = (r, s')"
      using assms(1) unfolding seg_handle_south_def seg_shared p Let_def prod.case q by (auto split: if_splits)
    then show "sound w s1 s'" using 2 by (auto intro: sound_south [OF 2 at1 seg_south_err_sound])
  qed
qed

lemma seg_events_sound:
  assumes "\<And>evs s1 n evs' s'. evolves s s1 \<Longrightarrow> resolver evs s1 = (n, evs', s') \<Longrightarrow> sound w s1 s'" and nw: "\<not> w_strict w"
    and "seg_handle_events resolver events s = (n, events', s')"
  shows "sound w s s'"
proof (rule handle_events_sound)
  show "handle_events resolver (\<lambda>_ s. s) (handle_side c_north cn_north cn_south seg_handle_north)
      (handle_side c_south cn_south cn_north seg_handle_south) events s = (n, events', s')"
    using assms(3) by (simp add: seg_handle_events_def)
qed (auto intro: assms(1) north_side_sound [OF seg_handle_north_sound [OF _ _ nw]] south_side_sound [OF seg_handle_south_sound [OF _ _ nw]])

end
