(* ===== verification/Wellformed.thy ===== *)
theory Wellformed
  imports Answers ControllerSound SegmentSound
begin

unbundle bit_operations_syntax

text \<open>
  The states the controller and the segment can reach, from the state a configuration builds, are
  well formed, and their streams with pending output are watched.
\<close>

section \<open>What a configuration builds is well formed\<close>

lemma owned_empty:
  assumes "owned h (fs @ gs)" and "if_streams f = []"
  shows "owned h ((fs @ [f]) @ gs)"
proof -
  have "held p ((fs @ [f]) @ gs) = held p (fs @ gs)" for p using assms(2) by (simp add: held_def has_key_def)
  then show ?thesis using assms unfolding owned_def by simp
qed

lemma cb_ok_mono: "cb_ok n cb \<Longrightarrow> n \<le> m \<Longrightarrow> cb_ok m cb"
  by (cases cb) simp

lemma iface_ok_mono: "iface_ok n f \<Longrightarrow> n \<le> m \<Longrightarrow> iface_ok m f"
  using cb_ok_mono by (auto simp: iface_ok_def)

lemma handles_single [simp]: "handles [f] = set (if_streams f)"
  by (simp add: handles_def)

text \<open>While a connector is set up it only listens: nothing is waiting to be sent.\<close>

definition quiet :: "('n, 's) connector \<Rightarrow> bool" where
  "quiet s \<longleftrightarrow> formed s \<and> (\<forall>p x. c_heap s p = Some x \<longrightarrow> \<not> unsent x)"

lemma add_north_iface: "quiet s \<Longrightarrow> if_streams f = [] \<Longrightarrow> quiet (s\<lparr>c_north := c_north s @ [f]\<rparr>)"
  using owned_empty [of "c_heap s" "c_north s" "c_south s" f] iface_ok_mono
  by (fastforce simp: quiet_def formed_def allocated_def)

lemma add_south_iface: "quiet s \<Longrightarrow> if_streams f = [] \<Longrightarrow> if_pending f = [] \<Longrightarrow> addrs_ok (if_addresses f) \<Longrightarrow>
    quiet (s\<lparr>c_south := c_south s @ [f]\<rparr>)"
  using owned_empty [of "c_heap s" "c_north s @ c_south s" "[]" f]
  by (auto simp: quiet_def formed_def allocated_def iface_ok_def)

lemma make_listener_quiet:
  assumes "make_listener i s = (Some r, s')" and "quiet s" and "i < length (c_north s)"
  shows "quiet s'"
proof -
  obtain fd nd t where t: "take_socket s = ((Some fd, nd), t)"
    using assms(1) by (auto simp: make_listener_def split: prod.splits option.splits)
  obtain as where as: "v_socket (c_env s) = (Some fd, nd) # as" "t = s\<lparr>c_env := (c_env s)\<lparr>v_socket := as\<rparr>\<rparr>" by (rule take_socket_some [OF t])
  obtain xs ys where o: "offered (c_env s) = xs @ fd # ys" "offered ((c_env s)\<lparr>v_socket := as\<rparr>) = xs @ ys" by (rule offered_socket [OF as(1)])
  let ?p = "v_alloc (c_env s) (v_nalloc (c_env s))"
  let ?e = "(c_env s)\<lparr>v_socket := as, v_nalloc := Suc (v_nalloc (c_env s))\<rparr>"
  let ?x = "ios_init (sockbuf_make fd False False False (v_kernels (c_env s) (v_nalloc (c_env s))))"
  obtain k g where g: "iface_insert (?p, fd) (c_north s ! i) = (k, g)" by fastforce
  have f: "formed s" using assms(2) by (simp add: quiet_def)
  have "taken fd (c_env s) ?e" using f o by (auto simp: taken_def formed_def fds_ok_def fresh_def)
  from add_north_formed [OF f assms(3) refl this g, of ?x]
  have "formed (s\<lparr>c_heap := (c_heap s)(?p \<mapsto> ?x), c_env := ?e, c_north := (c_north s)[i := g]\<rparr>)" by simp
  moreover have "s' = s\<lparr>c_heap := (c_heap s)(?p \<mapsto> ?x), c_env := ?e, c_north := (c_north s)[i := g]\<rparr>"
    using assms(1) t g by (auto simp: make_listener_def Let_def as(2))
  moreover have "\<not> unsent ?x" by (rule stream_ok_new)
  ultimately show ?thesis using assms(2) by (auto simp: quiet_def)
qed

lemma iface_of_sockaddr_ok:
  "iface_of_sockaddr now addr len proto uri ttl = Some f \<Longrightarrow> if_streams f = [] \<and> if_pending f = [] \<and> addrs_ok (if_addresses f)"
  by (auto simp: iface_of_sockaddr_def iface_make_def addrs_ok_def make_address_def split: option.splits if_splits)

lemma make_north_quiet:
  assumes "make_north a s = Inr (fd, s')" and "quiet s"
  shows "quiet s'"
  using assms
  by (auto simp: make_north_def Let_def split: address_type.splits option.splits if_splits prod.splits
      dest!: iface_of_sockaddr_ok intro: add_north_iface make_listener_quiet)

lemma make_south_quiet:
  assumes "make_south a s = Inr s'" and "quiet s"
  shows "quiet s'"
  using assms
  by (auto simp: make_south_def split: address_type.splits option.splits dest!: iface_of_sockaddr_ok
      intro!: add_south_iface simp: iface_make_def addrs_ok_def)

lemma setup_pair_quiet:
  assumes "setup_pair pton kv (b, s) = Inr (b', s')" and "quiet s"
  shows "quiet s'"
proof -
  have "quiet (s\<lparr>c_full_duplex := d\<rparr>)" for d using assms(2) by (simp add: quiet_def formed_def allocated_def tables_ok_def)
  then show ?thesis using assms make_north_quiet make_south_quiet
    by (cases kv) (auto simp: setup_pair_def Let_def split: option.splits sum.splits if_splits)
qed

lemma setup_pairs_quiet: "setup_pairs pton kvs (b, s) = Inr (b', s') \<Longrightarrow> quiet s \<Longrightarrow> quiet s'"
proof (induction kvs arbitrary: b s)
  case (Cons kv kvs)
  then obtain b1 s1 where "setup_pair pton kv (b, s) = Inr (b1, s1)" "setup_pairs pton kvs (b1, s1) = Inr (b', s')"
    by (auto split: sum.splits)
  then show ?case using Cons.IH setup_pair_quiet Cons.prems(2) by blast
qed simp

lemma connector_made_quiet:
  assumes "connector_handler_make pton conf e = Inr s" and "inj (v_alloc e)" and "fresh e {}"
  shows "well_formed s" and "quiet s"
proof -
  have "quiet (connector_init e :: ('n, 's) connector)"
    using assms(2,3) by (simp add: quiet_def formed_def connector_init_def owned_def held_def tables_ok_def trigger_init_inv allocated_def
        fds_ok_def apart_def bound_def)
  moreover obtain b s0 where b: "setup_pairs pton conf (\<lparr>b_dir = 0, b_noptions = [], b_soptions = []\<rparr>, connector_init e) = Inr (b, s0)"
    and ne: "c_south s0 \<noteq> []"
    and s: "s = trig_set (snd (hd (if_streams (hd (c_north s0))))) POLLIN (s0\<lparr>c_north := map (\<lambda>f. f\<lparr>if_options := b_noptions b\<rparr>) (c_north s0),
         c_south := map (\<lambda>f. f\<lparr>if_options := b_soptions b\<rparr>) (c_south s0)\<rparr>)" (is "s = trig_set ?fd POLLIN ?t")
    using assms(1) by (auto simp: connector_handler_make_def connector_base_make_def Let_def hd_map split: sum.splits if_splits)
  ultimately have q0: "quiet s0" using setup_pairs_quiet by blast
  have "handles (map (\<lambda>f. f\<lparr>if_options := os\<rparr>) fs) = handles fs" for os and fs :: "connect_cb iface list" by (rule handles_cong) (simp add: comp_def)
  then have "quiet ?t" using q0 by (auto simp: quiet_def formed_def owned_def held_def allocated_def iface_ok_def comp_def)
  moreover have "steady ?t s" unfolding s by (intro steady_intros steady_refl)
  ultimately show "well_formed s" and "quiet s" using steady_formed ne s by (auto simp: well_formed_def quiet_def)
qed

lemma quiet_lacking: "quiet s \<Longrightarrow> \<not> w_strict w \<Longrightarrow> lacking w s = {}"
  by (auto simp: quiet_def lacking_def)

section \<open>Reachable states\<close>

text \<open>
  A connector from its construction on: the world changes what the sockets hold and what the system calls will
  answer, a signal starts draining, events are handled, lookups are answered for one of the south interfaces, and others who share the interest
  list change the interest in their own descriptors. \<open>run\<close> is
  the connect callback and \<open>handle\<close> the event handler of the connector, which calls the resolver's. The operating system hands out descriptors that are not in use,
  and the allocator addresses that were not used before. The lookup library has descriptors of its own (\<open>v_others\<close>, \<open>foreign\<close>), not the same at all times;
  its resolver may change the interest in them and answer lookups (\<open>drives\<close>).
\<close>

definition another_kernel :: "sockstream \<Rightarrow> sockstream \<Rightarrow> bool" where
  "another_kernel x y \<longleftrightarrow> y = x\<lparr>rdbuf := (rdbuf x)\<lparr>sk_kernel := sk_kernel (rdbuf y)\<rparr>\<rparr>"

inductive reachable ::
  "(connect_cb \<Rightarrow> nat \<Rightarrow> byte list option \<Rightarrow> nat \<Rightarrow> string \<Rightarrow> connect_cb iface \<Rightarrow> ('n, 's) connector \<Rightarrow> connect_cb iface \<times> ('n, 's) connector) \<Rightarrow>
   (('n, 's) event_handler \<Rightarrow> ('n, 's) event_handler) \<Rightarrow> ('n, 's) connector \<Rightarrow> bool"
  for run handle where
  start: "connector_handler_make pton conf e = Inr s \<Longrightarrow> inj (v_alloc e) \<Longrightarrow> fresh e {} \<Longrightarrow> reachable run handle s"
| world: "reachable run handle s \<Longrightarrow> (\<And>p. rel_option another_kernel (c_heap s p) (h p)) \<Longrightarrow>
    v_alloc e = v_alloc (c_env s) \<Longrightarrow> v_nalloc e = v_nalloc (c_env s) \<Longrightarrow> fresh e (c_handles s) \<Longrightarrow>
    reachable run handle (s\<lparr>c_heap := h, c_env := e\<rparr>)"
| drain: "reachable run handle s \<Longrightarrow> reachable run handle (s\<lparr>c_drain := True\<rparr>)"
| events: "reachable run handle s \<Longrightarrow> drives run F resolver \<Longrightarrow> foreign F s \<Longrightarrow> handle resolver events s = (n, events', s') \<Longrightarrow>
    reachable run handle s'"
| others: "reachable run handle s \<Longrightarrow> foreign F s \<Longrightarrow> lib_step run F s s' \<Longrightarrow> reachable run handle s'"

text \<open>A handler that is sound when the resolver's handler is, in the states that the events before it lead to.\<close>

definition keeps :: "watch \<Rightarrow> (('n, 's) event_handler \<Rightarrow> ('n, 's) event_handler) \<Rightarrow> bool" where
  "keeps w handle \<longleftrightarrow> (\<forall>resolver events s. (\<forall>evs s1. evolves s s1 \<longrightarrow> sound w s1 (snd (snd (resolver evs s1))))
     \<longrightarrow> sound w s (snd (snd (handle resolver events s))))"

text \<open>The streams of the clients, and all streams, with pending output.\<close>

definition clients :: watch where
  "clients = \<lparr>w_strict = False, w_south = False, w_but = {}, w_others = {}\<rparr>"

definition everyone :: watch where
  "everyone = \<lparr>w_strict = False, w_south = True, w_but = {}, w_others = {}\<rparr>"

lemma sound_lacking: "sound w s t \<Longrightarrow> well_formed s \<and> lacking w s = {} \<Longrightarrow> well_formed t \<and> lacking w t = {}"
  by (auto simp: sound_def)

lemma another_kernel_kin: "another_kernel x y \<Longrightarrow> kin x y \<and> unsent y = unsent x \<and> native_handle y = native_handle x"
  unfolding another_kernel_def by (erule ssubst) (simp add: kin_bits sk_pending_def)

lemma world_ok:
  assumes h: "\<And>p. rel_option another_kernel (c_heap s p) (h p)"
    and e: "v_alloc e = v_alloc (c_env s)" "v_nalloc e = v_nalloc (c_env s)" "fresh e (c_handles s)"
    and s: "well_formed s \<and> lacking w s = {}"
  shows "well_formed (s\<lparr>c_heap := h, c_env := e\<rparr>) \<and> lacking w (s\<lparr>c_heap := h, c_env := e\<rparr>) = {}"
proof -
  let ?t = "s\<lparr>c_heap := h\<rparr>"
  have k: "rel_option kin (c_heap s p) (h p)" for p using h [of p] another_kernel_kin by (auto elim: option.rel_mono_strong)
  have "lacking w ?t = lacking w s" for w
  proof -
    have "(\<exists>x. c_heap s p = Some x \<and> P (native_handle x) (unsent x)) \<longleftrightarrow> (\<exists>x. h p = Some x \<and> P (native_handle x) (unsent x))" for p P
      using h [of p] another_kernel_kin by (cases rule: option.rel_cases) auto
    note this [where P = "\<lambda>fd b. fd \<noteq> BAD_SOCKET \<and> (w_strict w \<or> b) \<and> \<not> polled (c_triggers s) fd"]
    then show ?thesis by (auto simp: lacking_def)
  qed
  moreover from this have "steady s ?t" using k by (simp add: steady_def tables_ok_def spares_same)
  then have "well_formed ?t" using s steady_sound by (auto simp: sound_def)
  ultimately show ?thesis using e s by (simp add: well_formed_def formed_def fds_ok_def allocated_def lacking_def)
qed

context sound_callbacks
begin

lemma reachable_ok:
  assumes "keeps w handle" and nw: "\<not> w_strict w" "w_others w = {}" and "reachable run handle s"
  shows "well_formed s \<and> lacking w s = {}"
  using assms(4)
proof induction
  case (start pton conf e s)
  then show ?case using connector_made_quiet [OF start] quiet_lacking [OF _ nw(1)] by blast
next
  case (world s h e)
  then show ?case using world_ok [OF world.hyps(2-5)] by blast
next
  case (drain s)
  then show ?case by (simp add: well_formed_def formed_def allocated_def tables_ok_def lacking_cong [of "s\<lparr>c_drain := True\<rparr>" s])
next
  case (events s F resolver evs n evs' s')
  have "sound w s1 (snd (snd (resolver evs s1)))" if "evolves s s1" for evs s1
    using drives_sound [OF events.hyps(2) foreign_evolves [OF events.hyps(3) that], of w] nw(2) by (metis inf_bot_right prod.collapse)
  then have "sound w s (snd (snd (handle resolver evs s)))" using assms(1) unfolding keeps_def by blast
  then show ?case using events sound_lacking by auto
next
  case (others s F s')
  then show ?case using sound_lacking [OF lib_steps_sound [OF r_into_rtranclp, of F s s' w]] nw(2) by blast
qed

end

lemma ctl_keeps:
  assumes nw: "\<not> w_south w" "\<not> w_strict w"
  shows "keeps w ctl_handle_events"
  unfolding keeps_def
proof (intro allI impI)
  fix resolver :: "(stringbuf ios, xmsgbuf ios) event_handler" and events and s :: ctl
  assume r: "\<forall>evs s1. evolves s s1 \<longrightarrow> sound w s1 (snd (snd (resolver evs s1)))"
  obtain n events' s' where e: "ctl_handle_events resolver events s = (n, events', s')" by (cases "ctl_handle_events resolver events s")
  have "sound w s s'" by (rule ctl_events_sound [OF _ _ _ e]) (use r nw in \<open>metis snd_conv\<close>, (simp add: nw)+)
  then show "sound w s (snd (snd (ctl_handle_events resolver events s)))" using e by simp
qed

lemma seg_keeps:
  assumes nw: "\<not> w_strict w"
  shows "keeps w seg_handle_events"
  unfolding keeps_def
proof (intro allI impI)
  fix resolver :: "(xmsgbuf ios, stringbuf ios) event_handler" and events and s :: seg
  assume r: "\<forall>evs s1. evolves s s1 \<longrightarrow> sound w s1 (snd (snd (resolver evs s1)))"
  obtain n events' s' where e: "seg_handle_events resolver events s = (n, events', s')" by (cases "seg_handle_events resolver events s")
  have "sound w s s'" by (rule seg_events_sound [OF _ _ e]) (use r nw in \<open>metis snd_conv\<close>, simp add: nw)
  then show "sound w s (snd (snd (seg_handle_events resolver events s)))" using e by simp
qed

lemma ctl_reachable_ok:
  "reachable ctl_connect_run ctl_handle_events s \<Longrightarrow> well_formed s \<and> lacking clients s = {}"
  by (rule ctl_callbacks.reachable_ok [OF ctl_keeps]) (simp_all add: clients_def)

lemma seg_reachable_ok:
  "reachable seg_connect_run seg_handle_events s \<Longrightarrow> well_formed s \<and> lacking everyone s = {}"
  by (rule seg_callbacks.reachable_ok [OF seg_keeps]) (simp_all add: everyone_def)

section \<open>Properties\<close>

text \<open>C9: every state a controller can reach is well formed: each live stream is in exactly one stream table and
  no table has a dead one, every vector that is searched by bisection is strictly ordered, the poller mirrors the interest list,
  every south interface has selectable addresses, every pending connect names an existing north interface, every stream has one send
  message, and a descriptor in use belongs to one stream, whose object knows no other. What is assumed of the operating system, the
  allocator and the lookup library is in \<open>reachable\<close>.\<close>

theorem controller_states_well_formed:
  assumes "reachable ctl_connect_run ctl_handle_events s"
  shows "well_formed s"
  using ctl_reachable_ok [OF assms] by blast

text \<open>A resolver that reports nothing.\<close>

definition idle :: "('n, 's) event_handler" where
  "idle events s = (0, events, s)"

lemma idle_drives: "drives run F idle"
  by (simp add: drives_def idle_def)

lemma reachable_idle: "reachable run handle s \<Longrightarrow> reachable run handle (snd (snd (handle idle events s)))"
  using reachable.events [OF _ idle_drives [of run "{}"]] by (metis foreign_def empty_subsetI prod.collapse)

text \<open>The connector of \<open>sample_section\<close>: two listeners, one client at the first.\<close>

definition start_env :: env where
  "start_env = sample_env\<lparr>v_alloc := Suc, v_socket := [(Some 5, True), (Some 6, True)], v_accept := [Accepted 7], v_others := [9]\<rparr>"

definition listening_at :: "('n, 's) connector \<Rightarrow> bool" where
  "listening_at s \<longleftrightarrow> (\<exists>f g. c_north s = [f, g] \<and> if_streams f = [(1, 5)] \<and> if_streams g = [(2, 6)]) \<and> c_conns s = [] \<and> c_mar s = \<lparr>mar_north = [], mar_south = []\<rparr>
     \<and> c_timeouts s = [] \<and> \<not> c_drain s \<and> (\<exists>x y. c_heap s 1 = Some x \<and> c_heap s 2 = Some y \<and> sk_closes (rdbuf x) = [5] \<and> sk_closes (rdbuf y) = [6])
     \<and> handles (c_south s) = {} \<and> c_env s = start_env\<lparr>v_nalloc := 2, v_socket := []\<rparr>"

lemma sample_listens:
  "\<exists>s. connector_handler_make (\<lambda>_ _. None) sample_section start_env
     = Inr (s :: ('n, 's) connector) \<and> listening_at s"
  by (simp add: connector_handler_make_def connector_base_make_def sample_section_def setup_pair_def sample_upper sample_addresses make_north_def make_south_def
      iface_of_sockaddr_def make_listener_def take_socket_def iface_insert_first connector_init_def start_env_def sample_env_def iface_make_def Let_def trig_set_def sk_closes_def listening_at_def del: list.map, simp)

lemma sample_reachable:
  fixes handle :: "('n, 's) event_handler \<Rightarrow> ('n, 's) event_handler"
  obtains s where "reachable run handle s" and "listening_at s" and "if_streams (c_north s ! 0) = [(1, 5)]" and "0 < length (c_north s)" and "0 < length (c_south s)"
proof -
  obtain s :: "('n, 's) connector" where s: "connector_handler_make (\<lambda>_ _. None) sample_section start_env = Inr s" "listening_at s"
    using sample_listens by blast
  have e: "inj (v_alloc start_env)" "fresh start_env {}" by (simp_all add: fresh_def offered_def start_env_def sample_env_def)
  have "c_south s \<noteq> []" using connector_made_quiet(1) [OF s(1) e] by (simp add: well_formed_def)
  moreover have "if_streams (c_north s ! 0) = [(1, 5)]" "0 < length (c_north s)" using s(2) by (auto simp: listening_at_def)
  ultimately show thesis using that [OF reachable.start [OF s(1) e] s(2)] by simp
qed

text \<open>A resolver with one socket, 9, whose library has nothing to report.\<close>

definition waiting_pass :: "('n, 's) event_handler" where
  "waiting_pass = resolver_pass (\<lambda>_ _ x. ([], x)) (\<lambda>_. None) \<lparr>rs_handles = [(9, READABLE)], rs_time = 0, rs_interval = 5, rs_chan = ()\<rparr>"

lemma waiting_drives: "drives run {9} waiting_pass"
  unfolding waiting_pass_def by (rule resolver_pass_drives) (simp add: within_def)

lemma listening_foreign: "listening_at s \<Longrightarrow> foreign {9} s"
  by (simp add: listening_at_def foreign_def start_env_def)

theorem controller_states_well_formed_witness:
  "\<exists>s. reachable ctl_connect_run ctl_handle_events s \<and> if_streams (c_north s ! 0) = [(1, 5)]
     \<and> well_formed (snd (snd (ctl_handle_events waiting_pass [\<lparr>pfd_fd = 5, pfd_events = POLLIN, pfd_revents = POLLIN\<rparr>] s)))"
proof -
  obtain s :: ctl where s: "reachable ctl_connect_run ctl_handle_events s" "listening_at s" "if_streams (c_north s ! 0) = [(1, 5)]"
    by (rule sample_reachable)
  let ?ev = "[\<lparr>pfd_fd = 5, pfd_events = POLLIN, pfd_revents = POLLIN\<rparr>]"
  have "reachable ctl_connect_run ctl_handle_events (snd (snd (ctl_handle_events waiting_pass ?ev s)))"
    using reachable.events [OF s(1) waiting_drives listening_foreign [OF s(2)], of ?ev] by (metis prod.collapse)
  with controller_states_well_formed [OF this] s show ?thesis by blast
qed



text \<open>C10: the same for every state a segment can reach.\<close>

theorem segment_states_well_formed:
  assumes "reachable seg_connect_run seg_handle_events s"
  shows "well_formed s"
  using seg_reachable_ok [OF assms] by blast

theorem segment_states_well_formed_witness:
  "\<exists>s. reachable seg_connect_run seg_handle_events s \<and> if_streams (c_north s ! 0) = [(1, 5)] \<and> well_formed s"
proof -
  obtain s :: seg where s: "reachable seg_connect_run seg_handle_events s" "if_streams (c_north s ! 0) = [(1, 5)]"
    by (rule sample_reachable)
  with segment_states_well_formed [OF s(1)] show ?thesis by blast
qed

text \<open>in every state a controller can reach, a stream object exists exactly when one position of the stream tables refers to it:
  no stream leaks, none is freed while a table still has it, and none has two owners.\<close>

theorem streams_owned_once:
  assumes "reachable ctl_connect_run ctl_handle_events s"
  shows "c_live s p \<longleftrightarrow> (\<exists>!k. k < length (c_north s @ c_south s) \<and> owns p ((c_north s @ c_south s) ! k))"
proof -
  have o: "owned (c_heap s) (c_north s @ c_south s)"
    using well_formed_owned ctl_reachable_ok [OF assms] by blast
  have "\<exists>k < length (c_north s @ c_south s). owns p ((c_north s @ c_south s) ! k)" if "c_live s p"
    using owned_found [OF o, of p] that by (metis domIff in_set_conv_nth)
  moreover have "c_live s p" if "k < length (c_north s @ c_south s)" "owns p ((c_north s @ c_south s) ! k)" for k
    using owned_alive [OF o nth_mem [OF that(1)] that(2)] by auto
  ultimately show ?thesis using owned_unique [OF o, of _ _ p] by blast
qed

theorem streams_owned_once_witness:
  "\<exists>s. reachable ctl_connect_run ctl_handle_events s \<and> c_live s 1
     \<and> (\<exists>!k. k < length (c_north s @ c_south s) \<and> owns 1 ((c_north s @ c_south s) ! k))"
proof -
  obtain s :: ctl where s: "reachable ctl_connect_run ctl_handle_events s" "if_streams (c_north s ! 0) = [(1, 5)]"
    "0 < length (c_north s)" by (rule sample_reachable)
  have w: "well_formed s" using ctl_reachable_ok [OF s(1)] by blast
  have "c_live s 1" using alive_once(1) [OF w s(3), of 1] s(2) by (auto simp: has_key_def)
  with streams_owned_once [OF s(1), of 1] s(1) show ?thesis by blast
qed

text \<open>C16: in every state a controller can reach, starting a connect on any of its south interfaces returns, and so does dropping a refused
  address: selecting an address never loops, whatever the lookups have answered before.\<close>

theorem connects_return:
  assumes "reachable ctl_connect_run ctl_handle_events s" and "j < length (c_south s)"
  shows "(\<exists>r. register_connect c_live ctl_connect_run now p cb (c_south s ! j) s = Some r)
    \<and> (\<exists>r. set_addresses c_live ctl_connect_run now (unexpired_of x (c_env s) (if_addresses (c_south s ! j))) (c_south s ! j) s = Some r)"
proof -
  have w: "well_formed s" using ctl_reachable_ok [OF assms(1)] by blast
  have "addrs_ok (unexpired_of x (c_env s) (if_addresses (c_south s ! j)))"
    using well_formed_iface [OF w assms(2)] by (simp add: unexpired_of_def addrs_ok_filter iface_ok_def)
  then show ?thesis using ctl_callbacks.register_returns [OF w assms(2)]
      ctl_cb.resolve_returns [of "reweigh ((c_south s ! j)\<lparr>if_addresses := unexpired_of x (c_env s) (if_addresses (c_south s ! j))\<rparr>)"]
    by (simp add: set_addresses_def reweigh_ok)
qed

theorem connects_return_witness:
  "\<exists>s :: ctl. reachable ctl_connect_run ctl_handle_events s
     \<and> (\<exists>r. register_connect c_live ctl_connect_run 0 9 (ConnectCb 0 1) (c_south s ! 0) s = Some r)"
proof -
  obtain s :: ctl where s: "reachable ctl_connect_run ctl_handle_events s" "0 < length (c_south s)"
    by (rule sample_reachable)
  with connects_return [OF s] show ?thesis by blast
qed

text \<open>C11: no descriptor is closed twice: in every state a controller can reach, the destructors of two different streams close different
  descriptors, so that closing one stream never takes the socket of another.\<close>

theorem descriptors_closed_once:
  assumes "reachable ctl_connect_run ctl_handle_events s"
    and "c_heap s p = Some x" and "c_heap s q = Some y" and "p \<noteq> q"
  shows "set (sk_closes (rdbuf x)) \<inter> set (sk_closes (rdbuf y)) = {}"
proof -
  have w: "well_formed s" using ctl_reachable_ok [OF assms(1)] by blast
  have a: "apart (c_handles s)" using well_formed_fds [OF w] by (simp add: fds_ok_def)
  have "native_handle x \<noteq> native_handle y" if "native_handle x \<noteq> BAD_SOCKET" "native_handle y \<noteq> BAD_SOCKET"
    using apartD [OF a, of p "native_handle x" q] native_in_handle [OF w assms(2) that(1)] native_in_handle [OF w assms(3) that(2)] that assms(4) by auto
  then show ?thesis by (auto simp: sk_closes_def split: if_splits)
qed

theorem descriptors_closed_once_witness:
  "\<exists>s x y. reachable ctl_connect_run ctl_handle_events s \<and> c_heap s 1 = Some x \<and> c_heap s 2 = Some y
     \<and> sk_closes (rdbuf x) = [5] \<and> sk_closes (rdbuf y) = [6] \<and> set (sk_closes (rdbuf x)) \<inter> set (sk_closes (rdbuf y)) = {}"
proof -
  obtain s :: ctl where s: "reachable ctl_connect_run ctl_handle_events s" "listening_at s" by (rule sample_reachable)
  obtain x y where h: "c_heap s 1 = Some x" "c_heap s 2 = Some y" "sk_closes (rdbuf x) = [5]" "sk_closes (rdbuf y) = [6]"
    using s(2) by (auto simp: listening_at_def)
  from descriptors_closed_once [OF s(1) h(1,2)] s(1) h show ?thesis by (metis numeral_One numeral_eq_iff semiring_norm(85))
qed

end
