(* ===== verification/Delivery.thy ===== *)
theory Delivery
  imports Controller Segment
begin

text \<open>
  The controller and the segment together: what is put into a stream on one side comes out on the other. The network
  is the script of answers of the receiving socket; \<open>calm\<close> says what is asked of it: the peer does not
  close and no call fails, but bytes may come in any pieces, calls may be interrupted and have to wait.
  Shown: a sequence of frames is read completely and in order after a bounded number of calls; the bytes of a client reach the backend of its
  session and the bytes of a backend reach the client of its session, through both programs. The reader (\<^verbatim>\<open>xmsg_read\<close>), the
  routing functions and the streams are those of the component theories; \<open>read_message\<close> only repeats calls of the reader.
\<close>

section \<open>Sockets that deliver\<close>

text \<open>
  A socket whose peer neither closes nor breaks the connection: receiving yields bytes, is interrupted or has to wait.
  \<open>waits\<close> counts the answers the kernel has still to give.
\<close>

definition calm_answer :: "recv_result \<Rightarrow> bool" where
  "calm_answer r \<longleftrightarrow> (case r of Got bs \<Rightarrow> bs \<noteq> [] | RecvErr e \<Rightarrow> e = EINTR \<or> e = EAGAIN)"

definition waits :: "sockstream \<Rightarrow> nat" where
  "waits s = length (k_recv (sk_kernel (rdbuf s)))"

definition calm :: "sockstream \<Rightarrow> bool" where
  "calm s \<longleftrightarrow> good s \<and> sk_in_inv (rdbuf s) \<and> sk_socket (rdbuf s) \<noteq> BAD_SOCKET \<and> 0 < sm_iov_len (sk_recv (rdbuf s))
     \<and> list_all calm_answer (k_recv (sk_kernel (rdbuf s)))"

lemma recv_loop_calm:
  assumes "list_all calm_answer rs" and "recv_loop n rs = (bs, len, e, rs')" and "0 < n"
  shows "list_all calm_answer rs' \<and> length rs' \<le> length rs \<and> len \<noteq> 0 \<and> (e = 0 \<or> e = EAGAIN)
    \<and> (bs = [] \<longrightarrow> k_incoming rs = [] \<and> rs' = [] \<or> length rs' < length rs)"
  using assms by (induction n rs rule: recv_loop.induct) (auto simp: calm_answer_def split: if_splits)

lemma readsome_calm:
  assumes "calm s" and "sock_readsome n s = (bs, s')" and "0 < n"
  shows "calm s' \<and> waits s' \<le> waits s \<and> (bs = [] \<longrightarrow> sk_unread (rdbuf s') = [] \<or> waits s' < waits s)"
proof -
  let ?b = "rdbuf s"
  have inv: "sk_in_inv (rdbuf s')" using sk_input.readsome_prefix(2) [OF _ assms(2)] assms(1) by (simp add: calm_def)
  show ?thesis
  proof (cases "sk_gptr ?b < length (sm_data (sk_recv ?b))")
    case True
    then show ?thesis
      using assms inv by (auto simp: readsome_def calm_def waits_def good_def sk_in_avail_def sk_sgetn_def Let_def)
  next
    case False
    then have eq: "sk_gptr ?b = length (sm_data (sk_recv ?b))" using assms(1) by (simp add: calm_def sk_in_inv_def)
    obtain bs0 len e rs where l: "recv_loop (sm_iov_len (sk_recv ?b)) (k_recv (sk_kernel ?b)) = (bs0, len, e, rs)"
      by (cases "recv_loop (sm_iov_len (sk_recv ?b)) (k_recv (sk_kernel ?b))") auto
    have c: "list_all calm_answer rs \<and> length rs \<le> waits s \<and> len \<noteq> 0 \<and> (e = 0 \<or> e = EAGAIN)
        \<and> (bs0 = [] \<longrightarrow> k_incoming (k_recv (sk_kernel ?b)) = [] \<and> rs = [] \<or> length rs < waits s)"
      using assms(1) unfolding waits_def by (intro recv_loop_calm [OF _ l]) (simp_all add: calm_def)
    define b1 where "b1 = (memmoverbuf ?b)\<lparr>sk_recv := (sk_recv (memmoverbuf ?b))\<lparr>sm_data := bs0\<rparr>, sk_errno := e, sk_kernel := (sk_kernel ?b)\<lparr>k_recv := rs\<rparr>\<rparr>"
    have "sk_do_recv ?b = (0, b1)"
      using assms(1) l c eq by (auto simp: sk_do_recv_def b1_def calm_def Let_def)
    then have av: "sk_in_avail ?b = (int (length bs0), b1)"
      using eq by (simp add: sk_in_avail_def sk_showmanyc_def b1_def memmoverbuf_def)
    have g: "good s" using assms(1) by (simp add: calm_def)
    show ?thesis
    proof (cases "bs0 = []")
      case True
      then have "bs = []" "s' = s\<lparr>rdbuf := b1, gcount := 0\<rparr>" using assms(2) av g by (simp_all add: readsome_def)
      then show ?thesis using c True inv assms(1) by (auto simp: calm_def waits_def good_def b1_def memmoverbuf_def sk_unread_def)
    next
      case False
      then have "bs \<noteq> [] \<and> (\<exists>k j. s' = s\<lparr>rdbuf := b1\<lparr>sk_gptr := k\<rparr>, gcount := j\<rparr>)"
        using assms(2,3) av g by (auto simp: readsome_def sk_sgetn_def Let_def b1_def memmoverbuf_def min_def split: if_splits)
      then show ?thesis using c inv assms(1) by (auto simp: calm_def waits_def good_def b1_def memmoverbuf_def)
    qed
  qed
qed

text \<open>What reading from a calm socket leaves: it is calm, and it had nothing more to read or has come closer to its end.\<close>

definition calmer :: "bool \<Rightarrow> sockstream \<Rightarrow> sockstream \<Rightarrow> bool" where
  "calmer stopped s s' \<longleftrightarrow> calm s' \<and> waits s' \<le> waits s \<and> (stopped \<longrightarrow> sk_unread (rdbuf s') = [] \<or> waits s' < waits s)"

lemma calmer_trans: "calmer False a b \<Longrightarrow> calmer st b c \<Longrightarrow> calmer st a c"
  by (auto simp: calmer_def)

lemma xmsg_head_loop_calm:
  assumes "calm is" and "xmsg_head_loop p buf is = (full, p', buf', is')"
  shows "calmer (\<not> full \<and> \<not> badbit buf') is is'"
  using assms
proof (induction p buf "is" arbitrary: full p' buf' is' rule: xmsg_head_loop.induct)
  case (1 p buf "is")
  obtain bs is1 where r: "sock_readsome (nat (24 - p)) is = (bs, is1)" by fastforce
  show ?case
  proof (cases "24 \<le> p")
    case True
    then show ?thesis using "1.prems" by (simp add: xmsg_head_loop.simps [of p] calmer_def)
  next
    case False
    then have c: "calmer (bs = []) is is1" using readsome_calm [OF "1.prems"(1) r] by (simp add: calmer_def)
    let ?b = "xmsg_write bs buf"
    consider (stop) "bs = []" | (bad) "bs \<noteq> []" "badbit ?b" | (more) "bs \<noteq> []" "\<not> badbit ?b" by blast
    then show ?thesis
    proof cases
      case stop
      then show ?thesis using "1.prems"(2) False r c by (auto simp: xmsg_head_loop.simps [of p] calmer_def)
    next
      case bad
      then show ?thesis using "1.prems"(2) False r c by (auto simp: xmsg_head_loop.simps [of p] calmer_def)
    next
      case more
      then have "xmsg_head_loop (p + int (length bs)) ?b is1 = (full, p', buf', is')"
        using "1.prems"(2) False r by (simp add: xmsg_head_loop.simps [of p buf])
      from "1.IH" [OF False r [symmetric] more(1) refl more(2) _ this] c more show ?thesis
        by (auto simp: calmer_def)
    qed
  qed
qed

lemma xmsg_body_loop_calm:
  assumes "calm is" and "xmsg_body_loop remaining buf is = (buf', is')"
  shows "calmer (0 < remaining \<and> gcount is' = 0 \<and> \<not> badbit buf') is is'"
  using assms
proof (induction remaining buf "is" arbitrary: buf' is' rule: xmsg_body_loop.induct)
  case (1 remaining buf "is")
  obtain bs is1 where r: "sock_readsome (nat (min remaining 256)) is = (bs, is1)" by fastforce
  show ?case
  proof (cases "remaining \<le> 0")
    case True
    then show ?thesis using "1.prems" by (simp add: xmsg_body_loop.simps [of remaining] calmer_def)
  next
    case False
    then have c: "calmer (bs = []) is is1" using readsome_calm [OF "1.prems"(1) r] by (simp add: calmer_def)
    let ?b = "xmsg_write bs buf"
    have e: "(buf', is') = (if bs = [] then (buf, is1) else if badbit ?b then (?b, is1) else xmsg_body_loop (remaining - int (length bs)) ?b is1)"
      using "1.prems"(2) False unfolding xmsg_body_loop.simps [of remaining buf "is"] r prod.case Let_def by (simp split: if_splits)
    consider (stop) "bs = [] \<or> badbit ?b" | (more) "bs \<noteq> []" "\<not> badbit ?b" by blast
    then show ?thesis
    proof cases
      case stop
      then show ?thesis using e c by (auto simp: calmer_def split: if_splits)
    next
      case more
      then have l: "xmsg_body_loop (remaining - int (length bs)) ?b is1 = (buf', is')" using e by simp
      have g: "gcount is1 = length bs" using sk_input.readsome_prefix(4) [OF _ r] "1.prems"(1) by (simp add: calm_def)
      have ih: "calmer (0 < remaining - int (length bs) \<and> gcount is' = 0 \<and> \<not> badbit buf') is1 is'"
        using c by (intro "1.IH" [OF False r [symmetric] more(1) refl more(2) _ l]) (simp add: calmer_def)
      show ?thesis
      proof (cases "remaining - int (length bs) \<le> 0")
        case True
        then have "is' = is1" using l by (simp add: xmsg_body_loop.simps [of "remaining - int (length bs)"])
        then show ?thesis using c g more(1) by (auto simp: calmer_def)
      next
        case f: False
        then show ?thesis using ih c more(1) by (auto simp: calmer_def)
      qed
    qed
  qed
qed

lemma xmsg_read_calm:
  assumes "xmsg_ok buf" and "partial (xmsg_cur buf)" and "calm is" and "xmsg_read buf is = (buf', is')"
  shows "calmer (length (xb_bytes (rdbuf buf')) \<noteq> frame_need (xb_bytes (rdbuf buf'))) is is'"
proof -
  note spec = xmsg_read_spec [OF assms(1) _ assms(2,4)]
  have inv: "sk_in_inv (rdbuf is)" using assms(3) by (simp add: calm_def)
  obtain p0 b1 where t: "xmsg_tellp (xmsg_restart buf) = (p0, b1)" by fastforce
  obtain full p b2 is2 where h: "xmsg_head_loop p0 b1 is = (full, p, b2, is2)" by (cases "xmsg_head_loop p0 b1 is") auto
  have c: "calmer (\<not> full \<and> \<not> badbit b2) is is2" by (rule xmsg_head_loop_calm [OF assms(3) h])
  have nb: "\<not> badbit buf'" using spec [OF inv] by (simp add: good_def)
  show ?thesis
  proof (cases full)
    case False
    then have "buf' = b2" "is' = is2" using assms(4) t h by (simp_all add: xmsg_read_def)
    then show ?thesis using c False nb by (auto simp: calmer_def)
  next
    case True
    let ?r = "int (announced (rdbuf b2)) - p"
    have f: "xmsg_body_loop ?r b2 is2 = (buf', is')" using assms(4) t h True by (simp add: xmsg_read_def)
    have b: "calmer (0 < ?r \<and> gcount is' = 0) is2 is'"
      using xmsg_body_loop_calm [OF _ f] c nb by (simp add: calmer_def)
    have "length (xb_bytes (rdbuf buf')) = frame_need (xb_bytes (rdbuf buf'))" if "?r \<le> 0"
    proof -
      have e: "buf' = b2" "is' = is2" using that f by (simp_all add: xmsg_body_loop.simps [of ?r])
      have i: "xb_inv (rdbuf b2)" using spec [OF inv] e by (simp add: xmsg_ok_def)
      have rs: "good (xmsg_restart buf)" "xmsg_ok (xmsg_restart buf)" using xmsg_restart_spec [OF assms(1)] by simp_all
      have t1: "good b1" "xmsg_ok b1" "p0 = int (xb_pptr (rdbuf b1))" using xmsg_tellp_spec [OF rs(2) t] rs by simp_all
      have hs: "24 \<le> xb_pptr (rdbuf b2)" "p = int (xb_pptr (rdbuf b2))"
        using xmsg_head_loop_spec [OF t1(1,2) inv t1(3) h] True by simp_all
      have "length (xb_bytes (rdbuf b2)) \<le> frame_need (xb_bytes (rdbuf b2))" using spec [OF inv] e by (simp add: partial_def)
      then show ?thesis
        using that hs e announced_eq [OF i hs(1)] length_xb_bytes [OF i] by (simp add: frame_need_def max_def split: if_splits)
    qed
    moreover have "length (xb_bytes (rdbuf buf')) = frame_need (xb_bytes (rdbuf buf')) \<or> gcount is' = 0" using spec [OF inv] by (elim conjE)
    ultimately have "length (xb_bytes (rdbuf buf')) \<noteq> frame_need (xb_bytes (rdbuf buf')) \<longrightarrow> 0 < ?r \<and> gcount is' = 0" by linarith
    then show ?thesis using b c by (auto simp: calmer_def)
  qed
qed

section \<open>Every frame is read\<close>

lemma frame_prefix:
  assumes "frame_ok f" and "partial bs" and "bs @ u = f @ r" and "24 \<le> length bs"
  shows "length bs \<le> length f \<and> announced_of bs = length f"
proof -
  have "announced_of bs = announced_of (f @ r)" using assms(3,4) announced_of_append [of bs u] by simp
  also have "\<dots> = length f" using assms(1) by (simp add: frame_ok_def announced_of_append)
  finally have a: "announced_of bs = length f" .
  then show ?thesis using assms(1,2,4) by (simp add: partial_def frame_need_def frame_ok_def)
qed

lemma frames_read:
  assumes "xmsg_ok buf" and "partial (xmsg_cur buf)" and "calm is" and "\<forall>f \<in> set fs. frame_ok f"
    and "xmsg_cur buf @ sk_unread (rdbuf is) = concat fs" and "length fs + waits is \<le> n"
  shows "fst (pump n buf is) = fs"
  using assms
proof (induction n arbitrary: buf "is" fs)
  case 0
  then show ?case by simp
next
  case (Suc n)
  obtain b1 is1 where r: "xmsg_read buf is = (b1, is1)" by fastforce
  have inv: "sk_in_inv (rdbuf is)" using Suc.prems(3) by (simp add: calm_def)
  note spec = xmsg_read_spec [OF Suc.prems(1) inv Suc.prems(2) r]
  note c = xmsg_read_calm [OF Suc.prems(1,2,3) r]
  let ?bs = "xb_bytes (rdbuf b1)"
  have bytes: "?bs @ sk_unread (rdbuf is1) = concat fs" using spec Suc.prems(5) by auto
  have ok: "xmsg_ok b1" "partial ?bs" "good b1" using spec by simp_all
  then have cur: "xmsg_cur b1 = ?bs" by (simp add: xmsg_cur_def good_def)
  have fo: "xmsg_full b1 \<longleftrightarrow> frame_ok ?bs" using ok(1) by (intro xmsg_full_frame) (simp add: xmsg_ok_def)
  show ?case
  proof (cases "xmsg_full b1")
    case True
    then have f: "frame_ok ?bs" using fo by simp
    have "fs \<noteq> []" using bytes f by (auto simp: frame_ok_def)
    then obtain g gs where fs: "fs = g # gs" by (cases fs) auto
    have "?bs = g \<and> sk_unread (rdbuf is1) = concat gs"
      using f Suc.prems(4) bytes fs by (intro frame_ok_append_eq) simp_all
    moreover from this have "fst (pump n (b1\<lparr>eofbit := True\<rparr>) is1) = gs"
      using ok(1) c Suc.prems(4,6) fs by (intro Suc.IH) (simp_all add: xmsg_cur_def calmer_def)
    ultimately show ?thesis using r True fs by (simp add: case_prod_unfold)
  next
    case False
    have step: "fst (pump (Suc n) buf is) = fst (pump n b1 is1)" using r False by simp
    have short: "length ?bs \<noteq> frame_need ?bs" if "fs \<noteq> []"
    proof
      assume e: "length ?bs = frame_need ?bs"
      obtain g gs where fs: "fs = g # gs" using \<open>fs \<noteq> []\<close> by (cases fs) auto
      then have "24 \<le> length ?bs" "frame_ok g" using e Suc.prems(4) by (simp_all add: frame_need_def split: if_splits)
      with frame_prefix [OF this(2) ok(2) _ this(1)] bytes fs e have "announced_of ?bs = length g" by simp
      with e \<open>24 \<le> length ?bs\<close> \<open>frame_ok g\<close> have "frame_ok ?bs" by (simp add: frame_need_def frame_ok_def)
      with fo False show False by simp
    qed
    show ?thesis
    proof (cases "waits is1 < waits is")
      case True
      then have "fst (pump n b1 is1) = fs"
        using ok cur c bytes Suc.prems(4,6) by (intro Suc.IH) (simp_all add: calmer_def)
      then show ?thesis using step by simp
    next
      case w: False
      have "fs = []"
      proof (rule ccontr)
        assume "fs \<noteq> []"
        then have "sk_unread (rdbuf is1) = []" using short c w by (simp add: calmer_def)
        moreover obtain g gs where fs: "fs = g # gs" using \<open>fs \<noteq> []\<close> by (cases fs) auto
        ultimately have b: "?bs = g @ concat gs" "frame_ok g" using bytes Suc.prems(4) by simp_all
        then have "24 \<le> length ?bs" by (simp add: frame_ok_def)
        with frame_prefix [OF b(2) ok(2), of "[]" "concat gs"] b(1) have "length ?bs \<le> length g" by simp
        then have "?bs = g" using b(1) by simp
        with b(2) fo False show False by simp
      qed
      obtain fs' b' is' where p: "pump n b1 is1 = (fs', b', is')" by (cases "pump n b1 is1") auto
      from pump_frames [OF ok(1) _ _ p] c ok cur bytes \<open>fs = []\<close> have "concat fs' = []" "\<forall>f \<in> set fs'. frame_ok f"
        by (simp_all add: calmer_def calm_def)
      then have "fs' = []" by (cases fs') (auto simp: frame_ok_def)
      with step p \<open>fs = []\<close> show ?thesis by simp
    qed
  qed
qed


section \<open>One message\<close>

text \<open>
  Calls of the reader until one completes a message, as the poll events of a socket drive it; \<open>n\<close> bounds the calls. A calm
  socket needs at most one call for every answer of the kernel, and one more.
\<close>

fun read_message :: "nat \<Rightarrow> xmsgstream \<Rightarrow> sockstream \<Rightarrow> (xmsgstream \<times> sockstream) option" where
  "read_message 0 buf is = None"
| "read_message (Suc n) buf is =
     (case xmsg_read buf is of (buf', is') \<Rightarrow> if xmsg_full buf' then Some (buf', is') else read_message n buf' is')"

lemma message_read:
  assumes "xmsg_ok buf" and "partial (xmsg_cur buf)" and "eofbit buf \<or> xb_gptr (rdbuf buf) = 0" and "calm is" and "frame_ok f"
    and "xmsg_cur buf @ sk_unread (rdbuf is) = f @ r" and "waits is < n"
  shows "\<exists>buf' is'. read_message n buf is = Some (buf', is') \<and> xb_bytes (rdbuf buf') = f \<and> sk_unread (rdbuf is') = r
    \<and> good buf' \<and> xb_inv (rdbuf buf') \<and> xb_gptr (rdbuf buf') = 0 \<and> calm is'"
  using assms
proof (induction n arbitrary: buf "is")
  case 0
  then show ?case by simp
next
  case (Suc n)
  obtain b1 is1 where rd: "xmsg_read buf is = (b1, is1)" by fastforce
  have inv: "sk_in_inv (rdbuf is)" using Suc.prems(4) by (simp add: calm_def)
  note spec = xmsg_read_spec [OF Suc.prems(1) inv Suc.prems(2) rd]
  note c = xmsg_read_calm [OF Suc.prems(1,2,4) rd]
  let ?bs = "xb_bytes (rdbuf b1)"
  have bytes: "?bs @ sk_unread (rdbuf is1) = f @ r" using spec Suc.prems(6) by auto
  have ok: "xmsg_ok b1" "partial ?bs" "good b1" "xb_gptr (rdbuf b1) = 0" using spec Suc.prems(3) by auto
  have cur: "xmsg_cur b1 = ?bs" using ok(3) by (simp add: xmsg_cur_def good_def)
  have i: "xb_inv (rdbuf b1)" using ok(1) by (simp add: xmsg_ok_def)
  note fo = xmsg_full_frame [OF i]
  show ?case
  proof (cases "xmsg_full b1")
    case True
    then have "?bs = f \<and> sk_unread (rdbuf is1) = r" using fo bytes Suc.prems(5) by (intro frame_ok_append_eq) simp_all
    with True rd ok i c show ?thesis by (simp add: calmer_def)
  next
    case False
    have len: "24 \<le> length ?bs \<Longrightarrow> length ?bs \<le> length f \<and> announced_of ?bs = length f"
      using frame_prefix [OF Suc.prems(5) ok(2) bytes] by blast
    have nf: "?bs \<noteq> f" using False fo Suc.prems(5) by auto
    have "length ?bs \<noteq> frame_need ?bs"
    proof
      assume e: "length ?bs = frame_need ?bs"
      have "24 \<le> frame_need ?bs" by (simp add: frame_need_def)
      then have l: "24 \<le> length ?bs" by (simp only: e)
      then have "frame_need ?bs = length f" using len [OF l] Suc.prems(5) by (simp add: frame_need_def frame_ok_def)
      then have "length ?bs = length f" by (simp only: e)
      with bytes nf show False by simp
    qed
    moreover have "sk_unread (rdbuf is1) \<noteq> []"
    proof
      assume "sk_unread (rdbuf is1) = []"
      then have b: "?bs = f @ r" using bytes by simp
      then have "length ?bs \<le> length f" using len Suc.prems(5) by (simp add: frame_ok_def)
      with b nf show False by simp
    qed
    ultimately have "waits is1 < waits is" "calm is1" using c by (simp_all add: calmer_def)
    then have "waits is1 < n" using Suc.prems(7) by simp
    note ih = Suc.IH [OF ok(1) ok(2) [folded cur] disjI2 [OF ok(4)] \<open>calm is1\<close> Suc.prems(5) bytes [folded cur] this]
    have "read_message (Suc n) buf is = read_message n b1 is1" using rd False by simp
    then show ?thesis using ih by (simp only:)
  qed
qed

lemma envelope_frame:
  "length payload \<le> 65511 \<Longrightarrow> frame_ok (header_bytes (make_head u (int (length payload) + 24) type) @ payload)"
proof -
  assume l: "length payload \<le> 65511"
  let ?h = "make_head u (int (length payload) + 24) type"
  have "announced_of (header_bytes ?h) = unat (msg_length (msg_len ?h))"
    by (simp add: announced_of_def header_bytes_def)
  then show ?thesis using make_head_length [OF l] by (simp add: frame_ok_def announced_of_append)
qed

lemma envelope_fresh:
  assumes "length payload \<le> 65511" and "xb_bytes (rdbuf buf) = header_bytes (make_head u (int (length payload) + 24) type) @ payload"
    and "good buf" and "xb_inv (rdbuf buf)" and "xb_gptr (rdbuf buf) = 0"
  shows "fresh_message buf u type payload"
proof -
  let ?h = "make_head u (int (length payload) + 24) type" and ?b = "rdbuf buf"
  have h: "header_of_bytes (xb_bytes ?b) = ?h" unfolding assms(2) by (simp add: header_of_bytes_append)
  have l: "24 \<le> length (xb_bytes ?b)" by (simp add: assms(2))
  note f = xb_fields [OF assms(4) l, unfolded h]
  have p: "xb_pptr ?b = length payload + 24" using length_xb_bytes [OF assms(4)] by (simp add: assms(2))
  have "len_is ?b (xb_pptr ?b)" unfolding len_is_def f(2) p using make_head_length [OF assms(1)] by simp
  then show ?thesis
    using assms f p by (simp add: fresh_message_def xb_complete_def make_head_def)
qed

text \<open>An envelope that arrives on a calm socket becomes one fresh message.\<close>

lemma envelope_arrives:
  assumes "length payload \<le> 65511" and "calm is" and "waits is < n"
    and "sk_unread (rdbuf is) = header_bytes (make_head u (int (length payload) + 24) type) @ payload @ r"
  obtains buf is' where "read_message n xmsgstream_init is = Some (buf, is')" and "fresh_message buf u type payload"
    and "xb_pptr (rdbuf buf) = length payload + 24" and "sk_unread (rdbuf is') = r" and "calm is'"
proof -
  have g: "xb_gptr (rdbuf xmsgstream_init) = 0" by (simp add: xmsgstream_init_def xmsgbuf_make_def)
  obtain buf is' where b: "read_message n xmsgstream_init is = Some (buf, is')"
      "xb_bytes (rdbuf buf) = header_bytes (make_head u (int (length payload) + 24) type) @ payload"
      "sk_unread (rdbuf is') = r" "good buf" "xb_inv (rdbuf buf)" "xb_gptr (rdbuf buf) = 0" "calm is'"
    using message_read [of xmsgstream_init "is" _ r n, OF _ _ disjI2 [OF g] assms(2) envelope_frame [OF assms(1), of u type]]
      xmsgstream_init_ok assms(3,4) by auto
  have "xb_pptr (rdbuf buf) = length payload + 24" using length_xb_bytes [OF b(5)] b(2) by simp
  with that b envelope_fresh [OF assms(1) b(2,4-6)] show thesis by blast
qed


section \<open>From end to end\<close>

text \<open>C1: what a client sends comes out at its backend. When the controller routes the client's bytes to a
  connection and the bytes it hands to the segment's socket arrive there, in whatever pieces and with whatever delays,
  the segment assembles one message from them, and routing it appends exactly the client's bytes to
  the output of the session's backend.\<close>

theorem client_to_backend:
  assumes "ss_ok p payload cbuf" and "c_heap s nsp = Some x" and "0 < p" and "p \<le> 65511"
    and "write_prepare (c_conns s) nsp (int p) s = (False, s1)"
    and "route_north cbuf ni (nsp, nfd) revents s = (st, cbuf', revents', s')"
    and "filter (\<lambda>c. cn_north c = nsp \<and> cn_south c = q \<and> cn_state c \<noteq> CLOSED) (c_conns s) = [c]"
    and "c_heap s q = Some y" and "good y" and "sk_single (rdbuf y)" and "c_heap s' q = Some y'" and "\<not> badbit y'"
    and "calm is" and "waits is < n" and "sk_stream (rdbuf y') = sk_stream (rdbuf y) @ sk_unread (rdbuf is)"
    and "k = seg_session_index (cn_uuid c) np (c_conns g)" and "k < length (c_conns g)" and "cn_state (c_conns g ! k) \<noteq> CLOSED"
    and "c_heap g (cn_south (c_conns g ! k)) = Some z" and "good z" and "sk_single (rdbuf z)"
    and "int (length (sk_pending (rdbuf z))) + int p < MAX_BUFSIZE"
  shows "\<exists>buf is'. read_message n xmsgstream_init is = Some (buf, is') \<and> sk_unread (rdbuf is') = []
    \<and> (\<exists>st' buf' r' g' z'. seg_route_north buf ni' (np, nfd') rv g = (st', buf', r', g')
        \<and> c_heap g' = (c_heap g)(cn_south (c_conns g ! k) \<mapsto> z')
        \<and> (\<not> badbit z' \<longrightarrow> sk_stream (rdbuf z') = sk_stream (rdbuf z) @ payload))"
proof -
  define type where "type = \<lparr>msg_op = (if eofbit x then STOP else DATA), msg_flags = 0\<rparr>"
  have c: "c \<in> set (c_conns s)" "cn_north c = nsp" "cn_south c = q"
    using arg_cong [OF assms(7), of set] by auto
  have pl: "length payload = p" using assms(1) by (auto simp: ss_ok_def sb_inv_def)
  have "\<exists>c \<in> set (c_conns s). served s nsp c" using c assms(8) by (auto simp: served_def)
  from route_north_sends [OF assms(1,2) disjI2 [OF assms(3)] disjI2 [OF this] assms(5,6)]
  have "carried (\<lambda>q. if c_live s q then envelopes nsp type payload (c_conns s) q else []) (c_heap s) (c_heap s')"
    unfolding type_def by simp
  from carried_at [OF this assms(8)] assms(8,11) have "sends (envelopes nsp type payload (c_conns s) q) y y'" by auto
  with assms(9,10,12,15) have u: "sk_unread (rdbuf is) = header_bytes (make_head (cn_uuid c) (int (length payload) + 24) type) @ payload @ []"
    by (simp add: sends_def envelopes_def assms(7))
  obtain buf is' where m: "read_message n xmsgstream_init is = Some (buf, is')" "fresh_message buf (cn_uuid c) type payload"
      "xb_pptr (rdbuf buf) = length payload + 24" "sk_unread (rdbuf is') = []"
    using envelope_arrives [OF _ assms(13,14) u] assms(4) pl by metis
  obtain st' buf' r' g' where r: "seg_route_north buf ni' (np, nfd') rv g = (st', buf', r', g')"
    by (cases "seg_route_north buf ni' (np, nfd') rv g") auto
  have d: "seg_deliver_north (buf\<lparr>rdbuf := (rdbuf buf)\<lparr>xb_egptr := xb_pptr (rdbuf buf)\<rparr>\<rparr>) (np, nfd') rv k type
      (24 + int (length payload)) 24 (if eof_at g np then - 1 else 0) g = (st', buf', r', g')"
    using r seg_route_north_fresh [OF m(2) refl, where s = g and nsp = np and ni = ni' and nfd = nfd' and revents = rv] assms(16-18)
    by (simp add: Let_def)
  have ap: "xb_inv (rdbuf (at_payload buf))" "good (at_payload buf)"
    using at_payload_complete [OF m(2)] by (auto simp: xb_complete_def)
  have "fst (guarded_write False (at_payload buf) z) \<noteq> 0"
    using m(3) pl assms(3,22) by (intro guarded_write_room [OF ap _ assms(20,21)]) simp_all
  then have "\<exists>z'. c_heap g' = (c_heap g)(cn_south (c_conns g ! k) \<mapsto> z') \<and> sends payload z z'"
    using seg_deliver_fresh [OF m(2) refl assms(19-21) d refl] by auto
  with m(1,4) r assms(20,21) show ?thesis by (auto simp: sends_def)
qed

text \<open>C2: what a backend sends comes out at the client of its session: the segment's envelope, carried to the controller in
  whatever pieces, becomes one message there, and routing it appends exactly the backend's bytes to the
  output of the client.\<close>

theorem backend_to_client:
  assumes "ss_ok p payload sbuf" and "c_heap g ssp = Some x" and "0 < p" and "p \<le> 65511"
    and "k < length (c_conns g)" and "c = c_conns g ! k" and "cn_south c = ssp" and "c_heap g (cn_north c) = Some y"
    and "\<forall>i < k. \<not> (cn_south (c_conns g ! i) = ssp \<and> c_live g (cn_north (c_conns g ! i)))"
    and "good y" and "sk_single (rdbuf y)"
    and "fst (seg_south_write c (eofbit x) (sstream_seekg 0 sbuf) y) \<noteq> 0"
    and "seg_route_south sbuf (ssp, sfd) revents g = (st, sbuf', revents', g')"
    and "c_heap g' (cn_north c) = Some y'" and "\<not> badbit y'"
    and "calm is" and "waits is < n" and "sk_stream (rdbuf y') = sk_stream (rdbuf y) @ sk_unread (rdbuf is)"
    and "j = session_index (cn_uuid c) cs (c_conns s)" and "j < length (c_conns s)" and "cn_north (c_conns s ! j) = np"
    and "\<not> refuses \<lparr>msg_op = (if eofbit x then STOP else DATA), msg_flags = 0\<rparr> (c_conns s ! j) s"
    and "\<forall>c \<in> set (c_conns s). cn_south c \<noteq> np"
    and "c_heap s np = Some z" and "good z" and "sk_single (rdbuf z)" and "int (length (sk_pending (rdbuf z))) + int p < MAX_BUFSIZE"
  shows "\<exists>buf is'. read_message n xmsgstream_init is = Some (buf, is') \<and> sk_unread (rdbuf is') = []
    \<and> (\<exists>st' buf' r' s' z'. route_south buf (cs, cfd) rv s = (st', buf', r', s')
        \<and> c_heap s' np = Some z' \<and> (\<not> badbit z' \<longrightarrow> sk_stream (rdbuf z') = sk_stream (rdbuf z) @ payload))"
proof -
  define type where "type = \<lparr>msg_op = (if eofbit x then STOP else DATA), msg_flags = 0\<rparr>"
  have pl: "length payload = p" using assms(1) by (auto simp: ss_ok_def sb_inv_def)
  have full: "False \<longleftrightarrow> fst (seg_south_write c (eofbit x) (sstream_seekg 0 sbuf) y) = 0" using assms(12) by simp
  from seg_route_south_sends [OF assms(1,2) disjI2 [OF assms(3)] assms(5-9,13) type_def full]
  have "sends (header_bytes (make_head (cn_uuid c) (24 + int p) type) @ payload) y y'" using assms(14) by auto
  with assms(10,11,15,18) have u: "sk_unread (rdbuf is) = header_bytes (make_head (cn_uuid c) (int (length payload) + 24) type) @ payload @ []"
    by (simp add: sends_def pl add.commute)
  obtain buf is' where m: "read_message n xmsgstream_init is = Some (buf, is')" "fresh_message buf (cn_uuid c) type payload"
      "xb_pptr (rdbuf buf) = length payload + 24" "sk_unread (rdbuf is') = []"
    using envelope_arrives [OF _ assms(16,17) u] assms(4) pl by metis
  obtain st' buf' r' s' where r: "route_south buf (cs, cfd) rv s = (st', buf', r', s')"
    by (cases "route_south buf (cs, cfd) rv s") auto
  have d: "deliver_south (buf\<lparr>rdbuf := (rdbuf buf)\<lparr>xb_egptr := xb_pptr (rdbuf buf)\<rparr>\<rparr>) (cs, cfd) rv j z (cn_uuid c) type
        (24 + int (length payload)) 24 (if eof_at s cs then - 1 else 0) s = (st', buf', r', s')"
    using r route_south_fresh [OF m(2) refl, where s = s and ssp = cs and sfd = cfd and revents = rv] assms(19-22,24)
    by (simp add: Let_def type_def)
  have south: "cn_south (c_conns s ! j) = cs" using session_index_match(2) assms(19,20) by simp
  have ap: "xb_inv (rdbuf (at_payload buf))" "good (at_payload buf)"
    using at_payload_complete [OF m(2)] by (auto simp: xb_complete_def)
  have "fst (guarded_write True (at_payload buf) z) \<noteq> 0"
    using m(3) pl assms(3,27) by (intro guarded_write_room [OF ap _ assms(25,26)]) simp_all
  then have "\<exists>z'. c_heap s' np = Some z' \<and> sends payload z z'"
    using deliver_fresh [OF m(2) assms(20) refl _ assms(25,26) south _ d refl] assms(21,23,24) by auto
  with m(1,4) r assms(25,26) show ?thesis by (auto simp: sends_def)
qed


section \<open>Examples\<close>

lemma sputn_room:
  "sk_out b \<Longrightarrow> sk_send b = [m] \<Longrightarrow> length (sm_data m) + length bs \<le> sm_iov_len m \<Longrightarrow>
     sk_sputn bs b = (length bs, b\<lparr>sk_send := [m\<lparr>sm_data := sm_data m @ bs\<rparr>]\<rparr>)"
  by (induction bs arbitrary: b m) (simp_all add: sk_sputc.simps put_room_def put_store_def on_last_def)

lemma write_room:
  "good x \<Longrightarrow> sk_out (rdbuf x) \<Longrightarrow> sk_send (rdbuf x) = [m] \<Longrightarrow> length (sm_data m) + length bs \<le> sm_iov_len m \<Longrightarrow>
     sock_write bs x = x\<lparr>rdbuf := (rdbuf x)\<lparr>sk_send := [m\<lparr>sm_data := sm_data m @ bs\<rparr>]\<rparr>\<rparr>"
  using sputn_room [of "rdbuf x" m bs] by (simp add: ostream_write_def good_def)

text \<open>A fresh stream with \<open>bs\<close> in its put area.\<close>

definition holding :: "fd \<Rightarrow> byte list \<Rightarrow> sockstream" where
  "holding fd bs = ios_init ((sockbuf_make fd True True True sample_kernel)\<lparr>sk_send := [empty_message\<lparr>sm_iov_len := MIN_BUFSIZE, sm_data := bs\<rparr>]\<rparr>)"

lemma holding_simps:
  "good (holding fd bs)" "\<not> badbit (holding fd bs)" "sk_stream (rdbuf (holding fd bs)) = bs" "holding fd [] = sample_stream fd"
  "native_handle (holding fd bs) = fd"
  by (simp_all add: holding_def sk_stream_def sk_pending_def sockbuf_make_def init_buf_ptrs_def sample_kernel_def sample_stream_def
      empty_message_def)

lemma holding_write: "length bs + length cs \<le> 32768 \<Longrightarrow> sock_write cs (holding fd bs) = holding fd (bs @ cs)"
  using write_room [of "holding fd bs" "empty_message\<lparr>sm_iov_len := MIN_BUFSIZE, sm_data := bs\<rparr>" cs]
  by (simp add: holding_simps(1)) (simp add: holding_def ios_init_def sockbuf_make_def init_buf_ptrs_def MIN_BUFSIZE_def)

lemma sample_envelope:
  assumes "0 < length bs" and "length bs \<le> 256"
  shows "\<exists>buf'. send_envelope h (int (length bs)) (sample_text bs) (sample_stream fd) = (holding fd (header_bytes h @ bs), buf')"
proof -
  have w: "write_header h (sample_stream fd) = holding fd (header_bytes h)"
    using holding_write [of "[]" "header_bytes h" fd] by (simp add: write_header_def holding_simps(4))
  have "sock_write bs (holding fd (header_bytes h)) = holding fd (header_bytes h @ bs)" using assms by (simp add: holding_write)
  with assms w show ?thesis
    by (simp add: send_envelope_def stream_write_n_def copy_upto.simps sample_text_def seekg_def good_def sb_seekpos_in_def readsome_def
        sb_in_avail_def sb_sgetn_def Let_def holding_simps)
qed


lemma sample_input_calm: "list_all calm_answer rs \<Longrightarrow> calm (sample_input rs)"
  using sample_input_inv [of rs]
  by (simp add: calm_def) (simp add: sample_input_def sockbuf_make_def init_buf_ptrs_def MIN_BUFSIZE_def)

lemma sample_input_waits: "waits (sample_input rs) = length rs"
  by (simp add: waits_def sample_input_def sockbuf_make_def init_buf_ptrs_def)

lemma sample_route:
  "\<exists>buf' s'. route_north (sample_text [65, 66]) 0 (1, 10) POLLIN sample_ctl = (0, buf', POLLIN, s')
     \<and> c_heap s' 2 = Some (holding 11 (header_bytes (make_head zero_uuid 26 \<lparr>msg_op = DATA, msg_flags = 0\<rparr>) @ [65, 66]))"
proof -
  let ?h = "make_head zero_uuid 26 \<lparr>msg_op = DATA, msg_flags = 0\<rparr>"
  obtain b where e: "send_envelope ?h 2 (sample_text [65, 66]) (sample_stream 11) = (holding 11 (header_bytes ?h @ [65, 66]), b)"
    using sample_envelope [of "[65, 66]" ?h 11] by auto
  have f: "c_heap sample_ctl 2 = Some (sample_stream 11)" "c_heap sample_ctl 1 = Some (sample_stream 10)" "c_conns sample_ctl = [sample_conn]"
    "cn_north sample_conn = 1" "cn_south sample_conn = 2" "cn_uuid sample_conn = zero_uuid" "cn_state sample_conn = HALF_OPEN"
    by (simp_all add: sample_ctl_def sample_conn_def connection_make_def)
  have tp: "sstream_tellp (sample_text [65, 66]) = (2, sample_text [65, 66])"
    using ss_ok_tellp [OF sample_text_ok [of "[65, 66]"]] by simp
  let ?t = "\<lparr>msg_op = DATA, msg_flags = 0\<rparr> :: msgtype" and ?y = "holding 11 (header_bytes ?h @ [65, 66])"
  let ?s = "trig_set 11 POLLOUT (sample_ctl\<lparr>c_heap := (c_heap sample_ctl)(2 \<mapsto> ?y)\<rparr>)"
  obtain c1 s3 where u: "ctl_state_update ?t (v_now (c_env sample_ctl)) sample_conn ?s = (c1, s3)" by fastforce
  have heap: "c_heap s3 2 = Some ?y" using ctl_state_update_simps(2) [OF u] by simp
  have "route_step 1 ?t 2 (v_now (c_env sample_ctl)) sample_conn (0, sample_text [65, 66], sample_ctl) = (c1, Suc 0, b, s3)"
    unfolding route_step_def prod.case f(1,4-7) option.case using u by (simp add: e holding_simps)
  then have l: "conn_loop (route_step 1 ?t 2 (v_now (c_env sample_ctl))) [sample_conn] (0, sample_text [65, 66], sample_ctl) = ([c1], Suc 0, b, s3)"
    by simp
  have ef: "eof_at sample_ctl 1 = False" by (simp only: eof_at_def f(2) option.case sample_stream_ok(3))
  have "route_north_send (sample_text [65, 66]) 0 (1, 10) False POLLIN sample_ctl = (None, b, POLLIN, s3\<lparr>c_conns := [c1]\<rparr>)"
    unfolding route_north_send_def prod.case tp f(3) sample_prepare if_False l
    by (simp add: Let_def del: One_nat_def)
  then have "route_north (sample_text [65, 66]) 0 (1, 10) POLLIN sample_ctl = (0, b, POLLIN, s3\<lparr>c_conns := [c1]\<rparr>)"
    unfolding route_north_def Let_def fst_conv ef by (simp del: One_nat_def)
  then show ?thesis using heap by simp
qed

theorem client_to_backend_witness:
  "\<exists>buf is' st' buf' r' g' z'. read_message 4 xmsgstream_init
       (sample_input [Got (take 5 (header_bytes (make_head zero_uuid 26 \<lparr>msg_op = DATA, msg_flags = 0\<rparr>))), RecvErr EAGAIN,
         Got (drop 5 (header_bytes (make_head zero_uuid 26 \<lparr>msg_op = DATA, msg_flags = 0\<rparr>)) @ [65, 66])]) = Some (buf, is')
     \<and> seg_route_north buf 0 (1, 10) POLLIN sample_seg = (st', buf', r', g')
     \<and> c_heap g' 2 = Some z' \<and> (badbit z' \<or> sk_stream (rdbuf z') = [65, 66])"
proof -
  let ?h = "header_bytes (make_head zero_uuid 26 \<lparr>msg_op = DATA, msg_flags = 0\<rparr>)"
  let ?i = "sample_input [Got (take 5 ?h), RecvErr EAGAIN, Got (drop 5 ?h @ [65, 66])]"
  obtain cb s' where r: "route_north (sample_text [65, 66]) 0 (1, 10) POLLIN sample_ctl = (0, cb, POLLIN, s')"
    "c_heap s' 2 = Some (holding 11 (?h @ [65, 66]))" using sample_route by blast
  have f: "c_heap sample_ctl 2 = Some (sample_stream 11)" "c_heap sample_ctl 1 = Some (sample_stream 10)" "c_conns sample_ctl = [sample_conn]"
    by (simp_all add: sample_ctl_def)
  have ok: "ss_ok 2 [65, 66] (sample_text [65, 66])" using sample_text_ok [of "[65, 66]"] by (simp add: numeral_2_eq_2)
  have wp: "write_prepare (c_conns sample_ctl) 1 (int 2) sample_ctl = (False, sample_ctl)" using sample_prepare f by simp
  have one: "filter (\<lambda>c. cn_north c = 1 \<and> cn_south c = 2 \<and> cn_state c \<noteq> CLOSED) (c_conns sample_ctl) = [sample_conn]"
    by (simp add: f sample_seg_facts)
  have c: "calm ?i" by (rule sample_input_calm) (simp add: calm_answer_def flip: length_0_conv)
  have w: "waits ?i < 4" by (simp add: sample_input_waits)
  have u: "sk_stream (rdbuf (holding 11 (?h @ [65, 66]))) = sk_stream (rdbuf (sample_stream 11)) @ sk_unread (rdbuf ?i)"
    by (simp add: holding_simps sample_stream_ok sample_input_unread flip: length_0_conv append_assoc)
  have k: "0 = seg_session_index (cn_uuid sample_conn) 1 (c_conns sample_seg)"
    by (simp add: sample_seg_facts seg_session_index_def uuid_eq_def)
  have p: "int (length (sk_pending (rdbuf (sample_stream 11)))) + int 2 < MAX_BUFSIZE" using sample_stream_ok [of 11] by (simp add: MAX_BUFSIZE_def)
  from client_to_backend [OF ok f(2) _ _ wp r(1) one f(1) sample_stream_ok(1,2) r(2) holding_simps(2) c w u k _ _ _ sample_stream_ok(1,2) p,
      of 0 10 POLLIN]
  show ?thesis by (auto simp: sample_seg_facts sample_stream_ok simp del: One_nat_def)
qed


lemma sample_south_write:
  "\<exists>b. seg_south_write sample_conn False (sstream_seekg 0 (sample_text [65, 66])) (sample_stream 10)
     = (26, b, holding 10 (header_bytes (make_head zero_uuid 26 \<lparr>msg_op = DATA, msg_flags = 0\<rparr>) @ [65, 66]))"
proof -
  let ?h = "make_head zero_uuid 26 \<lparr>msg_op = DATA, msg_flags = 0\<rparr>"
  obtain b where e: "send_envelope ?h 2 (sample_text [65, 66]) (sample_stream 10) = (holding 10 (header_bytes ?h @ [65, 66]), b)"
    using sample_envelope [of "[65, 66]" ?h 10] by auto
  have w: "write_header ?h (sample_stream 10) = holding 10 (header_bytes ?h)"
    using holding_write [of "[]" "header_bytes ?h" 10] by (simp add: write_header_def holding_simps(4))
  have tp: "sstream_tellp (sstream_seekg 0 (sample_text [65, 66])) = (2, sstream_seekg 0 (sample_text [65, 66]))"
    by (simp add: sample_text_def seekg_def good_def sb_seekpos_in_def tellp_def fail_of_def)
  have l: "\<not> MAX_BUFSIZE - (24 + 2) \<le> 0" "\<not> MAX_BUFSIZE - (24 + 2) < 0" "24 + 2 = (26 :: int)" by (simp_all add: MAX_BUFSIZE_def)
  show ?thesis
    unfolding seg_south_write_def tp prod.case Let_def sample_tellp using l e [unfolded send_envelope_def w]
    by (simp add: sample_tellp w holding_simps sample_seg_facts)
qed

theorem backend_to_client_witness:
  "\<exists>buf is' st' buf' r' s' z'. read_message 3 xmsgstream_init
       (sample_input [RecvErr EINTR, Got (header_bytes (make_head zero_uuid 26 \<lparr>msg_op = DATA, msg_flags = 0\<rparr>) @ [65, 66])]) = Some (buf, is')
     \<and> route_south buf (2, 11) POLLIN sample_ctl = (st', buf', r', s')
     \<and> c_heap s' 1 = Some z' \<and> (badbit z' \<or> sk_stream (rdbuf z') = [65, 66])"
proof -
  let ?h = "header_bytes (make_head zero_uuid 26 \<lparr>msg_op = DATA, msg_flags = 0\<rparr>)"
  let ?i = "sample_input [RecvErr EINTR, Got (?h @ [65, 66])]"
  obtain b where w: "seg_south_write sample_conn False (sstream_seekg 0 (sample_text [65, 66])) (sample_stream 10) = (26, b, holding 10 (?h @ [65, 66]))"
    using sample_south_write by blast
  obtain st sb rv g' where r: "seg_route_south (sample_text [65, 66]) (2, 11) POLLIN sample_seg = (st, sb, rv, g')"
    by (cases "seg_route_south (sample_text [65, 66]) (2, 11) POLLIN sample_seg") auto
  have ok: "ss_ok 2 [65, 66] (sample_text [65, 66])" using sample_text_ok [of "[65, 66]"] by (simp add: numeral_2_eq_2)
  have y: "c_heap g' (cn_north sample_conn) = Some (holding 10 (?h @ [65, 66]))"
    using r ss_ok_tellp [OF ok] w
    by (auto simp: seg_route_south_def sample_seg_facts eof_at_def sample_stream_ok Let_def simp del: One_nat_def)
  have wr: "fst (seg_south_write sample_conn (eofbit (sample_stream 11)) (sstream_seekg 0 (sample_text [65, 66])) (sample_stream 10)) \<noteq> 0"
    using w by (simp add: sample_stream_ok)
  have c: "calm ?i" by (rule sample_input_calm) (simp add: calm_answer_def)
  have n: "waits ?i < 3" by (simp add: sample_input_waits)
  have u: "sk_stream (rdbuf (holding 10 (?h @ [65, 66]))) = sk_stream (rdbuf (sample_stream 10)) @ sk_unread (rdbuf ?i)"
    by (simp add: holding_simps sample_stream_ok sample_input_unread)
  have j: "0 = session_index (cn_uuid sample_conn) 2 (c_conns sample_ctl)" "cn_north (c_conns sample_ctl ! 0) = 1"
    "\<not> refuses \<lparr>msg_op = (if eofbit (sample_stream 11) then STOP else DATA), msg_flags = 0\<rparr> (c_conns sample_ctl ! 0) sample_ctl"
    "\<forall>c \<in> set (c_conns sample_ctl). cn_south c \<noteq> 1"
    by (simp_all add: sample_ctl_facts sample_session refuses_def)
  have p: "int (length (sk_pending (rdbuf (sample_stream 10)))) + int 2 < MAX_BUFSIZE" using sample_stream_ok [of 10] by (simp add: MAX_BUFSIZE_def)
  from backend_to_client [OF ok sample_seg_facts(2) _ _ _ _ _ _ _ sample_stream_ok(1,2) wr r y holding_simps(2) c n u j(1) _ j(2-4) _ sample_stream_ok(1,2) p,
      of 0 11 POLLIN]
  show ?thesis by (auto simp: sample_seg_facts sample_ctl_facts sample_stream_ok simp del: One_nat_def)
qed

text \<open>C8: no frame is lost or delayed for good: a socket that delivers a sequence of frames, in whatever pieces and however
  often it is interrupted or has to wait, has all of them read, in order, after as many calls as there are
  frames and answers of the kernel.\<close>

theorem all_frames_read:
  assumes "calm is" and "sk_unread (rdbuf is) = concat fs" and "\<forall>f \<in> set fs. frame_ok f" and "length fs + waits is \<le> n"
  shows "fst (pump n xmsgstream_init is) = fs"
  using frames_read [of xmsgstream_init "is" fs n] assms xmsgstream_init_ok by simp

theorem all_frames_read_witness:
  "fst (pump 5 xmsgstream_init (sample_input [Got (take 30 (header_bytes (make_head zero_uuid 26 abort_type) @ [1, 2] @ header_bytes (make_head zero_uuid 24 abort_type))),
      RecvErr EAGAIN, Got (drop 30 (header_bytes (make_head zero_uuid 26 abort_type) @ [1, 2] @ header_bytes (make_head zero_uuid 24 abort_type)))]))
   = [header_bytes (make_head zero_uuid 26 abort_type) @ [1, 2], header_bytes (make_head zero_uuid 24 abort_type)]"
proof -
  let ?f = "header_bytes (make_head zero_uuid 26 abort_type) @ [1, 2]" and ?g = "header_bytes (make_head zero_uuid 24 abort_type)"
  let ?bs = "?f @ ?g"
  have fr: "\<forall>f \<in> set [?f, ?g]. frame_ok f"
    using envelope_frame [of "[1, 2]" zero_uuid abort_type] envelope_frame [of "[]" zero_uuid abort_type] by simp
  have ne: "take 30 ?bs \<noteq> []" "drop 30 ?bs \<noteq> []" by (simp_all flip: length_0_conv)
  have c: "calm (sample_input [Got (take 30 ?bs), RecvErr EAGAIN, Got (drop 30 ?bs)])"
    using ne by (intro sample_input_calm) (simp add: calm_answer_def)
  have u: "sk_unread (rdbuf (sample_input [Got (take 30 ?bs), RecvErr EAGAIN, Got (drop 30 ?bs)])) = concat [?f, ?g]"
    unfolding sample_input_unread k_incoming.simps if_not_P [OF ne(1)] if_not_P [OF ne(2)] by simp
  from all_frames_read [OF c u fr, of 5] show ?thesis by (simp add: sample_input_waits)
qed

end
