(* ===== verification/Lookup.thy ===== *)
theory Lookup
  imports Resolver Controller Segment
begin

text \<open>
  The resolver, the interfaces and the connectors together. A lookup ends in the interface that asked for it, which runs the callbacks of
  the connects that wait; the callbacks are those of the controller and of the segment.
  Shown: a failed lookup gives up every waiting connect and tells the other side, in the way of each connector, and leaves the
  interface ready for the next attempt; the answers of several lookups for one interface replace one another.
\<close>

section \<open>A failed lookup\<close>

lemma failed_len:
  assumes "map addr_key xs = map addr_key ys" and "\<forall>a \<in> set ys. ad_len a = 4294967295"
  shows "\<forall>a \<in> set xs. ad_len a = 4294967295"
proof -
  have "addr_key ` set xs = addr_key ` set ys" using assms(1) by (metis list.set_map)
  then show ?thesis using assms(2) by (force simp: addr_key_def image_def set_eq_iff)
qed

context connect_callbacks
begin

text \<open>A failed lookup runs every waiting callback, on an interface whose only address is the null address.\<close>

lemma handle_error_runs:
  assumes "now - HYST_WND \<le> t"
  obtains e h s' where "sel_inv e" and "\<forall>a \<in> set (if_addresses e). ad_len a = 4294967295" and "if_streams e = if_streams f"
    and "if_pending e = []" and "run_pending live run (if_pending f) e s = Some (h, s')"
    and "ares_handle_error live run t now f s = Inr ([], snd (expire_addresses now h), s')"
    and "t < now \<Longrightarrow> if_addresses (snd (expire_addresses now h)) = []"
proof -
  let ?f = "reweigh (f\<lparr>if_addresses := [error_address t]\<rparr>)"
  have fw: "if_addresses ?f = [error_address t]" "if_streams ?f = if_streams f" "if_pending ?f = if_pending f"
    by (simp_all add: reweigh_def find_weights_def error_address_def split: prod.split)
  obtain n e where e: "expire_addresses (now - HYST_WND) ?f = (n, e)" by fastforce
  have ne: "\<not> expired (now - HYST_WND) (error_address t)" using assms by (simp add: expired_def error_address_def)
  then have k: "map addr_key (if_addresses e) = [addr_key (error_address t)]" using expire_keeps [OF e] fw by simp
  have "n = length (if_addresses e)" using e by (auto simp: expire_addresses_def Let_def)
  then have n: "n \<noteq> 0" using k by auto
  have "addrs_ok (if_addresses ?f)"
    unfolding fw by (rule addrs_ok_unused [of "[error_address t]"]) (simp_all add: error_address_def)
  then have inv: "sel_inv (e\<lparr>if_pending := []\<rparr>)"
    using n expire_sel_inv [OF _ e] sel_inv_cong [of "e\<lparr>if_pending := []\<rparr>" e] by simp
  have fr: "if_streams e = if_streams f" "if_pending e = if_pending f"
    using expire_frame [of "now - HYST_WND" ?f] e fw by simp_all
  obtain h s' where h: "run_pending live run (if_pending f) (e\<lparr>if_pending := []\<rparr>) s = Some (h, s')"
    using run_pending_returns [OF inv] by fastforce
  have r: "ares_handle_error live run t now f s = Inr ([], snd (expire_addresses now h), s')"
    using e n h fr by (simp add: ares_handle_error_def settle_def set_addresses_def resolve_callbacks_def)
  have "t < now \<Longrightarrow> if_addresses (snd (expire_addresses now h)) = []"
    using handle_error_forgets [OF _ assms, of f s] r by auto
  moreover note r
  moreover have "\<forall>a \<in> set (if_addresses e). ad_len a = 4294967295"
    using failed_len [of "if_addresses e" "[error_address t]"] k by (simp add: error_address_def)
  ultimately show thesis using that [of "e\<lparr>if_pending := []\<rparr>" h s'] inv fr h by simp
qed

end

lemma ctl_erase_frame:
  "c_conns (ctl_erase_connect ni nsp (p, fd) s) = filter (\<lambda>c. cn_south c \<noteq> p) (c_conns s)"
  "q \<noteq> nsp \<Longrightarrow> c_heap (ctl_erase_connect ni nsp (p, fd) s) q = c_heap s q"
  by (simp_all add: ctl_erase_connect_def Let_def)

lemma ctl_failures:
  assumes "sel_inv f" and "\<forall>a \<in> set (if_addresses f). ad_len a = 4294967295"
    and "fst ` set ps \<subseteq> W" and "\<forall>(wp, cb) \<in> set ps. \<forall>ni nsp. cb = ConnectCb ni nsp \<longrightarrow> nsp \<notin> W"
    and "run_pending c_live ctl_connect_run ps f s = Some (g, s')"
  shows "if_pending g = if_pending f
    \<and> c_conns s' = filter (\<lambda>c. \<not> (cn_south c \<in> fst ` set ps \<and> cn_south c \<in> fst ` set (if_streams f) \<and> c_live s (cn_south c))) (c_conns s)
    \<and> (\<forall>q \<in> W. c_heap s' q = c_heap s q)"
  using assms
proof (induction ps arbitrary: f s)
  case Nil
  then show ?case by simp
next
  case (Cons p ps)
  obtain wp ni nsp where p: "p = (wp, ConnectCb ni nsp)" by (metis connect_cb.exhaust surj_pair)
  obtain a h where h: "next_addr f = Some (a, h)" "sel_inv h" "if_streams h = if_streams f" "if_pending h = if_pending f"
      "map addr_key (if_addresses h) = map addr_key (if_addresses f)" "addr_key a \<in> addr_key ` set (if_addresses f)"
    using next_addr_frame [OF Cons.prems(1)] by blast
  have len: "ad_len a = 4294967295" using h(6) Cons.prems(2) by (auto simp: addr_key_def)
  have hl: "\<forall>a \<in> set (if_addresses h). ad_len a = 4294967295" by (rule failed_len [OF h(5) Cons.prems(2)])
  have ps: "fst ` set ps \<subseteq> W" "\<forall>(wp, cb) \<in> set ps. \<forall>ni nsp. cb = ConnectCb ni nsp \<longrightarrow> nsp \<notin> W" and wp: "wp \<in> W" "nsp \<notin> W"
    using Cons.prems(3,4) p by auto
  let ?i = "length (takeWhile (\<lambda>h. fst h \<noteq> wp) (if_streams f))"
  consider (dead) "\<not> c_live s wp" | (none) "c_live s wp" "wp \<notin> fst ` set (if_streams f)" | (erase) "c_live s wp" "wp \<in> fst ` set (if_streams f)"
    by blast
  then show ?case
  proof cases
    case dead
    then have "run_pending c_live ctl_connect_run ps f s = Some (g, s')" using Cons.prems(5) p by simp
    from Cons.IH [OF Cons.prems(1,2) ps this] dead p show ?thesis by (auto intro!: filter_cong)
  next
    case none
    then have "run_pending c_live ctl_connect_run ps h s = Some (g, s')"
      using Cons.prems(5) p h(1,3) by (simp add: Let_def handle_found)
    from Cons.IH [OF h(2) hl ps this] none p h(3,4) show ?thesis by (auto intro!: filter_cong)
  next
    case erase
    let ?s = "ctl_erase_connect ni nsp (if_streams f ! ?i) s"
    obtain fd where fd: "if_streams f ! ?i = (wp, fd)" using handle_found(2) [OF erase(2)] by (metis prod.collapse)
    have "run_pending c_live ctl_connect_run ps h ?s = Some (g, s')"
      using Cons.prems(5) p h(1,3) erase len fd by (simp add: Let_def handle_found connect_run_def)
    from Cons.IH [OF h(2) hl ps this] have ih: "if_pending g = if_pending f"
      "c_conns s' = filter (\<lambda>c. \<not> (cn_south c \<in> fst ` set ps \<and> cn_south c \<in> fst ` set (if_streams f) \<and> c_live ?s (cn_south c))) (c_conns ?s)"
      "\<forall>q \<in> W. c_heap s' q = c_heap ?s q" using h(3,4) by simp_all
    have hp: "c_heap ?s q = c_heap s q" if "q \<in> W" for q
      using that wp(2) ctl_erase_frame(2) [of q nsp] unfolding fd by metis
    have "c_conns s' = filter (\<lambda>c. \<not> (cn_south c \<in> fst ` set (p # ps) \<and> cn_south c \<in> fst ` set (if_streams f) \<and> c_live s (cn_south c))) (c_conns s)"
      unfolding ih(2) using erase p ps(1) hp by (auto simp: fd ctl_erase_frame(1) intro!: filter_cong)
    with ih hp show ?thesis by simp
  qed
qed


text \<open>The aborts a segment writes to the stream \<open>q\<close> when the waiting connect \<open>p\<close> fails: one for every session of its stream.\<close>

definition told :: "seg \<Rightarrow> connect_cb iface \<Rightarrow> owner \<Rightarrow> owner \<times> connect_cb \<Rightarrow> byte list" where
  "told s f q p =
     (case p of (wp, ConnectCb ni nsp) \<Rightarrow>
        if nsp = q \<and> c_live s wp \<and> wp \<in> fst ` set (if_streams f)
        then concat (map (\<lambda>c. header_bytes (abort_header (cn_uuid c))) (filter (\<lambda>c. cn_south c = wp) (c_conns s)))
        else [])"

lemma seg_erase_loop:
  assumes "remove_if_st (\<lambda>s c.
          if cn_south c = p then
            (True, c, case c_heap s nsp of
               None \<Rightarrow> s
             | Some x \<Rightarrow> trig_set (native_handle x) POLLOUT
                 (s\<lparr>c_heap := (c_heap s)(nsp \<mapsto> write_header (abort_header (cn_uuid c)) x)\<rparr>))
          else (False, c, s)) (s :: seg) cs = (cs', s')" (is "remove_if_st ?f s cs = _")
  shows "cs' = filter (\<lambda>c. cn_south c \<noteq> p) cs
    \<and> carried (\<lambda>q. if q = nsp then concat (map (\<lambda>c. header_bytes (abort_header (cn_uuid c))) (filter (\<lambda>c. cn_south c = p) cs)) else [])
        (c_heap s) (c_heap s')"
  using assms
proof (induction cs arbitrary: s cs' s')
  case Nil
  then show ?case using carried_refl by (simp cong: if_cong)
next
  case (Cons c cs)
  obtain del c1 s1 where st: "?f s c = (del, c1, s1)" by (cases "?f s c") auto
  obtain cs2 where lp: "remove_if_st ?f s1 cs = (cs2, s')" and cs': "cs' = (if del then cs2 else c1 # cs2)"
    using Cons.prems st by (auto split: prod.splits)
  let ?h = "if cn_south c = p then header_bytes (abort_header (cn_uuid c)) else []"
  have one: "del = (cn_south c = p) \<and> c1 = c \<and> carried (\<lambda>q. if q = nsp then ?h else []) (c_heap s) (c_heap s1)"
  proof (cases "cn_south c = p")
    case False
    then show ?thesis using st carried_refl [of "c_heap s"] by (simp cong: if_cong)
  next
    case True
    show ?thesis
    proof (cases "c_heap s nsp")
      case None
      then have "del \<and> c1 = c \<and> s1 = s" using st True by simp
      moreover have "carried (\<lambda>q. if q = nsp then ?h else []) (c_heap s) (c_heap s)"
        using None by (auto simp: carried_def intro!: option.rel_refl sends_refl)
      ultimately show ?thesis using True by simp
    next
      case (Some x)
      have "sends ?h x (write_header (abort_header (cn_uuid c)) x)" using True by (simp add: write_header_def sends_write)
      from carried_upd [of "c_heap s", OF Some this] st True Some show ?thesis by (auto cong: if_cong)
    qed
  qed
  have w: "(\<lambda>q. (if q = nsp then ?h else []) @ (if q = nsp then concat (map (\<lambda>c. header_bytes (abort_header (cn_uuid c))) (filter (\<lambda>c. cn_south c = p) cs)) else []))
    = (\<lambda>q. if q = nsp then concat (map (\<lambda>c. header_bytes (abort_header (cn_uuid c))) (filter (\<lambda>c. cn_south c = p) (c # cs))) else [])"
    by auto
  from Cons.IH [OF lp] one cs' carried_trans [of _ "c_heap s" "c_heap s1", unfolded w] show ?case by (auto simp flip: w intro: carried_trans)
qed

lemma seg_erase_frame:
  assumes "seg_erase_connect nsp (p, fd) f s = (g, s')"
  shows "c_conns s' = filter (\<lambda>c. cn_south c \<noteq> p) (c_conns s)" and "if_pending g = if_pending f"
    and "q \<noteq> p \<Longrightarrow> rel_option (sends (if q = nsp then concat (map (\<lambda>c. header_bytes (abort_header (cn_uuid c))) (filter (\<lambda>c. cn_south c = p) (c_conns s))) else []))
        (c_heap s q) (c_heap s' q)"
    and "q \<noteq> p \<Longrightarrow> q \<in> fst ` set (if_streams g) \<longleftrightarrow> q \<in> fst ` set (if_streams f)"
proof -
  obtain cs s1 where lp: "remove_if_st (\<lambda>s c.
          if cn_south c = p then
            (True, c, case c_heap s nsp of
               None \<Rightarrow> s
             | Some x \<Rightarrow> trig_set (native_handle x) POLLOUT
                 (s\<lparr>c_heap := (c_heap s)(nsp \<mapsto> write_header (abort_header (cn_uuid c)) x)\<rparr>))
          else (False, c, s)) s (c_conns s) = (cs, s1)" by fastforce
  note l = seg_erase_loop [OF lp]
  have e: "g = iface_erase (p, fd) f" "s' = s1\<lparr>c_conns := cs, c_heap := (c_heap s1)(p := None)\<rparr>"
    using assms lp by (simp_all add: seg_erase_connect_def)
  show "c_conns s' = filter (\<lambda>c. cn_south c \<noteq> p) (c_conns s)" using e l by simp
  show "if_pending g = if_pending f" using e by (simp add: iface_erase_def iface_erase_at_def Let_def)
  show "q \<noteq> p \<Longrightarrow> rel_option (sends (if q = nsp then concat (map (\<lambda>c. header_bytes (abort_header (cn_uuid c))) (filter (\<lambda>c. cn_south c = p) (c_conns s))) else []))
        (c_heap s q) (c_heap s' q)"
    using e l by (simp add: carried_def)
  assume q: "q \<noteq> p"
  let ?i = "lower_bound (\<lambda>x. fst x < p) (if_streams f)"
  show "q \<in> fst ` set (if_streams g) \<longleftrightarrow> q \<in> fst ` set (if_streams f)"
  proof (cases "key_hit fst p (if_streams f) ?i")
    case False
    then show ?thesis using e by (simp add: iface_erase_def Let_def)
  next
    case True
    then have i: "?i < length (if_streams f)" "fst (if_streams f ! ?i) = p" by (simp_all add: key_hit_def)
    have "set (if_streams f) = insert (if_streams f ! ?i) (set (erase_at ?i (if_streams f)))"
      unfolding erase_range_def by (subst id_take_nth_drop [OF i(1)]) auto
    then show ?thesis using e True q i(2) by (auto simp: iface_erase_def iface_erase_at_def Let_def)
  qed
qed


lemma seg_failures:
  assumes "sel_inv f" and "\<forall>a \<in> set (if_addresses f). ad_len a = 4294967295"
    and "fst ` set ps \<subseteq> W" and "distinct (map fst ps)" and "\<forall>(wp, cb) \<in> set ps. \<forall>ni nsp. cb = ConnectCb ni nsp \<longrightarrow> nsp \<notin> W"
    and "run_pending c_live seg_connect_run ps f s = Some (g, s')"
  shows "if_pending g = if_pending f
    \<and> c_conns s' = filter (\<lambda>c. \<not> (cn_south c \<in> fst ` set ps \<and> cn_south c \<in> fst ` set (if_streams f) \<and> c_live s (cn_south c))) (c_conns s)
    \<and> (\<forall>q. q \<notin> W \<longrightarrow> rel_option (sends (concat (map (told s f q) ps))) (c_heap s q) (c_heap s' q))"
  using assms
proof (induction ps arbitrary: f s)
  case Nil
  then show ?case by (auto intro!: option.rel_refl sends_refl)
next
  case (Cons p ps)
  obtain wp ni nsp where p: "p = (wp, ConnectCb ni nsp)" by (metis connect_cb.exhaust surj_pair)
  obtain a h where h: "next_addr f = Some (a, h)" "sel_inv h" "if_streams h = if_streams f" "if_pending h = if_pending f"
      "map addr_key (if_addresses h) = map addr_key (if_addresses f)" "addr_key a \<in> addr_key ` set (if_addresses f)"
    using next_addr_frame [OF Cons.prems(1)] by blast
  have len: "ad_len a = 4294967295" using h(6) Cons.prems(2) by (auto simp: addr_key_def)
  have hl: "\<forall>a \<in> set (if_addresses h). ad_len a = 4294967295" by (rule failed_len [OF h(5) Cons.prems(2)])
  have ps: "fst ` set ps \<subseteq> W" "distinct (map fst ps)" "\<forall>(wp, cb) \<in> set ps. \<forall>ni nsp. cb = ConnectCb ni nsp \<longrightarrow> nsp \<notin> W"
    and wp: "wp \<in> W" "nsp \<notin> W" "wp \<notin> fst ` set ps"
    using Cons.prems(3-5) p by auto
  let ?i = "length (takeWhile (\<lambda>h. fst h \<noteq> wp) (if_streams f))"
  consider (dead) "\<not> c_live s wp" | (none) "c_live s wp" "wp \<notin> fst ` set (if_streams f)" | (erase) "c_live s wp" "wp \<in> fst ` set (if_streams f)"
    by blast
  then show ?case
  proof cases
    case dead
    then have "run_pending c_live seg_connect_run ps f s = Some (g, s')" using Cons.prems(6) p by simp
    from Cons.IH [OF Cons.prems(1,2) ps this] dead p show ?thesis by (auto simp: told_def intro!: filter_cong)
  next
    case none
    then have "run_pending c_live seg_connect_run ps h s = Some (g, s')"
      using Cons.prems(6) p h(1,3) by (simp add: Let_def handle_found)
    moreover have "told s h = told s f" using h(3) by (simp add: told_def fun_eq_iff)
    ultimately show ?thesis using Cons.IH [OF h(2) hl ps, of s] none p h(3,4) by (auto simp: told_def [of s f] intro!: filter_cong)
  next
    case erase
    obtain fd where fd: "if_streams f ! ?i = (wp, fd)" using handle_found(2) [OF erase(2)] by (metis prod.collapse)
    obtain f1 s1 where e: "seg_erase_connect nsp (wp, fd) h s = (f1, s1)" by fastforce
    note fr = seg_erase_frame [OF e]
    have run: "seg_connect_run (ConnectCb ni nsp) ?i None (ad_len a) (if_protocol h) h s = (f1, s1)"
      using e fd h(3) by (simp add: connect_run_def)
    have "run_pending c_live seg_connect_run ps f1 s1 = Some (g, s')"
      using Cons.prems(6) p h(1,3) erase len run by (simp add: Let_def handle_found del: seg_connect_run.simps)
    note ih = Cons.IH [OF seg_cb.run_sel_inv [OF run h(2)] _ ps this]
    have al: "\<forall>a \<in> set (if_addresses f1). ad_len a = 4294967295" using seg_cb.run_selection [OF run] hl by simp
    have lv: "c_live s1 q \<longleftrightarrow> c_live s q" if "q \<noteq> wp" for q using fr(3) [OF that] by (cases "c_heap s q"; cases "c_heap s1 q") auto
    have told: "told s1 f1 q r = told s f q r" if "r \<in> set ps" for q r
    proof -
      obtain rw m n where r: "r = (rw, ConnectCb m n)" by (metis connect_cb.exhaust surj_pair)
      then have ne: "rw \<noteq> wp" using wp(3) that by force
      have "filter (\<lambda>c. cn_south c = rw) (c_conns s1) = filter (\<lambda>c. cn_south c = rw) (c_conns s)"
        using ne by (simp add: fr(1)) (rule filter_cong, auto)
      then show ?thesis
        unfolding told_def r prod.case connect_cb.case using lv [OF ne] fr(4) [OF ne] h(3) by auto
    qed
    have "c_conns s' = filter (\<lambda>c. \<not> (cn_south c \<in> fst ` set (p # ps) \<and> cn_south c \<in> fst ` set (if_streams f) \<and> c_live s (cn_south c))) (c_conns s)"
    proof -
      have "(cn_south c \<noteq> wp \<and> \<not> (cn_south c \<in> fst ` set ps \<and> cn_south c \<in> fst ` set (if_streams f1) \<and> c_live s1 (cn_south c))) \<longleftrightarrow>
          \<not> (cn_south c \<in> fst ` set (p # ps) \<and> cn_south c \<in> fst ` set (if_streams f) \<and> c_live s (cn_south c))" for c
        using fr(4) [of "cn_south c"] lv [of "cn_south c"] erase p h(3) by (cases "cn_south c = wp") simp_all
      then have a: "filter (\<lambda>c. cn_south c \<noteq> wp \<and> \<not> (cn_south c \<in> fst ` set ps \<and> cn_south c \<in> fst ` set (if_streams f1) \<and> c_live s1 (cn_south c))) (c_conns s)
        = filter (\<lambda>c. \<not> (cn_south c \<in> fst ` set (p # ps) \<and> cn_south c \<in> fst ` set (if_streams f) \<and> c_live s (cn_south c))) (c_conns s)"
        by (rule filter_cong [OF refl])
      have b: "c_conns s' = filter (\<lambda>c. \<not> (cn_south c \<in> fst ` set ps \<and> cn_south c \<in> fst ` set (if_streams f1) \<and> c_live s1 (cn_south c))) (c_conns s1)"
        using ih [OF al] by (rule conjunct1 [OF conjunct2])
      show ?thesis unfolding b [unfolded fr(1) filter_filter] by (rule a)
    qed
    moreover have "rel_option (sends (concat (map (told s f q) (p # ps)))) (c_heap s q) (c_heap s' q)" if "q \<notin> W" for q
    proof -
      have "q \<noteq> wp" using that wp(1) by blast
      then have "rel_option (sends (told s f q p)) (c_heap s q) (c_heap s1 q)"
        using fr(3) [of q] erase p by (cases "nsp = q") (auto simp: told_def)
      moreover have "rel_option (sends (concat (map (told s f q) ps))) (c_heap s1 q) (c_heap s' q)"
        using ih [OF al] that told by (simp cong: map_cong)
      ultimately show ?thesis
        by (cases "c_heap s q"; cases "c_heap s1 q"; cases "c_heap s' q") (auto intro: sends_trans)
    qed
    ultimately show ?thesis using ih [OF al] fr(2) h(4) by simp
  qed
qed


section \<open>Properties\<close>


definition waiting_iface :: "connect_cb iface" where
  "waiting_iface = (iface_make [] ''TCP'' [])\<lparr>if_streams := [(2, 11)], if_pending := [(2, ConnectCb 0 1)]\<rparr>"

lemma waiting_iface_simps: "if_streams waiting_iface = [(2, 11)]" "if_pending waiting_iface = [(2, ConnectCb 0 1)]"
  by (simp_all add: waiting_iface_def)




text \<open>the answers of several lookups for one interface replace one another: whatever addresses the interface had from earlier
  answers, after an answer it has addresses of that answer only. Of the service records of a name only the one that
  is answered last counts, whatever their priorities and weights.\<close>

theorem later_answer_replaces:
  assumes "snd (snd weight) \<le> SIZE_MAX" and "fst (snd weight) = 0"
  shows "\<exists>g s'. ares_addrinfo_cb c_live ctl_connect_run t now weight (Some nodes) f s = Inr ([], g, s')
    \<and> (\<forall>a \<in> set (if_addresses g). \<exists>n \<in> set nodes. ad_addr a = ad_addr (answer_address t weight n) \<and> ad_len a = an_len n)"
  using connect_callbacks.addrinfo_only_last [OF ctl_cb.connect_callbacks_axioms assms, where t = t and now = now and nodes = nodes and f = f and s = s]
  by (simp add: ares_addrinfo_cb_def)

theorem later_answer_replaces_witness:
  "\<exists>g s'. ares_addrinfo_cb c_live ctl_connect_run 100 100 (1, 0, 9) (Some [\<lparr>an_addr = [3, 0], an_len = 16, an_ttl = 60\<rparr>])
       (waiting_iface\<lparr>if_addresses := [make_address [2, 0] 28 (100, 60) (1, 0, 0)]\<rparr>) sample_ctl = Inr ([], g, s')
     \<and> (\<forall>a \<in> set (if_addresses g). ad_len a = 16)"
  using later_answer_replaces [of "(1, 0, 9)" 100 100 "[\<lparr>an_addr = [3, 0], an_len = 16, an_ttl = 60\<rparr>]"
      "waiting_iface\<lparr>if_addresses := [make_address [2, 0] 28 (100, 60) (1, 0, 0)]\<rparr>" sample_ctl]
  by auto

end
