(* ===== verification/Polling.thy ===== *)
theory Polling
  imports Wellformed Delivery
begin

unbundle bit_operations_syntax

text \<open>
  Output is not forgotten. A stream that has bytes to send must be watched for room, or the bytes stay where they are until
  something else happens on the stream. In every state a segment can reach this holds of all streams, in every state
  a controller can reach it holds of the streams of the clients. It does not hold of the
  controller's streams to the segments: the handler of their output stops watching a stream without open sessions whether
  or not everything has been sent.
\<close>

section \<open>Streams with output are polled\<close>


text \<open>in every state a controller can reach, every connected stream of a client that has bytes to send is polled for output.\<close>

theorem client_output_polled:
  assumes "reachable ctl_connect_run ctl_handle_events s"
  shows "lacking clients s = {}"
  using ctl_reachable_ok [OF assms] by blast

theorem client_output_polled_witness:
  "\<exists>s. reachable ctl_connect_run ctl_handle_events s \<and> if_streams (c_north s ! 0) = [(1, 5)] \<and> lacking clients s = {}"
proof -
  obtain s :: ctl where s: "reachable ctl_connect_run ctl_handle_events s" "if_streams (c_north s ! 0) = [(1, 5)]"
    by (rule sample_reachable)
  with client_output_polled [OF s(1)] show ?thesis by blast
qed

section \<open>Streams to the segments\<close>

lemma south_err_gone: "c_heap (snd (south_err_handler j (p, fd) s)) p = None \<and> fst (south_err_handler j (p, fd) s) = 0"
  by (simp add: south_err_handler_def south_erase_def Let_def split: prod.split)

lemma failed_south_gone:
  assumes "c_heap s p = Some x" and "failbit x"
  shows "c_heap (snd (snd (handle_south j (p, fd) POLLOUT s))) p = None"
proof -
  have b: "POLLOUT AND POLLERR = (0 :: u16)" "POLLOUT AND (POLLERR OR POLLNVAL) = (0 :: u16)" "POLLOUT AND (POLLOUT OR POLLERR OR POLLNVAL) \<noteq> (0 :: u16)"
    by (simp_all add: POLLOUT_def POLLERR_def POLLNVAL_def)
  have "sock_flush x = x" "fail_of x" using assms(2) by (simp_all add: ostream_flush_def good_def fail_of_def)
  then have po: "pollout_handler (p, fd) POLLOUT s = (- 1, POLLOUT, s\<lparr>c_heap := (c_heap s)(p \<mapsto> x)\<rparr>)"
    using assms(1) b unfolding pollout_handler_def by (simp only: prod.case option.case Let_def b if_False if_True simp_thms)
  obtain t where e: "south_err_handler j (p, fd) (s\<lparr>c_heap := (c_heap s)(p \<mapsto> x)\<rparr>) = (0, t)" and t: "c_heap t p = None"
    using south_err_gone [of j p fd "s\<lparr>c_heap := (c_heap s)(p \<mapsto> x)\<rparr>"] by (metis prod.collapse)
  then show ?thesis using b unfolding handle_south_def south_pollout_handler_def po prod.case Let_def by simp
qed

text \<open>Room that does not suffice: the stream is flushed and kept.\<close>

lemma pollout_kept:
  assumes "c_heap s p = Some x" and "\<not> fail_of (sock_flush x)"
  obtains t where "pollout_handler (p, fd) POLLOUT s = (0, 0, t)" and "c_heap t p = Some (sock_flush x)" and "c_conns t = c_conns s" and "c_env t = c_env s"
    and "tr_inv (c_triggers s) \<Longrightarrow> tr_inv (c_triggers t)"
proof -
  have b: "POLLOUT AND POLLERR = (0 :: u16)" "POLLOUT AND (POLLERR OR POLLNVAL) = (0 :: u16)" "POLLOUT AND NOT (POLLOUT OR POLLERR OR POLLNVAL) = (0 :: u16)"
    by (simp_all add: POLLOUT_def POLLERR_def POLLNVAL_def)
  let ?t = "s\<lparr>c_heap := (c_heap s)(p \<mapsto> sock_flush x)\<rparr>"
  let ?u = "if sock_tellp (sock_flush x) = 0 then trig_clear fd POLLOUT ?t else ?t"
  have "pollout_handler (p, fd) POLLOUT s = (0, 0, ?u)"
    using assms b unfolding pollout_handler_def by (simp only: prod.case option.case Let_def b if_False if_True simp_thms)
  then show thesis by (rule that) (simp_all add: trig_clear_def trig.clear_inv)
qed

text \<open>C40: when a stream to a segment has room but not for everything that waits, and no session is open on it any more, the controller
  stops polling it: the rest of the last messages stays in its buffer. When the idle timer runs out, the next event of the stream erases it
  with them.\<close>

theorem idle_output_stranded:
  assumes "c_heap s p = Some x" and "\<not> south_busy p s" and "tr_inv (c_triggers s)"
    and "\<not> fail_of (sock_flush x)" and "sk_pending (rdbuf (sock_flush x)) \<noteq> []" and "handle_south j (p, fd) POLLOUT s = (n, r, s')"
  shows "interest (c_triggers s') fd = None \<and> c_heap s' p = Some (sock_flush x)
    \<and> c_heap (snd (snd (handle_south j (p, fd) POLLOUT (run_timer (IdleSouth p) s')))) p = None"
proof -
  have b: "POLLOUT AND (POLLOUT OR POLLERR OR POLLNVAL) \<noteq> (0 :: u16)" by (simp add: POLLOUT_def POLLERR_def POLLNVAL_def)
  obtain u where po: "pollout_handler (p, fd) POLLOUT s = (0, 0, u)" and u: "c_heap u p = Some (sock_flush x)" "c_conns u = c_conns s"
    and inv: "tr_inv (c_triggers u)" by (rule pollout_kept [OF assms(1,4)]) (use assms(3) in blast)
  have nb: "\<not> south_busy p u" using assms(2) u(2) by (simp add: south_busy_def)
  have "s' = south_state_handler (p, fd) u"
    using assms(6) b unfolding handle_south_def south_pollout_handler_def po prod.case Let_def by simp
  then have s': "interest (c_triggers s') fd = None" "c_heap s' p = Some (sock_flush x)" "\<not> south_busy p s'"
    using nb u(1) trig.mask_clear [OF inv, of fd "- 1"]
    by (auto simp: south_state_handler_def trig_clear_def south_busy_def split: option.splits)
  moreover have "c_heap (run_timer (IdleSouth p) s') p = Some ((sock_flush x)\<lparr>failbit := True\<rparr>)" using s'(2,3) by simp
  ultimately show ?thesis using failed_south_gone by simp
qed

text \<open>when \<^verbatim>\<open>TCP_NODELAY\<close> cannot be set, the controller gives up the connect and keeps the stream: its
  handle has the new descriptor, which later sessions take for a connection, the stream object has none.\<close>

theorem refused_option_keeps_handle:
  assumes "take_socket s = ((Some fd, False), t)" and "i < length (if_streams f)" and "if_streams f ! i = (p, BAD_SOCKET)" and "p \<noteq> nsp"
    and "ctl_connect_run (ConnectCb ni nsp) i (Some a) len ''TCP'' f s = (g, s')"
  shows "if_streams g ! i = (p, fd) \<and> c_heap s' p = c_heap s p"
proof -
  have "c_heap t = c_heap s" by (rule take_socket_some [OF assms(1)]) simp
  moreover have "g = f\<lparr>if_streams := (if_streams f)[i := (p, fd)]\<rparr>" "s' = ctl_erase_connect ni nsp (p, fd) t"
    using assms(1,3,5) by (auto simp: connect_run_def)
  ultimately show ?thesis using assms(2,4) by (simp add: ctl_erase_connect_def Let_def)
qed

theorem refused_option_keeps_handle_witness:
  "\<exists>g s'. ctl_connect_run (ConnectCb 0 1) 0 (Some [2, 0]) 2 ''TCP'' ((iface_make [] ''TCP'' [])\<lparr>if_streams := [(2, BAD_SOCKET)]\<rparr>)
      (sample_ctl\<lparr>c_env := sample_env\<lparr>v_socket := [(Some 9, False)]\<rparr>\<rparr>) = (g, s')
    \<and> if_streams g ! 0 = (2, 9)"
proof -
  let ?f = "(iface_make [] ''TCP'' [])\<lparr>if_streams := [(2, BAD_SOCKET)]\<rparr> :: connect_cb iface"
  let ?s = "sample_ctl\<lparr>c_env := sample_env\<lparr>v_socket := [(Some 9, False)]\<rparr>\<rparr>"
  obtain g s' where g: "ctl_connect_run (ConnectCb 0 1) 0 (Some [2, 0]) 2 ''TCP'' ?f ?s = (g, s')" by fastforce
  have "\<exists>t. take_socket ?s = ((Some 9, False), t)" by (simp add: take_socket_def)
  then obtain t where t: "take_socket ?s = ((Some 9, False), t)" ..
  from refused_option_keeps_handle [OF t _ _ _ g] g show ?thesis by (simp del: ctl_connect_run.simps)
qed

text \<open>A stream whose socket takes nothing now.\<close>

lemma holding_flush: "sock_flush (holding 11 [7]) = x \<Longrightarrow> sk_pending (rdbuf x) = [7] \<and> \<not> fail_of x"
  by (auto simp: holding_def ostream_flush_def good_def sk_sync.simps send_retry.simps send_first_def sockbuf_make_def init_buf_ptrs_def sample_kernel_def
      resizewbuf_def put_capacity_def empty_message_def MIN_BUFSIZE_def sk_pending_def fail_of_def Let_def)

theorem idle_output_stranded_witness:
  "\<exists>n r s'. handle_south 0 (2, 11) POLLOUT (sample_ctl\<lparr>c_heap := [2 \<mapsto> holding 11 [7]], c_conns := []\<rparr>) = (n, r, s')
     \<and> interest (c_triggers s') 11 = None \<and> c_heap s' 2 = Some (sock_flush (holding 11 [7]))
     \<and> c_heap (snd (snd (handle_south 0 (2, 11) POLLOUT (run_timer (IdleSouth 2) s')))) 2 = None"
proof -
  let ?s = "sample_ctl\<lparr>c_heap := [2 \<mapsto> holding 11 [7]], c_conns := []\<rparr>"
  obtain n r s' where h: "handle_south 0 (2, 11) POLLOUT ?s = (n, r, s')" by (cases "handle_south 0 (2, 11) POLLOUT ?s") auto
  have "\<not> south_busy 2 ?s" "tr_inv (c_triggers ?s)" by (simp_all add: south_busy_def sample_ctl_def trigger_init_inv)
  from idle_output_stranded [OF _ this _ _ h] h holding_flush [OF refl] show ?thesis by (simp del: run_timer.simps)
qed

section \<open>Sessions that end\<close>

lemma north_err_gone: "fst (north_err_handler ni (p, fd) s) = 0 \<and> c_heap (snd (north_err_handler ni (p, fd) s)) p = None"
  by (simp add: north_err_handler_def north_erase_def split: prod.split)

lemma seg_south_err_gone: "fst (seg_south_err_handler j (p, fd) s) = 0 \<and> c_heap (snd (seg_south_err_handler j (p, fd) s)) p = None"
  by (simp add: seg_south_err_handler_def south_erase_def Let_def split: prod.split)

lemma pollout_frame: "c_conns (snd (snd (pollout_handler hnd revents s))) = c_conns s"
  by (simp add: pollout_handler_def Let_def split: prod.split option.split)

lemma pollout_bits: "POLLOUT AND (POLLOUT OR POLLERR OR POLLNVAL) \<noteq> (0 :: u16)"
  by (simp add: POLLOUT_def POLLERR_def POLLNVAL_def)

text \<open>What a flush leaves was never given to the kernel.\<close>

lemma flush_leaves:
  assumes "sk_out_inv (rdbuf x)" and "sk_pending (rdbuf (sock_flush x)) \<noteq> []"
  obtains lost where "lost \<noteq> []" and "sk_stream (rdbuf x) = k_wire (sk_kernel (rdbuf (sock_flush x))) @ lost"
  using sock_flush_stream [OF assms(1)] assms(2) that by (metis sk_stream_def)

text \<open>C38: when the sessions of a client are closed and its socket does not take all that is pending at once, the client loses the rest: the first time
  there is room the stream is flushed as far as it goes and then erased with what is left, so that the client has received a proper
  prefix of what was written for it.\<close>

theorem closed_session_output_lost:
  assumes "c_heap s p = Some x" and "sk_out_inv (rdbuf x)" and "session_state (c_conns s) p CLOSED = CLOSED"
    and "sk_pending (rdbuf (sock_flush x)) \<noteq> []" and "handle_north ni (p, fd) POLLOUT s = (n, r, s')"
  shows "c_heap s' p = None \<and> (\<exists>lost. lost \<noteq> [] \<and> sk_stream (rdbuf x) = k_wire (sk_kernel (rdbuf (sock_flush x))) @ lost)"
proof
  obtain st r1 t where po: "pollout_handler (p, fd) POLLOUT s = (st, r1, t)" by (cases "pollout_handler (p, fd) POLLOUT s")
  have "c_conns t = c_conns s" using pollout_frame [of "(p, fd)" POLLOUT s] po by simp
  then have "(if st \<noteq> 0 then north_err_handler ni (p, fd) t else north_state_handler ni (p, fd) r1 t) = north_err_handler ni (p, fd) t"
    using assms(3) by (simp add: north_state_handler_def)
  moreover obtain u where "north_err_handler ni (p, fd) t = (0, u)" "c_heap u p = None" using north_err_gone [of ni p fd t] by (metis prod.collapse)
  ultimately show "c_heap s' p = None" using assms(5) pollout_bits unfolding handle_north_def po prod.case Let_def by auto
  show "\<exists>lost. lost \<noteq> [] \<and> sk_stream (rdbuf x) = k_wire (sk_kernel (rdbuf (sock_flush x))) @ lost"
    using flush_leaves [OF assms(2,4)] by metis
qed

theorem closed_session_output_lost_witness:
  "\<exists>n r s'. handle_north 0 (1, 11) POLLOUT (sample_ctl\<lparr>c_heap := [1 \<mapsto> holding 11 [7]], c_conns := [sample_conn\<lparr>cn_state := CLOSED\<rparr>]\<rparr>) = (n, r, s')
     \<and> c_heap s' 1 = None \<and> (\<exists>lost. lost \<noteq> [] \<and> [7] = k_wire (sk_kernel (rdbuf (sock_flush (holding 11 [7])))) @ lost)"
proof -
  let ?s = "sample_ctl\<lparr>c_heap := [1 \<mapsto> holding 11 [7]], c_conns := [sample_conn\<lparr>cn_state := CLOSED\<rparr>]\<rparr>"
  obtain n r s' where h: "handle_north 0 (1, 11) POLLOUT ?s = (n, r, s')" by (cases "handle_north 0 (1, 11) POLLOUT ?s")
  have "session_state (c_conns ?s) 1 CLOSED = CLOSED" by (simp add: sample_ctl_facts)
  moreover have "sk_out_inv (rdbuf (holding 11 [7]))"
    by (simp add: holding_def sk_out_inv_def sockbuf_make_def empty_message_def MIN_BUFSIZE_def)
  ultimately show ?thesis using closed_session_output_lost [OF _ _ _ _ h] h holding_flush [OF refl] holding_simps(3) [of 11 "[7]"] by simp
qed

text \<open>The same happens to the last bytes of a client at the backend's stream in the segment, when the first session of the stream is closed.\<close>

theorem closed_session_backend_output_lost:
  assumes "c_heap s p = Some x" and "sk_out_inv (rdbuf x)" and "find (\<lambda>c. cn_south c = p) (c_conns s) = Some c" and "cn_state c = CLOSED"
    and "sk_pending (rdbuf (sock_flush x)) \<noteq> []" and "seg_handle_south j (p, fd) POLLOUT s = (n, r, s')"
  shows "c_heap s' p = None \<and> (\<exists>lost. lost \<noteq> [] \<and> sk_stream (rdbuf x) = k_wire (sk_kernel (rdbuf (sock_flush x))) @ lost)"
proof
  obtain st r1 t where po: "pollout_handler (p, fd) POLLOUT s = (st, r1, t)" by (cases "pollout_handler (p, fd) POLLOUT s")
  have "c_conns t = c_conns s" using pollout_frame [of "(p, fd)" POLLOUT s] po by simp
  then have "(if st \<noteq> 0 then seg_south_err_handler j (p, fd) t else seg_south_state_handler j (p, fd) r1 t) = seg_south_err_handler j (p, fd) t"
    using assms(3,4) by (simp add: seg_south_state_handler_def)
  moreover obtain u where "seg_south_err_handler j (p, fd) t = (0, u)" "c_heap u p = None" using seg_south_err_gone [of j p fd t] by (metis prod.collapse)
  ultimately show "c_heap s' p = None" using assms(6) pollout_bits unfolding seg_handle_south_def seg_shared po prod.case Let_def by auto
  show "\<exists>lost. lost \<noteq> [] \<and> sk_stream (rdbuf x) = k_wire (sk_kernel (rdbuf (sock_flush x))) @ lost"
    using flush_leaves [OF assms(2,5)] by metis
qed

text \<open>When the sessions are half closed instead, the socket is shut down for output after the first flush, whether or not bytes are pending:
  the kernel refuses them afterwards.\<close>

theorem half_closed_shut_down_early:
  assumes "c_heap s p = Some x" and "session_state (c_conns s) p CLOSED = HALF_CLOSED" and "\<not> fail_of (sock_flush x)"
    and "sk_pending (rdbuf (sock_flush x)) \<noteq> []"
  shows "\<exists>t. pollout_handler (p, fd) POLLOUT s = (0, 0, t) \<and> c_heap t p = Some (sock_flush x)
    \<and> north_state_handler ni (p, fd) 0 t = (POLLHUP, t\<lparr>c_env := (c_env s)\<lparr>v_shutdown := v_shutdown (c_env s) @ [fd]\<rparr>\<rparr>)"
proof -
  obtain t where "pollout_handler (p, fd) POLLOUT s = (0, 0, t)" "c_heap t p = Some (sock_flush x)" "c_conns t = c_conns s" "c_env t = c_env s"
    by (rule pollout_kept [OF assms(1,3)])
  then show ?thesis using assms(2) by (simp add: north_state_handler_def)
qed

section \<open>Output is sent\<close>

text \<open>A kernel that takes something with every call, and is called often enough.\<close>

definition takes_all :: "sockbuf \<Rightarrow> bool" where
  "takes_all b \<longleftrightarrow> length (sk_pending b) \<le> length (k_send (sk_kernel b)) \<and> (\<forall>a \<in> set (k_send (sk_kernel b)). \<exists>n. a = Sent n \<and> 0 < n)"

lemma send_loop_takes_all:
  assumes "\<forall>a \<in> set ks. \<exists>n. a = Sent n \<and> 0 < n" and "length rest \<le> length ks" and "rest \<noteq> []"
    and "send_loop ks rest conn anc wire = (rest', e, conn', anc', wire', ks')"
  shows "rest' = [] \<and> e = 0"
  using assms
proof (induction ks arbitrary: rest anc wire)
  case (Cons a ks)
  obtain n where a: "a = Sent n" "0 < n" using Cons.prems(1) by auto
  let ?k = "min n (min (length rest) MIN_BUFSIZE)"
  have k: "0 < ?k" using a(2) Cons.prems(3) by (simp add: MIN_BUFSIZE_def)
  show ?case
  proof (cases "length rest \<le> ?k")
    case True
    then show ?thesis using Cons.prems(4) a k by (auto simp: Let_def)
  next
    case False
    then show ?thesis using Cons.prems k a by (intro Cons.IH [of "drop ?k rest" "[]" "wire @ take ?k rest"]) (auto simp: Let_def)
  qed
qed simp

lemma flush_takes_all:
  assumes "stream_ok x" and "good x" and "sk_connected (rdbuf x)" and "native_handle x \<noteq> BAD_SOCKET" and "takes_all (rdbuf x)" and "unsent x"
  shows "\<not> fail_of (sock_flush x) \<and> \<not> unsent (sock_flush x)"
proof -
  let ?b = "rdbuf x"
  obtain m where m: "sk_send ?b = [m]" using assms(1) by (auto simp: stream_ok_def)
  then have d: "sm_data m \<noteq> []" "sk_pending ?b = sm_data m" using assms(6) by (auto simp: sk_pending_def)
  obtain rest e conn anc wire ks where l: "send_loop (k_send (sk_kernel ?b)) (sm_data m) (sk_connected ?b) (sm_ancillary m) (k_wire (sk_kernel ?b))
      = (rest, e, conn, anc, wire, ks)"
    by (cases "send_loop (k_send (sk_kernel ?b)) (sm_data m) (sk_connected ?b) (sm_ancillary m) (k_wire (sk_kernel ?b))") auto
  have r: "rest = []" "e = 0" using send_loop_takes_all [OF _ _ d(1) l] assms(5) by (simp_all add: takes_all_def d(2))
  obtain b' where f: "send_first ?b m [] = (0, b')" and p: "sk_pending b' = []"
    using l r assms(3,4) d(1) by (simp add: send_first_def resizewbuf_def sk_pending_def Let_def)
  have "send_retry ?b = (None, b')" using m f by (simp add: send_retry.simps [of ?b])
  then have "sk_sync ?b = (0, b')" using m by (simp add: sk_sync.simps [of ?b])
  then show ?thesis using assms(2) p by (simp add: ostream_flush_def fail_of_def good_def)
qed

lemma pollout_sends:
  assumes "c_heap s p = Some x" and "native_handle x = fd" and "stream_ok x" and "good x" and "sk_connected (rdbuf x)" and "fd \<noteq> BAD_SOCKET"
    and "takes_all (rdbuf x)" and "unsent x"
  shows "pollout_handler (p, fd) POLLOUT s = (0, 0, trig_clear fd POLLOUT (s\<lparr>c_heap := (c_heap s)(p \<mapsto> sock_flush x)\<rparr>))"
    and "k_wire (sk_kernel (rdbuf (sock_flush x))) = k_wire (sk_kernel (rdbuf x)) @ sk_pending (rdbuf x)" and "\<not> unsent (sock_flush x)"
proof -
  have b: "POLLOUT AND POLLERR = (0 :: u16)" "POLLOUT AND (POLLERR OR POLLNVAL) = (0 :: u16)" "POLLOUT AND NOT (POLLOUT OR POLLERR OR POLLNVAL) = (0 :: u16)"
    by (simp_all add: POLLOUT_def POLLERR_def POLLNVAL_def)
  have f: "\<not> fail_of (sock_flush x)" "\<not> unsent (sock_flush x)" using flush_takes_all assms by blast+
  have "stream_ok (sock_flush x)" using kin_flush [of x] assms(3) by (simp add: kin_def)
  then have t: "sock_tellp (sock_flush x) = 0" using stream_ok_tellp f by blast
  show "pollout_handler (p, fd) POLLOUT s = (0, 0, trig_clear fd POLLOUT (s\<lparr>c_heap := (c_heap s)(p \<mapsto> sock_flush x)\<rparr>))"
    unfolding pollout_handler_def by (simp only: assms(1) prod.case option.case Let_def b f t if_False if_True simp_thms)
  show "\<not> unsent (sock_flush x)" by (rule f)
  show "k_wire (sk_kernel (rdbuf (sock_flush x))) = k_wire (sk_kernel (rdbuf x)) @ sk_pending (rdbuf x)"
    using sock_flush_stream [of x] assms(3) f(2) by (simp add: stream_ok_def sk_stream_def)
qed

lemma wake_heap [simp]: "c_heap (wake this other p s) = c_heap s" "c_north (wake this other p s) = c_north s" "c_timeouts (wake this other p s) = c_timeouts s"
proof -
  let ?f = "\<lambda>c t. case c_heap t (other c) of Some x \<Rightarrow> if this c = p \<and> \<not> eofbit x then trig_set (native_handle x) POLLIN t else t | None \<Rightarrow> t"
  have "c_heap (fold ?f cs s) = c_heap s \<and> c_north (fold ?f cs s) = c_north s \<and> c_timeouts (fold ?f cs s) = c_timeouts s" for cs
    by (rule fold_invariant [where Q = "\<lambda>_. True" and P = "\<lambda>t. c_heap t = c_heap s \<and> c_north t = c_north s \<and> c_timeouts t = c_timeouts s"])
      (auto simp: trig_set_def split: option.split)
  then show "c_heap (wake this other p s) = c_heap s" "c_north (wake this other p s) = c_north s" "c_timeouts (wake this other p s) = c_timeouts s"
    unfolding wake_def by blast+
qed

text \<open>In a well-formed state an event finds the stream that has its descriptor.\<close>

lemma find_stream_some: "f \<in> set fs \<Longrightarrow> h \<in> set (if_streams f) \<Longrightarrow> \<exists>j k. find_stream (snd h) n fs = Some (j, k) \<and> snd k = snd h"
proof (induction fs arbitrary: n)
  case (Cons g fs)
  show ?case
  proof (cases "find (\<lambda>k. snd k = snd h) (if_streams g)")
    case None
    then have "f \<noteq> g" using Cons.prems(2) by (cases h) (auto simp: find_None_iff)
    then show ?thesis using Cons None by simp
  next
    case (Some k)
    then have "snd k = snd h" by (auto simp: find_Some_iff)
    with Some show ?thesis by simp
  qed
qed simp

lemma find_stream_own:
  assumes wf: "well_formed s" and i: "i < length (c_north s)" and h: "(p, fd) \<in> set (if_streams (c_north s ! i))" and "fd \<noteq> BAD_SOCKET"
  shows "find_stream fd 0 (c_north s) = Some (i, (p, fd))"
proof -
  obtain j k where f: "find_stream fd 0 (c_north s) = Some (j, k)" and k: "snd k = fd"
    using find_stream_some [OF nth_mem [OF i] h, of 0] by auto
  have j: "j < length (c_north s)" "k \<in> set (if_streams (c_north s ! j))" using find_stream_sound [OF f] by simp_all
  have kp: "k = (fst k, fd)" using k by (metis prod.collapse)
  have "apart (c_handles s)" using well_formed_fds [OF wf] by (simp add: fds_ok_def)
  then have "fst k = p" using apartD [of "c_handles s" "fst k" fd p] handles_nth [OF j] handles_nth [OF i h] kp assms(4) by auto
  then have e: "k = (p, fd)" using kp by simp
  moreover have "j = i" using alive_once(2) [OF wf i, of p j] owns_handle [OF h] owns_handle [OF j(2)] e j(1) by simp
  ultimately show ?thesis using f by simp
qed

text \<open>C14: bytes that a segment has for a controller are sent. In every state it can reach, when the socket of a connected stream with
  pending output has room and takes something with every call, one event of the poller puts all of them on the wire, in order and
  behind what was sent before, and ends the polling for output.\<close>

theorem reply_output_sent:
  assumes "reachable seg_connect_run seg_handle_events s" and "i < length (c_north s)" and "(p, fd) \<in> set (if_streams (c_north s ! i))"
    and "c_heap s p = Some x" and "native_handle x = fd" and "fd \<noteq> BAD_SOCKET" and "good x" and "sk_connected (rdbuf x)"
    and "sk_pending (rdbuf x) \<noteq> []" and "takes_all (rdbuf x)"
    and "seg_handle_events idle [\<lparr>pfd_fd = fd, pfd_events = POLLOUT, pfd_revents = POLLOUT\<rparr>] s = (n, events, s')"
  shows "\<exists>y. c_heap s' p = Some y \<and> sk_pending (rdbuf y) = []
    \<and> k_wire (sk_kernel (rdbuf y)) = k_wire (sk_kernel (rdbuf x)) @ sk_pending (rdbuf x)
    \<and> events = [] \<and> \<not> polled (c_triggers s') fd"
proof -
  have wf: "well_formed s" using seg_reachable_ok [OF assms(1)] by blast
  let ?t = "wake cn_north cn_south p s"
  have wt: "well_formed ?t" using steady_sound [OF wake_steady] wf unfolding sound_def by blast
  note f = find_stream_own [OF wf assms(2,3,6)]
  have b: "(POLLOUT :: u16) \<noteq> 0" "POLLOUT AND (POLLOUT OR POLLERR :: u16) \<noteq> 0" "POLLOUT AND (POLLOUT OR POLLERR OR POLLNVAL :: u16) \<noteq> 0"
    by (simp_all add: POLLIN_def POLLOUT_def POLLERR_def POLLNVAL_def POLLHUP_def)
  have x: "c_heap ?t p = Some x" using assms(4) by simp
  note po = pollout_sends [OF x assms(5) well_formed_tables(2) [OF wt x] assms(7,8,6,10,9)]
  let ?u = "trig_clear fd POLLOUT (?t\<lparr>c_heap := (c_heap ?t)(p \<mapsto> sock_flush x)\<rparr>)"
  have h: "seg_handle_north i (p, fd) POLLOUT ?t = (1, 0, ?u)"
    unfolding seg_handle_north_def seg_shared po(1) prod.case Let_def using b by simp
  have idle_fold: "fold (\<lambda>_ s. s) cbs u = u" for cbs :: "timer_cb list" and u :: seg by (induction cbs) simp_all
  have e: "events = []" "s' = ?u\<lparr>c_timeouts := snd (snd (process_events (v_now (c_env ?u)) (c_timeouts ?u)))\<rparr>"
    using assms(11) f b h idle_fold
    by (auto simp: seg_handle_events_def handle_events_def handle_event_def handle_side_def idle_def split: prod.splits)
  have "\<not> polled (c_triggers ?u) fd" using well_formed_tables(1) [OF wt] by (simp add: trig_clear_def polled_clear)
  then show ?thesis using e po(2,3) by (simp add: trig_clear_def)
qed

section \<open>A run\<close>

text \<open>The segment of \<open>sample_section\<close> accepts a controller, which sends a message of an unknown session; the answer waits in the stream.\<close>

lemma iface_insert_last:
  assumes "if_streams f = [(p, a)]" and "p < q"
  shows "snd (iface_insert (q, b) f) = f\<lparr>if_streams := [(p, a), (q, b)]\<rparr>"
proof -
  have "upper_bound (\<lambda>x. q < fst x) [(p, a)] = 1"
    unfolding upper_bound_def using assms(2) by (intro lower_bound_partition) (simp add: partitioned_at_def)
  then show ?thesis using assms(1) by (simp add: iface_insert_def insert_at_def)
qed

lemma seg_single_event:
  assumes "find_stream fd 0 (c_north s) = Some (i, h)" and "seg_handle_north i h POLLIN s = (n, r, s')" and "c_timeouts s' = []"
  shows "snd (snd (seg_handle_events idle [\<lparr>pfd_fd = fd, pfd_events = POLLIN, pfd_revents = POLLIN\<rparr>] s)) = s'"
proof -
  have b: "(POLLIN :: u16) \<noteq> 0" "POLLIN AND (POLLOUT OR POLLERR :: u16) = 0" by (simp_all add: POLLIN_def POLLOUT_def POLLERR_def)
  show ?thesis using assms b
    by (simp add: seg_handle_events_def handle_events_def handle_event_def handle_side_def idle_def process_events_def split: prod.split)
qed
lemma readsome_all:
  assumes "0 < length bs" and "length bs \<le> 24"
  shows "sock_readsome 24 (sample_input [Got bs])
    = (bs, (sample_input [])\<lparr>rdbuf := (rdbuf (sample_input []))\<lparr>sk_recv := (sk_recv (rdbuf (sample_input [])))\<lparr>sm_data := bs\<rparr>, sk_gptr := length bs\<rparr>, gcount := length bs\<rparr>)"
  using assms
  by (auto simp: readsome_def sample_input_def sk_in_avail_def sk_showmanyc_def sk_do_recv_def memmoverbuf_def sockbuf_make_def init_buf_ptrs_def
      empty_message_def MIN_BUFSIZE_def sk_sgetn_def Let_def good_def)

definition untouched :: "sockstream \<Rightarrow> bool" where
  "untouched x \<longleftrightarrow> good x \<and> native_handle x = 7 \<and> sk_connected (rdbuf x) \<and> sk_out (rdbuf x) \<and> sk_send (rdbuf x) = [empty_message\<lparr>sm_iov_len := MIN_BUFSIZE\<rparr>]"

lemma stray_read:
  assumes "xmsg_read xmsgstream_init (sample_input [Got (header_bytes (make_head u 24 type))]) = (buf, is')"
  shows "fresh_message buf u type [] \<and> untouched is' \<and> gcount is' = 24"
proof -
  let ?bs = "header_bytes (make_head u 24 type)"
  let ?b = "xmsg_write ?bs xmsgstream_init"
  have acc: "xb_accepts (rdbuf xmsgstream_init) 24"
    by (simp add: xb_accepts_def xmsgstream_init_def xmsgbuf_make_def BUFINC_def)
  have w: "good ?b" "xmsg_ok ?b" "xb_bytes (rdbuf ?b) = ?bs"
    using xmsg_write_piece [of xmsgstream_init ?bs] acc xmsgstream_init_ok by (simp_all add: xmsgstream_init_def)
  have t: "xmsg_tellp (xmsg_restart xmsgstream_init) = (0, xmsgstream_init)"
    by (simp add: xmsg_restart_def xmsgstream_init_def xmsgbuf_make_def tellp_def fail_of_def xb_seekoff_def xb_seekpos_out_def ios_init_def)
  obtain is1 where r: "sock_readsome 24 (sample_input [Got ?bs]) = (?bs, is1)" and i: "untouched is1 \<and> gcount is1 = 24"
    using readsome_all [of ?bs] by (simp add: sample_input_def untouched_def good_def sockbuf_make_def init_buf_ptrs_def empty_message_def)
  have ne: "?bs \<noteq> []" using length_header_bytes [of "make_head u 24 type"] by (metis list.size(3) zero_neq_numeral)
  have h: "xmsg_head_loop 0 xmsgstream_init (sample_input [Got ?bs]) = (True, 24, ?b, is1)"
    using r ne w by (simp add: xmsg_head_loop.simps [of 0] xmsg_head_loop.simps [of 24] good_def)
  have p: "xb_pptr (rdbuf ?b) = 24" using length_xb_bytes [of "rdbuf ?b"] w by (simp add: xmsg_ok_def)
  have "announced (rdbuf ?b) = 24"
    using announced_eq [of "rdbuf ?b"] w p envelope_frame [of "[]" u type] by (simp add: xmsg_ok_def frame_ok_def)
  then have e: "buf = ?b" "is' = is1" using assms t h by (simp_all add: xmsg_read_def xmsg_body_loop.simps [of 0])
  have "xb_gptr (rdbuf buf) = 0"
    using xmsg_read_spec [OF _ sample_input_inv _ assms] xmsgstream_init_ok by (simp add: xmsgstream_init_def xmsgbuf_make_def)
  then show ?thesis using envelope_fresh [of "[]" ?b u type] w i e by (simp add: xmsg_ok_def)
qed

lemma accept_run:
  fixes s :: seg
  assumes "listening_at s"
  obtains t f g where "snd (snd (seg_handle_events idle [\<lparr>pfd_fd = 5, pfd_events = POLLIN, pfd_revents = POLLIN\<rparr>] s)) = t"
    and "c_north t = [f, g]" and "if_streams f = [(1, 5), (3, 7)]" and "c_heap t 3 = Some (sample_input [])"
    and "c_conns t = []" and "c_mar t = \<lparr>mar_north = [], mar_south = []\<rparr>" and "c_timeouts t = []"
proof -
  obtain f g where s: "c_north s = [f, g]" "if_streams f = [(1, 5)]" "c_conns s = []" "c_mar s = \<lparr>mar_north = [], mar_south = []\<rparr>"
    "c_timeouts s = []" "\<not> c_drain s" "c_env s = start_env\<lparr>v_nalloc := 2, v_socket := []\<rparr>"
    using assms by (auto simp: listening_at_def)
  define t where "t = (trig_set 7 POLLIN (snd (north_make 0 7 True s)))\<lparr>c_env := (c_env (snd (north_make 0 7 True s)))\<lparr>v_accept := []\<rparr>\<rparr>"
  have b: "(POLLIN :: u16) \<noteq> 0" "POLLIN AND (POLLOUT OR POLLERR OR POLLNVAL :: u16) = 0" "POLLIN AND (POLLIN OR POLLHUP :: u16) \<noteq> 0"
    by (simp_all add: POLLIN_def POLLOUT_def POLLERR_def POLLNVAL_def POLLHUP_def)
  obtain m r where a: "seg_handle_north 0 (1, 5) POLLIN s = (m, r, t)"
    using s b by (simp add: seg_handle_north_def accept_handler_def t_def start_env_def)
  have n: "snd (north_make 0 7 True s) = s\<lparr>c_heap := (c_heap s)(3 \<mapsto> sample_input []), c_env := (c_env s)\<lparr>v_nalloc := 3\<rparr>,
      c_north := [f\<lparr>if_streams := [(1, 5), (3, 7)]\<rparr>, g]\<rparr>"
    using s iface_insert_last [OF s(2), of 3 7]
    by (cases "iface_insert (3, 7) f") (simp add: north_make_def new_stream_def start_env_def sample_env_def sample_kernel_def sample_input_def)
  show thesis
  proof (rule that)
    show "snd (snd (seg_handle_events idle [\<lparr>pfd_fd = 5, pfd_events = POLLIN, pfd_revents = POLLIN\<rparr>] s)) = t"
      by (rule seg_single_event [OF _ a]) (use s(1,2,5) n in \<open>simp_all add: t_def\<close>)
    show "c_north t = [f\<lparr>if_streams := [(1, 5), (3, 7)]\<rparr>, g]" using n by (simp add: t_def)
  qed (use n s in \<open>simp_all add: t_def\<close>)
qed

lemma stray_run:
  fixes s :: seg
  assumes "c_north s = [f, g]" and "if_streams f = [(1, 5), (3, 7)]" and "c_heap s 3 = Some (sample_input [Got (header_bytes (make_head u 24 \<lparr>msg_op = DATA, msg_flags = 0\<rparr>))])"
    and "c_conns s = []" and "c_mar s = \<lparr>mar_north = [], mar_south = []\<rparr>" and "c_timeouts s = []"
  obtains t x where "snd (snd (seg_handle_events idle [\<lparr>pfd_fd = 7, pfd_events = POLLIN, pfd_revents = POLLIN\<rparr>] s)) = t"
    and "c_heap t 3 = Some (write_header (abort_header u) x)" and "untouched x" and "c_north t = c_north s"
proof -
  let ?t = "\<lparr>msg_op = DATA, msg_flags = 0\<rparr> :: msgtype"
  let ?x = "sample_input [Got (header_bytes (make_head u 24 ?t))]"
  obtain buf x where r: "xmsg_read xmsgstream_init ?x = (buf, x)" by fastforce
  note f = stray_read [OF r]
  have sl: "buffer_slot (c_live s) xmsgstream_init 3 [] = (0, [make_buffer xmsgstream_init 3])"
    by (simp add: buffer_slot_def lower_bound_def insert_at_def key_hit_def lb_loop.simps)
  have u: "seg_unmarshal (c_live s) 3 ?x (c_mar s) = (0, \<lparr>mar_north = [make_buffer buf 3], mar_south = []\<rparr>, x)"
    using sl r assms(5) by (simp add: seg_unmarshal_def make_buffer_def)
  let ?s = "s\<lparr>c_mar := \<lparr>mar_north = [make_buffer buf 3], mar_south = []\<rparr>, c_heap := (c_heap s)(3 \<mapsto> x)\<rparr>"
  have e: "eof_at ?s 3 = False" using f by (simp add: eof_at_def untouched_def good_def)
  let ?v = "trig_set 7 POLLOUT (upd_stream 3 (write_header (abort_header u)) ?s)"
  have b: "(POLLIN :: u16) \<noteq> 0" "POLLIN AND (POLLOUT OR POLLERR OR POLLNVAL :: u16) = 0" "POLLIN AND (POLLIN OR POLLHUP :: u16) \<noteq> 0"
    by (simp_all add: POLLIN_def POLLOUT_def POLLERR_def POLLNVAL_def POLLHUP_def)
  have rt: "\<exists>buf'. seg_route_north buf 0 (3, 7) r ?s = (0, buf', r, ?v)" for r
    using f seg_route_north_fresh [OF _ e, of buf u ?t "[]" 0 7 r] assms(4)
    by (simp add: Let_def seg_session_index_def seg_unknown_def has_flag_def)
  have "\<exists>n r t. seg_handle_north 0 (3, 7) POLLIN s = (n, r, t) \<and> c_heap t = (c_heap s)(3 \<mapsto> write_header (abort_header u) x)
      \<and> c_timeouts t = [] \<and> c_north t = c_north s"
    using b assms u f rt [of POLLIN]
    by (auto simp: seg_handle_north_def seg_north_pollin_handler_def make_buffer_def upd_stream_def trig_set_def)
  then obtain n r t where h: "seg_handle_north 0 (3, 7) POLLIN s = (n, r, t)" "c_heap t = (c_heap s)(3 \<mapsto> write_header (abort_header u) x)" "c_timeouts t = []"
    "c_north t = c_north s"
    by blast
  have "snd (snd (seg_handle_events idle [\<lparr>pfd_fd = 7, pfd_events = POLLIN, pfd_revents = POLLIN\<rparr>] s)) = t"
    by (rule seg_single_event [OF _ h(1,3)]) (use assms(1,2) in simp)
  with h(2,4) that f show thesis by simp
qed

lemma abort_run:
  obtains s x where "reachable seg_connect_run seg_handle_events s" and "c_heap s 3 = Some x" and "native_handle x = 7"
    and "sk_pending (rdbuf x) = header_bytes (abort_header zero_uuid)" and "good x" and "sk_connected (rdbuf x)"
    and "0 < length (c_north s)" and "(3, 7) \<in> set (if_streams (c_north s ! 0))"
proof -
  let ?R = "reachable seg_connect_run seg_handle_events"
  obtain s0 :: seg where r0: "?R s0" and s0: "listening_at s0" by (rule sample_reachable)
  obtain s1 f g where s1: "snd (snd (seg_handle_events idle [\<lparr>pfd_fd = 5, pfd_events = POLLIN, pfd_revents = POLLIN\<rparr>] s0)) = s1"
    "c_north s1 = [f, g]" "if_streams f = [(1, 5), (3, 7)]" "c_heap s1 3 = Some (sample_input [])"
    "c_conns s1 = []" "c_mar s1 = \<lparr>mar_north = [], mar_south = []\<rparr>" "c_timeouts s1 = []" by (rule accept_run [OF s0])
  have r1: "?R s1" using reachable_idle [OF r0] s1(1) by metis
  let ?x = "sample_input [Got (header_bytes (make_head zero_uuid 24 \<lparr>msg_op = DATA, msg_flags = 0\<rparr>))]"
  let ?s2 = "s1\<lparr>c_heap := (c_heap s1)(3 \<mapsto> ?x), c_env := c_env s1\<rparr>"
  have "?R ?s2"
  proof (rule reachable.world [OF r1])
    show "rel_option another_kernel (c_heap s1 p) (((c_heap s1)(3 \<mapsto> ?x)) p)" for p
      using s1(4) by (auto simp: another_kernel_def sample_input_def sockbuf_make_def ios_init_def intro!: option.rel_refl split: prod.split)
    show "fresh (c_env s1) (c_handles s1)" using seg_reachable_ok [OF r1] well_formed_fds [of s1] by (simp add: fds_ok_def)
  qed simp_all
  moreover obtain s3 x where s3: "snd (snd (seg_handle_events idle [\<lparr>pfd_fd = 7, pfd_events = POLLIN, pfd_revents = POLLIN\<rparr>] ?s2)) = s3"
    "c_heap s3 3 = Some (write_header (abort_header zero_uuid) x)" "untouched x" "c_north s3 = c_north ?s2"
    by (rule stray_run [of ?s2 f g zero_uuid]) (use s1 in simp_all)
  ultimately have "?R s3" using reachable_idle by metis
  moreover have "write_header (abort_header zero_uuid) x = x\<lparr>rdbuf := (rdbuf x)\<lparr>sk_send :=
      [empty_message\<lparr>sm_iov_len := MIN_BUFSIZE, sm_data := header_bytes (abort_header zero_uuid)\<rparr>]\<rparr>\<rparr>"
    using s3(3) unfolding write_header_def
    by (subst write_room [of x "empty_message\<lparr>sm_iov_len := MIN_BUFSIZE\<rparr>"]) (simp_all add: untouched_def empty_message_def MIN_BUFSIZE_def)
  ultimately show thesis using s3(2-4) s1(2,3) that by (simp add: untouched_def sk_pending_def good_def)
qed


theorem reply_output_sent_witness:
  "\<exists>s s' y. reachable seg_connect_run seg_handle_events s
     \<and> s' = snd (snd (seg_handle_events idle [\<lparr>pfd_fd = 7, pfd_events = POLLOUT, pfd_revents = POLLOUT\<rparr>] s))
     \<and> c_heap s' 3 = Some y \<and> sk_pending (rdbuf y) = [] \<and> k_wire (sk_kernel (rdbuf y)) = header_bytes (abort_header zero_uuid)"
proof -
  obtain s x where r: "reachable seg_connect_run seg_handle_events s" and x: "c_heap s 3 = Some x" "native_handle x = 7"
    "sk_pending (rdbuf x) = header_bytes (abort_header zero_uuid)" "good x" "sk_connected (rdbuf x)"
    and n: "0 < length (c_north s)" "(3, 7) \<in> set (if_streams (c_north s ! 0))" by (rule abort_run)
  let ?y = "x\<lparr>rdbuf := (rdbuf x)\<lparr>sk_kernel := \<lparr>k_send = replicate 24 (Sent 1), k_conn = [], k_recv = [], k_wire = []\<rparr>\<rparr>\<rparr>"
  let ?s = "s\<lparr>c_heap := (c_heap s)(3 \<mapsto> ?y), c_env := c_env s\<rparr>"
  have "header_bytes (abort_header zero_uuid) \<noteq> []" using length_header_bytes [of "abort_header zero_uuid"] by (metis list.size(3) zero_neq_numeral)
  moreover have "sk_pending (rdbuf ?y) = sk_pending (rdbuf x)" by (simp add: sk_pending_def)
  ultimately have p: "sk_pending (rdbuf ?y) = header_bytes (abort_header zero_uuid)" "sk_pending (rdbuf ?y) \<noteq> []" using x(3) by metis+
  have rs: "reachable seg_connect_run seg_handle_events ?s"
  proof (rule reachable.world [OF r])
    show "rel_option another_kernel (c_heap s q) (((c_heap s)(3 \<mapsto> ?y)) q)" for q
      using x(1) by (auto simp: another_kernel_def intro!: option.rel_refl)
    show "fresh (c_env s) (c_handles s)" using seg_reachable_ok [OF r] well_formed_fds [of s] by (simp add: fds_ok_def)
  qed simp_all
  obtain m evs s' where e: "seg_handle_events idle [\<lparr>pfd_fd = 7, pfd_events = POLLOUT, pfd_revents = POLLOUT\<rparr>] ?s = (m, evs, s')"
    by (cases "seg_handle_events idle [\<lparr>pfd_fd = 7, pfd_events = POLLOUT, pfd_revents = POLLOUT\<rparr>] ?s") auto
  have "takes_all (rdbuf ?y)" using p by (simp add: takes_all_def)
  then obtain y where "c_heap s' 3 = Some y" "sk_pending (rdbuf y) = []" "k_wire (sk_kernel (rdbuf y)) = header_bytes (abort_header zero_uuid)"
    using reply_output_sent [OF rs, of 0 3 7 ?y m evs s'] p x n e by (auto simp: good_def)
  then show ?thesis using rs e by (intro exI [of _ ?s] exI [of _ s'] exI [of _ y]) simp
qed

end
