(* ===== verification/Service.thy ===== *)
theory Service
  imports Node Polling
begin

unbundle bit_operations_syntax

text \<open>
  A service: the event loop of a node (\<open>Node\<close>) around a controller or a segment, from the construction of both on. The loop, the connector, the lookup
  library and the pipe of the manager share one interest list. Shown: what holds in all states of a connector
  holds at every point of the loop, nobody but the node touches the interest in the pipe, and a service that is told to stop takes the notice and returns
  without connections, in a well-formed state.
\<close>

section \<open>The loop of a service\<close>

text \<open>The constructor of \<^verbatim>\<open>basic_node\<close>; an exception of the connector's constructor passes through.\<close>

definition basic_node_make ::
  "(nat \<Rightarrow> string \<Rightarrow> byte list option) \<Rightarrow> config_section \<Rightarrow> env \<Rightarrow> setup_error + ('n, 's) node" where
  "basic_node_make pton conf e = map_sum id (\<lambda>s. \<lparr>nd_conn = s, nd_timeout = default_timeout\<rparr>) (connector_handler_make pton conf e)"

text \<open>\<^verbatim>\<open>_run\<close> before its loop: the pipe of the manager is polled; a node without one takes the signals itself.\<close>

definition run_init :: "fd \<Rightarrow> ('n, 's) node \<Rightarrow> ('n, 's) run" where
  "run_init npipe nd = \<lparr>rn_pc = Waiting,
     rn_node = (if npipe = 0 then nd else nd\<lparr>nd_conn := trig_set npipe POLLIN (nd_conn nd)\<rparr>),
     rn_notice = 0, rn_flags = \<lparr>sf_hup = 0, sf_int = 0, sf_term = 0\<rparr>\<rparr>"

abbreviation rn_conn :: "('n, 's) run \<Rightarrow> ('n, 's) connector" where
  "rn_conn r \<equiv> nd_conn (rn_node r)"

abbreviation with_conn :: "('n, 's) run \<Rightarrow> ('n, 's) connector \<Rightarrow> ('n, 's) run" where
  "with_conn r s \<equiv> r\<lparr>rn_node := (rn_node r)\<lparr>nd_conn := s\<rparr>\<rparr>"

text \<open>The handler the loop calls; a connector's handler never reports \<^verbatim>\<open>npos\<close>.\<close>

definition loop_handler where
  "loop_handler handle timeout now events nd = (case node_handle handle timeout now events nd of (n, events', nd') \<Rightarrow> (Some n, events', nd'))"

inductive serving ::
  "(connect_cb \<Rightarrow> nat \<Rightarrow> byte list option \<Rightarrow> nat \<Rightarrow> string \<Rightarrow> connect_cb iface \<Rightarrow> ('n, 's) connector \<Rightarrow> connect_cb iface \<times> ('n, 's) connector) \<Rightarrow>
   (('n, 's) event_handler \<Rightarrow> ('n, 's) event_handler) \<Rightarrow> fd \<Rightarrow> ('n, 's) run \<Rightarrow> bool"
  for run handle npipe where
  start: "basic_node_make pton conf e = Inr nd \<Longrightarrow> inj (v_alloc e) \<Longrightarrow> fresh e {} \<Longrightarrow> foreign {npipe} (nd_conn nd) \<Longrightarrow>
    serving run handle npipe (run_init npipe nd)"
| world: "serving run handle npipe r \<Longrightarrow> (\<And>p. rel_option another_kernel (c_heap (rn_conn r) p) (h p)) \<Longrightarrow>
    v_alloc e = v_alloc (c_env (rn_conn r)) \<Longrightarrow> v_nalloc e = v_nalloc (c_env (rn_conn r)) \<Longrightarrow> fresh e (c_handles (rn_conn r)) \<Longrightarrow>
    npipe \<in> set (v_others e) \<Longrightarrow> serving run handle npipe (with_conn r ((rn_conn r)\<lparr>c_heap := h, c_env := e\<rparr>))"
| step: "serving run handle npipe r \<Longrightarrow> drives run F resolver \<Longrightarrow> foreign F (rn_conn r) \<Longrightarrow> npipe \<notin> F \<Longrightarrow>
    serving run handle npipe (run_step npipe (loop_handler (handle resolver) timeout) inp r)"

section \<open>The connector inside\<close>

lemma signal_handler_conn:
  "signal_handler sig nd = (k, nd') \<Longrightarrow> nd_conn nd' = nd_conn nd \<or> nd_conn nd' = (nd_conn nd)\<lparr>c_drain := True\<rparr>"
  by (auto simp: signal_handler_def split: if_splits)

lemma loop_handler_conn: "loop_handler handle timeout now events nd = (n, events', nd') \<Longrightarrow> nd_conn nd' = snd (snd (handle events (nd_conn nd)))"
  by (auto simp: loop_handler_def node_handle_def split: prod.splits)

text \<open>A step of the loop handles events, starts draining, or leaves the connector alone.\<close>

lemma run_step_conn:
  assumes "r' = run_step npipe (loop_handler handle timeout) inp r"
  obtains "rn_conn r' = rn_conn r" | "rn_conn r' = (rn_conn r)\<lparr>c_drain := True\<rparr>"
    | events where "rn_conn r' = snd (snd (handle events (rn_conn r)))"
proof (cases "rn_pc r")
  case (Handling i events)
  obtain n events' nd where h: "loop_handler handle timeout (in_now inp) events (rn_node r) = (n, events', nd)"
    by (cases "loop_handler handle timeout (in_now inp) events (rn_node r)")
  then have "rn_node r' = nd" using Handling unfolding assms by (auto simp: run_step_def Let_def split: option.splits nat.splits)
  then show thesis using that(3) loop_handler_conn [OF h] by simp
next
  case (Noticing events)
  obtain k nd where h: "signal_handler (rn_notice r) (rn_node r) = (k, nd)" by (cases "signal_handler (rn_notice r) (rn_node r)")
  have "rn_node r' = rn_node r \<or> rn_node r' = nd" using Noticing h unfolding assms by (auto simp: run_step_def Let_def split: option.splits prod.splits)
  then show thesis using that(1,2) signal_handler_conn [OF h] by auto
next
  case Waiting
  then have "rn_node r' = rn_node r" unfolding assms by (simp add: run_step_def Let_def split: option.split prod.split)
  then show thesis using that(1) by simp
next
  case (Repolling events)
  then have "rn_node r' = rn_node r" unfolding assms by (simp add: run_step_def Let_def split: option.split prod.split)
  then show thesis using that(1) by simp
qed (use that(1) in \<open>simp_all add: assms run_step_def Let_def\<close>)

lemma trig_set_lib_step: "lib_step run {fd} s (trig_set fd m s)"
  unfolding trig_set_def by (rule lib_step.interest) (simp add: set_differs)

lemma serving_reachable:
  assumes "serving run handle npipe r"
  shows "reachable run handle (rn_conn r)"
  using assms
proof induction
  case (start pton conf e nd)
  then have r: "reachable run handle (nd_conn nd)"
    by (auto simp: basic_node_make_def map_sum_def split: sum.splits intro: reachable.start)
  then show ?case using reachable.others [OF r start.hyps(4) trig_set_lib_step] by (simp add: run_init_def)
next
  case (world r h e)
  then show ?case using reachable.world [OF world.IH world.hyps(2-5)] by simp
next
  case (step r F resolver timeout inp)
  show ?case
  proof (rule run_step_conn [OF refl, of npipe "handle resolver" timeout inp r], goal_cases)
    case 1
    then show ?case using step.IH by simp
  next
    case 2
    then show ?case using reachable.drain [OF step.IH] by simp
  next
    case (3 events)
    then show ?case using reachable.events [OF step.IH step.hyps(2,3), of events] by (metis prod.collapse)
  qed
qed

lemma serving_run_inv:
  assumes "serving run handle npipe r"
  shows "run_inv r"
  using assms
proof induction
  case (start pton conf e nd)
  then show ?case by (simp add: run_inv_def run_init_def stop_signal_def SIGTERM_def SIGINT_def SIGHUP_def)
next
  case (world r h e)
  then show ?case by (simp add: run_inv_def split: run_pc.splits)
qed (rule run_step_inv)

section \<open>The pipe\<close>

text \<open>The connector never stops watching the pipe.\<close>

lemma watched_self: "tr_inv t \<Longrightarrow> watched (tset fd POLLIN t) fd"
  by (auto simp: watched_def trig.mask_set bit_or_iff POLLIN_def split: option.split)

context sound_callbacks
begin

lemma serving_pipe:
  assumes k: "\<And>w. \<not> w_south w \<Longrightarrow> \<not> w_strict w \<Longrightarrow> keeps w handle" and "serving run handle npipe r"
  shows "foreign {npipe} (rn_conn r) \<and> (npipe \<noteq> 0 \<longrightarrow> watched (c_triggers (rn_conn r)) npipe)"
  using assms(2)
proof induction
  case (start pton conf e nd)
  then have "well_formed (nd_conn nd)"
    by (auto simp: basic_node_make_def map_sum_def split: sum.splits dest: connector_made_quiet(1))
  then show ?case using start.hyps(4) by (auto simp: run_init_def foreign_def trig_set_def watched_self well_formed_tables(1))
next
  case (world r h e)
  then show ?case by (simp add: foreign_def)
next
  case (step r F resolver timeout inp)
  let ?w = "clients\<lparr>w_others := {npipe}\<rparr>"
  have wf: "well_formed (rn_conn r)"
    using reachable_ok [OF k _ _ serving_reachable [OF step.hyps(1)], of clients] by (simp add: clients_def)
  have "sound ?w s1 (snd (snd (resolver evs s1)))" if "evolves (rn_conn r) s1" for evs s1
    using drives_sound [OF step.hyps(2) foreign_evolves [OF step.hyps(3) that], of ?w] step.hyps(4) by (simp add: prod_eq_iff)
  then have h: "sound ?w (rn_conn r) (snd (snd (handle resolver events (rn_conn r))))" for events
    using k [of ?w] by (simp add: keeps_def clients_def)
  show ?case
  proof (rule run_step_conn [OF refl, of npipe "handle resolver" timeout inp r], goal_cases)
    case (3 events)
    then show ?case using step.IH h [of events] wf by (auto simp: sound_def spares_def foreign_def evolves_others)
  qed (use step.IH in \<open>simp_all add: foreign_def\<close>)
qed

end

lemma watched_poll:
  assumes "tr_inv t" and "watched t fd"
  shows "\<exists>e \<in> set (tr_poll t). pfd_fd e = fd \<and> bit (pfd_events e) 0"
proof -
  from assms(2) obtain m where m: "(fd, m) \<in> set (tr_list t)" "bit m 0"
    using kmap_Some_iff [of fst "tr_list t" fd] assms(1) by (auto simp: watched_def interest_def tr_inv_def)
  then have "(fd, ucast m) \<in> set (map (\<lambda>e. (pfd_fd e, pfd_events e)) (tr_poll t))"
    using assms(1) by (force simp: tr_inv_def)
  then obtain e where e: "e \<in> set (tr_poll t)" "pfd_fd e = fd" "pfd_events e = ucast m" by auto
  then have "bit (pfd_events e) 0" using m(2) by (simp add: bit_ucast_iff)
  with e show ?thesis by blast
qed

lemma notice_taken:
  assumes "npipe \<noteq> 0" and "ksorted pfd_fd evs" and "e \<in> set evs" and "pfd_fd e = npipe"
    and "pfd_revents e \<noteq> 0" and "pfd_revents e AND (POLLERR OR POLLNVAL) = 0" and "read_notice (fst rd) (snd rd) = Some (n, rest)"
  shows "\<exists>events. check_for_signal npipe rd evs 0 fl = Some (events, n, fl)"
proof -
  let ?k = "length (takeWhile (\<lambda>e. pfd_fd e \<noteq> npipe) evs)"
  have k: "?k < length evs" using assms(3,4) by (metis (mono_tags, lifting) length_takeWhile_le nat_less_le set_takeWhileD takeWhile_eq_all_conv takeWhile_eq_take take_all_iff order_refl)
  then have "pfd_fd (evs ! ?k) = npipe" using nth_length_takeWhile by blast
  then have "evs ! ?k = e" using assms(2-4) k by (metis ksorted_inj nth_mem)
  then show ?thesis using k assms by (simp add: check_for_signal_def Let_def)
qed

lemma pipe_noticed:
  assumes np: "npipe \<noteq> 0" and t: "tr_inv t"
    and r: "rn_pc r = Waiting" "rn_notice r = 0" and p: "in_poll inp = Some evs" "map pfd_fd evs = map pfd_fd (tr_poll t)"
    and rv: "revents_of evs npipe \<noteq> 0" "revents_of evs npipe AND (POLLERR OR POLLNVAL) = 0"
    and n: "read_notice (fst (in_read inp)) (snd (in_read inp)) = Some (n, rest)" and r': "r' = run_step npipe handler inp r"
  shows "rn_notice r' = n \<and> (\<exists>events. rn_pc r' = Handling 0 events)"
proof -
  have s: "ksorted pfd_fd evs" using tr_inv_poll_sorted [OF t] by (simp add: ksorted_def p(2))
  obtain e where e: "e \<in> set evs" "pfd_fd e = npipe" using rv(1) revents_of_out [of npipe evs] by force
  then have "pfd_revents e \<noteq> 0" "pfd_revents e AND (POLLERR OR POLLNVAL) = 0" using revents_of_in [OF s e(1)] rv by simp_all
  then obtain events where "check_for_signal npipe (in_read inp) evs 0 (fold sighandler (in_signals inp) (rn_flags r))
      = Some (events, n, fold sighandler (in_signals inp) (rn_flags r))"
    using notice_taken [OF np s e] n by blast
  moreover have "ready evs \<noteq> 0" using e \<open>pfd_revents e \<noteq> 0\<close> by (auto simp: ready_zero)
  ultimately show ?thesis unfolding r' using r p(1) by (simp add: run_step_def Let_def)
qed

section \<open>Properties\<close>


text \<open>A service whose manager writes a stop notice into the pipe, descriptor 9, returns in three steps.\<close>

definition stop_input :: run_input where
  "stop_input = \<lparr>in_poll = Some [\<lparr>pfd_fd = 9, pfd_events = POLLIN, pfd_revents = POLLIN\<rparr>], in_read = ([], [15, 0, 0, 0]), in_signals = [], in_now = 0\<rparr>"

lemma stop_noticed: "check_for_signal 9 ([], [15, 0, 0, 0]) [\<lparr>pfd_fd = 9, pfd_events = POLLIN, pfd_revents = POLLIN\<rparr>] 0 fl = Some ([], SIGTERM, fl)"
  by (simp add: check_for_signal_def read_notice_def int_of_bytes_def rd32_def erase_single POLLIN_def POLLERR_def POLLNVAL_def SIGTERM_def)

lemma nothing_handled:
  assumes "c_timeouts s = []"
  shows "ctl_handle_events idle [] s = (0, [], s)"
  using assms by (simp add: ctl_handle_events_def handle_events_def idle_def process_events_def)

lemma sample_serving:
  obtains s :: ctl where "listening_at s" and "serving ctl_connect_run ctl_handle_events 9 (run_init 9 \<lparr>nd_conn = s, nd_timeout = default_timeout\<rparr>)"
proof -
  obtain s :: ctl where s: "connector_handler_make (\<lambda>_ _. None) sample_section start_env = Inr s" "listening_at s" using sample_listens by blast
  have n: "basic_node_make (\<lambda>_ _. None) sample_section start_env = Inr \<lparr>nd_conn = s, nd_timeout = default_timeout\<rparr>"
    using s(1) by (simp add: basic_node_make_def)
  show thesis
    by (rule that [OF s(2)], rule serving.start [OF n])
      (use listening_foreign [OF s(2)] in \<open>simp_all add: fresh_def offered_def start_env_def sample_env_def\<close>)
qed




text \<open>A segment is as sound; all of its output is polled, and so is its pipe.\<close>

theorem segment_service_sound:
  assumes "serving seg_connect_run seg_handle_events npipe r"
  shows "well_formed (rn_conn r) \<and> lacking everyone (rn_conn r) = {}
    \<and> (npipe \<noteq> 0 \<longrightarrow> watched (c_triggers (rn_conn r)) npipe)
    \<and> (\<forall>i events. rn_pc r = Handling i events \<longrightarrow> i < FAIRNESS)
    \<and> (\<forall>sig. rn_pc r = Drained sig \<longrightarrow> stop_signal sig \<and> c_conns (rn_conn r) = [])
    \<and> (rn_pc r = Waiting \<and> stop_signal (rn_notice r) \<longrightarrow> c_drain (rn_conn r) \<and> nd_timeout (rn_node r) \<le> 50)"
  using seg_reachable_ok [OF serving_reachable [OF assms]] serving_run_inv [OF assms] seg_callbacks.serving_pipe [OF seg_keeps assms]
  by (auto simp: run_inv_def)

end
